(* ===== verification/Prelude.thy ===== *)
theory Prelude
  imports Main "HOL-Library.Word"
begin

text \<open>
  Shared vocabulary of the development: the C integer types as words, the errors the agent
  raises, the computations over an input stream that may raise one, and the generic facts the
  component theories use.

  Conventions. A C \<open>int\<close> that carries a stream item is an HOL \<open>int\<close>; bytes are
  \<open>8 word\<close>; \<open>unsigned long\<close>, \<open>size_t\<close> and \<open>uint64_t\<close> are 64-bit words where
  their wrap-around matters. \<open>exception(err)\<close> of exceptions.c is the value
  \<open>Exception err\<close>, a failed \<open>assert\<close> is \<open>Assertion\<close>, and code whose behaviour the C
  standard leaves undefined (signed overflow, a shift by the width of the type or more, a write
  past the end of a local array) is \<open>Undefined\<close>; a read behind the end of the bytes a caller
  passed is \<open>Out_of_bounds\<close>, and a call that does not return is \<open>Diverges\<close>.
\<close>

unbundle bit_operations_syntax

named_theorems reader_simps \<open>unfolding of one step of a computation over an input stream\<close>
named_theorems reader_shrink \<open>a reader never returns more input than it was given\<close>
named_theorems reader_fuel \<open>a reader that does not run out of fuel\<close>
named_theorems range_simps \<open>ranges of stream items and C integers\<close>

section \<open>Types\<close>

type_synonym byte = "8 word"
type_synonym u16 = "16 word"
type_synonym u32 = "32 word"
type_synonym u64 = "64 word"

datatype error =
    ERR_OTHER
  | ERR_JSON_SYNTAX
  | ERR_PROTOCOL
  | ERR_BUFFER_OVERFLOW
  | ERR_BASE64
  | ERR_EOF
  | ERR_INV_DWARF
  | ERR_INV_ADDRESS
  | ERR_INV_CONT_OBJ
  | ERR_CHANNEL_CLOSED
  | ERR_COMMAND_CANCELLED
  | ERR_INV_CONTEXT
  | ERR_UNSUPPORTED
  | ERR_INV_COMMAND
  | ERRNO int

datatype exn =
    Exception error
  | Str_exception error string
  | Assertion
  | Undefined
  | Out_of_bounds
  | Diverges
  | Out_of_fuel

section \<open>Characters\<close>

text \<open>A character constant of the source is the \<open>int\<close> it denotes.\<close>

abbreviation ord :: "char \<Rightarrow> int" where
  "ord c \<equiv> of_char c"

definition str :: "string \<Rightarrow> int list" where
  "str cs = map of_char cs"

lemma str_simps [simp]:
  "str [] = []"
  "str (c # cs) = of_char c # str cs"
  "str (cs @ ds) = str cs @ str ds"
  by (simp_all add: str_def)

lemma length_str [simp]: "length (str cs) = length cs"
  by (simp add: str_def)

lemma of_char_int_range [simp]: "0 \<le> (of_char c :: int)" "(of_char c :: int) < 256"
  by (metis of_char_mod_256 pos_mod_sign zero_less_numeral,
      metis of_char_mod_256 pos_mod_bound zero_less_numeral)

lemma str_byte_range [range_simps]: "x \<in> set (str cs) \<Longrightarrow> 0 \<le> x \<and> x < 256"
  by (auto simp: str_def)

text \<open>The bytes of a string, and bytes as the stream items that carry them.\<close>

definition bytes_of :: "string \<Rightarrow> byte list" where
  "bytes_of cs = map of_char cs"

definition items_of :: "byte list \<Rightarrow> int list" where
  "items_of bs = map uint bs"

lemma items_of_simps [simp]:
  "items_of [] = []"
  "items_of (b # bs) = uint b # items_of bs"
  "items_of (xs @ ys) = items_of xs @ items_of ys"
  by (simp_all add: items_of_def)

lemma length_items_of [simp]: "length (items_of bs) = length bs"
  by (simp add: items_of_def)

lemma uint_byte_range [range_simps, simp]: "0 \<le> uint (b :: byte)" "uint (b :: byte) < 256"
  using uint_range_size [of b] by (simp_all add: word_size)

lemma uint_word_of_int_byte [simp]:
  "0 \<le> n \<Longrightarrow> n < 256 \<Longrightarrow> uint (word_of_int n :: byte) = n"
  by (simp add: uint_word_of_int)

lemma word_of_int_uint_byte [simp]: "word_of_int (uint (b :: byte)) = b"
  by simp

section \<open>Bits of C ints\<close>

lemma or_push_bit_add:
  fixes a b :: int
  assumes "0 \<le> b" "b < 2 ^ n"
  shows "push_bit n a OR b = a * 2 ^ n + b"
proof -
  have b: "take_bit n b = b"
    using assms by (simp add: take_bit_int_eq_self)
  have "push_bit n a AND take_bit n b = 0"
    by (rule bit_eqI) (auto simp: bit_simps)
  then have "push_bit n a + b = push_bit n a OR b"
    using b disjunctive_add_eq_or by metis
  then show ?thesis by (simp add: push_bit_eq_mult)
qed

lemma and_63_mod: "(a :: int) AND 63 = a mod 64"
  using take_bit_eq_mask [of 6 a] by (simp add: take_bit_eq_mod mask_eq_exp_minus_1)

section \<open>Computations that may raise\<close>

text \<open>
  A computation over a state returns a value and the new state, or raises. A reader is one over an
  input stream: it consumes a prefix of the items an input stream has left and returns a value and the
  items that are still to be read, or raises. What is left of the stream after an exception is
  not part of the result: the channel code closes the channel then (handle_channel_msg in
  channel_tcp.c).
\<close>

type_synonym ('s, 'a) comp = "'s \<Rightarrow> exn + 'a \<times> 's"
type_synonym istream = "int list"
type_synonym 'a reader = "(istream, 'a) comp"

definition retR :: "'a \<Rightarrow> ('s, 'a) comp" where
  "retR x = (\<lambda>s. Inr (x, s))"

definition raiseR :: "exn \<Rightarrow> ('s, 'a) comp" where
  "raiseR e = (\<lambda>s. Inl e)"

definition bindR :: "('s, 'a) comp \<Rightarrow> ('a \<Rightarrow> ('s, 'b) comp) \<Rightarrow> ('s, 'b) comp" where
  "bindR m f = (\<lambda>s. case m s of Inl e \<Rightarrow> Inl e | Inr (x, s') \<Rightarrow> f x s')"

definition seqR :: "('s, 'a) comp \<Rightarrow> ('s, 'b) comp \<Rightarrow> ('s, 'b) comp" where
  "seqR m n = bindR m (\<lambda>_. n)"

lemma retR_apply [reader_simps]: "retR x s = Inr (x, s)"
  by (simp add: retR_def)

lemma raiseR_apply [reader_simps]: "raiseR e s = Inl e"
  by (simp add: raiseR_def)

lemma bindR_apply [reader_simps]:
  "bindR m f s = (case m s of Inl e \<Rightarrow> Inl e | Inr (x, s') \<Rightarrow> f x s')"
  by (simp add: bindR_def)

lemma seqR_apply [reader_simps]:
  "seqR m n s = (case m s of Inl e \<Rightarrow> Inl e | Inr (x, s') \<Rightarrow> n s')"
  by (simp add: seqR_def bindR_def)

lemma bindR_cong [fundef_cong]:
  assumes "m1 s2 = m2 s2"
    and "\<And>x s. m2 s2 = Inr (x, s) \<Longrightarrow> f1 x s = f2 x s"
    and "s1 = s2"
  shows "bindR m1 f1 s1 = bindR m2 f2 s2"
  using assms by (auto simp: bindR_def split: sum.splits)

lemma bindR_assoc: "bindR (bindR m f) g = bindR m (\<lambda>x. bindR (f x) g)"
  by (auto simp: bindR_def fun_eq_iff split: sum.splits)

lemma bindR_InrE:
  assumes "bindR m f s = Inr (y, s'')"
  obtains x s' where "m s = Inr (x, s')" and "f x s' = Inr (y, s'')"
  using assms by (auto simp: bindR_def split: sum.splits)

lemma seqR_InrE:
  assumes "seqR m n s = Inr (y, s'')"
  obtains x s' where "m s = Inr (x, s')" and "n s' = Inr (y, s'')"
  using assms by (auto simp: seqR_def elim!: bindR_InrE)

text \<open>
  Readers that never give input back: the length of what is left never grows. Loops over a
  stream stop because of this.
\<close>

definition shrinks :: "'a reader \<Rightarrow> bool" where
  "shrinks m \<longleftrightarrow> (\<forall>s x s'. m s = Inr (x, s') \<longrightarrow> length s' \<le> length s)"

lemma shrinksI: "(\<And>s x s'. m s = Inr (x, s') \<Longrightarrow> length s' \<le> length s) \<Longrightarrow> shrinks m"
  by (auto simp: shrinks_def)

lemma shrinksD: "shrinks m \<Longrightarrow> m s = Inr (x, s') \<Longrightarrow> length s' \<le> length s"
  by (auto simp: shrinks_def)

lemma shrinks_retR [reader_shrink]: "shrinks (retR x)"
  by (auto simp: shrinks_def retR_def)

lemma shrinks_raiseR [reader_shrink]: "shrinks (raiseR e)"
  by (auto simp: shrinks_def raiseR_def)

lemma shrinks_bindR [reader_shrink]:
  "shrinks m \<Longrightarrow> (\<And>x. shrinks (f x)) \<Longrightarrow> shrinks (bindR m f)"
  by (rule shrinksI) (fastforce elim!: bindR_InrE dest: shrinksD)

lemma shrinks_seqR [reader_shrink]: "shrinks m \<Longrightarrow> shrinks n \<Longrightarrow> shrinks (seqR m n)"
  by (simp add: seqR_def shrinks_bindR)

lemma shrinks_if [reader_shrink]:
  "shrinks m \<Longrightarrow> shrinks n \<Longrightarrow> shrinks (if b then m else n)"
  by simp

lemma shrinks_case_prod [reader_shrink]:
  "(\<And>x y. shrinks (f x y)) \<Longrightarrow> shrinks (case p of (x, y) \<Rightarrow> f x y)"
  by (cases p) simp

lemma shrinks_case_option [reader_shrink]:
  "shrinks m \<Longrightarrow> (\<And>x. shrinks (f x)) \<Longrightarrow> shrinks (case v of None \<Rightarrow> m | Some x \<Rightarrow> f x)"
  by (cases v) simp_all

text \<open>Readers that return or raise an error of the program, and never \<open>Out_of_fuel\<close>.\<close>

definition fuelfree :: "('s, 'a) comp \<Rightarrow> bool" where
  "fuelfree m \<longleftrightarrow> (\<forall>s. m s \<noteq> Inl Out_of_fuel)"

lemma fuelfreeI: "(\<And>s. m s \<noteq> Inl Out_of_fuel) \<Longrightarrow> fuelfree m"
  by (simp add: fuelfree_def)

lemma fuelfreeD: "fuelfree m \<Longrightarrow> m s \<noteq> Inl Out_of_fuel"
  by (simp add: fuelfree_def)

lemma fuel_bindR:
  assumes "m s \<noteq> Inl Out_of_fuel" "\<And>x s'. m s = Inr (x, s') \<Longrightarrow> f x s' \<noteq> Inl Out_of_fuel"
  shows "bindR m f s \<noteq> Inl Out_of_fuel"
  using assms by (auto simp: bindR_def split: sum.splits)

lemma fuel_seqR:
  assumes "m s \<noteq> Inl Out_of_fuel" "\<And>x s'. m s = Inr (x, s') \<Longrightarrow> n s' \<noteq> Inl Out_of_fuel"
  shows "seqR m n s \<noteq> Inl Out_of_fuel"
  unfolding seqR_def using assms by (rule fuel_bindR)

lemma fuelfree_retR [reader_fuel]: "fuelfree (retR x)"
  by (simp add: fuelfree_def retR_def)

lemma fuelfree_raiseR [reader_fuel]: "e \<noteq> Out_of_fuel \<Longrightarrow> fuelfree (raiseR e)"
  by (simp add: fuelfree_def raiseR_def)

lemma fuelfree_bindR [reader_fuel]:
  "fuelfree m \<Longrightarrow> (\<And>x. fuelfree (f x)) \<Longrightarrow> fuelfree (bindR m f)"
  by (intro fuelfreeI fuel_bindR) (simp_all add: fuelfreeD)

lemma fuelfree_seqR [reader_fuel]: "fuelfree m \<Longrightarrow> fuelfree n \<Longrightarrow> fuelfree (seqR m n)"
  by (simp add: seqR_def fuelfree_bindR)

lemma fuelfree_if [reader_fuel]: "fuelfree m \<Longrightarrow> fuelfree n \<Longrightarrow> fuelfree (if b then m else n)"
  by simp

lemma fuelfree_case_prod [reader_fuel]:
  "(\<And>x y. fuelfree (f x y)) \<Longrightarrow> fuelfree (case p of (x, y) \<Rightarrow> f x y)"
  by (cases p) simp

lemma fuelfree_case_option [reader_fuel]:
  "fuelfree m \<Longrightarrow> (\<And>x. fuelfree (f x)) \<Longrightarrow> fuelfree (case v of None \<Rightarrow> m | Some x \<Rightarrow> f x)"
  by (cases v) simp_all

end
