(* ===== verification/Streams.thy ===== *)
theory Streams
  imports Prelude
begin

text \<open>
  framework/streams.c and streams.h: the abstract byte streams of the agent.

  An input stream is what its clients can observe of it: the items still to be read (bytes as
  ints in 0..255 and \<open>MARKER_EOM\<close>), after which every read answers \<open>MARKER_EOS\<close>. The
  locale \<open>input_stream\<close> is the contract of a provider of such a stream; the byte array stream
  and the forwarding stream of streams.c are interpretations.

  An output stream is a struct with the window \<open>[cur, end)\<close> for direct stores and the
  functions of its provider; \<open>out_class\<close> is that struct over the provider's state \<open>'o\<close>.
  The writers are defined over any class; the locale \<open>output_stream\<close> is the provider's
  contract, and inside it every writer is shown to append exactly its items.
\<close>

section \<open>Constants\<close>

abbreviation (input) MARKER_EOM :: int where "MARKER_EOM \<equiv> -1"
abbreviation (input) MARKER_EOS :: int where "MARKER_EOS \<equiv> -2"
abbreviation (input) MARKER_EOA :: int where "MARKER_EOA \<equiv> 0"
abbreviation (input) ESC :: int where "ESC \<equiv> 3"

section \<open>Input streams\<close>

definition read_stream :: "int reader" where
  "read_stream s = (case s of [] \<Rightarrow> Inr (MARKER_EOS, []) | c # cs \<Rightarrow> Inr (c, cs))"

definition peek_stream :: "int reader" where
  "peek_stream s = (case s of [] \<Rightarrow> Inr (MARKER_EOS, []) | c # cs \<Rightarrow> Inr (c, c # cs))"

lemma read_stream_simps [simp]:
  "read_stream [] = Inr (MARKER_EOS, [])"
  "read_stream (c # cs) = Inr (c, cs)"
  by (simp_all add: read_stream_def)

lemma peek_stream_simps [simp]:
  "peek_stream [] = Inr (MARKER_EOS, [])"
  "peek_stream (c # cs) = Inr (c, c # cs)"
  by (simp_all add: peek_stream_def)

lemma read_stream_not_Inl [simp]: "read_stream s \<noteq> Inl e" "peek_stream s \<noteq> Inl e"
  by (cases s; simp)+

lemma shrinks_read_stream [reader_shrink]: "shrinks read_stream"
  by (rule shrinksI) (auto simp: read_stream_def split: list.splits)

lemma shrinks_peek_stream [reader_shrink]: "shrinks peek_stream"
  by (rule shrinksI) (auto simp: peek_stream_def split: list.splits)

text \<open>
  The contract of a provider: \<open>items\<close> are the items its state still has to deliver, \<open>read\<close>
  takes the first one, \<open>peek\<close> returns it and delivers nothing (it may change the provider's
  state, as \<open>ibuf_get_more\<close> does).
\<close>

fun read_n :: "('s \<Rightarrow> int \<times> 's) \<Rightarrow> nat \<Rightarrow> 's \<Rightarrow> int list \<times> 's" where
  "read_n rd 0 s = ([], s)"
| "read_n rd (Suc n) s = (let (c, s1) = rd s; (cs, s2) = read_n rd n s1 in (c # cs, s2))"

locale input_stream =
  fixes read :: "'s \<Rightarrow> int \<times> 's"
    and peek :: "'s \<Rightarrow> int \<times> 's"
    and items :: "'s \<Rightarrow> int list"
    and inv :: "'s \<Rightarrow> bool"
  assumes read_first: "inv s \<Longrightarrow> fst (read s) = (case items s of [] \<Rightarrow> MARKER_EOS | c # cs \<Rightarrow> c)"
    and read_rest: "inv s \<Longrightarrow> items (snd (read s)) = tl (items s)"
    and read_inv: "inv s \<Longrightarrow> inv (snd (read s))"
    and peek_first: "inv s \<Longrightarrow> fst (peek s) = (case items s of [] \<Rightarrow> MARKER_EOS | c # cs \<Rightarrow> c)"
    and peek_rest: "inv s \<Longrightarrow> items (snd (peek s)) = items s"
    and peek_inv: "inv s \<Longrightarrow> inv (snd (peek s))"
begin

text \<open>Every client step over the provider is the step of the item-level stream.\<close>

lemma read_refines: "inv s \<Longrightarrow> read_stream (items s) = Inr (fst (read s), items (snd (read s)))"
  by (cases "items s") (simp_all add: read_first read_rest)

lemma peek_refines: "inv s \<Longrightarrow> peek_stream (items s) = Inr (fst (peek s), items (snd (peek s)))"
  by (cases "items s") (simp_all add: peek_first peek_rest)

text \<open>Reading \<open>n\<close> times delivers the first \<open>n\<close> items, and the end marker from then on.\<close>

lemma read_n_items:
  "inv s \<Longrightarrow> fst (read_n read n s) =
      take n (items s) @ replicate (n - length (items s)) MARKER_EOS \<and>
    items (snd (read_n read n s)) = drop n (items s) \<and> inv (snd (read_n read n s))"
proof (induction n arbitrary: s)
  case 0
  then show ?case by simp
next
  case (Suc n)
  obtain c s1 where r: "read s = (c, s1)" by (cases "read s")
  have s1: "inv s1" "items s1 = tl (items s)"
    and c: "c = (case items s of [] \<Rightarrow> MARKER_EOS | c # cs \<Rightarrow> c)"
    using Suc.prems r read_inv read_rest read_first by fastforce+
  have step: "read_n read (Suc n) s = (c # fst (read_n read n s1), snd (read_n read n s1))"
    using r by (simp add: case_prod_beta)
  show ?case
    using Suc.IH [OF s1(1)] c s1 unfolding step by (cases "items s") simp_all
qed

end

subsection \<open>The stream over a byte array\<close>

record ByteArrayInputStream =
  bai_data :: "byte list"
  bai_cur :: nat
  bai_end :: nat

definition read_byte_array_input_stream :: "ByteArrayInputStream \<Rightarrow> int \<times> ByteArrayInputStream" where
  "read_byte_array_input_stream b =
     (if bai_cur b \<ge> bai_end b then (MARKER_EOS, b)
      else (uint (bai_data b ! bai_cur b), b\<lparr>bai_cur := Suc (bai_cur b)\<rparr>))"

definition peek_byte_array_input_stream :: "ByteArrayInputStream \<Rightarrow> int \<times> ByteArrayInputStream" where
  "peek_byte_array_input_stream b =
     (if bai_cur b \<ge> bai_end b then (MARKER_EOS, b) else (uint (bai_data b ! bai_cur b), b))"

definition create_byte_array_input_stream :: "byte list \<Rightarrow> nat \<Rightarrow> ByteArrayInputStream" where
  "create_byte_array_input_stream data sz = \<lparr>bai_data = data, bai_cur = 0, bai_end = sz\<rparr>"

text \<open>\<open>read_stream\<close> and \<open>peek_stream\<close> as the client calls them: the window first, then the
  provider.\<close>

definition read_stream_bai :: "ByteArrayInputStream \<Rightarrow> int \<times> ByteArrayInputStream" where
  "read_stream_bai b =
     (if bai_cur b < bai_end b
      then (uint (bai_data b ! bai_cur b), b\<lparr>bai_cur := Suc (bai_cur b)\<rparr>)
      else read_byte_array_input_stream b)"

definition peek_stream_bai :: "ByteArrayInputStream \<Rightarrow> int \<times> ByteArrayInputStream" where
  "peek_stream_bai b =
     (if bai_cur b < bai_end b then (uint (bai_data b ! bai_cur b), b)
      else peek_byte_array_input_stream b)"

definition bai_items :: "ByteArrayInputStream \<Rightarrow> int list" where
  "bai_items b = items_of (drop (bai_cur b) (take (bai_end b) (bai_data b)))"

definition bai_inv :: "ByteArrayInputStream \<Rightarrow> bool" where
  "bai_inv b \<longleftrightarrow> bai_cur b \<le> bai_end b \<and> bai_end b \<le> length (bai_data b)"

lemma bai_items_step:
  assumes "bai_inv b" "bai_cur b < bai_end b"
  shows "bai_items b = uint (bai_data b ! bai_cur b) # bai_items (b\<lparr>bai_cur := Suc (bai_cur b)\<rparr>)"
proof -
  have "drop (bai_cur b) (take (bai_end b) (bai_data b)) =
      take (bai_end b) (bai_data b) ! bai_cur b # drop (Suc (bai_cur b)) (take (bai_end b) (bai_data b))"
    using assms by (intro Cons_nth_drop_Suc [symmetric]) (auto simp: bai_inv_def)
  then show ?thesis using assms by (simp add: bai_items_def)
qed

lemma bai_items_end: "bai_inv b \<Longrightarrow> bai_end b \<le> bai_cur b \<Longrightarrow> bai_items b = []"
  by (simp add: bai_items_def bai_inv_def)

lemmas bai_defs = read_stream_bai_def peek_stream_bai_def
  read_byte_array_input_stream_def peek_byte_array_input_stream_def

lemma read_stream_bai_cases:
  assumes "bai_inv b"
  obtains (window) "bai_cur b < bai_end b"
      "read_stream_bai b = (uint (bai_data b ! bai_cur b), b\<lparr>bai_cur := Suc (bai_cur b)\<rparr>)"
      "peek_stream_bai b = (uint (bai_data b ! bai_cur b), b)"
  | (eos) "bai_items b = []" "read_stream_bai b = (MARKER_EOS, b)" "peek_stream_bai b = (MARKER_EOS, b)"
  using assms by (cases "bai_cur b < bai_end b") (auto simp: bai_defs bai_items_end)

interpretation bai: input_stream read_stream_bai peek_stream_bai bai_items bai_inv
proof unfold_locales
  fix b
  assume inv: "bai_inv b"
  then show "fst (read_stream_bai b) = (case bai_items b of [] \<Rightarrow> MARKER_EOS | c # cs \<Rightarrow> c)"
    by (cases rule: read_stream_bai_cases) (simp_all add: bai_items_step [OF inv])
  from inv show "bai_items (snd (read_stream_bai b)) = tl (bai_items b)"
    by (cases rule: read_stream_bai_cases) (simp_all add: bai_items_step [OF inv])
  show "bai_inv (snd (read_stream_bai b))"
    using inv by (cases rule: read_stream_bai_cases [OF inv]) (simp_all add: bai_inv_def)
  from inv show "fst (peek_stream_bai b) = (case bai_items b of [] \<Rightarrow> MARKER_EOS | c # cs \<Rightarrow> c)"
    by (cases rule: read_stream_bai_cases) (simp_all add: bai_items_step [OF inv])
  from inv show "bai_items (snd (peek_stream_bai b)) = bai_items b"
    by (cases rule: read_stream_bai_cases) simp_all
  show "bai_inv (snd (peek_stream_bai b))"
    using inv by (cases rule: read_stream_bai_cases [OF inv]) simp_all
qed

section \<open>Output streams\<close>

text \<open>
  The struct \<open>OutputStream\<close> over the state \<open>'o\<close> of its provider: whether \<open>cur\<close> is
  NULL, the room \<open>end - cur\<close> of the window, a direct store \<open>*cur++ = b\<close>, and the
  functions \<open>write\<close> and \<open>write_block\<close>. (\<open>splice_block\<close> moves data between file
  descriptors and is not modelled.)
\<close>

record 'o out_class =
  supports_zero_copy :: "'o \<Rightarrow> bool"
  cur_null :: "'o \<Rightarrow> bool"
  out_room :: "'o \<Rightarrow> nat"
  out_store :: "byte \<Rightarrow> 'o \<Rightarrow> 'o"
  out_write :: "int \<Rightarrow> 'o \<Rightarrow> 'o"
  out_write_block :: "byte list \<Rightarrow> 'o \<Rightarrow> 'o"

definition write_stream :: "'o out_class \<Rightarrow> int \<Rightarrow> 'o \<Rightarrow> 'o" where
  "write_stream cl b out =
     (if b > ESC \<and> out_room cl out > 0 then out_store cl (word_of_int b) out
      else out_write cl b out)"

definition write_block_stream :: "'o out_class \<Rightarrow> byte list \<Rightarrow> 'o \<Rightarrow> 'o" where
  "write_block_stream cl bs out = out_write_block cl bs out"

text \<open>A C string is the list of its bytes before the terminating zero.\<close>

fun write_string_loop :: "'o out_class \<Rightarrow> byte list \<Rightarrow> 'o \<Rightarrow> 'o" where
  "write_string_loop cl [] out = out"
| "write_string_loop cl (ch # s) out =
     (if uint ch \<noteq> ESC \<and> out_room cl out > 0 then write_string_loop cl s (out_store cl ch out)
      else write_string_loop cl s (out_write cl (uint ch) out))"

definition write_string :: "'o out_class \<Rightarrow> byte list \<Rightarrow> 'o \<Rightarrow> 'o" where
  "write_string cl s out =
     (if cur_null cl out then out_write_block cl s out else write_string_loop cl s out)"

fun write_stringz_loop :: "'o out_class \<Rightarrow> byte list \<Rightarrow> 'o \<Rightarrow> 'o" where
  "write_stringz_loop cl [] out =
     (if out_room cl out > 0 then out_store cl 0 out else out_write cl 0 out)"
| "write_stringz_loop cl (ch # s) out =
     (if uint ch \<noteq> ESC \<and> out_room cl out > 0 then write_stringz_loop cl s (out_store cl ch out)
      else write_stringz_loop cl s (out_write cl (uint ch) out))"

definition write_stringz :: "'o out_class \<Rightarrow> byte list \<Rightarrow> 'o \<Rightarrow> 'o" where
  "write_stringz cl s out =
     (if cur_null cl out then out_write_block cl (s @ [0]) out else write_stringz_loop cl s out)"

text \<open>A block of statements that write to one stream, in order.\<close>

primrec seqW :: "('o \<Rightarrow> 'o) list \<Rightarrow> 'o \<Rightarrow> 'o" where
  "seqW [] out = out"
| "seqW (w # ws) out = seqW ws (w out)"

text \<open>
  The contract of a provider: \<open>items\<close> are the items written so far and \<open>ok\<close> the items it
  can carry, all bytes among them. A direct store of anything but \<open>ESC\<close>, a \<open>write\<close> and a
  \<open>write_block\<close> append their items.
\<close>

locale output_stream =
  fixes cl :: "'o out_class"
    and items :: "'o \<Rightarrow> int list"
    and inv :: "'o \<Rightarrow> bool"
    and ok :: "int \<Rightarrow> bool"
  assumes byte_ok: "0 \<le> c \<Longrightarrow> c < 256 \<Longrightarrow> ok c"
    and ok_less: "ok c \<Longrightarrow> c < 256"
    and store_items: "inv out \<Longrightarrow> out_room cl out > 0 \<Longrightarrow> uint b \<noteq> ESC \<Longrightarrow>
      items (out_store cl b out) = items out @ [uint b]"
    and store_inv: "inv out \<Longrightarrow> out_room cl out > 0 \<Longrightarrow> uint b \<noteq> ESC \<Longrightarrow> inv (out_store cl b out)"
    and store_room: "inv out \<Longrightarrow> out_room cl out > 0 \<Longrightarrow> uint b \<noteq> ESC \<Longrightarrow>
      out_room cl (out_store cl b out) = out_room cl out - 1"
    and write_items: "inv out \<Longrightarrow> ok c \<Longrightarrow> items (out_write cl c out) = items out @ [c]"
    and write_inv: "inv out \<Longrightarrow> ok c \<Longrightarrow> inv (out_write cl c out)"
    and block_items: "inv out \<Longrightarrow> items (out_write_block cl bs out) = items out @ items_of bs"
    and block_inv: "inv out \<Longrightarrow> inv (out_write_block cl bs out)"
begin

definition writes :: "('o \<Rightarrow> 'o) \<Rightarrow> int list \<Rightarrow> bool" where
  "writes w xs \<longleftrightarrow> (\<forall>out. inv out \<longrightarrow> inv (w out) \<and> items (w out) = items out @ xs)"

lemma writesI: "(\<And>out. inv out \<Longrightarrow> inv (w out) \<and> items (w out) = items out @ xs) \<Longrightarrow> writes w xs"
  by (simp add: writes_def)

lemma writesD: "writes w xs \<Longrightarrow> inv out \<Longrightarrow> inv (w out) \<and> items (w out) = items out @ xs"
  by (simp add: writes_def)

lemma writes_Nil: "writes (seqW []) []"
  by (simp add: writes_def)

lemma writes_Cons: "writes w xs \<Longrightarrow> writes (seqW ws) ys \<Longrightarrow> writes (seqW (w # ws)) (xs @ ys)"
  by (simp add: writes_def)

lemma writes_then: "writes v xs \<Longrightarrow> writes w ys \<Longrightarrow> writes (\<lambda>out. w (v out)) (xs @ ys)"
  by (simp add: writes_def)

lemma writes_write_stream: "ok c \<Longrightarrow> writes (write_stream cl c) [c]"
  by (rule writesI)
    (auto simp: write_stream_def ok_less store_items store_inv write_items write_inv)

lemma writes_byte: "writes (write_stream cl (uint (b :: byte))) [uint b]"
  by (rule writes_write_stream) (simp add: byte_ok)

lemma writes_char: "writes (write_stream cl (of_char c)) [of_char c]"
  by (rule writes_write_stream) (simp add: byte_ok)

lemma writes_block: "writes (write_block_stream cl bs) (items_of bs)"
  by (rule writesI) (simp add: write_block_stream_def block_items block_inv)

lemma writes_out_block: "writes (out_write_block cl bs) (items_of bs)"
  by (rule writesI) (simp add: block_items block_inv)

lemma writes_string_loop: "writes (write_string_loop cl s) (items_of s)"
proof (rule writesI)
  fix out
  assume "inv out"
  then show "inv (write_string_loop cl s out) \<and>
      items (write_string_loop cl s out) = items out @ items_of s"
    by (induction s arbitrary: out)
      (auto simp: store_items store_inv write_items write_inv byte_ok)
qed

lemma writes_string: "writes (write_string cl s) (items_of s)"
  using writes_string_loop [of s] by (simp add: writes_def write_string_def block_items block_inv)

lemma writes_stringz_loop: "writes (write_stringz_loop cl s) (items_of s @ [0])"
proof (rule writesI)
  fix out
  assume "inv out"
  then show "inv (write_stringz_loop cl s out) \<and>
      items (write_stringz_loop cl s out) = items out @ items_of s @ [0]"
    by (induction s arbitrary: out)
      (auto simp: store_items [where b = 0, simplified] store_inv [where b = 0, simplified]
         store_items store_inv write_items write_inv byte_ok)
qed

lemma writes_stringz: "writes (write_stringz cl s) (items_of s @ [0])"
  using writes_stringz_loop [of s] by (simp add: writes_def write_stringz_def block_items block_inv)

end

subsection \<open>The item-level output stream\<close>

text \<open>The stream whose state is the list of the items written to it: what a client sees.\<close>

record item_stream =
  is_zero_copy :: bool
  is_items :: "int list"

definition item_class :: "item_stream out_class" where
  "item_class = \<lparr>
     supports_zero_copy = is_zero_copy,
     cur_null = (\<lambda>_. False),
     out_room = (\<lambda>_. 0),
     out_store = (\<lambda>b out. out),
     out_write = (\<lambda>c out. out\<lparr>is_items := is_items out @ [c]\<rparr>),
     out_write_block = (\<lambda>bs out. out\<lparr>is_items := is_items out @ items_of bs\<rparr>)\<rparr>"

interpretation item: output_stream item_class is_items "\<lambda>_. True" "\<lambda>c. c < 256"
  by unfold_locales (simp_all add: item_class_def)

subsection \<open>The stream into a byte array\<close>

text \<open>
  The first 256 bytes go to the array \<open>buf\<close> of the struct, then the data moves to the heap
  block \<open>mem\<close> of \<open>max\<close> bytes, which doubles when it is full. The bytes of a fresh block
  beyond the copied data are unspecified; the model puts zeros there.
\<close>

record ByteArrayOutputStream =
  bao_buf :: "byte list"
  bao_mem :: "byte list option"
  bao_pos :: nat
  bao_max :: nat

definition write_byte_array_output_stream :: "int \<Rightarrow> ByteArrayOutputStream \<Rightarrow> ByteArrayOutputStream" where
  "write_byte_array_output_stream c b =
     (if bao_pos b < 256
      then b\<lparr>bao_buf := (bao_buf b)[bao_pos b := word_of_int c], bao_pos := Suc (bao_pos b)\<rparr>
      else
        let b1 = (case bao_mem b of
                    None \<Rightarrow> b\<lparr>bao_max := bao_pos b * 2,
                       bao_mem := Some (take (bao_pos b) (bao_buf b) @ replicate (bao_pos b) 0)\<rparr>
                  | Some m \<Rightarrow>
                     (if bao_pos b \<ge> bao_max b
                      then b\<lparr>bao_max := bao_max b * 2, bao_mem := Some (m @ replicate (bao_max b) 0)\<rparr>
                      else b))
        in b1\<lparr>bao_mem := map_option (\<lambda>m. m[bao_pos b := word_of_int c]) (bao_mem b1),
              bao_pos := Suc (bao_pos b)\<rparr>)"

primrec write_block_byte_array_output_stream ::
    "byte list \<Rightarrow> ByteArrayOutputStream \<Rightarrow> ByteArrayOutputStream" where
  "write_block_byte_array_output_stream [] b = b"
| "write_block_byte_array_output_stream (x # xs) b =
     write_block_byte_array_output_stream xs (write_byte_array_output_stream (uint x) b)"

definition create_byte_array_output_stream :: ByteArrayOutputStream where
  "create_byte_array_output_stream =
     \<lparr>bao_buf = replicate 256 0, bao_mem = None, bao_pos = 0, bao_max = 0\<rparr>"

definition get_byte_array_output_stream_data ::
    "ByteArrayOutputStream \<Rightarrow> (byte list \<times> nat) \<times> ByteArrayOutputStream" where
  "get_byte_array_output_stream_data b =
     ((case bao_mem b of None \<Rightarrow> take (bao_pos b) (bao_buf b) | Some m \<Rightarrow> m, bao_pos b),
      b\<lparr>bao_mem := None, bao_max := 0, bao_pos := 0\<rparr>)"

definition bao_class :: "ByteArrayOutputStream out_class" where
  "bao_class = \<lparr>
     supports_zero_copy = (\<lambda>_. False),
     cur_null = (\<lambda>_. True),
     out_room = (\<lambda>_. 0),
     out_store = (\<lambda>b out. out),
     out_write = write_byte_array_output_stream,
     out_write_block = write_block_byte_array_output_stream\<rparr>"

text \<open>The bytes written so far, and the representation invariant: every store is in bounds.\<close>

definition bao_bytes :: "ByteArrayOutputStream \<Rightarrow> byte list" where
  "bao_bytes b = take (bao_pos b) (case bao_mem b of None \<Rightarrow> bao_buf b | Some m \<Rightarrow> m)"

definition bao_inv :: "ByteArrayOutputStream \<Rightarrow> bool" where
  "bao_inv b \<longleftrightarrow> length (bao_buf b) = 256 \<and>
     (case bao_mem b of
        None \<Rightarrow> bao_pos b \<le> 256
      | Some m \<Rightarrow> length m = bao_max b \<and> 256 < bao_pos b \<and> bao_pos b \<le> bao_max b)"

lemma take_Suc_update: "n < length xs \<Longrightarrow> take (Suc n) (xs[n := x]) = take n xs @ [x]"
  by (simp add: take_Suc_conv_app_nth)

lemma bao_write:
  assumes "bao_inv b"
  shows "bao_inv (write_byte_array_output_stream c b)"
    and "bao_bytes (write_byte_array_output_stream c b) = bao_bytes b @ [word_of_int c]"
proof -
  have "bao_inv (write_byte_array_output_stream c b) \<and>
      bao_bytes (write_byte_array_output_stream c b) = bao_bytes b @ [word_of_int c]"
  proof (cases "bao_mem b")
    case None
    with assms show ?thesis
      by (cases "bao_pos b < 256")
        (simp_all add: write_byte_array_output_stream_def bao_inv_def bao_bytes_def
           take_Suc_update take_Suc_update [where n = 256, simplified])
  next
    case (Some m)
    with assms show ?thesis
      by (cases "bao_pos b < bao_max b")
        (simp_all add: write_byte_array_output_stream_def bao_inv_def bao_bytes_def take_Suc_update)
  qed
  then show "bao_inv (write_byte_array_output_stream c b)"
    and "bao_bytes (write_byte_array_output_stream c b) = bao_bytes b @ [word_of_int c]"
    by simp_all
qed

lemma bao_write_block:
  "bao_inv b \<Longrightarrow> bao_inv (write_block_byte_array_output_stream bs b) \<and>
    bao_bytes (write_block_byte_array_output_stream bs b) = bao_bytes b @ bs"
  by (induction bs arbitrary: b) (simp_all add: bao_write)

interpretation bao: output_stream bao_class "\<lambda>b. items_of (bao_bytes b)" bao_inv
    "\<lambda>c. 0 \<le> c \<and> c < 256"
  by unfold_locales (simp_all add: bao_class_def bao_write bao_write_block)

lemma bao_create:
  "bao_inv create_byte_array_output_stream" "bao_bytes create_byte_array_output_stream = []"
  by (simp_all add: create_byte_array_output_stream_def bao_inv_def bao_bytes_def)

lemma bao_get_data:
  assumes "bao_inv b"
  shows "take (snd (fst (get_byte_array_output_stream_data b)))
           (fst (fst (get_byte_array_output_stream_data b))) = bao_bytes b"
    and "bao_inv (snd (get_byte_array_output_stream_data b))"
    and "bao_bytes (snd (get_byte_array_output_stream_data b)) = []"
  using assms
  by (auto simp: get_byte_array_output_stream_data_def bao_bytes_def bao_inv_def split: option.splits)

section \<open>The forwarding input stream\<close>

text \<open>Its state is the stream it reads from and the output stream it copies to.\<close>

definition read_forwarding_input_stream ::
    "'o out_class \<Rightarrow> istream \<times> 'o \<Rightarrow> int \<times> istream \<times> 'o" where
  "read_forwarding_input_stream cl fwd =
     (case read_stream (fst fwd) of
        Inl e \<Rightarrow> (MARKER_EOS, fwd)
      | Inr (ch, inp) \<Rightarrow>
          (ch, inp, if ch \<noteq> MARKER_EOS then write_stream cl ch (snd fwd) else snd fwd))"

definition peek_forwarding_input_stream :: "istream \<times> 'o \<Rightarrow> int \<times> istream \<times> 'o" where
  "peek_forwarding_input_stream fwd =
     (case peek_stream (fst fwd) of Inl e \<Rightarrow> (MARKER_EOS, fwd) | Inr (ch, inp) \<Rightarrow> (ch, inp, snd fwd))"

definition create_forwarding_input_stream :: "istream \<Rightarrow> 'o \<Rightarrow> istream \<times> 'o" where
  "create_forwarding_input_stream inp out = (inp, out)"

interpretation fwd: input_stream "read_forwarding_input_stream cl" peek_forwarding_input_stream fst
    "\<lambda>_. True"
  for cl :: "'o out_class"
  by unfold_locales
    (auto simp: read_forwarding_input_stream_def peek_forwarding_input_stream_def
       read_stream_def peek_stream_def split: list.splits)

context output_stream begin

lemma forwarding_copies:
  assumes "inv out" "\<forall>c \<in> set inp. ok c \<and> c \<noteq> MARKER_EOS"
  shows "items (snd (snd (read_n (read_forwarding_input_stream cl) n (inp, out)))) =
      items out @ take n inp"
  using assms
proof (induction n arbitrary: inp out)
  case 0
  then show ?case by simp
next
  case (Suc n)
  show ?case
  proof (cases inp)
    case Nil
    with Suc show ?thesis
      by (simp add: read_forwarding_input_stream_def create_forwarding_input_stream_def
          case_prod_beta)
  next
    case (Cons c cs)
    with Suc.prems have w: "inv (write_stream cl c out)"
        "items (write_stream cl c out) = items out @ [c]"
      using writesD [OF writes_write_stream] by auto
    from Cons Suc.prems show ?thesis
      using Suc.IH [OF w(1), of cs]
      by (simp add: read_forwarding_input_stream_def case_prod_beta w(2))
  qed
qed

end

end
