(* ===== verification/Base64.thy ===== *)
theory Base64
  imports Streams
begin

text \<open>
  framework/base64.c: BASE64 encoding and decoding of binary data.

  \<open>write_base64\<close> and \<open>read_base64\<close> follow the source statement by statement, the local
  output buffer \<open>obf\<close> and its flushes included. \<open>base64_ref\<close> is the RFC 1421 definition,
  by 24-bit groups; the writer is shown to write exactly it, and the reader to invert it.
\<close>

section \<open>The two tables\<close>

definition int2char :: "byte list" where
  "int2char = bytes_of
     ''ABCDEFGHIJKLMNOPQRSTUVWXYZabcdefghijklmnopqrstuvwxyz0123456789+/''"

definition char2int :: "int list" where
  "char2int = [
    -1,  -1,  -1,  -1,  -1,  -1,  -1,  -1,
    -1,  -1,  -1,  -1,  -1,  -1,  -1,  -1,
    -1,  -1,  -1,  -1,  -1,  -1,  -1,  -1,
    -1,  -1,  -1,  -1,  -1,  -1,  -1,  -1,
    -1,  -1,  -1,  -1,  -1,  -1,  -1,  -1,
    -1,  -1,  -1,  62,  -1,  -1,  -1,  63,
    52,  53,  54,  55,  56,  57,  58,  59,
    60,  61,  -1,  -1,  -1,  -1,  -1,  -1,
    -1,   0,   1,   2,   3,   4,   5,   6,
     7,   8,   9,  10,  11,  12,  13,  14,
    15,  16,  17,  18,  19,  20,  21,  22,
    23,  24,  25,  -1,  -1,  -1,  -1,  -1,
    -1,  26,  27,  28,  29,  30,  31,  32,
    33,  34,  35,  36,  37,  38,  39,  40,
    41,  42,  43,  44,  45,  46,  47,  48,
    49, 50, 51]"

section \<open>Writing\<close>

definition OBF_SIZE :: nat where "OBF_SIZE = 256"

definition b64_char :: "int \<Rightarrow> byte" where
  "b64_char n = int2char ! nat n"

abbreviation (input) b64_pad :: byte where "b64_pad \<equiv> of_char (CHR ''='')"

text \<open>
  One turn of the loop of \<open>write_base64\<close> appends a group of four characters to \<open>obf\<close>;
  \<open>flush\<close> is the test at the end of the turn.
\<close>

definition b64_flush :: "'o out_class \<Rightarrow> byte list \<Rightarrow> 'o \<Rightarrow> byte list \<times> 'o" where
  "b64_flush cl obf out =
     (if length obf \<ge> OBF_SIZE then ([], write_block_stream cl obf out) else (obf, out))"

fun write_base64_loop :: "'o out_class \<Rightarrow> byte list \<Rightarrow> byte list \<Rightarrow> 'o \<Rightarrow> byte list \<times> 'o" where
  "write_base64_loop cl [] obf out = (obf, out)"
| "write_base64_loop cl [b0] obf out =
     (let byte0 = uint b0
      in b64_flush cl (obf @ [b64_char (drop_bit 2 byte0),
                              b64_char (push_bit 4 byte0 AND 63), b64_pad, b64_pad]) out)"
| "write_base64_loop cl [b0, b1] obf out =
     (let byte0 = uint b0; byte1 = uint b1
      in b64_flush cl (obf @ [b64_char (drop_bit 2 byte0),
                              b64_char ((push_bit 4 byte0 AND 63) OR drop_bit 4 byte1),
                              b64_char (push_bit 2 byte1 AND 63), b64_pad]) out)"
| "write_base64_loop cl (b0 # b1 # b2 # bs) obf out =
     (let byte0 = uint b0; byte1 = uint b1; byte2 = uint b2;
          (obf', out') =
            b64_flush cl (obf @ [b64_char (drop_bit 2 byte0),
                                 b64_char ((push_bit 4 byte0 AND 63) OR drop_bit 4 byte1),
                                 b64_char ((push_bit 2 byte1 AND 63) OR drop_bit 6 byte2),
                                 b64_char (byte2 AND 63)]) out
      in write_base64_loop cl bs obf' out')"

definition write_base64 :: "'o out_class \<Rightarrow> byte list \<Rightarrow> 'o \<Rightarrow> nat \<times> 'o" where
  "write_base64 cl buf out =
     (let (obf, out') = write_base64_loop cl buf [] out
      in ((length buf + 2) div 3 * 4,
          if length obf > 0 then write_block_stream cl obf out' else out'))"

section \<open>Reading\<close>

text \<open>\<open>b64_digit ch\<close> is \<open>Some n\<close> where the test
  \<open>ch < 0 || ch >= ch_max || (n = char2int[ch]) < 0\<close> of the source fails.\<close>

definition b64_digit :: "int \<Rightarrow> int option" where
  "b64_digit ch =
     (if ch < 0 \<or> ch \<ge> int (length char2int) \<or> char2int ! nat ch < 0 then None
      else Some (char2int ! nat ch))"

function read_base64_loop :: "nat \<Rightarrow> byte list \<Rightarrow> byte list reader" where
  "read_base64_loop buf_size buf =
     (if length buf + 3 \<le> buf_size then
        bindR peek_stream (\<lambda>ch0. case b64_digit ch0 of None \<Rightarrow> retR buf | Some n0 \<Rightarrow>
        seqR read_stream (
        bindR read_stream (\<lambda>ch1.
        bindR read_stream (\<lambda>ch2.
        bindR read_stream (\<lambda>ch3.
        case b64_digit ch1 of None \<Rightarrow> raiseR (Exception ERR_BASE64) | Some n1 \<Rightarrow>
        (let buf1 = buf @ [word_of_int (push_bit 2 n0 OR drop_bit 4 n1)] in
         if ch2 = ord (CHR ''='') then retR buf1 else
         case b64_digit ch2 of None \<Rightarrow> raiseR (Exception ERR_BASE64) | Some n2 \<Rightarrow>
         (let buf2 = buf1 @ [word_of_int (push_bit 4 n1 OR drop_bit 2 n2)] in
          if ch3 = ord (CHR ''='') then retR buf2 else
          case b64_digit ch3 of None \<Rightarrow> raiseR (Exception ERR_BASE64) | Some n3 \<Rightarrow>
          read_base64_loop buf_size (buf2 @ [word_of_int (push_bit 6 n2 OR n3)]))))))))
      else retR buf)"
  by pat_completeness auto
termination
  by (relation "measure (\<lambda>(buf_size, buf). buf_size - length buf)") auto

declare read_base64_loop.simps [simp del]

definition read_base64 :: "nat \<Rightarrow> byte list reader" where
  "read_base64 buf_size =
     (if buf_size \<ge> 3 then read_base64_loop buf_size [] else raiseR Assertion)"

section \<open>The alphabet\<close>

lemma length_int2char [simp]: "length int2char = 64"
  by (simp add: int2char_def bytes_of_def)

lemma length_char2int [simp]: "length char2int = 123"
  by (simp add: char2int_def)

text \<open>The tables are inverse to each other.\<close>

lemma b64_digit_table:
  "\<forall>n \<in> set [0..<64]. b64_digit (uint (int2char ! n)) = Some (int n)"
  by code_simp

lemma b64_digit_char:
  assumes "0 \<le> n" "n < 64"
  shows "b64_digit (uint (b64_char n)) = Some n"
  using b64_digit_table assms by (simp add: b64_char_def)

lemma b64_char_not_pad:
  assumes "0 \<le> n" "n < 64"
  shows "uint (b64_char n) \<noteq> 61"
proof
  assume "uint (b64_char n) = 61"
  with b64_digit_char [OF assms] have "b64_digit 61 = Some n" by simp
  moreover have "b64_digit 61 = None" by code_simp
  ultimately show False by simp
qed

section \<open>The reference encoding\<close>

text \<open>RFC 1421: three bytes are a 24-bit number, written as four base-64 digits, most
  significant first; a short last group is padded.\<close>

fun base64_ref :: "byte list \<Rightarrow> byte list" where
  "base64_ref [] = []"
| "base64_ref [b0] =
     (let n = uint b0 * 65536
      in [b64_char (n div 262144), b64_char (n div 4096 mod 64), b64_pad, b64_pad])"
| "base64_ref [b0, b1] =
     (let n = uint b0 * 65536 + uint b1 * 256
      in [b64_char (n div 262144), b64_char (n div 4096 mod 64), b64_char (n div 64 mod 64), b64_pad])"
| "base64_ref (b0 # b1 # b2 # bs) =
     (let n = uint b0 * 65536 + uint b1 * 256 + uint b2
      in [b64_char (n div 262144), b64_char (n div 4096 mod 64),
          b64_char (n div 64 mod 64), b64_char (n mod 64)] @ base64_ref bs)"

lemma div3_step: "(5 + n) div 3 = Suc (Suc (Suc n) div (3 :: nat))"
  using div_add_self2 [of 3 "n + 2"] by simp

lemma base64_ref_length: "length (base64_ref bs) = (length bs + 2) div 3 * 4"
  by (induction bs rule: base64_ref.induct) (simp_all add: Let_def div3_step)

lemma or_high_low:
  fixes x y :: int
  assumes "0 \<le> x" "0 \<le> y" "y < 2 ^ n" "n \<le> 6"
  shows "(push_bit n x AND 63) OR y = x mod 2 ^ (6 - n) * 2 ^ n + y"
proof -
  have "push_bit n x AND 63 = take_bit 6 (push_bit n x)"
    by (simp add: and_63_mod take_bit_eq_mod)
  also have "\<dots> = push_bit n (x mod 2 ^ (6 - n))"
    using assms(4) by (simp only: take_bit_push_bit) (simp add: take_bit_eq_mod)
  finally show ?thesis using or_push_bit_add [OF assms(2,3)] by simp
qed

text \<open>The arithmetic of one group, with every byte split at the digit boundaries.\<close>

lemma b64_arith:
  fixes a1 a0 b1 b0 c1 c0 :: int
  assumes "0 \<le> a0" "a0 < 4" "0 \<le> b1" "b1 < 16" "0 \<le> b0" "b0 < 16"
    and "0 \<le> c1" "c1 < 4" "0 \<le> c0" "c0 < 64"
  defines "n \<equiv> (4 * a1 + a0) * 65536 + (16 * b1 + b0) * 256 + (64 * c1 + c0)"
  shows "n div 262144 = a1" "n div 4096 mod 64 = a0 * 16 + b1"
    "n div 64 mod 64 = b0 * 4 + c1" "n mod 64 = c0"
proof -
  show "n div 262144 = a1"
    using assms by (intro int_div_pos_eq [where r = "n - 262144 * a1"]) simp_all
  have "n div 4096 = 64 * a1 + (a0 * 16 + b1)"
    using assms by (intro int_div_pos_eq [where r = "256 * b0 + 64 * c1 + c0"]) simp_all
  then show "n div 4096 mod 64 = a0 * 16 + b1"
    using assms by (intro int_mod_pos_eq [where q = a1]) simp_all
  have "n div 64 = 64 * (64 * a1 + (a0 * 16 + b1)) + (b0 * 4 + c1)"
    using assms by (intro int_div_pos_eq [where r = c0]) simp_all
  then show "n div 64 mod 64 = b0 * 4 + c1"
    using assms by (intro int_mod_pos_eq [where q = "64 * a1 + (a0 * 16 + b1)"]) simp_all
  show "n mod 64 = c0"
    using assms
    by (intro int_mod_pos_eq [where q = "4096 * a1 + 1024 * a0 + 64 * b1 + 4 * b0 + c1"]) simp_all
qed

lemma b64_group:
  fixes a b c :: int
  assumes "0 \<le> a" "a < 256" "0 \<le> b" "b < 256" "0 \<le> c" "c < 256"
  defines "n \<equiv> a * 65536 + b * 256 + c"
  shows "drop_bit 2 a = n div 262144"
    and "(push_bit 4 a AND 63) OR drop_bit 4 b = n div 4096 mod 64"
    and "(push_bit 2 b AND 63) OR drop_bit 6 c = n div 64 mod 64"
    and "c AND 63 = n mod 64"
proof -
  have o1: "(push_bit 4 a AND 63) OR drop_bit 4 b = a mod 4 * 16 + b div 16"
    using or_high_low [of a "b div 16" 4] assms by (simp add: drop_bit_eq_div)
  have o2: "(push_bit 2 b AND 63) OR drop_bit 6 c = b mod 16 * 4 + c div 64"
    using or_high_low [of b "c div 64" 2] assms by (simp add: drop_bit_eq_div)
  have b: "0 \<le> a mod 4" "a mod 4 < 4" "0 \<le> b div 16" "b div 16 < 16" "0 \<le> b mod 16" "b mod 16 < 16"
    "0 \<le> c div 64" "c div 64 < 4" "0 \<le> c mod 64" "c mod 64 < 64"
    using assms by simp_all
  have n: "n = (4 * (a div 4) + a mod 4) * 65536 + (16 * (b div 16) + b mod 16) * 256
      + (64 * (c div 64) + c mod 64)"
    by (simp add: n_def)
  show "drop_bit 2 a = n div 262144"
    unfolding n b64_arith(1) [OF b] by (simp add: drop_bit_eq_div)
  show "(push_bit 4 a AND 63) OR drop_bit 4 b = n div 4096 mod 64"
    unfolding o1 n b64_arith(2) [OF b] ..
  show "(push_bit 2 b AND 63) OR drop_bit 6 c = n div 64 mod 64"
    unfolding o2 n b64_arith(3) [OF b] ..
  show "c AND 63 = n mod 64"
    unfolding n b64_arith(4) [OF b] by (rule and_63_mod)
qed

lemma byte_256: "(256 :: byte) = 0"
  by simp

lemma b64_bytes:
  fixes a b c :: int
  assumes "0 \<le> a" "a < 256" "0 \<le> b" "b < 256" "0 \<le> c" "c < 256"
  defines "n \<equiv> a * 65536 + b * 256 + c"
  shows "word_of_int (push_bit 2 (n div 262144) OR drop_bit 4 (n div 4096 mod 64)) = (word_of_int a :: byte)"
    and "word_of_int (push_bit 4 (n div 4096 mod 64) OR drop_bit 2 (n div 64 mod 64)) = (word_of_int b :: byte)"
    and "word_of_int (push_bit 6 (n div 64 mod 64) OR n mod 64) = (word_of_int c :: byte)"
proof -
  have b: "0 \<le> a mod 4" "a mod 4 < 4" "0 \<le> b div 16" "b div 16 < 16" "0 \<le> b mod 16" "b mod 16 < 16"
    "0 \<le> c div 64" "c div 64 < 4" "0 \<le> c mod 64" "c mod 64 < 64"
    using assms by simp_all
  have n: "n = (4 * (a div 4) + a mod 4) * 65536 + (16 * (b div 16) + b mod 16) * 256
      + (64 * (c div 64) + c mod 64)"
    by (simp add: n_def)
  have d: "(a mod 4 * 16 + b div 16) div 16 = a mod 4" "(b mod 16 * 4 + c div 64) div 4 = b mod 16"
    using b by simp_all
  have s: "push_bit 2 (a div 4) OR a mod 4 = a"
    "push_bit 4 (a mod 4 * 16 + b div 16) OR b mod 16 = a mod 4 * 256 + b"
    "push_bit 6 (b mod 16 * 4 + c div 64) OR c mod 64 = b mod 16 * 256 + c"
    by (simp_all add: or_push_bit_add algebra_simps)
  show "word_of_int (push_bit 2 (n div 262144) OR drop_bit 4 (n div 4096 mod 64)) = (word_of_int a :: byte)"
    unfolding n b64_arith(1,2) [OF b] by (simp add: drop_bit_eq_div d s)
  show "word_of_int (push_bit 4 (n div 4096 mod 64) OR drop_bit 2 (n div 64 mod 64)) = (word_of_int b :: byte)"
    unfolding n b64_arith(2,3) [OF b] by (simp add: drop_bit_eq_div d s byte_256)
  show "word_of_int (push_bit 6 (n div 64 mod 64) OR n mod 64) = (word_of_int c :: byte)"
    unfolding n b64_arith(3,4) [OF b] by (simp add: s byte_256)
qed

section \<open>Correctness of the writer\<close>

text \<open>What one turn of the loop appends is the reference group.\<close>

definition b64_group_of :: "byte list \<Rightarrow> byte list" where
  "b64_group_of bs = base64_ref (take 3 bs)"

lemma b64_group3:
  "[b64_char (drop_bit 2 (uint b0)), b64_char ((push_bit 4 (uint b0) AND 63) OR drop_bit 4 (uint b1)),
    b64_char ((push_bit 2 (uint b1) AND 63) OR drop_bit 6 (uint b2)), b64_char (uint b2 AND 63)] =
   base64_ref [b0, b1, b2]" for b0 b1 b2 :: byte
  by (simp only: base64_ref.simps Let_def append_Nil2
      b64_group [OF uint_byte_range [of b0] uint_byte_range [of b1] uint_byte_range [of b2]])

lemma b64_group2:
  "[b64_char (drop_bit 2 (uint b0)), b64_char ((push_bit 4 (uint b0) AND 63) OR drop_bit 4 (uint b1)),
    b64_char (push_bit 2 (uint b1) AND 63), b64_pad] = base64_ref [b0, b1]" for b0 b1 :: byte
  using b64_group [OF uint_byte_range [of b0] uint_byte_range [of b1], where c = 0]
  by (simp only: base64_ref.simps Let_def) simp

lemma b64_group1:
  "[b64_char (drop_bit 2 (uint b0)), b64_char (push_bit 4 (uint b0) AND 63), b64_pad, b64_pad] =
   base64_ref [b0]" for b0 :: byte
  using b64_group [of "uint b0" 0 0] by (simp only: base64_ref.simps) (simp add: Let_def)

lemma write_base64_loop_unfold:
  assumes "bs \<noteq> []"
  shows "write_base64_loop cl bs obf out =
    (let (obf', out') = b64_flush cl (obf @ b64_group_of bs) out
     in write_base64_loop cl (drop 3 bs) obf' out')"
proof -
  consider b0 where "bs = [b0]" | b0 b1 where "bs = [b0, b1]"
    | b0 b1 b2 bs' where "bs = b0 # b1 # b2 # bs'"
    using assms by (cases bs rule: base64_ref.cases) auto
  then show ?thesis
    by cases (simp_all only: write_base64_loop.simps Let_def b64_group1 b64_group2 b64_group3
      b64_group_of_def, simp_all split: prod.splits)
qed

lemma base64_ref_unfold: "bs \<noteq> [] \<Longrightarrow> base64_ref bs = b64_group_of bs @ base64_ref (drop 3 bs)"
  by (cases bs rule: base64_ref.cases) (simp_all add: b64_group_of_def Let_def)

lemma base64_ref_append:
  "length xs mod 3 = 0 \<Longrightarrow> base64_ref (xs @ ys) = base64_ref xs @ base64_ref ys"
  by (induction xs rule: base64_ref.induct) (simp_all add: Let_def mod_Suc split: if_splits)

lemma b64_group_of_length: "bs \<noteq> [] \<Longrightarrow> length (b64_group_of bs) = 4"
  by (cases bs rule: base64_ref.cases) (simp_all add: b64_group_of_def Let_def)

context output_stream begin

lemma b64_flush_writes:
  assumes "inv out" "b64_flush cl obf out = (obf', out')"
  shows "inv out' \<and> items out' @ items_of obf' = items out @ items_of obf"
  using assms writesD [OF writes_block] by (auto simp: b64_flush_def split: if_splits)

lemma write_base64_loop_writes:
  assumes "inv out" "write_base64_loop cl bs obf out = (obf', out')"
  shows "inv out' \<and> items out' @ items_of obf' = items out @ items_of obf @ items_of (base64_ref bs)"
  using assms
proof (induction "length bs" arbitrary: bs obf out rule: less_induct)
  case less
  show ?case
  proof (cases "bs = []")
    case True
    with less.prems show ?thesis by simp
  next
    case False
    obtain obf1 out1 where f: "b64_flush cl (obf @ b64_group_of bs) out = (obf1, out1)"
      by (cases "b64_flush cl (obf @ b64_group_of bs) out")
    then have step: "write_base64_loop cl (drop 3 bs) obf1 out1 = (obf', out')"
      using less.prems(2) False by (simp add: write_base64_loop_unfold)
    note f1 = b64_flush_writes [OF less.prems(1) f]
    have "inv out' \<and> items out' @ items_of obf' =
        items out1 @ items_of obf1 @ items_of (base64_ref (drop 3 bs))"
      using False f1 step by (intro less.hyps) auto
    with f1 False show ?thesis by (simp add: base64_ref_unfold)
  qed
qed

lemma write_base64_writes: "writes (\<lambda>out. snd (write_base64 cl bs out)) (items_of (base64_ref bs))"
proof (rule writesI)
  fix out
  assume inv: "inv out"
  obtain obf out1 where l: "write_base64_loop cl bs [] out = (obf, out1)"
    by (cases "write_base64_loop cl bs [] out")
  note w = write_base64_loop_writes [OF inv l]
  then show "inv (snd (write_base64 cl bs out)) \<and>
      items (snd (write_base64 cl bs out)) = items out @ items_of (base64_ref bs)"
    using writesD [OF writes_block, of out1 obf] by (auto simp: write_base64_def l)
qed

end

text \<open>
  The local array \<open>obf\<close> has \<open>OBF_SIZE + 8\<close> bytes. A turn starts with fewer than
  \<open>OBF_SIZE\<close> of them in use and adds four, so no store is out of bounds.
\<close>

lemma b64_flush_bound:
  "b64_flush cl obf out = (obf', out') \<Longrightarrow> length obf' < OBF_SIZE"
  by (auto simp: b64_flush_def OBF_SIZE_def split: if_splits)

section \<open>Correctness of the reader\<close>

lemma read_base64_loop_end:
  assumes "length buf + 3 \<le> sz \<longrightarrow> rest = [] \<or> b64_digit (hd rest) = None"
  shows "read_base64_loop sz buf rest = Inr (buf, rest)"
proof (cases rest)
  case Nil
  moreover have "b64_digit MARKER_EOS = None" by code_simp
  ultimately show ?thesis
    by (subst read_base64_loop.simps) (simp add: reader_simps)
next
  case (Cons c cs)
  with assms show ?thesis
    by (subst read_base64_loop.simps) (auto simp: reader_simps)
qed

lemma group_range:
  fixes a b c :: byte
  shows "0 \<le> uint a * 65536 + uint b * 256 + uint c" "uint a * 65536 + uint b * 256 + uint c < 16777216"
  using uint_byte_range [of a] uint_byte_range [of b] uint_byte_range [of c] by linarith+

lemma group_digit_range:
  fixes n :: int
  assumes "0 \<le> n" "n < 16777216"
  shows "0 \<le> n div 262144" "n div 262144 < 64" "0 \<le> n div 4096 mod 64" "n div 4096 mod 64 < 64"
    "0 \<le> n div 64 mod 64" "n div 64 mod 64 < 64" "0 \<le> n mod 64" "n mod 64 < 64"
  using assms zdiv_mono1 [of n 16777215 262144] by simp_all

text \<open>Reading back one group: three, two or one bytes.\<close>

lemma read_group3:
  assumes "length buf + 3 \<le> sz"
  shows "read_base64_loop sz buf (items_of (base64_ref (b0 # b1 # b2 # bs)) @ rest) =
    read_base64_loop sz (buf @ [b0, b1, b2]) (items_of (base64_ref bs) @ rest)"
proof -
  define n where "n = uint b0 * 65536 + uint b1 * 256 + uint b2"
  note r = group_digit_range [OF group_range [of b0 b1 b2], folded n_def]
  note d = b64_digit_char [OF r(1,2)] b64_digit_char [OF r(3,4)] b64_digit_char [OF r(5,6)]
    b64_digit_char [OF r(7,8)]
  note p = b64_char_not_pad [OF r(5,6)] b64_char_not_pad [OF r(7,8)]
  note b = b64_bytes [OF uint_byte_range [of b0] uint_byte_range [of b1] uint_byte_range [of b2],
      folded n_def, simplified word_of_int_uint_byte]
  show ?thesis
    using assms by (subst read_base64_loop.simps) (simp add: reader_simps Let_def d p b flip: n_def)
qed

lemma read_group2:
  assumes "length buf + 3 \<le> sz"
  shows "read_base64_loop sz buf (items_of (base64_ref [b0, b1]) @ rest) = Inr (buf @ [b0, b1], rest)"
proof -
  define n where "n = uint b0 * 65536 + uint b1 * 256 + uint (0 :: byte)"
  note r = group_digit_range [OF group_range [of b0 b1 0], folded n_def]
  note d = b64_digit_char [OF r(1,2)] b64_digit_char [OF r(3,4)] b64_digit_char [OF r(5,6)]
  note b = b64_bytes(1,2) [OF uint_byte_range [of b0] uint_byte_range [of b1] uint_byte_range [of 0],
      folded n_def, simplified word_of_int_uint_byte]
  have "base64_ref [b0, b1] =
      [b64_char (n div 262144), b64_char (n div 4096 mod 64), b64_char (n div 64 mod 64), b64_pad]"
    by (simp add: n_def Let_def)
  then show ?thesis
    using assms by (subst read_base64_loop.simps)
      (simp add: reader_simps Let_def d b b64_char_not_pad [OF r(5,6)] del: base64_ref.simps)
qed

lemma read_group1:
  assumes "length buf + 3 \<le> sz"
  shows "read_base64_loop sz buf (items_of (base64_ref [b0]) @ rest) = Inr (buf @ [b0], rest)"
proof -
  define n where "n = uint b0 * 65536 + uint (0 :: byte) * 256 + uint (0 :: byte)"
  note r = group_digit_range [OF group_range [of b0 0 0], folded n_def]
  note d = b64_digit_char [OF r(1,2)] b64_digit_char [OF r(3,4)]
  note b = b64_bytes(1) [OF uint_byte_range [of b0] uint_byte_range [of 0] uint_byte_range [of 0],
      folded n_def, simplified word_of_int_uint_byte]
  have "base64_ref [b0] = [b64_char (n div 262144), b64_char (n div 4096 mod 64), b64_pad, b64_pad]"
    by (simp add: n_def Let_def)
  then show ?thesis
    using assms by (subst read_base64_loop.simps)
      (simp add: reader_simps Let_def d b del: base64_ref.simps)
qed

text \<open>\<open>after_base64\<close>: the item that follows the data is not of the alphabet (a closing quote).\<close>

definition after_base64 :: "istream \<Rightarrow> bool" where
  "after_base64 rest \<longleftrightarrow> rest = [] \<or> b64_digit (hd rest) = None"

lemma read_base64_loop_ref:
  assumes "after_base64 rest" "length buf + (length bs + 2) div 3 * 3 \<le> sz"
  shows "read_base64_loop sz buf (items_of (base64_ref bs) @ rest) = Inr (buf @ bs, rest)"
  using assms(2)
proof (induction bs arbitrary: buf rule: base64_ref.induct)
  case 1
  with assms(1) show ?case by (simp add: read_base64_loop_end after_base64_def)
next
  case (2 b0)
  then show ?case by (simp add: read_group1 del: base64_ref.simps)
next
  case (3 b0 b1)
  then show ?case by (simp add: read_group2 del: base64_ref.simps)
next
  case (4 b0 b1 b2 bs)
  then show ?case by (simp add: read_group3 div3_step del: base64_ref.simps)
qed

lemma shrinks_read_base64_loop [reader_shrink]: "shrinks (read_base64_loop sz buf)"
proof (induction "sz - length buf" arbitrary: buf rule: less_induct)
  case less
  have IH: "shrinks (read_base64_loop sz (buf @ [x, y, z]))" if "length buf + 3 \<le> sz" for x y z
    by (rule less) (use that in \<open>simp add: diff_less_mono2\<close>)
  show ?case
    by (subst read_base64_loop.simps, cases "length buf + 3 \<le> sz")
      (auto intro!: reader_shrink IH split: option.split simp: Let_def)
qed

lemma shrinks_read_base64 [reader_shrink]: "shrinks (read_base64 sz)"
  by (simp add: read_base64_def reader_shrink)

section \<open>Properties\<close>

text \<open>\<open>write_base64\<close> writes exactly the RFC 1421 encoding of its input to the stream,
  whatever the number of flushes of its local buffer, and returns the number of characters.\<close>

theorem write_base64_correct:
  "is_items (snd (write_base64 item_class bs out)) = is_items out @ items_of (base64_ref bs) \<and>
   fst (write_base64 item_class bs out) = length (base64_ref bs)"
  using item.writesD [OF item.write_base64_writes, of bs out]
  by (auto simp: write_base64_def base64_ref_length split: prod.splits)

text \<open>\<open>read_base64\<close> inverts \<open>write_base64\<close>: with room for all groups, it returns the
  bytes that were encoded and leaves the stream at the first item after the data.\<close>

theorem base64_roundtrip:
  assumes "after_base64 rest" "(length bs + 2) div 3 * 3 \<le> sz" "3 \<le> sz"
  shows "read_base64 sz
    (is_items (snd (write_base64 item_class bs \<lparr>is_zero_copy = zc, is_items = []\<rparr>)) @ rest) =
    Inr (bs, rest)"
  using assms read_base64_loop_ref [of rest "[]" bs sz]
    item.writesD [OF item.write_base64_writes, of bs "\<lparr>is_zero_copy = zc, is_items = []\<rparr>"]
  by (simp add: read_base64_def)

theorem base64_roundtrip_witness:
  "read_base64 6
    (is_items (snd (write_base64 item_class [72, 105, 33, 10] \<lparr>is_zero_copy = False, is_items = []\<rparr>))
       @ [34, 0]) = Inr ([72, 105, 33, 10], [34, 0])"
  by (rule base64_roundtrip) (simp_all add: after_base64_def b64_digit_def char2int_def)

end
