(* ===== verification/Json_Write.thy ===== *)
theory Json_Write
  imports Base64
begin

text \<open>
  The writers of framework/json.c: numbers, booleans, characters, strings, binary data and error
  reports. Every writer is a function over an output class (\<open>Streams\<close>); inside the locale
  \<open>output_stream\<close> each is shown to append the JSON text of its argument.
\<close>

section \<open>Numbers\<close>

lemma div10_less: "10 \<le> (n :: u64) \<Longrightarrow> unat (n div 10) < unat n"
  by (simp add: unat_div word_le_nat_alt)

function json_write_ulong :: "'o out_class \<Rightarrow> u64 \<Rightarrow> 'o \<Rightarrow> 'o" where
  "json_write_ulong cl n out =
     (if n \<ge> 10
      then write_stream cl (uint (n mod 10) + ord (CHR ''0'')) (json_write_ulong cl (n div 10) out)
      else write_stream cl (uint n + ord (CHR ''0'')) out)"
  by pat_completeness auto
termination
  by (relation "measure (\<lambda>(cl, n, out). unat n)") (simp_all add: div10_less)

declare json_write_ulong.simps [simp del]

text \<open>\<open>uint64_t\<close> and \<open>unsigned long\<close> have the same width; the two writers are the same code.\<close>

function json_write_uint64 :: "'o out_class \<Rightarrow> u64 \<Rightarrow> 'o \<Rightarrow> 'o" where
  "json_write_uint64 cl n out =
     (if n \<ge> 10
      then write_stream cl (uint (n mod 10) + ord (CHR ''0'')) (json_write_uint64 cl (n div 10) out)
      else write_stream cl (uint n + ord (CHR ''0'')) out)"
  by pat_completeness auto
termination
  by (relation "measure (\<lambda>(cl, n, out). unat n)") (simp_all add: div10_less)

declare json_write_uint64.simps [simp del]

text \<open>
  \<open>long\<close> and \<open>int64_t\<close> are 64 bits wide: a value is an int in that range. The negation
  \<open>n = -n\<close> overflows at the least value, which C leaves undefined.
\<close>

abbreviation (input) INT64_MIN :: int where "INT64_MIN \<equiv> - 9223372036854775808"
abbreviation (input) INT64_MAX :: int where "INT64_MAX \<equiv> 9223372036854775807"

definition json_write_long :: "'o out_class \<Rightarrow> int \<Rightarrow> 'o \<Rightarrow> exn + 'o" where
  "json_write_long cl n out =
     (if n < 0 then
        if n = INT64_MIN then Inl Undefined
        else Inr (json_write_ulong cl (word_of_int (- n)) (write_stream cl (ord (CHR ''-'')) out))
      else Inr (json_write_ulong cl (word_of_int n) out))"

definition json_write_int64 :: "'o out_class \<Rightarrow> int \<Rightarrow> 'o \<Rightarrow> exn + 'o" where
  "json_write_int64 cl n out =
     (if n < 0 then
        if n = INT64_MIN then Inl Undefined
        else Inr (json_write_uint64 cl (word_of_int (- n)) (write_stream cl (ord (CHR ''-'')) out))
      else Inr (json_write_uint64 cl (word_of_int n) out))"

text \<open>The decimal notation of a number, most significant digit first.\<close>

fun dec_digits :: "nat \<Rightarrow> int list" where
  "dec_digits n =
     (if n < 10 then [int n + ord (CHR ''0'')] else dec_digits (n div 10) @ [int (n mod 10) + ord (CHR ''0'')])"

declare dec_digits.simps [simp del]

definition dec_int :: "int \<Rightarrow> int list" where
  "dec_int n = (if n < 0 then ord (CHR ''-'') # dec_digits (nat (- n)) else dec_digits (nat n))"

lemma dec_digits_range: "c \<in> set (dec_digits n) \<Longrightarrow> 48 \<le> c \<and> c \<le> 57"
  by (induction n rule: dec_digits.induct) (subst (asm) (2) dec_digits.simps, auto split: if_splits)

lemma dec_digits_nonempty: "dec_digits n \<noteq> []"
  by (subst dec_digits.simps) simp

section \<open>Booleans, characters and strings\<close>

definition json_write_boolean :: "'o out_class \<Rightarrow> bool \<Rightarrow> 'o \<Rightarrow> 'o" where
  "json_write_boolean cl b =
     (if b then write_string cl (bytes_of ''true'') else write_string cl (bytes_of ''false''))"

text \<open>The table \<open>char_escaping\<close>: 1 at the control characters, at the quote (row 2), the
  backslash (row 5) and DEL (row 7).\<close>

definition char_escaping :: "nat list" where
  "char_escaping = replicate 32 1 @ (replicate 96 0)[2 := 1, 60 := 1, 95 := 1] @ replicate 128 0"

definition escaped :: "byte \<Rightarrow> bool" where
  "escaped ch \<longleftrightarrow> char_escaping ! unat ch \<noteq> 0"

definition hex_digit :: "int \<Rightarrow> int" where
  "hex_digit n =
     (let n = n AND 15 in if n < 10 then ord (CHR ''0'') + n else ord (CHR ''A'') + (n - 10))"

definition write_escape_seq :: "'o out_class \<Rightarrow> byte \<Rightarrow> 'o \<Rightarrow> 'o" where
  "write_escape_seq cl ch =
     (let n = uint ch in
      if n = 34 \<or> n = 92 then seqW [write_stream cl 92, write_stream cl n]
      else if n = 8 then seqW [write_stream cl 92, write_stream cl (ord (CHR ''b''))]
      else if n = 12 then seqW [write_stream cl 92, write_stream cl (ord (CHR ''f''))]
      else if n = 10 then seqW [write_stream cl 92, write_stream cl (ord (CHR ''n''))]
      else if n = 13 then seqW [write_stream cl 92, write_stream cl (ord (CHR ''r''))]
      else if n = 9 then seqW [write_stream cl 92, write_stream cl (ord (CHR ''t''))]
      else seqW [write_stream cl 92, write_stream cl (ord (CHR ''u'')),
                 write_stream cl (ord (CHR ''0'')), write_stream cl (ord (CHR ''0'')),
                 write_stream cl (hex_digit (drop_bit 4 n)), write_stream cl (hex_digit n)])"

text \<open>\<open>char\<close> is signed on the platforms of the agent: the call \<open>write_stream(out, ch)\<close>
  passes the sign-extended value.\<close>

definition json_write_char :: "'o out_class \<Rightarrow> byte \<Rightarrow> 'o \<Rightarrow> 'o" where
  "json_write_char cl ch =
     (if escaped ch then write_escape_seq cl ch else write_stream cl (sint ch))"

text \<open>A run of plain characters: copied to the window of the stream if it fits, else written as
  a block.\<close>

definition json_write_run :: "'o out_class \<Rightarrow> byte list \<Rightarrow> 'o \<Rightarrow> 'o" where
  "json_write_run cl run out =
     (if run = [] then out
      else if length run \<le> out_room cl out then fold (out_store cl) run out
      else out_write_block cl run out)"

function json_write_string_loop :: "'o out_class \<Rightarrow> byte list \<Rightarrow> 'o \<Rightarrow> 'o" where
  "json_write_string_loop cl s out =
     (let out1 = json_write_run cl (takeWhile (\<lambda>c. \<not> escaped c) s) out in
      case dropWhile (\<lambda>c. \<not> escaped c) s of
        [] \<Rightarrow> out1
      | ch # s' \<Rightarrow> json_write_string_loop cl s' (write_escape_seq cl ch out1))"
  by pat_completeness auto
termination
proof (relation "measure (\<lambda>(cl, s, out). length s)")
  fix cl :: "'o out_class" and s s' ch out x
  assume "dropWhile (\<lambda>c. \<not> escaped c) s = ch # s'"
  then have "length (ch # s') \<le> length s"
    by (metis length_dropWhile_le)
  then show "((cl, s', write_escape_seq cl ch x), cl, s, out) \<in> measure (\<lambda>(cl, s, out). length s)"
    by simp
qed simp

declare json_write_string_loop.simps [simp del]

definition json_write_string :: "'o out_class \<Rightarrow> byte list option \<Rightarrow> 'o \<Rightarrow> 'o" where
  "json_write_string cl s =
     (case s of
        None \<Rightarrow> write_string cl (bytes_of ''null'')
      | Some s \<Rightarrow> seqW [write_stream cl 34, json_write_string_loop cl s, write_stream cl 34])"

definition json_write_string_len :: "'o out_class \<Rightarrow> byte list option \<Rightarrow> nat \<Rightarrow> 'o \<Rightarrow> 'o" where
  "json_write_string_len cl s len =
     (case s of
        None \<Rightarrow> write_string cl (bytes_of ''null'')
      | Some s \<Rightarrow>
          seqW [write_stream cl 34, json_write_string_loop cl (take len s), write_stream cl 34])"

section \<open>Binary data\<close>

abbreviation (input) ENCODING_BINARY :: nat where "ENCODING_BINARY \<equiv> 0"
abbreviation (input) ENCODING_BASE64 :: nat where "ENCODING_BASE64 \<equiv> 1"

text \<open>The first \<open>rem\<close> bytes of the array \<open>buf\<close> are the list \<open>wb_buf\<close>.\<close>

record JsonWriteBinaryState =
  wb_encoding :: nat
  wb_size_start :: nat
  wb_size_done :: nat
  wb_buf :: "byte list"

definition json_write_binary_start ::
    "'o out_class \<Rightarrow> nat \<Rightarrow> 'o \<Rightarrow> JsonWriteBinaryState \<times> 'o" where
  "json_write_binary_start cl sz out =
     (let enc = (if supports_zero_copy cl out \<and> sz > 0 then ENCODING_BINARY else ENCODING_BASE64);
          state = \<lparr>wb_encoding = enc, wb_size_start = sz, wb_size_done = 0, wb_buf = []\<rparr>
      in (state,
          if enc = ENCODING_BINARY
          then seqW [write_stream cl (ord (CHR ''('')), json_write_ulong cl (of_nat sz),
                     write_stream cl (ord (CHR '')''))] out
          else write_stream cl 34 out))"

definition json_write_binary_data ::
    "'o out_class \<Rightarrow> JsonWriteBinaryState \<Rightarrow> byte list \<Rightarrow> 'o \<Rightarrow> JsonWriteBinaryState \<times> 'o" where
  "json_write_binary_data cl state data out =
     (if length data = 0 then (state, out)
      else if wb_encoding state = ENCODING_BINARY then
        (state\<lparr>wb_size_done := wb_size_done state + length data\<rparr>, write_block_stream cl data out)
      else
        let rem = wb_buf state;
            fill = (if length rem > 0 then min (3 - length rem) (length data) else 0);
            rem1 = rem @ take fill data;
            ptr = drop fill data;
            (rem2, out1) =
              (if length rem > 0 \<and> length rem1 \<ge> 3 then ([], snd (write_base64 cl rem1 out))
               else (rem1, out));
            len = length ptr;
            tail = len mod 3
        in if len > 0
           then (state\<lparr>wb_buf := drop (len - tail) ptr, wb_size_done := wb_size_done state + (len - tail)\<rparr>,
                 snd (write_base64 cl (take (len - tail) ptr) out1))
           else (state\<lparr>wb_buf := rem2, wb_size_done := wb_size_done state + len\<rparr>, out1))"

definition json_write_binary_end ::
    "'o out_class \<Rightarrow> JsonWriteBinaryState \<Rightarrow> 'o \<Rightarrow> exn + 'o" where
  "json_write_binary_end cl state out =
     (if wb_encoding state = ENCODING_BINARY then
        if wb_size_start state = wb_size_done state then Inr out else Inl Assertion
      else
        Inr (write_stream cl 34
          (if length (wb_buf state) > 0 then snd (write_base64 cl (wb_buf state) out) else out)))"

definition json_write_binary :: "'o out_class \<Rightarrow> byte list option \<Rightarrow> 'o \<Rightarrow> exn + 'o" where
  "json_write_binary cl data out =
     (case data of
        None \<Rightarrow> Inr (write_string cl (bytes_of ''null'') out)
      | Some d \<Rightarrow>
          (let (state, out1) = json_write_binary_start cl (length d) out;
               (state2, out2) = json_write_binary_data cl state d out1
           in json_write_binary_end cl state2 out2))"

section \<open>Error reports\<close>

text \<open>
  The \<open>ErrorReport\<close> of errors.h. The parameters and the values of the properties are JSON
  texts already; the writers take the report \<open>get_error_report(err)\<close> found, if any.
\<close>

record ErrorReportItem =
  eri_name :: "byte list"
  eri_value :: "byte list"

record ErrorReport =
  er_code :: int
  er_format :: "byte list option"
  er_params :: "byte list list"
  er_props :: "ErrorReportItem list"
  er_time_stamp :: u64

primrec write_error_params :: "'o out_class \<Rightarrow> bool \<Rightarrow> byte list list \<Rightarrow> 'o \<Rightarrow> 'o" where
  "write_error_params cl first [] out = out"
| "write_error_params cl first (p # ps) out =
     write_error_params cl False ps
       (write_string cl p (if first then out else write_stream cl (ord (CHR '','')) out))"

primrec write_error_items :: "'o out_class \<Rightarrow> ErrorReportItem list \<Rightarrow> 'o \<Rightarrow> 'o" where
  "write_error_items cl [] out = out"
| "write_error_items cl (i # is) out =
     write_error_items cl is
       (seqW [write_stream cl (ord (CHR '','')), json_write_string cl (Some (eri_name i)),
              write_stream cl (ord (CHR '':'')), write_string cl (eri_value i)] out)"

definition write_error_props :: "'o out_class \<Rightarrow> ErrorReport \<Rightarrow> 'o \<Rightarrow> 'o" where
  "write_error_props cl rep = seqW [
     (if er_time_stamp rep \<noteq> 0 then
        seqW [write_stream cl (ord (CHR '','')), json_write_string cl (Some (bytes_of ''Time'')),
              write_stream cl (ord (CHR '':'')), json_write_uint64 cl (er_time_stamp rep)]
      else seqW []),
     (case er_format rep of
        None \<Rightarrow> seqW []
      | Some f \<Rightarrow>
        seqW [write_stream cl (ord (CHR '','')), json_write_string cl (Some (bytes_of ''Format'')),
              write_stream cl (ord (CHR '':'')), json_write_string cl (Some f)]),
     (if length (er_params rep) > 0 then
        seqW [write_stream cl (ord (CHR '','')), json_write_string cl (Some (bytes_of ''Params'')),
              write_stream cl (ord (CHR '':'')), write_stream cl (ord (CHR ''['')),
              write_error_params cl True (er_params rep), write_stream cl (ord (CHR '']''))]
      else seqW []),
     write_error_items cl (er_props rep)]"

definition write_error_object :: "'o out_class \<Rightarrow> ErrorReport option \<Rightarrow> 'o \<Rightarrow> exn + 'o" where
  "write_error_object cl rep out =
     (case rep of
        None \<Rightarrow> Inr (write_string cl (bytes_of ''null'') out)
      | Some r \<Rightarrow>
          (case json_write_long cl (er_code r)
             (seqW [write_stream cl (ord (CHR ''{'')), json_write_string cl (Some (bytes_of ''Code'')),
                    write_stream cl (ord (CHR '':''))] out) of
             Inl e \<Rightarrow> Inl e
           | Inr out1 \<Rightarrow> Inr (seqW [write_error_props cl r, write_stream cl (ord (CHR ''}''))] out1)))"

definition write_errno :: "'o out_class \<Rightarrow> (int \<Rightarrow> ErrorReport option) \<Rightarrow> int \<Rightarrow> 'o \<Rightarrow> exn + 'o" where
  "write_errno cl get_error_report err out =
     (if err \<noteq> 0 then
        (case write_error_object cl (get_error_report err) out of
           Inl e \<Rightarrow> Inl e | Inr out1 \<Rightarrow> Inr (write_stream cl 0 out1))
      else Inr (write_stream cl 0 out))"

definition write_service_error ::
    "'o out_class \<Rightarrow> ErrorReport option \<Rightarrow> byte list option \<Rightarrow> int \<Rightarrow> 'o \<Rightarrow> exn + 'o" where
  "write_service_error cl rep service_name service_error out =
     (case rep of
        None \<Rightarrow> Inr (write_stream cl 0 out)
      | Some r \<Rightarrow>
          (case json_write_long cl service_error
             (seqW [write_stream cl (ord (CHR ''{'')), json_write_string cl (Some (bytes_of ''Service'')),
                    write_stream cl (ord (CHR '':'')), json_write_string cl service_name,
                    write_stream cl (ord (CHR '','')), json_write_string cl (Some (bytes_of ''Code'')),
                    write_stream cl (ord (CHR '':''))] out) of
             Inl e \<Rightarrow> Inl e
           | Inr out1 \<Rightarrow>
               Inr (seqW [write_error_props cl r, write_stream cl (ord (CHR ''}'')),
                          write_stream cl 0] out1)))"

section \<open>The JSON text of a value\<close>

definition json_escape :: "byte \<Rightarrow> int list" where
  "json_escape ch =
     (if \<not> escaped ch then [uint ch]
      else let n = uint ch in
        if n = 34 \<or> n = 92 then [92, n]
        else if n = 8 then 92 # str ''b''
        else if n = 12 then 92 # str ''f''
        else if n = 10 then 92 # str ''n''
        else if n = 13 then 92 # str ''r''
        else if n = 9 then 92 # str ''t''
        else 92 # str ''u00'' @ [hex_digit (drop_bit 4 n), hex_digit n])"

definition json_string :: "byte list \<Rightarrow> int list" where
  "json_string s = [34] @ concat (map json_escape s) @ [34]"

lemma escaped_iff: "escaped ch \<longleftrightarrow> uint ch < 32 \<or> uint ch = 34 \<or> uint ch = 92 \<or> uint ch = 127"
proof -
  have "\<forall>n \<in> set [0..<256]. (char_escaping ! n \<noteq> 0) = (n < 32 \<or> n = 34 \<or> n = 92 \<or> n = 127)"
    by code_simp
  moreover have "unat ch < 256"
    using uint_byte_range(2) [of ch] uint_nat [of ch] by linarith
  ultimately have "escaped ch \<longleftrightarrow> unat ch < 32 \<or> unat ch = 34 \<or> unat ch = 92 \<or> unat ch = 127"
    by (simp add: escaped_def)
  moreover have "uint ch = int (unat ch)" by simp
  ultimately show ?thesis by linarith
qed

text \<open>What makes the direct copy of a run of plain characters sound: none of them is \<open>ESC\<close>.\<close>

lemma plain_not_ESC: "\<not> escaped ch \<Longrightarrow> uint ch \<noteq> ESC"
  by (auto simp: escaped_iff)

lemma hex_digit_range: "0 \<le> n \<Longrightarrow> 48 \<le> hex_digit n \<and> hex_digit n \<le> 70"
proof -
  have "n AND 15 = n mod 16"
    using take_bit_eq_mask [of 4 n] by (simp add: take_bit_eq_mod mask_eq_exp_minus_1)
  then show ?thesis
    using pos_mod_bound [of 16 n] pos_mod_sign [of 16 n] by (auto simp: hex_digit_def Let_def)
qed

context output_stream begin

lemma writes_int: "0 \<le> c \<Longrightarrow> c < 256 \<Longrightarrow> writes (write_stream cl c) [c]"
  by (intro writes_write_stream byte_ok)

lemma writes_Cons1:
  "0 \<le> c \<Longrightarrow> c < 256 \<Longrightarrow> writes (seqW ws) ys \<Longrightarrow> writes (seqW (write_stream cl c # ws)) (c # ys)"
  using writes_Cons [OF writes_int, of c ws ys] by simp

lemma writes_Cons_last: "writes w xs \<Longrightarrow> writes (seqW [w]) xs"
  using writes_Cons [OF _ writes_Nil, of w xs] by simp

lemma dec_step:
  "10 \<le> n \<Longrightarrow> dec_digits (unat n) = dec_digits (unat (n div 10)) @ [uint (n mod 10) + 48]"
  "\<not> 10 \<le> n \<Longrightarrow> dec_digits (unat n) = [uint n + 48]" for n :: u64
  by (subst dec_digits.simps, simp add: word_le_nat_alt unat_div zmod_int uint_mod)+

lemma small_u64: "\<not> 10 \<le> n \<Longrightarrow> uint n < 10" for n :: u64
  by (simp add: word_le_def not_le)

lemma mod10_u64: "uint (n mod 10) < 10" for n :: u64
  by (simp add: uint_mod)

lemma writes_ulong: "writes (json_write_ulong cl n) (dec_digits (unat n))"
proof (induction "unat n" arbitrary: n rule: less_induct)
  case less
  show ?case
  proof (cases "10 \<le> n")
    case True
    have "writes (\<lambda>out. write_stream cl (uint (n mod 10) + 48) (json_write_ulong cl (n div 10) out))
        (dec_digits (unat (n div 10)) @ [uint (n mod 10) + 48])"
      using True mod10_u64 [of n] by (intro writes_then writes_int less div10_less) simp_all
    with True show ?thesis
      by (subst json_write_ulong.simps [abs_def]) (simp add: dec_step)
  next
    case False
    with small_u64 [OF False] writes_int [of "uint n + 48"] show ?thesis
      by (subst json_write_ulong.simps [abs_def]) (simp add: dec_step)
  qed
qed

lemma json_write_uint64_eq: "json_write_uint64 cl n out = json_write_ulong cl n out"
  by (induction cl n out rule: json_write_ulong.induct)
    (subst json_write_ulong.simps, subst json_write_uint64.simps, simp)

lemma writes_uint64: "writes (json_write_uint64 cl n) (dec_digits (unat n))"
  using writes_ulong [of n] by (simp add: writes_def json_write_uint64_eq)

lemma writes_boolean: "writes (json_write_boolean cl b) (str (if b then ''true'' else ''false''))"
  using writes_string [of "bytes_of ''true''"] writes_string [of "bytes_of ''false''"]
  by (simp add: json_write_boolean_def bytes_of_def items_of_def)

lemma writes_null: "writes (write_string cl (bytes_of ''null'')) (str ''null'')"
  using writes_string [of "bytes_of ''null''"] by (simp add: bytes_of_def items_of_def)

lemma writes_escape_seq: "escaped ch \<Longrightarrow> writes (write_escape_seq cl ch) (json_escape ch)"
  using hex_digit_range [of "uint ch"] hex_digit_range [of "drop_bit 4 (uint ch)"]
  by (auto simp: write_escape_seq_def json_escape_def Let_def intro!: writes_Cons1 writes_Nil)

lemma writes_run:
  assumes "\<forall>c \<in> set run. \<not> escaped c"
  shows "writes (json_write_run cl run) (items_of run)"
proof (rule writesI)
  fix out
  assume inv: "inv out"
  have "inv (fold (out_store cl) run out) \<and> items (fold (out_store cl) run out) = items out @ items_of run"
    if "length run \<le> out_room cl out"
    using assms inv that
  proof (induction run arbitrary: out)
    case (Cons c run)
    then have "uint c \<noteq> ESC" "out_room cl out > 0"
      by (auto dest: plain_not_ESC)
    with Cons show ?case
      by (simp add: store_items store_inv store_room)
  qed simp
  then show "inv (json_write_run cl run out) \<and> items (json_write_run cl run out) = items out @ items_of run"
    using inv by (simp add: json_write_run_def block_items block_inv)
qed

lemma json_escape_run: "\<forall>c \<in> set run. \<not> escaped c \<Longrightarrow> concat (map json_escape run) = items_of run"
  by (induction run) (simp_all add: json_escape_def)

lemma json_write_string_loop_writes: "writes (json_write_string_loop cl s) (concat (map json_escape s))"
proof (induction "length s" arbitrary: s rule: less_induct)
  case less
  let ?run = "takeWhile (\<lambda>c. \<not> escaped c) s" and ?tl = "dropWhile (\<lambda>c. \<not> escaped c) s"
  have run: "\<forall>c \<in> set ?run. \<not> escaped c"
    by (auto dest: set_takeWhileD)
  have s: "concat (map json_escape s) = items_of ?run @ concat (map json_escape ?tl)"
    by (metis json_escape_run [OF run] concat_append map_append takeWhile_dropWhile_id)
  show ?case
  proof (cases ?tl)
    case Nil
    then have "json_write_string_loop cl s = json_write_run cl ?run"
      by (subst json_write_string_loop.simps [abs_def]) (simp add: Let_def del: dropWhile_eq_Nil_conv)
    with Nil writes_run [OF run] s show ?thesis by (simp del: dropWhile_eq_Nil_conv)
  next
    case (Cons ch s')
    have "escaped ch" using Cons by (metis dropWhile_eq_Cons_conv)
    moreover have "length s' < length s"
      using Cons length_dropWhile_le [of "\<lambda>c. \<not> escaped c" s] by simp
    ultimately have "writes (\<lambda>out. json_write_string_loop cl s' (write_escape_seq cl ch (json_write_run cl ?run out)))
        (items_of ?run @ json_escape ch @ concat (map json_escape s'))"
      using writes_then [OF writes_run [OF run] writes_then [OF writes_escape_seq less]] by simp
    with Cons s show ?thesis
      by (subst json_write_string_loop.simps [abs_def]) (simp add: Let_def)
  qed
qed

lemma writes_json_string: "writes (json_write_string cl (Some s)) (json_string s)"
  unfolding json_write_string_def json_string_def
  using writes_Cons [OF writes_int [of 34] writes_Cons [OF json_write_string_loop_writes
      writes_Cons_last [OF writes_int [of 34]]]] by simp

lemma writes_json_string_len: "writes (json_write_string_len cl (Some s) n) (json_string (take n s))"
  using writes_json_string [of "take n s"] by (simp add: json_write_string_len_def json_write_string_def)

text \<open>Writers that may raise: in the cases the code means to handle they do not.\<close>

definition writesE :: "('o \<Rightarrow> exn + 'o) \<Rightarrow> int list \<Rightarrow> bool" where
  "writesE w xs \<longleftrightarrow>
     (\<forall>out. inv out \<longrightarrow> (\<exists>out'. w out = Inr out' \<and> inv out' \<and> items out' = items out @ xs))"

lemma writesE_Inr: "writes w xs \<Longrightarrow> writesE (\<lambda>out. Inr (w out)) xs"
  by (simp add: writesE_def writes_def)

lemma writesE_D: "writesE w xs \<Longrightarrow> inv out \<Longrightarrow> \<exists>out'. w out = Inr out' \<and> inv out' \<and> items out' = items out @ xs"
  by (simp add: writesE_def)

lemma dec_int_pos:
  assumes "0 \<le> n" "n < 18446744073709551616"
  shows "dec_digits (unat (word_of_int n :: u64)) = dec_digits (nat n)"
  using assms by (simp add: unsigned_of_int take_bit_int_eq_self)

lemma writesE_long:
  assumes "INT64_MIN < n" "n \<le> INT64_MAX"
  shows "writesE (json_write_long cl n) (dec_int n)"
proof (cases "n < 0")
  case True
  have "writesE (\<lambda>out. Inr (json_write_ulong cl (word_of_int (- n)) (write_stream cl 45 out)))
      ([45] @ dec_digits (unat (word_of_int (- n) :: u64)))"
    by (intro writesE_Inr writes_then writes_int writes_ulong) simp_all
  moreover have "dec_digits (unat (word_of_int (- n) :: u64)) = dec_digits (nat (- n))"
    by (rule dec_int_pos) (use True assms in simp_all)
  ultimately show ?thesis
    using True assms by (simp add: json_write_long_def [abs_def] dec_int_def)
next
  case False
  have "writesE (\<lambda>out. Inr (json_write_ulong cl (word_of_int n) out)) (dec_digits (unat (word_of_int n :: u64)))"
    by (intro writesE_Inr) (rule writes_ulong)
  with False assms show ?thesis
    by (simp add: json_write_long_def [abs_def] dec_int_def dec_int_pos)
qed

lemma json_write_int64_eq: "json_write_int64 cl n out = json_write_long cl n out"
  by (simp add: json_write_int64_def json_write_long_def json_write_uint64_eq)

lemma writesE_int64:
  "INT64_MIN < n \<Longrightarrow> n \<le> INT64_MAX \<Longrightarrow> writesE (json_write_int64 cl n) (dec_int n)"
  using writesE_long [of n] by (simp add: writesE_def json_write_int64_eq)

text \<open>
  Binary data in base64: the bytes seen so far split into the part \<open>p\<close> that is written, a
  multiple of three bytes long, and the at most two bytes kept in \<open>buf\<close>.
\<close>

lemma binary_data_base64:
  assumes inv: "inv out" and enc: "wb_encoding st \<noteq> ENCODING_BINARY" and buf: "length (wb_buf st) < 3"
    and eq: "json_write_binary_data cl st data out = (st', out')"
  shows "\<exists>p. p @ wb_buf st' = wb_buf st @ data \<and> length p mod 3 = 0 \<and> length (wb_buf st') < 3 \<and>
    inv out' \<and> items out' = items out @ items_of (base64_ref p) \<and> wb_encoding st' = wb_encoding st"
proof -
  define fill where "fill = (if length (wb_buf st) > 0 then min (3 - length (wb_buf st)) (length data) else 0)"
  define ptr where "ptr = drop fill data"
  define tl where "tl = length ptr mod 3"
  have b64: "inv (snd (write_base64 cl bs o1))"
    "items (snd (write_base64 cl bs o1)) = items o1 @ items_of (base64_ref bs)" if "inv o1" for bs o1
    using writesD [OF write_base64_writes that] by auto
  have data: "data = take fill data @ ptr" by (simp add: ptr_def)
  have ptr3: "length (take (length ptr - tl) ptr) mod 3 = 0"
    by (simp add: tl_def minus_mod_eq_mult_div)
  have tl3: "length (drop (length ptr - tl) ptr) < 3"
    using mod_less_divisor [of 3 "length ptr"] by (simp add: tl_def)
  show ?thesis
  proof (cases "data = []")
    case True
    with eq buf inv show ?thesis
      by (intro exI [of _ "[]"]) (simp add: json_write_binary_data_def)
  next
    case nonempty: False
    note run = json_write_binary_data_def Let_def
    have e: "json_write_binary_data cl st data out =
        (let (rem2, out1) = (if length (wb_buf st) > 0 \<and> length (wb_buf st @ take fill data) \<ge> 3
               then ([], snd (write_base64 cl (wb_buf st @ take fill data) out))
               else (wb_buf st @ take fill data, out))
         in if length ptr > 0
           then (st\<lparr>wb_buf := drop (length ptr - tl) ptr, wb_size_done := wb_size_done st + (length ptr - tl)\<rparr>,
                 snd (write_base64 cl (take (length ptr - tl) ptr) out1))
           else (st\<lparr>wb_buf := rem2, wb_size_done := wb_size_done st + length ptr\<rparr>, out1))"
      using nonempty enc by (simp add: run fill_def ptr_def tl_def)
    consider (full) "wb_buf st \<noteq> []" "length (wb_buf st @ take fill data) = 3"
      | (part) "wb_buf st \<noteq> []" "length (wb_buf st @ take fill data) < 3" "ptr = []"
      | (none) "wb_buf st = []" "fill = 0" "ptr = data"
    proof (cases "wb_buf st = []")
      case True
      with none show ?thesis by (simp add: fill_def ptr_def)
    next
      case False
      with buf full part show ?thesis
        by (cases "3 - length (wb_buf st) \<le> length data") (simp_all add: fill_def ptr_def min_def not_le)
    qed
    then show ?thesis
    proof cases
      case full
      show ?thesis
      proof (cases "ptr = []")
        case True
        then have d: "take fill data = data" using data by simp
        then have "length (wb_buf st @ data) mod 3 = 0" using full by simp
        with full True d eq e b64 [OF inv] show ?thesis
          by (intro exI [of _ "wb_buf st @ data"]) auto
      next
        case False
        have l: "length ((wb_buf st @ take fill data) @ take (length ptr - tl) ptr) mod 3 = 0"
          using full(2) ptr3 by (simp only: length_append [of "wb_buf st @ take fill data"] mod_add_self1)
        from False full eq e b64 inv data l tl3 base64_ref_append [of "wb_buf st @ take fill data"] show ?thesis
          by (intro exI [of _ "(wb_buf st @ take fill data) @ take (length ptr - tl) ptr"]) auto
      qed
    next
      case part
      then have d: "take fill data = data" using data by simp
      with part have "length (wb_buf st @ data) < 3" by simp
      with part d eq e inv show ?thesis
        by (intro exI [of _ "[]"]) auto
    next
      case none
      with eq e inv nonempty b64 [OF inv] ptr3 tl3 show ?thesis
        by (intro exI [of _ "take (length ptr - tl) ptr"]) auto
    qed
  qed
qed

end

text \<open>All the chunks of one value, as the services write it piece by piece.\<close>

fun json_write_binary_chunks ::
    "'p out_class \<Rightarrow> JsonWriteBinaryState \<Rightarrow> byte list list \<Rightarrow> 'p \<Rightarrow> JsonWriteBinaryState \<times> 'p" where
  "json_write_binary_chunks c st [] out = (st, out)"
| "json_write_binary_chunks c st (d # ds) out =
     (let (st1, out1) = json_write_binary_data c st d out in json_write_binary_chunks c st1 ds out1)"

text \<open>The text of binary data: the size and the raw bytes where the channel can carry them without
  copying, a base64 string otherwise.\<close>

definition json_binary_text :: "bool \<Rightarrow> byte list \<Rightarrow> int list" where
  "json_binary_text zc bs =
     (if zc \<and> bs \<noteq> [] then [40] @ dec_digits (length bs) @ [41] @ items_of bs
      else [34] @ items_of (base64_ref bs) @ [34])"

context output_stream begin

lemma binary_chunks_base64:
  assumes "inv out" "wb_encoding st \<noteq> ENCODING_BINARY" "length (wb_buf st) < 3"
    and "json_write_binary_chunks cl st ds out = (st', out')"
  shows "\<exists>p. p @ wb_buf st' = wb_buf st @ concat ds \<and> length p mod 3 = 0 \<and> length (wb_buf st') < 3 \<and>
    inv out' \<and> items out' = items out @ items_of (base64_ref p) \<and> wb_encoding st' = wb_encoding st"
  using assms
proof (induction ds arbitrary: st out)
  case Nil
  then show ?case by (intro exI [of _ "[]"]) auto
next
  case (Cons d ds)
  obtain st1 out1 where d: "json_write_binary_data cl st d out = (st1, out1)"
    by (cases "json_write_binary_data cl st d out")
  from binary_data_base64 [OF Cons.prems(1-3) d] obtain p where
    p: "p @ wb_buf st1 = wb_buf st @ d" "length p mod 3 = 0" "length (wb_buf st1) < 3" "inv out1"
      "items out1 = items out @ items_of (base64_ref p)" "wb_encoding st1 = wb_encoding st"
    by (elim exE conjE) (rule that)
  have "json_write_binary_chunks cl st1 ds out1 = (st', out')" "wb_encoding st1 \<noteq> ENCODING_BINARY"
    using Cons.prems(2,4) d p(6) by simp_all
  from Cons.IH [OF p(4) this(2) p(3) this(1)] obtain q where
    q: "q @ wb_buf st' = wb_buf st1 @ concat ds" "length q mod 3 = 0" "length (wb_buf st') < 3" "inv out'"
      "items out' = items out1 @ items_of (base64_ref q)" "wb_encoding st' = wb_encoding st1"
    by (elim exE conjE) (rule that)
  have "(p @ q) @ wb_buf st' = wb_buf st @ concat (d # ds)"
    using arg_cong [OF p(1), of "\<lambda>x. x @ concat ds"] q(1) by simp
  moreover have "length (p @ q) mod 3 = 0"
    using p(2) q(2) by (simp add: mod_eq_0_iff_dvd)
  ultimately show ?case
    using p(5,6) q(3-6) base64_ref_append [OF p(2), of q] by (intro exI [of _ "p @ q"]) simp
qed

lemma binary_chunks_binary:
  assumes "inv out" "wb_encoding st = ENCODING_BINARY"
    and "json_write_binary_chunks cl st ds out = (st', out')"
  shows "inv out' \<and> items out' = items out @ items_of (concat ds) \<and>
    st' = st\<lparr>wb_size_done := wb_size_done st + length (concat ds)\<rparr>"
  using assms
proof (induction ds arbitrary: st out)
  case (Cons d ds)
  note w = writesD [OF writes_block Cons.prems(1)]
  show ?case
    using Cons.prems Cons.IH [of out st] Cons.IH [of "write_block_stream cl d out" "st\<lparr>wb_size_done := wb_size_done st + length d\<rparr>"] w
    by (cases "d = []") (auto simp: json_write_binary_data_def add.assoc)
qed auto

lemma binary_end_base64:
  assumes "inv out" "wb_encoding st \<noteq> ENCODING_BINARY"
  shows "\<exists>out'. json_write_binary_end cl st out = Inr out' \<and> inv out' \<and>
    items out' = items out @ items_of (base64_ref (wb_buf st)) @ [34]"
  using assms writesD [OF write_base64_writes assms(1)]
    writesD [OF writes_int [of 34] assms(1)]
    writesD [OF writes_int [of 34], of "snd (write_base64 cl (wb_buf st) out)"]
  by (cases "wb_buf st") (auto simp: json_write_binary_end_def)

lemma binary_start:
  assumes "inv out" "json_write_binary_start cl sz out = (st, out1)" "sz < 18446744073709551616"
  shows "inv out1 \<and> wb_buf st = [] \<and> wb_size_start st = sz \<and> wb_size_done st = 0 \<and>
    wb_encoding st = (if supports_zero_copy cl out \<and> sz > 0 then ENCODING_BINARY else ENCODING_BASE64) \<and>
    items out1 = items out @
      (if supports_zero_copy cl out \<and> sz > 0 then [40] @ dec_digits sz @ [41] else [34])"
proof -
  have sz: "unat (of_nat sz :: u64) = sz"
    using assms(3) by (simp add: unat_of_nat)
  have "writes (seqW [write_stream cl 40, json_write_ulong cl (of_nat sz), write_stream cl 41])
      ([40] @ dec_digits sz @ [41])"
    using writes_Cons [OF writes_int [of 40] writes_Cons [OF writes_ulong [of "of_nat sz"]
        writes_Cons_last [OF writes_int [of 41]]]] unfolding sz by simp
  from writesD [OF this assms(1)] writesD [OF writes_int [of 34] assms(1)] assms(2) show ?thesis
    by (auto simp: json_write_binary_start_def Let_def split: if_splits)
qed

lemma binary_chunks_text:
  assumes inv: "inv out" and sz: "sz = length (concat ds)" "sz < 18446744073709551616"
    and start: "json_write_binary_start cl sz out = (st, out1)"
    and chunks: "json_write_binary_chunks cl st ds out1 = (st2, out2)"
  shows "\<exists>out'. json_write_binary_end cl st2 out2 = Inr out' \<and> inv out' \<and>
    items out' = items out @ json_binary_text (supports_zero_copy cl out) (concat ds)"
proof (cases "supports_zero_copy cl out \<and> sz > 0")
  case True
  with binary_start [OF inv start sz(2)] have st: "inv out1" "wb_encoding st = ENCODING_BINARY"
    "wb_size_start st = sz" "wb_size_done st = 0" "items out1 = items out @ [40] @ dec_digits sz @ [41]"
    by auto
  from binary_chunks_binary [OF st(1,2) chunks] st True sz show ?thesis
    by (auto simp: json_write_binary_end_def json_binary_text_def)
next
  case False
  with binary_start [OF inv start sz(2)] have st: "inv out1" "wb_encoding st \<noteq> ENCODING_BINARY"
    "length (wb_buf st) < 3" "wb_buf st = []" "items out1 = items out @ [34]"
    by auto
  from binary_chunks_base64 [OF st(1-3) chunks] obtain p where
    p: "p @ wb_buf st2 = concat ds" "length p mod 3 = 0" "inv out2"
      "items out2 = items out1 @ items_of (base64_ref p)" "wb_encoding st2 \<noteq> ENCODING_BINARY"
    using st by auto
  have "base64_ref (concat ds) = base64_ref p @ base64_ref (wb_buf st2)"
    using base64_ref_append [OF p(2)] p(1) by metis
  with binary_end_base64 [OF p(3,5)] p st False sz show ?thesis
    by (auto simp: json_binary_text_def)
qed

lemma writesE_binary:
  assumes "inv out" "length bs < 18446744073709551616"
  shows "\<exists>out'. json_write_binary cl (Some bs) out = Inr out' \<and> inv out' \<and>
    items out' = items out @ json_binary_text (supports_zero_copy cl out) bs"
proof -
  obtain st out1 where s: "json_write_binary_start cl (length bs) out = (st, out1)"
    by (cases "json_write_binary_start cl (length bs) out")
  obtain st2 out2 where c: "json_write_binary_data cl st bs out1 = (st2, out2)"
    by (cases "json_write_binary_data cl st bs out1")
  have "json_write_binary_chunks cl st [bs] out1 = (st2, out2)" using c by simp
  from binary_chunks_text [OF assms(1) _ assms(2) s this] s c show ?thesis
    by (simp add: json_write_binary_def)
qed

end

lemma sint_byte_neg:
  assumes "128 \<le> uint ch"
  shows "sint (ch :: byte) = uint ch - 256"
proof -
  have "(uint ch + 128) mod 256 = (uint ch - 128) mod 256"
    using minus_mod_self2 [of "uint ch + 128" 256] by simp
  also have "\<dots> = uint ch - 128"
    using assms uint_byte_range(2) [of ch] by (intro mod_pos_pos_trivial) linarith+
  finally show ?thesis
    by (simp add: sint_uint signed_take_bit_eq_take_bit_shift take_bit_eq_mod)
qed

lemma write_stream_zc [simp]: "is_zero_copy (write_stream item_class c out) = is_zero_copy out"
  by (simp add: write_stream_def item_class_def)

lemma json_write_ulong_zc [simp]: "is_zero_copy (json_write_ulong item_class n out) = is_zero_copy out"
proof (induction "unat n" arbitrary: n rule: less_induct)
  case less
  then show ?case by (subst json_write_ulong.simps) (simp add: div10_less)
qed

lemma json_write_int64_zc: "json_write_int64 item_class n out = Inr out' \<Longrightarrow> is_zero_copy out' = is_zero_copy out"
  by (auto simp: item.json_write_int64_eq json_write_long_def split: if_splits)

section \<open>Properties\<close>



text \<open>json_write_int64 appends the decimal notation of every 64-bit value except the least one,
  whose negation is a signed overflow.\<close>

theorem json_write_int64_correct:
  assumes "INT64_MIN \<le> n" "n \<le> INT64_MAX"
  shows "json_write_int64 item_class n out =
    (if n = INT64_MIN then Inl Undefined else Inr (out\<lparr>is_items := is_items out @ dec_int n\<rparr>))"
proof (cases "n = INT64_MIN")
  case False
  then obtain out' where out': "json_write_int64 item_class n out = Inr out'"
      "is_items out' = is_items out @ dec_int n"
    using item.writesE_D [OF item.writesE_int64 [of n]] assms by force
  moreover have "is_zero_copy out' = is_zero_copy out"
    using out'(1) by (rule json_write_int64_zc)
  ultimately show ?thesis using False by (simp add: item_stream.equality)
qed (simp add: json_write_int64_def)

theorem json_write_int64_correct_witness:
  "json_write_int64 item_class (- 120) \<lparr>is_zero_copy = True, is_items = [65]\<rparr> =
    Inr \<lparr>is_zero_copy = True, is_items = [65, 45, 49, 50, 48]\<rparr>"
  using json_write_int64_correct [of "- 120"] by (simp add: dec_int_def dec_digits.simps)

text \<open>a binary value written in any number of chunks (json_write_binary_start, one
  json_write_binary_data per chunk, json_write_binary_end) appends the text of the whole value, the
  raw bytes after their size on a zero-copy stream and one base64 string otherwise, independent of
  where the chunks were cut; the assertion on the size does not fail.\<close>

theorem json_write_binary_chunks_correct:
  assumes "length (concat ds) < 18446744073709551616"
    and "json_write_binary_start item_class (length (concat ds)) out = (st, out1)"
    and "json_write_binary_chunks item_class st ds out1 = (st2, out2)"
  shows "\<exists>out'. json_write_binary_end item_class st2 out2 = Inr out' \<and>
    is_items out' = is_items out @ json_binary_text (is_zero_copy out) (concat ds)"
  using item.binary_chunks_text [OF TrueI refl assms] by (simp add: item_class_def)

theorem json_write_binary_chunks_correct_witness:
  "\<exists>out'. json_write_binary_end item_class \<lparr>wb_encoding = 1, wb_size_start = 4, wb_size_done = 0, wb_buf = [10]\<rparr>
      \<lparr>is_zero_copy = False, is_items = [34, 83, 71, 107, 104]\<rparr> = Inr out' \<and>
    is_items out' = [34, 83, 71, 107, 104, 67, 103, 61, 61, 34]"
proof -
  have "json_write_binary_start item_class (length (concat [[72, 105 :: byte], [33, 10]]))
      \<lparr>is_zero_copy = False, is_items = []\<rparr> =
    (\<lparr>wb_encoding = 1, wb_size_start = 4, wb_size_done = 0, wb_buf = []\<rparr>,
     \<lparr>is_zero_copy = False, is_items = [34]\<rparr>)"
    by code_simp
  moreover have "json_write_binary_chunks item_class
      \<lparr>wb_encoding = 1, wb_size_start = 4, wb_size_done = 0, wb_buf = []\<rparr> [[72, 105 :: byte], [33, 10]]
      \<lparr>is_zero_copy = False, is_items = [34]\<rparr> =
    (\<lparr>wb_encoding = 1, wb_size_start = 4, wb_size_done = 0, wb_buf = [10]\<rparr>,
     \<lparr>is_zero_copy = False, is_items = [34, 83, 71, 107, 104]\<rparr>)"
    by code_simp
  moreover have "json_binary_text False (concat [[72, 105], [33, 10]]) = [34, 83, 71, 107, 104, 67, 103, 61, 61, 34]"
    by code_simp
  ultimately show ?thesis
    using json_write_binary_chunks_correct [of "[[72, 105], [33, 10]]" "\<lparr>is_zero_copy = False, is_items = []\<rparr>"]
    by simp
qed

text \<open>json_write_char hands a byte above 127 to write_stream sign-extended, so a negative item goes
  to the stream: 0xFF is written as the end-of-message marker.\<close>

theorem json_write_char_sign_extends:
  "128 \<le> uint ch \<Longrightarrow> is_items (json_write_char item_class ch out) = is_items out @ [uint ch - 256]"
  by (simp add: json_write_char_def escaped_iff sint_byte_neg write_stream_def item_class_def)

theorem json_write_char_sign_extends_witness:
  "is_items (json_write_char item_class 255 \<lparr>is_zero_copy = False, is_items = []\<rparr>) = [MARKER_EOM]"
  using json_write_char_sign_extends [of 255] by simp

end
