(* ===== verification/Json_Read.thy ===== *)
theory Json_Read
  imports Json_Write
begin

text \<open>
  The readers of framework/json.c: strings, numbers, booleans, structures and arrays with a
  callback per element, binary data, the skipper that copies one JSON value, and error reports.
  The static buffer \<open>buf\<close> of the source, reset by every function that uses it, is the
  accumulator of the loops: the list of its first \<open>buf_pos\<close> bytes.
\<close>

section \<open>Characters and syntax errors\<close>

definition isspace :: "int \<Rightarrow> bool" where
  "isspace c \<longleftrightarrow> c = 32 \<or> 9 \<le> c \<and> c \<le> 13"

abbreviation (input) space :: "int \<Rightarrow> bool" where
  "space c \<equiv> c > 0 \<and> isspace c"

lemma space_eq: "space c \<longleftrightarrow> isspace c"
  by (auto simp: isspace_def)

fun ignore_whitespace :: "int \<Rightarrow> int reader" where
  "ignore_whitespace ch [] = Inr (if space ch then MARKER_EOS else ch, [])"
| "ignore_whitespace ch (c # cs) = (if space ch then ignore_whitespace c cs else Inr (ch, c # cs))"

definition read_whitespace :: "unit reader" where
  "read_whitespace s = Inr ((), dropWhile (\<lambda>ch. space ch) s)"

text \<open>The conversion \<open>%3o\<close> of \<open>sprintf\<close>: octal digits, padded to three places.\<close>

fun octal :: "nat \<Rightarrow> string" where
  "octal n = (if n < 8 then [char_of (n + 48)] else octal (n div 8) @ [char_of (n mod 8 + 48)])"

declare octal.simps [simp del]

definition char2str :: "int \<Rightarrow> string" where
  "char2str ch =
     (if ch = MARKER_EOS then ''<eos>''
      else if ch = MARKER_EOM then ''<eom>''
      else if ch = MARKER_EOA then ''<eoa>''
      else if ch \<ge> 32 \<and> ch < 127 then [CHR 0x27, char_of (nat ch), CHR 0x27]
      else let o3 = octal (unat (word_of_int ch :: u32))
           in [CHR 0x27, CHR 0x5C] @ replicate (3 - length o3) (CHR '' '') @ o3 @ [CHR 0x27])"

definition check_char :: "int \<Rightarrow> int \<Rightarrow> unit reader" where
  "check_char ch ex =
     (if ex = ch then retR ()
      else raiseR (Str_exception ERR_JSON_SYNTAX
        (''Expected '' @ char2str ex @ '', got '' @ char2str ch)))"

definition json_test_char :: "int \<Rightarrow> unit reader" where
  "json_test_char x =
     bindR read_stream (\<lambda>ch.
     bindR (if x \<noteq> MARKER_EOM then ignore_whitespace ch else retR ch) (\<lambda>ch.
     check_char ch x))"

definition json_peek :: "int reader" where
  "json_peek = seqR read_whitespace peek_stream"

text \<open>A token and the whitespace before it.\<close>

definition read_token :: "int reader" where
  "read_token = bindR read_stream ignore_whitespace"

definition json_test_chars :: "string \<Rightarrow> unit reader" where
  "json_test_chars cs = foldr (\<lambda>c m. seqR (json_test_char (of_char c)) m) cs (retR ())"

section \<open>Strings\<close>

definition read_hex_digit :: "int reader" where
  "read_hex_digit =
     bindR read_stream (\<lambda>ch.
       if ch \<ge> ord (CHR ''0'') \<and> ch \<le> ord (CHR ''9'') then retR (ch - ord (CHR ''0''))
       else if ch \<ge> ord (CHR ''A'') \<and> ch \<le> ord (CHR ''F'') then retR (ch - ord (CHR ''A'') + 10)
       else if ch \<ge> ord (CHR ''a'') \<and> ch \<le> ord (CHR ''f'') then retR (ch - ord (CHR ''a'') + 10)
       else raiseR (Exception ERR_JSON_SYNTAX))"

definition read_hex_char :: "int reader" where
  "read_hex_char =
     bindR read_hex_digit (\<lambda>a.
     bindR read_hex_digit (\<lambda>b.
     bindR read_hex_digit (\<lambda>c.
     bindR read_hex_digit (\<lambda>d.
     retR (((push_bit 12 a OR push_bit 8 b) OR push_bit 4 c) OR d)))))"

definition utf8_of :: "int \<Rightarrow> byte list" where
  "utf8_of ch =
     (if ch < 0x80 then [word_of_int ch]
      else if ch < 0x800 then
        [word_of_int (drop_bit 6 ch OR 0xc0), word_of_int ((ch AND 0x3f) OR 0x80)]
      else
        [word_of_int (drop_bit 12 ch OR 0xe0), word_of_int ((drop_bit 6 ch AND 0x3f) OR 0x80),
         word_of_int ((ch AND 0x3f) OR 0x80)])"

definition read_esc_char :: "byte list reader" where
  "read_esc_char =
     bindR read_stream (\<lambda>ch.
     bindR (if ch = 34 \<or> ch = 92 \<or> ch = ord (CHR ''/'') then retR ch
            else if ch = ord (CHR ''b'') then retR 8
            else if ch = ord (CHR ''f'') then retR 12
            else if ch = ord (CHR ''n'') then retR 10
            else if ch = ord (CHR ''r'') then retR 13
            else if ch = ord (CHR ''t'') then retR 9
            else if ch = ord (CHR ''u'') then read_hex_char
            else raiseR (Exception ERR_JSON_SYNTAX)) (\<lambda>ch.
     retR (utf8_of ch)))"

lemma shrinks_ignore_whitespace [reader_shrink]: "shrinks (ignore_whitespace ch)"
proof (rule shrinksI)
  fix s x s'
  assume "ignore_whitespace ch s = Inr (x, s')"
  then show "length s' \<le> length s"
    by (induction ch s rule: ignore_whitespace.induct) (auto split: if_splits)
qed

lemma shrinks_read_whitespace [reader_shrink]: "shrinks read_whitespace"
  by (rule shrinksI) (auto simp: read_whitespace_def length_dropWhile_le)

lemma shrinks_check_char [reader_shrink]: "shrinks (check_char ch ex)"
  by (simp add: check_char_def reader_shrink)

lemma shrinks_json_test_char [reader_shrink]: "shrinks (json_test_char x)"
  unfolding json_test_char_def by (intro reader_shrink)

lemma shrinks_json_test_chars [reader_shrink]: "shrinks (json_test_chars cs)"
  unfolding json_test_chars_def by (induction cs) (auto intro!: reader_shrink)

lemma shrinks_json_peek [reader_shrink]: "shrinks json_peek"
  unfolding json_peek_def by (intro reader_shrink)

lemma shrinks_read_token [reader_shrink]: "shrinks read_token"
  unfolding read_token_def by (intro reader_shrink)

lemma shrinks_read_hex_digit [reader_shrink]: "shrinks read_hex_digit"
  unfolding read_hex_digit_def by (intro reader_shrink)

lemma shrinks_read_esc_char [reader_shrink]: "shrinks read_esc_char"
  unfolding read_esc_char_def read_hex_char_def by (intro reader_shrink)

text \<open>The characters of a string up to the closing quote, added to \<open>buf\<close>.\<close>

function json_read_chars :: "byte list \<Rightarrow> byte list reader" where
  "json_read_chars acc s =
     bindR read_stream (\<lambda>ch s1.
       if ch < 0 then raiseR (Exception ERR_JSON_SYNTAX) s1
       else if ch = 34 then retR acc s1
       else if ch = 92 then bindR read_esc_char (\<lambda>utf8 s2. json_read_chars (acc @ utf8) s2) s1
       else json_read_chars (acc @ [word_of_int ch]) s1) s"
  by pat_completeness auto
termination
proof (relation "measure (\<lambda>(acc, s). length s)", goal_cases)
  case (2 acc s ch s1 utf8 s2)
  then show ?case
    by (cases s) (auto dest: shrinksD [OF shrinks_read_esc_char])
next
  case (3 acc s ch s1)
  then show ?case by (cases s) auto
qed simp

declare json_read_chars.simps [simp del]

text \<open>
  \<open>json_read_string\<close> stores what fits into the array \<open>str\<close> of \<open>size\<close> bytes and counts
  all: \<open>i\<close> is the count.
\<close>

definition str_store :: "nat \<Rightarrow> byte \<Rightarrow> nat \<times> byte list \<Rightarrow> nat \<times> byte list" where
  "str_store sz b st = (Suc (fst st), if fst st < sz - 1 then (snd st)[fst st := b] else snd st)"

function json_read_string_loop :: "nat \<Rightarrow> nat \<times> byte list \<Rightarrow> (nat \<times> byte list) reader" where
  "json_read_string_loop sz st s =
     bindR read_stream (\<lambda>ch s1.
       if ch < 0 then raiseR (Exception ERR_JSON_SYNTAX) s1
       else if ch = 34 then retR st s1
       else if ch = 92 then
         bindR read_esc_char (\<lambda>utf8 s2. json_read_string_loop sz (fold (str_store sz) utf8 st) s2) s1
       else json_read_string_loop sz (str_store sz (word_of_int ch) st) s1) s"
  by pat_completeness auto
termination
proof (relation "measure (\<lambda>(sz, st, s). length s)", goal_cases)
  case (2 sz st s ch s1 utf8 s2)
  then show ?case
    by (cases s) (auto dest: shrinksD [OF shrinks_read_esc_char])
next
  case (3 sz st s ch s1)
  then show ?case by (cases s) auto
qed simp

declare json_read_string_loop.simps [simp del]

definition json_read_string :: "byte list \<Rightarrow> (int \<times> byte list) reader" where
  "json_read_string arr =
     (let sz = length arr in
      bindR read_token (\<lambda>ch.
        if ch = ord (CHR ''n'') then seqR (json_test_chars ''ull'') (retR (-1, arr[0 := 0]))
        else if ch \<noteq> 34 then raiseR (Exception ERR_PROTOCOL)
        else bindR (json_read_string_loop sz (0, arr)) (\<lambda>(i, arr1).
          retR (int i, if i < sz then arr1[i := 0] else arr1[sz - 1 := 0]))))"

text \<open>The C string in an array.\<close>

definition cstr :: "byte list \<Rightarrow> byte list" where
  "cstr arr = takeWhile (\<lambda>b. b \<noteq> 0) arr"

text \<open>The allocated string, without its terminating zero; \<open>None\<close> is the null pointer.\<close>

definition json_read_alloc_string :: "byte list option reader" where
  "json_read_alloc_string =
     bindR read_token (\<lambda>ch.
       if ch = ord (CHR ''n'') then seqR (json_test_chars ''ull'') (retR None)
       else if ch \<noteq> 34 then raiseR (Exception ERR_PROTOCOL)
       else bindR (json_read_chars []) (\<lambda>b. retR (Some b)))"

section \<open>Booleans and numbers\<close>

definition json_read_boolean :: "bool reader" where
  "json_read_boolean =
     bindR read_token (\<lambda>ch.
       if ch = ord (CHR ''t'') then seqR (json_test_chars ''rue'') (retR True)
       else if ch = ord (CHR ''f'') then seqR (json_test_chars ''alse'') (retR False)
       else raiseR (Exception ERR_JSON_SYNTAX))"

definition is_digit :: "int \<Rightarrow> bool" where
  "is_digit ch \<longleftrightarrow> \<not> (ch < ord (CHR ''0'') \<or> ch > ord (CHR ''9''))"

text \<open>The first digit and the sign before it.\<close>

definition read_sign :: "(bool \<times> int) reader" where
  "read_sign =
     bindR read_token (\<lambda>ch.
       if ch = ord (CHR ''-'') then bindR read_stream (\<lambda>ch. retR (True, ch)) else retR (False, ch))"

text \<open>Signed accumulation overflows where the value leaves 64 bits; unsigned accumulation wraps.\<close>

fun read_long_loop :: "int \<Rightarrow> int reader" where
  "read_long_loop res [] = Inr (res, [])"
| "read_long_loop res (ch # s) =
     (if \<not> is_digit ch then Inr (res, ch # s)
      else if res * 10 + (ch - ord (CHR ''0'')) > INT64_MAX then Inl Undefined
      else read_long_loop (res * 10 + (ch - ord (CHR ''0''))) s)"

fun read_ulong_loop :: "u64 \<Rightarrow> u64 reader" where
  "read_ulong_loop res [] = Inr (res, [])"
| "read_ulong_loop res (ch # s) =
     (if \<not> is_digit ch then Inr (res, ch # s)
      else read_ulong_loop (res * 10 + word_of_int (ch - ord (CHR ''0''))) s)"

definition json_read_long :: "int reader" where
  "json_read_long =
     bindR read_sign (\<lambda>(neg, ch).
       if \<not> is_digit ch then raiseR (Exception ERR_JSON_SYNTAX)
       else bindR (read_long_loop (ch - ord (CHR ''0''))) (\<lambda>res. retR (if neg then - res else res)))"

definition json_read_ulong :: "u64 reader" where
  "json_read_ulong =
     bindR read_sign (\<lambda>(neg, ch).
       if \<not> is_digit ch then raiseR (Exception ERR_JSON_SYNTAX)
       else bindR (read_ulong_loop (word_of_int (ch - ord (CHR ''0''))))
         (\<lambda>res. retR (if neg then NOT res + 1 else res)))"

definition json_read_int64 :: "int reader" where
  "json_read_int64 =
     bindR read_sign (\<lambda>(neg, ch).
       if \<not> is_digit ch then raiseR (Exception ERR_JSON_SYNTAX)
       else bindR (read_long_loop (ch - ord (CHR ''0''))) (\<lambda>res. retR (if neg then - res else res)))"

definition json_read_uint64 :: "u64 reader" where
  "json_read_uint64 =
     bindR read_sign (\<lambda>(neg, ch).
       if \<not> is_digit ch then raiseR (Exception ERR_JSON_SYNTAX)
       else bindR (read_ulong_loop (word_of_int (ch - ord (CHR ''0''))))
         (\<lambda>res. retR (if neg then NOT res + 1 else res)))"

section \<open>Structures and arrays\<close>

text \<open>
  The callback of the client reads one field or element and updates the state \<open>'a\<close> that
  \<open>arg\<close> points to. Every turn of the loops consumes an item, so the number of items left bounds
  the turns: it is the fuel, and \<open>json_read_struct_fuel\<close> and \<open>json_read_array_fuel\<close> below
  show that it suffices.
\<close>

primrec json_struct_loop :: "(byte list \<Rightarrow> 'a \<Rightarrow> 'a reader) \<Rightarrow> nat \<Rightarrow> 'a \<Rightarrow> 'a reader" where
  "json_struct_loop call_back 0 arg = raiseR Out_of_fuel"
| "json_struct_loop call_back (Suc n) arg =
     bindR (json_read_string (replicate 256 0)) (\<lambda>(_, nm).
     seqR read_whitespace (
     seqR (json_test_char (ord (CHR '':''))) (
     bindR (call_back (cstr nm) arg) (\<lambda>arg.
     bindR read_token (\<lambda>ch.
       if ch = ord (CHR '','') then json_struct_loop call_back n arg
       else seqR (check_char ch (ord (CHR ''}''))) (retR arg))))))"

definition json_read_struct :: "(byte list \<Rightarrow> 'a \<Rightarrow> 'a reader) \<Rightarrow> 'a \<Rightarrow> (bool \<times> 'a) reader" where
  "json_read_struct call_back arg =
     bindR read_token (\<lambda>ch.
       if ch = ord (CHR ''n'') then seqR (json_test_chars ''ull'') (retR (False, arg))
       else if ch \<noteq> ord (CHR ''{'') then raiseR (Exception ERR_PROTOCOL)
       else bindR json_peek (\<lambda>ch.
         if ch = ord (CHR ''}'') then seqR read_stream (retR (True, arg))
         else (\<lambda>s. bindR (json_struct_loop call_back (Suc (length s)) arg) (\<lambda>arg. retR (True, arg)) s)))"

primrec json_array_loop :: "('a \<Rightarrow> 'a reader) \<Rightarrow> nat \<Rightarrow> 'a \<Rightarrow> 'a reader" where
  "json_array_loop call_back 0 arg = raiseR Out_of_fuel"
| "json_array_loop call_back (Suc n) arg =
     bindR (call_back arg) (\<lambda>arg.
     bindR read_token (\<lambda>ch.
       if ch = ord (CHR '','') then json_array_loop call_back n arg
       else seqR (check_char ch (ord (CHR '']''))) (retR arg)))"

definition json_read_array :: "('a \<Rightarrow> 'a reader) \<Rightarrow> 'a \<Rightarrow> (bool \<times> 'a) reader" where
  "json_read_array call_back arg =
     bindR read_token (\<lambda>ch.
       if ch = ord (CHR ''n'') then seqR (json_test_chars ''ull'') (retR (False, arg))
       else if ch \<noteq> ord (CHR ''['') then raiseR (Exception ERR_PROTOCOL)
       else bindR json_peek (\<lambda>ch.
         if ch = ord (CHR '']'') then seqR read_stream (retR (True, arg))
         else (\<lambda>s. bindR (json_array_loop call_back (Suc (length s)) arg) (\<lambda>arg. retR (True, arg)) s)))"

text \<open>
  \<open>json_read_alloc_string_array\<close>: the strings go one after another into \<open>buf\<close>, each with
  a terminating zero, their lengths into \<open>len_buf\<close>. A null element is stored as an empty
  string.
\<close>

definition json_string_elem :: "byte list \<times> nat list \<Rightarrow> (byte list \<times> nat list) reader" where
  "json_string_elem st =
     (let (buf, len_buf) = st in
      bindR read_token (\<lambda>ch.
      bindR (if ch = ord (CHR ''n'') then seqR (json_test_chars ''ull'') (retR (buf, 0))
             else if ch \<noteq> 34 then raiseR (Exception ERR_PROTOCOL)
             else bindR (json_read_chars buf) (\<lambda>buf1. retR (buf1, length buf1 - length buf)))
        (\<lambda>(buf1, len). retR (buf1 @ [0], len_buf @ [len]))))"

primrec str_offsets :: "nat \<Rightarrow> nat list \<Rightarrow> nat list" where
  "str_offsets j [] = []"
| "str_offsets j (len # lens) = j # str_offsets (j + len + 1) lens"

definition json_read_alloc_string_array :: "(nat list \<times> byte list) option reader" where
  "json_read_alloc_string_array =
     bindR read_token (\<lambda>ch.
       if ch = ord (CHR ''n'') then seqR (json_test_chars ''ull'') (retR None)
       else if ch \<noteq> ord (CHR ''['') then raiseR (Exception ERR_PROTOCOL)
       else
         bindR (bindR json_peek (\<lambda>ch.
             if ch = ord (CHR '']'') then seqR read_stream (retR ([], []))
             else (\<lambda>s. json_array_loop json_string_elem (Suc (length s)) ([], []) s)))
           (\<lambda>(buf, len_buf). retR (Some (str_offsets 0 len_buf, buf @ [0]))))"

section \<open>Binary data\<close>

text \<open>The first \<open>rem\<close> bytes of the array \<open>buf\<close> of the state are the list \<open>rb_buf\<close>.\<close>

record JsonReadBinaryState =
  rb_encoding :: nat
  rb_size_start :: nat
  rb_size_done :: nat
  rb_buf :: "byte list"

definition json_read_binary_start :: "JsonReadBinaryState reader" where
  "json_read_binary_start =
     bindR read_token (\<lambda>ch.
       if ch = ord (CHR ''('') then
         bindR json_read_ulong (\<lambda>n.
         seqR (json_test_char (ord (CHR '')'')))
           (retR \<lparr>rb_encoding = ENCODING_BINARY, rb_size_start = unat n, rb_size_done = 0, rb_buf = []\<rparr>))
       else if ch = 34 then
         retR \<lparr>rb_encoding = ENCODING_BASE64, rb_size_start = 0, rb_size_done = 0, rb_buf = []\<rparr>
       else if ch = ord (CHR ''n'') then
         seqR (json_test_chars ''ull'')
           (retR \<lparr>rb_encoding = ENCODING_BINARY, rb_size_start = 0, rb_size_done = 0, rb_buf = []\<rparr>)
       else raiseR (Exception ERR_JSON_SYNTAX))"

text \<open>Raw bytes, whatever the stream delivers: the markers are not checked for.\<close>

primrec read_raw :: "nat \<Rightarrow> byte list reader" where
  "read_raw 0 = retR []"
| "read_raw (Suc n) = bindR read_stream (\<lambda>c. bindR (read_raw n) (\<lambda>bs. retR (word_of_int c # bs)))"

text \<open>The result has the bytes kept in the state, the bytes delivered and whether the function
  returned from inside the loop, before \<open>size_done\<close> is updated.\<close>

function json_read_binary_loop ::
    "byte list \<Rightarrow> byte list \<Rightarrow> nat \<Rightarrow> (byte list \<times> byte list \<times> bool) reader" where
  "json_read_binary_loop rem res len =
     (if len = 0 then retR (rem, res, False)
      else
        let i = min (length rem) len;
            res1 = res @ take i rem;
            len1 = len - i
        in
        if i < length rem then retR (drop i rem, res1, True)
        else if len1 \<ge> 3 then
          bindR (read_base64 len1) (\<lambda>bs.
            if bs = [] then retR ([], res1, False)
            else json_read_binary_loop [] (res1 @ bs) (len1 - length bs))
        else
          bindR (read_base64 3) (\<lambda>bs.
            if bs = [] then retR ([], res1, False)
            else json_read_binary_loop bs res1 len1))"
  by pat_completeness auto
termination
  by (relation "measures [\<lambda>(rem, res, len). len, \<lambda>(rem, res, len). if rem = [] then 1 else 0]") auto

declare json_read_binary_loop.simps [simp del]

definition json_read_binary_data ::
    "JsonReadBinaryState \<Rightarrow> nat \<Rightarrow> (byte list \<times> JsonReadBinaryState) reader" where
  "json_read_binary_data state len =
     (if rb_encoding state = ENCODING_BINARY then
        let len = min len (rb_size_start state - rb_size_done state)
        in bindR (read_raw len) (\<lambda>bs.
             retR (bs, state\<lparr>rb_size_done := rb_size_done state + length bs\<rparr>))
      else
        bindR (json_read_binary_loop (rb_buf state) [] len) (\<lambda>(rem, res, early).
          retR (res, if early then state\<lparr>rb_buf := rem\<rparr>
                     else state\<lparr>rb_buf := rem, rb_size_done := rb_size_done state + length res\<rparr>)))"

definition json_read_binary_end :: "JsonReadBinaryState \<Rightarrow> unit reader" where
  "json_read_binary_end state =
     (if rb_buf state \<noteq> [] then raiseR (Exception ERR_JSON_SYNTAX)
      else if rb_encoding state = ENCODING_BINARY then
        (if rb_size_start state = rb_size_done state then retR () else raiseR Assertion)
      else json_test_char 34)"

text \<open>\<open>realloc_buf\<close>, and the loop that fills \<open>buf\<close>, which has \<open>buf_size\<close> bytes from
  earlier calls.\<close>

definition realloc_buf :: "nat \<Rightarrow> nat" where
  "realloc_buf buf_size = (if buf_size = 0 then 0x1000 else buf_size * 2)"

primrec json_alloc_binary_loop ::
    "nat \<Rightarrow> nat \<Rightarrow> JsonReadBinaryState \<Rightarrow> byte list \<Rightarrow> (byte list \<times> JsonReadBinaryState) reader" where
  "json_alloc_binary_loop 0 buf_size state buf = raiseR Out_of_fuel"
| "json_alloc_binary_loop (Suc n) buf_size state buf =
     (let buf_size = (if length buf \<ge> buf_size then realloc_buf buf_size else buf_size) in
      bindR (json_read_binary_data state (buf_size - length buf)) (\<lambda>(rd, state).
        if length rd = 0 then retR (buf, state)
        else json_alloc_binary_loop n buf_size state (buf @ rd)))"

definition json_read_alloc_binary :: "nat \<Rightarrow> byte list option reader" where
  "json_read_alloc_binary buf_size =
     bindR json_peek (\<lambda>ch.
       if ch = ord (CHR ''n'') then
         seqR read_stream (seqR (json_test_chars ''ull'') (retR None))
       else
         bindR json_read_binary_start (\<lambda>state.
         bindR (\<lambda>s. json_alloc_binary_loop (Suc (length s + rb_size_start state)) buf_size state [] s)
           (\<lambda>(buf, state).
         if rb_size_start state \<le> 0 \<or> length buf = rb_size_start state
         then seqR (json_read_binary_end state) (retR (Some buf))
         else raiseR Assertion)))"

section \<open>Copying a JSON value\<close>

definition skip_char :: "byte list \<Rightarrow> (int \<times> byte list) reader" where
  "skip_char buf =
     bindR read_stream (\<lambda>ch.
       if ch < 0 then raiseR (Exception ERR_JSON_SYNTAX) else retR (ch, buf @ [word_of_int ch]))"

lemma shrinks_skip_char [reader_shrink]: "shrinks (skip_char buf)"
  unfolding skip_char_def by (intro reader_shrink)

definition skip_check :: "int \<Rightarrow> byte list \<Rightarrow> byte list reader" where
  "skip_check ex buf = bindR (skip_char buf) (\<lambda>(ch, buf). seqR (check_char ch ex) (retR buf))"

definition skip_checks :: "string \<Rightarrow> byte list \<Rightarrow> byte list reader" where
  "skip_checks cs = foldr (\<lambda>c m buf. bindR (skip_check (of_char c) buf) m) cs retR"

function skip_string :: "byte list \<Rightarrow> byte list reader" where
  "skip_string buf s =
     bindR read_stream (\<lambda>ch s1.
       if ch < 0 then raiseR (Exception ERR_JSON_SYNTAX) s1
       else if ch = 34 then retR (buf @ [word_of_int ch]) s1
       else if ch = 92 then
         bindR (skip_char (buf @ [word_of_int ch])) (\<lambda>r s2. skip_string (snd r) s2) s1
       else skip_string (buf @ [word_of_int ch]) s1) s"
  by pat_completeness auto
termination
proof (relation "measure (\<lambda>(buf, s). length s)", goal_cases)
  case (2 buf s ch s1 r s2)
  then show ?case
    by (cases s) (auto dest: shrinksD [OF shrinks_skip_char])
next
  case (3 buf s ch s1)
  then show ?case by (cases s) auto
qed simp

declare skip_string.simps [simp del]

definition number_char :: "int \<Rightarrow> bool" where
  "number_char ch \<longleftrightarrow> \<not> ((ch < ord (CHR ''0'') \<or> ch > ord (CHR ''9'')) \<and> ch \<noteq> ord (CHR ''.'') \<and>
     ch \<noteq> ord (CHR ''e'') \<and> ch \<noteq> ord (CHR ''E'') \<and> ch \<noteq> ord (CHR ''-'') \<and> ch \<noteq> ord (CHR ''+''))"

fun skip_number :: "byte list \<Rightarrow> byte list reader" where
  "skip_number buf [] = Inr (buf, [])"
| "skip_number buf (ch # s) =
     (if \<not> number_char ch then Inr (buf, ch # s) else skip_number (buf @ [word_of_int ch]) s)"

primrec skip_block :: "nat \<Rightarrow> byte list \<Rightarrow> byte list reader" where
  "skip_block 0 buf = retR buf"
| "skip_block (Suc n) buf =
     bindR read_stream (\<lambda>ch.
       if ch < 0 then raiseR (Exception ERR_JSON_SYNTAX) else skip_block n (buf @ [word_of_int ch]))"

text \<open>
  The recursive descent, one function per loop of the source. The fuel bounds the depth of the
  calls and the turns of the loops; \<open>skip_object_fuel\<close> below shows that twice the number of
  items left, and two, is enough.
\<close>

fun skip_object :: "nat \<Rightarrow> byte list \<Rightarrow> byte list reader"
  and skip_elements :: "nat \<Rightarrow> byte list \<Rightarrow> byte list reader"
  and skip_members :: "nat \<Rightarrow> byte list \<Rightarrow> byte list reader" where
  "skip_object 0 buf = raiseR Out_of_fuel"
| "skip_object (Suc n) buf =
     seqR read_whitespace (
     bindR (skip_char buf) (\<lambda>(ch, buf).
       if ch = ord (CHR ''n'') then skip_checks ''ull'' buf
       else if ch = ord (CHR ''f'') then skip_checks ''alse'' buf
       else if ch = ord (CHR ''t'') then skip_checks ''rue'' buf
       else if ch = 34 then skip_string buf
       else if ch = ord (CHR ''-'') \<or> is_digit ch then skip_number buf
       else if ch = ord (CHR ''['') then
         bindR json_peek (\<lambda>ch.
           if ch = ord (CHR '']'') then bindR (skip_char buf) (\<lambda>(_, buf). retR buf)
           else skip_elements n buf)
       else if ch = ord (CHR ''{'') then
         bindR json_peek (\<lambda>ch.
           if ch = ord (CHR ''}'') then bindR (skip_char buf) (\<lambda>(_, buf). retR buf)
           else skip_members n buf)
       else if ch = ord (CHR ''('') then
         bindR json_read_ulong (\<lambda>size.
         bindR (skip_check (ord (CHR '')'')) buf) (skip_block (unat size)))
       else raiseR (Exception ERR_JSON_SYNTAX)))"
| "skip_elements 0 buf = raiseR Out_of_fuel"
| "skip_elements (Suc n) buf =
     bindR (skip_object n buf) (\<lambda>buf.
     seqR read_whitespace (
     bindR (skip_char buf) (\<lambda>(ch, buf).
       if ch = ord (CHR '','') then skip_elements n buf
       else seqR (check_char ch (ord (CHR '']''))) (retR buf))))"
| "skip_members 0 buf = raiseR Out_of_fuel"
| "skip_members (Suc n) buf =
     bindR (skip_object n buf) (\<lambda>buf.
     seqR read_whitespace (
     bindR (skip_check (ord (CHR '':'')) buf) (\<lambda>buf.
     bindR (skip_object n buf) (\<lambda>buf.
     seqR read_whitespace (
     bindR (skip_char buf) (\<lambda>(ch, buf).
       if ch = ord (CHR '','') then skip_members n buf
       else seqR (check_char ch (ord (CHR ''}''))) (retR buf)))))))"

definition skip_fuel :: "istream \<Rightarrow> nat" where
  "skip_fuel s = 2 * length s + 2"

definition json_read_object :: "byte list reader" where
  "json_read_object s = skip_object (skip_fuel s) [] s"

definition json_skip_object :: "unit reader" where
  "json_skip_object s = seqR (skip_object (skip_fuel s) []) (retR ()) s"

section \<open>Error reports\<close>

text \<open>
  The report under construction is \<open>None\<close> until the first field is read. New properties go to
  the head of the list. \<open>set_error_report_errno\<close> (errors.c), which registers a report and
  returns the number that stands for it, is a parameter.
\<close>

definition create_error_report :: ErrorReport where
  "create_error_report =
     \<lparr>er_code = 0, er_format = None, er_params = [], er_props = [], er_time_stamp = 0\<rparr>"

definition read_errno_param :: "ErrorReport \<Rightarrow> ErrorReport reader" where
  "read_errno_param err =
     bindR json_read_object (\<lambda>p. retR (err\<lparr>er_params := er_params err @ [p]\<rparr>))"

definition read_error_field :: "byte list \<Rightarrow> ErrorReport option \<Rightarrow> ErrorReport option reader" where
  "read_error_field name rep =
     (let err = (case rep of None \<Rightarrow> create_error_report | Some r \<Rightarrow> r) in
      if name = bytes_of ''Code'' then
        bindR json_read_long (\<lambda>n. retR (Some (err\<lparr>er_code := sint (word_of_int n :: u32)\<rparr>)))
      else if name = bytes_of ''Time'' then
        bindR json_read_uint64 (\<lambda>n. retR (Some (err\<lparr>er_time_stamp := n\<rparr>)))
      else if name = bytes_of ''Format'' then
        bindR json_read_alloc_string (\<lambda>f. retR (Some (err\<lparr>er_format := f\<rparr>)))
      else if name = bytes_of ''Params'' then
        bindR (json_read_array read_errno_param err) (\<lambda>(_, err). retR (Some err))
      else
        bindR json_read_object (\<lambda>v.
          retR (Some (err\<lparr>er_props := \<lparr>eri_name = name, eri_value = v\<rparr> # er_props err\<rparr>))))"

definition read_error_object :: "(ErrorReport \<Rightarrow> int) \<Rightarrow> int reader" where
  "read_error_object set_error_report_errno =
     bindR read_token (\<lambda>ch.
       if ch = ord (CHR ''n'') then seqR (json_test_chars ''ull'') (retR 0)
       else
         seqR (check_char ch (ord (CHR ''{''))) (
         bindR (bindR json_peek (\<lambda>ch.
             if ch = ord (CHR ''}'') then seqR read_stream (retR None)
             else (\<lambda>s. json_struct_loop read_error_field (Suc (length s)) None s)))
           (\<lambda>rep. case rep of
              None \<Rightarrow> retR 0
            | Some err \<Rightarrow> retR (if er_code err \<noteq> 0 then set_error_report_errno err else 0))))"

definition read_errno :: "(ErrorReport \<Rightarrow> int) \<Rightarrow> int reader" where
  "read_errno set_error_report_errno =
     bindR (bindR json_peek (\<lambda>ch.
         if ch \<noteq> MARKER_EOA then read_error_object set_error_report_errno else retR 0))
       (\<lambda>no. seqR (json_test_char MARKER_EOA) (retR no))"

end
