(* ===== verification/Json_Roundtrip.thy ===== *)
theory Json_Roundtrip
  imports Json_Read
begin

text \<open>
  What the readers of json.c return on the text the writers produce: strings, numbers, binary
  data, whole JSON values and error reports come back, and reading stops exactly where the text
  ends. Also: the loops of the readers end, whatever the input.
\<close>

section \<open>Tokens\<close>

lemma read_token_plain [reader_simps]: "\<not> isspace c \<Longrightarrow> read_token (c # s) = Inr (c, s)"
  by (cases s) (simp_all add: read_token_def bindR_apply)

lemma read_token_space: "isspace c \<Longrightarrow> read_token (c # s) = read_token s"
  by (cases s) (auto simp: read_token_def bindR_apply isspace_def)

lemma read_token_spaces: "\<forall>c \<in> set ws. isspace c \<Longrightarrow> read_token (ws @ s) = read_token s"
  by (induction ws) (simp_all add: read_token_space)

lemma json_test_char_token: "x \<noteq> MARKER_EOM \<Longrightarrow> json_test_char x = bindR read_token (\<lambda>ch. check_char ch x)"
  by (simp add: json_test_char_def read_token_def bindR_assoc)

lemma json_test_char_hit [reader_simps]:
  "\<not> isspace c \<Longrightarrow> json_test_char c (c # s) = Inr ((), s)"
  by (cases s) (simp_all add: json_test_char_def reader_simps check_char_def)

lemma read_whitespace_plain [reader_simps]: "\<not> isspace c \<Longrightarrow> read_whitespace (c # s) = Inr ((), c # s)"
  by (simp add: read_whitespace_def)

lemma json_peek_plain [reader_simps]: "\<not> isspace c \<Longrightarrow> json_peek (c # s) = Inr (c, c # s)"
  by (simp add: json_peek_def seqR_apply read_whitespace_plain)

lemma json_test_chars_hit [reader_simps]:
  "\<forall>c \<in> set cs. \<not> isspace (of_char c) \<Longrightarrow> json_test_chars cs (str cs @ s) = Inr ((), s)"
  by (induction cs) (simp_all add: json_test_chars_def reader_simps)

section \<open>Numbers\<close>

definition dec_val :: "int \<Rightarrow> int list \<Rightarrow> int" where
  "dec_val = foldl (\<lambda>r c. r * 10 + (c - 48))"

definition no_digit :: "istream \<Rightarrow> bool" where
  "no_digit rest \<longleftrightarrow> rest = [] \<or> \<not> is_digit (hd rest)"

lemma dec_val_digits: "dec_val 0 (dec_digits n) = int n"
proof (induction n rule: dec_digits.induct)
  case (1 n)
  have "int (n div 10) * 10 + int (n mod 10) = int n"
    using div_mult_mod_eq [of n 10] by linarith
  with 1 show ?case
    by (subst dec_digits.simps) (auto simp: dec_val_def)
qed

lemma dec_digits_is_digit: "\<forall>c \<in> set (dec_digits n). is_digit c"
  using dec_digits_range by (fastforce simp: is_digit_def)

lemma dec_val_mono: "0 \<le> r \<Longrightarrow> \<forall>c \<in> set ds. is_digit c \<Longrightarrow> r \<le> dec_val r ds"
proof (induction ds arbitrary: r)
  case (Cons c ds)
  then have "r \<le> r * 10 + (c - 48)" "0 \<le> r * 10 + (c - 48)" by (auto simp: is_digit_def)
  with Cons.IH [of "r * 10 + (c - 48)"] Cons.prems show ?case
    by (simp add: dec_val_def)
qed (simp add: dec_val_def)

lemma read_long_loop_digits:
  assumes "0 \<le> r" "\<forall>c \<in> set ds. is_digit c" "dec_val r ds \<le> INT64_MAX"
  shows "read_long_loop r (ds @ s) = read_long_loop (dec_val r ds) s"
  using assms
proof (induction ds arbitrary: r)
  case (Cons c ds)
  let ?r = "r * 10 + (c - 48)"
  have c: "is_digit c" "0 \<le> ?r" using Cons.prems by (auto simp: is_digit_def)
  have v: "dec_val r (c # ds) = dec_val ?r ds" by (simp add: dec_val_def)
  then have "?r \<le> INT64_MAX"
    using dec_val_mono [OF c(2), of ds] Cons.prems by simp
  with Cons c v show ?case by simp
qed (simp add: dec_val_def)

lemma read_long_loop_stop: "no_digit rest \<Longrightarrow> read_long_loop r rest = Inr (r, rest)"
  by (cases rest) (simp_all add: no_digit_def)

lemma read_ulong_loop_digits:
  "\<forall>c \<in> set ds. is_digit c \<Longrightarrow>
    read_ulong_loop (word_of_int r) (ds @ s) = read_ulong_loop (word_of_int (dec_val r ds)) s"
proof (induction ds arbitrary: r)
  case (Cons c ds)
  have "word_of_int r * 10 + word_of_int (c - 48) = (word_of_int (r * 10 + (c - 48)) :: u64)"
    by simp
  with Cons.IH [of "r * 10 + (c - 48)"] Cons.prems show ?case
    by (simp add: dec_val_def del: of_int_add of_int_diff of_int_mult)
qed (simp add: dec_val_def)

lemma read_ulong_loop_stop: "no_digit rest \<Longrightarrow> read_ulong_loop r rest = Inr (r, rest)"
  by (cases rest) (simp_all add: no_digit_def)

lemma dec_digits_Cons:
  obtains c cs where "dec_digits n = c # cs" "is_digit c" "\<forall>c \<in> set cs. is_digit c"
    "dec_val (c - 48) cs = int n"
proof -
  obtain c cs where n: "dec_digits n = c # cs"
    using dec_digits_nonempty by (cases "dec_digits n") blast+
  with dec_digits_is_digit [of n] dec_val_digits [of n] that show ?thesis
    by (simp add: dec_val_def)
qed

lemma digit_not_space: "is_digit c \<Longrightarrow> \<not> isspace c \<and> c \<noteq> 45 \<and> 48 \<le> c"
  by (auto simp: is_digit_def isspace_def)

lemma json_read_long_dec:
  assumes "INT64_MIN < n" "n \<le> INT64_MAX" "no_digit rest"
  shows "json_read_long (dec_int n @ rest) = Inr (n, rest)"
proof -
  obtain c cs where d: "dec_digits (nat \<bar>n\<bar>) = c # cs" "is_digit c" "\<forall>c \<in> set cs. is_digit c"
      "dec_val (c - 48) cs = \<bar>n\<bar>"
    by (rule dec_digits_Cons [of "nat \<bar>n\<bar>"]) simp
  have "read_long_loop (c - 48) (cs @ rest) = Inr (\<bar>n\<bar>, rest)"
    using read_long_loop_digits [of "c - 48" cs rest] d digit_not_space [OF d(2)] assms
    by (simp add: read_long_loop_stop abs_le_iff)
  with d digit_not_space [OF d(2)] show ?thesis
    by (cases "n < 0")
      (simp_all add: json_read_long_def read_sign_def dec_int_def reader_simps isspace_def)
qed

lemma json_read_int64_eq: "json_read_int64 = json_read_long"
  by (simp add: json_read_int64_def json_read_long_def)

lemma json_read_ulong_dec:
  assumes "no_digit rest"
  shows "json_read_ulong (dec_digits (unat n) @ rest) = Inr (n, rest)"
proof -
  obtain c cs where d: "dec_digits (unat n) = c # cs" "is_digit c" "\<forall>c \<in> set cs. is_digit c"
      "dec_val (c - 48) cs = int (unat n)"
    by (rule dec_digits_Cons)
  have "read_ulong_loop (word_of_int (c - 48)) (cs @ rest) = Inr (n, rest)"
    using read_ulong_loop_digits [OF d(3), of "c - 48" rest] d(4) assms
    by (simp add: read_ulong_loop_stop)
  with d digit_not_space [OF d(2)] show ?thesis
    by (simp add: json_read_ulong_def read_sign_def reader_simps)
qed

lemma json_read_uint64_eq: "json_read_uint64 = json_read_ulong"
  by (simp add: json_read_uint64_def json_read_ulong_def)

section \<open>Strings\<close>

lemma and_15_mod: "(n :: int) AND 15 = n mod 16"
  using take_bit_eq_mask [of 4 n] by (simp add: take_bit_eq_mod mask_eq_exp_minus_1)

lemma read_hex_digit_hit: "read_hex_digit (hex_digit n # s) = Inr (n mod 16, s)"
  using pos_mod_bound [of 16 n] pos_mod_sign [of 16 n]
  by (auto simp: read_hex_digit_def hex_digit_def reader_simps and_15_mod Let_def)

lemma read_hex_char_hit:
  assumes "0 \<le> n" "n < 256"
  shows "read_hex_char (48 # 48 # hex_digit (drop_bit 4 n) # hex_digit n # s) = Inr (n, s)"
proof -
  have "n div 16 < 16" using assms by linarith
  then have "push_bit 4 (n div 16 mod 16) OR (n mod 16) = n"
    using or_push_bit_add [of "n mod 16" 4 "n div 16"] assms by simp
  moreover have "read_hex_digit (48 # t) = Inr (0, t)" for t
    by (simp add: read_hex_digit_def reader_simps)
  ultimately show ?thesis
    by (simp add: read_hex_char_def reader_simps read_hex_digit_hit drop_bit_eq_div)
qed

lemma read_esc_char_escape:
  assumes "escaped b"
  shows "\<exists>e. json_escape b = 92 # e \<and> read_esc_char (e @ s) = Inr ([b], s)"
proof -
  have b: "word_of_int (uint b) = b" "uint b < 128" using assms by (auto simp: escaped_iff)
  from b(2) have "utf8_of (uint b) = [b]" by (simp add: utf8_of_def)
  moreover from this b have "uint b = k \<Longrightarrow> utf8_of k = [b]" for k by simp
  ultimately show ?thesis
    using assms read_hex_char_hit [of "uint b" s]
    by (auto simp: json_escape_def read_esc_char_def reader_simps Let_def)
qed

lemma json_read_chars_escape:
  "json_read_chars acc (json_escape b @ s) = json_read_chars (acc @ [b]) s"
proof (cases "escaped b")
  case True
  with read_esc_char_escape [of b s] show ?thesis
    by (subst json_read_chars.simps) (auto simp: reader_simps)
next
  case False
  then show ?thesis
    by (subst json_read_chars.simps) (simp add: json_escape_def reader_simps escaped_iff)
qed

lemma json_read_chars_text:
  "json_read_chars acc (concat (map json_escape s) @ 34 # rest) = Inr (acc @ s, rest)"
proof (induction s arbitrary: acc)
  case Nil
  show ?case by (subst json_read_chars.simps) (simp add: reader_simps)
qed (simp add: json_read_chars_escape)

lemma json_read_alloc_string_text: "json_read_alloc_string (json_string s @ rest) = Inr (Some s, rest)"
  by (simp add: json_read_alloc_string_def json_string_def reader_simps json_read_chars_text isspace_def)

text \<open>
  The bounded reader stores a prefix of what the allocating reader returns: \<open>arr_holds sz arr acc\<close>
  says that the array has as much of \<open>acc\<close> as fits, one byte being kept for the zero.
\<close>

definition arr_holds :: "nat \<Rightarrow> byte list \<Rightarrow> byte list \<Rightarrow> bool" where
  "arr_holds sz arr acc \<longleftrightarrow>
     length arr = sz \<and> take (min (length acc) (sz - 1)) arr = take (sz - 1) acc"

lemma str_store_holds:
  assumes "arr_holds sz arr acc"
  shows "\<exists>arr'. str_store sz b (length acc, arr) = (length (acc @ [b]), arr') \<and> arr_holds sz arr' (acc @ [b])"
proof (cases "length acc < sz - 1")
  case True
  with assms have "take (length acc) arr = acc" "length acc < length arr"
    by (auto simp: arr_holds_def min_def)
  then have "take (Suc (length acc)) (arr[length acc := b]) = acc @ [b]"
    by (simp add: take_Suc_conv_app_nth)
  with True assms show ?thesis
    by (auto simp: str_store_def arr_holds_def min_def)
next
  case False
  then have "min (length acc) (sz - 1) = sz - 1" "min (length (acc @ [b])) (sz - 1) = sz - 1" by auto
  with False assms show ?thesis
    by (simp add: str_store_def arr_holds_def)
qed

lemma fold_str_store_holds:
  "arr_holds sz arr acc \<Longrightarrow> \<exists>arr'. fold (str_store sz) bs (length acc, arr) = (length (acc @ bs), arr') \<and>
    arr_holds sz arr' (acc @ bs)"
proof (induction bs arbitrary: arr acc)
  case (Cons b bs)
  from str_store_holds [OF Cons.prems, of b] obtain arr1 where
    "str_store sz b (length acc, arr) = (length (acc @ [b]), arr1)" "arr_holds sz arr1 (acc @ [b])"
    by blast
  with Cons.IH [of arr1 "acc @ [b]"] show ?case by simp
qed simp

lemmas read_chars_steps = json_read_chars.simps [of _ "[]"] json_read_chars.simps [of _ "_ # _"]
  json_read_string_loop.simps [of _ _ "[]"] json_read_string_loop.simps [of _ _ "_ # _"]

lemma json_read_string_loop_holds:
  assumes "arr_holds sz arr acc"
  shows "case json_read_chars acc s of
      Inl e \<Rightarrow> json_read_string_loop sz (length acc, arr) s = Inl e
    | Inr (b, s') \<Rightarrow> \<exists>arr'. json_read_string_loop sz (length acc, arr) s = Inr ((length b, arr'), s') \<and>
        arr_holds sz arr' b"
  using assms
proof (induction acc s arbitrary: arr rule: json_read_chars.induct)
  case (1 acc s)
  show ?case
  proof (cases s)
    case Nil
    then show ?thesis
      by (simp add: read_chars_steps reader_simps)
  next
    case (Cons ch s1)
    consider "ch < 0" | "ch = 34" | (esc) "ch = 92" | (plain) "\<not> ch < 0" "ch \<noteq> 34" "ch \<noteq> 92" by blast
    then show ?thesis
    proof cases
      case esc
      show ?thesis
      proof (cases "read_esc_char s1")
        case (Inl e)
        then show ?thesis using Cons esc
          by (simp add: read_chars_steps reader_simps)
      next
        case (Inr r)
        then obtain u s2 where u: "read_esc_char s1 = Inr (u, s2)" by (cases r) auto
        from fold_str_store_holds [OF 1(3), of u] obtain arr1 where
          a: "fold (str_store sz) u (length acc, arr) = (length (acc @ u), arr1)" "arr_holds sz arr1 (acc @ u)"
          by blast
        have e: "json_read_chars acc s = json_read_chars (acc @ u) s2"
          "json_read_string_loop sz (length acc, arr) s = json_read_string_loop sz (length (acc @ u), arr1) s2"
          using Cons esc u a(1) by (simp_all add: read_chars_steps reader_simps)
        have "read_stream s = Inr (ch, s1)" "\<not> ch < 0" "ch \<noteq> 34" using Cons esc by simp_all
        from 1(1) [OF this esc u a(2)] show ?thesis unfolding e .
      qed
    next
      case plain
      from str_store_holds [OF 1(3), of "word_of_int ch"] obtain arr1 where
        a: "str_store sz (word_of_int ch) (length acc, arr) = (length (acc @ [word_of_int ch]), arr1)"
           "arr_holds sz arr1 (acc @ [word_of_int ch])"
        by blast
      have e: "json_read_chars acc s = json_read_chars (acc @ [word_of_int ch]) s1"
        "json_read_string_loop sz (length acc, arr) s =
          json_read_string_loop sz (length (acc @ [word_of_int ch]), arr1) s1"
        using Cons plain a(1) by (simp_all add: read_chars_steps reader_simps)
      have "read_stream s = Inr (ch, s1)" using Cons by simp
      from 1(2) [OF this plain a(2)] show ?thesis unfolding e .
    qed (use Cons 1(3) in \<open>simp_all add: read_chars_steps reader_simps\<close>)
  qed
qed

lemma arr_holds_end:
  assumes "arr_holds sz arr b" "0 < sz"
  defines "arr' \<equiv> (if length b < sz then arr[length b := 0] else arr[sz - 1 := 0])"
  shows "length arr' = sz" "take (Suc (min (length b) (sz - 1))) arr' = take (sz - 1) b @ [0]"
proof -
  define k where "k = min (length b) (sz - 1)"
  have arr: "length arr = sz" "take k arr = take (sz - 1) b"
    using assms(1) by (simp_all add: arr_holds_def k_def)
  have "k = (if length b < sz then length b else sz - 1)"
    using assms(2) by (auto simp: k_def)
  then have k: "k < length arr" "take k arr = take (sz - 1) b" "arr' = arr[k := 0]"
    using arr assms(2) by (auto simp: arr'_def)
  then have "take (Suc k) arr' = take (sz - 1) b @ [0]"
    by (simp add: take_Suc_conv_app_nth)
  then show "take (Suc (min (length b) (sz - 1))) arr' = take (sz - 1) b @ [0]"
    by (simp add: k_def)
  show "length arr' = sz" using arr k(3) by simp
qed

lemma json_read_string_alloc:
  assumes "0 < length arr"
  shows "case json_read_alloc_string s of
      Inl e \<Rightarrow> json_read_string arr s = Inl e
    | Inr (None, s') \<Rightarrow> json_read_string arr s = Inr ((-1, arr[0 := 0]), s')
    | Inr (Some b, s') \<Rightarrow> \<exists>arr'. json_read_string arr s = Inr ((int (length b), arr'), s') \<and>
        length arr' = length arr \<and>
        take (Suc (min (length b) (length arr - 1))) arr' = take (length arr - 1) b @ [0]"
proof (cases "read_token s")
  case (Inl e)
  then show ?thesis by (simp add: json_read_alloc_string_def json_read_string_def reader_simps Let_def)
next
  case (Inr r)
  obtain ch s1 where r: "read_token s = Inr (ch, s1)" using Inr by (cases r) auto
  consider (null) "ch = 110" | (quote) "ch = 34" | (other) "ch \<noteq> 110" "ch \<noteq> 34" by blast
  then show ?thesis
  proof cases
    case null
    with r show ?thesis
      by (cases "json_test_chars ''ull'' s1")
        (auto simp: json_read_alloc_string_def json_read_string_def reader_simps Let_def)
  next
    case other
    with r show ?thesis
      by (simp add: json_read_alloc_string_def json_read_string_def reader_simps Let_def)
  next
    case quote
    have "arr_holds (length arr) arr []" by (simp add: arr_holds_def)
    from json_read_string_loop_holds [OF this, of s1] r quote show ?thesis
      using arr_holds_end [OF _ assms]
      by (cases "json_read_chars [] s1")
        (fastforce simp: json_read_alloc_string_def json_read_string_def reader_simps Let_def
          split: prod.splits)+
  qed
qed

section \<open>The readers end\<close>

lemma token_consumes: "read_token s = Inr (c, s') \<Longrightarrow> 0 \<le> c \<Longrightarrow> length s' < length s"
  by (cases s) (auto simp: read_token_def bindR_apply dest!: shrinksD [OF shrinks_ignore_whitespace] split: if_splits)

lemma skip_char_consumes: "skip_char buf s = Inr (r, s') \<Longrightarrow> length s' < length s"
  by (cases s) (auto simp: skip_char_def reader_simps split: if_splits)

lemma fuelfree_basic [reader_fuel]:
  "fuelfree read_stream" "fuelfree peek_stream" "fuelfree read_whitespace"
  by (auto simp: fuelfree_def read_whitespace_def)

lemma fuelfree_ignore_whitespace [reader_fuel]: "fuelfree (ignore_whitespace ch)"
proof (rule fuelfreeI)
  fix s
  show "ignore_whitespace ch s \<noteq> Inl Out_of_fuel"
    by (induction ch s rule: ignore_whitespace.induct) auto
qed

lemma fuelfree_check_char [reader_fuel]: "fuelfree (check_char ch ex)"
  by (simp add: check_char_def reader_fuel)

lemma fuelfree_json_test_char [reader_fuel]: "fuelfree (json_test_char x)"
  unfolding json_test_char_def by (intro reader_fuel)

lemma fuelfree_json_test_chars [reader_fuel]: "fuelfree (json_test_chars cs)"
  unfolding json_test_chars_def by (induction cs) (auto intro!: reader_fuel)

lemma fuelfree_json_peek [reader_fuel]: "fuelfree json_peek"
  unfolding json_peek_def by (intro reader_fuel)

lemma fuelfree_read_token [reader_fuel]: "fuelfree read_token"
  unfolding read_token_def by (intro reader_fuel)

lemma fuelfree_read_esc_char [reader_fuel]: "fuelfree read_esc_char"
  unfolding read_esc_char_def read_hex_char_def read_hex_digit_def by (intro reader_fuel) simp_all

lemma json_read_chars_ok:
  "json_read_chars acc s \<noteq> Inl Out_of_fuel \<and> (\<forall>r s'. json_read_chars acc s = Inr (r, s') \<longrightarrow> length s' \<le> length s)"
proof (induction acc s rule: json_read_chars.induct)
  case (1 acc s)
  show ?case
  proof (cases s)
    case (Cons ch s1)
    consider "ch < 0 \<or> ch = 34" | (esc) "ch = 92" | (plain) "\<not> ch < 0" "ch \<noteq> 34" "ch \<noteq> 92" by blast
    then show ?thesis
    proof cases
      case esc
      have ch: "read_stream s = Inr (ch, s1)" "\<not> ch < 0" "ch \<noteq> 34" using Cons esc by simp_all
      show ?thesis
      proof (cases "read_esc_char s1")
        case (Inr r)
        then obtain u s2 where u: "read_esc_char s1 = Inr (u, s2)" by (cases r) auto
        have e: "json_read_chars acc s = json_read_chars (acc @ u) s2"
          using Cons esc u by (simp add: read_chars_steps reader_simps)
        have "length s2 \<le> length s" using shrinksD [OF shrinks_read_esc_char u] Cons by simp
        with 1(1) [OF ch esc u] show ?thesis unfolding e by (meson order.trans)
      next
        case (Inl e)
        then show ?thesis
          using Cons esc fuelfreeD [OF fuelfree_read_esc_char, of s1]
          by (simp add: read_chars_steps reader_simps)
      qed
    next
      case plain
      have ch: "read_stream s = Inr (ch, s1)" using Cons by simp
      have e: "json_read_chars acc s = json_read_chars (acc @ [word_of_int ch]) s1"
        using Cons plain by (simp add: read_chars_steps reader_simps)
      have "length s1 \<le> length s" using Cons by simp
      with 1(2) [OF ch plain] show ?thesis unfolding e by (meson order.trans)
    qed (use Cons in \<open>auto simp: read_chars_steps reader_simps\<close>)
  qed (simp add: read_chars_steps reader_simps)
qed

lemma shrinks_json_read_chars [reader_shrink]: "shrinks (json_read_chars acc)"
  using json_read_chars_ok by (auto intro: shrinksI)

lemma fuelfree_json_read_chars [reader_fuel]: "fuelfree (json_read_chars acc)"
  using json_read_chars_ok by (auto intro: fuelfreeI)

lemma shrinks_json_read_alloc_string [reader_shrink]: "shrinks json_read_alloc_string"
  unfolding json_read_alloc_string_def by (intro reader_shrink)

lemma fuelfree_json_read_alloc_string [reader_fuel]: "fuelfree json_read_alloc_string"
  unfolding json_read_alloc_string_def by (intro reader_fuel) simp_all

lemma json_read_string_ok:
  assumes "0 < length arr"
  shows "json_read_string arr s \<noteq> Inl Out_of_fuel \<and>
    (\<forall>r s'. json_read_string arr s = Inr (r, s') \<longrightarrow> length s' \<le> length s)"
  using json_read_string_alloc [OF assms, of s] shrinksD [OF shrinks_json_read_alloc_string, of s]
    fuelfreeD [OF fuelfree_json_read_alloc_string, of s]
  by (auto split: sum.splits option.splits)

lemma shrinks_json_read_string [reader_shrink]: "0 < length arr \<Longrightarrow> shrinks (json_read_string arr)"
  using json_read_string_ok by (auto intro: shrinksI)

lemma fuelfree_json_read_string [reader_fuel]: "0 < length arr \<Longrightarrow> fuelfree (json_read_string arr)"
  using json_read_string_ok by (auto intro: fuelfreeI)

lemma number_loops_ok:
  "shrinks (read_long_loop r)" "fuelfree (read_long_loop r)"
  "shrinks (read_ulong_loop w)" "fuelfree (read_ulong_loop w)"
proof -
  have "read_long_loop r s \<noteq> Inl Out_of_fuel \<and> (\<forall>x s'. read_long_loop r s = Inr (x, s') \<longrightarrow> length s' \<le> length s)" for s
    by (induction r s rule: read_long_loop.induct) auto
  then show "shrinks (read_long_loop r)" "fuelfree (read_long_loop r)"
    by (auto intro: shrinksI fuelfreeI)
  have "read_ulong_loop w s \<noteq> Inl Out_of_fuel \<and> (\<forall>x s'. read_ulong_loop w s = Inr (x, s') \<longrightarrow> length s' \<le> length s)" for s
    by (induction w s rule: read_ulong_loop.induct) auto
  then show "shrinks (read_ulong_loop w)" "fuelfree (read_ulong_loop w)"
    by (auto intro: shrinksI fuelfreeI)
qed

lemma shrinks_numbers [reader_shrink]: "shrinks json_read_long" "shrinks json_read_ulong"
  unfolding json_read_long_def json_read_ulong_def read_sign_def
  by (intro reader_shrink number_loops_ok)+

lemma fuelfree_numbers [reader_fuel]: "fuelfree json_read_long" "fuelfree json_read_ulong"
  unfolding json_read_long_def json_read_ulong_def read_sign_def
  by (intro reader_fuel number_loops_ok; simp)+

text \<open>
  The loops over a callback: if the callback never gives input back and does not run out of fuel
  itself, the fuel they start with is enough.
\<close>

lemma json_array_loop_ok:
  assumes "\<And>a. shrinks (cb a)" "\<And>a. fuelfree (cb a)"
  shows "shrinks (json_array_loop cb n a)"
    and "length s < n \<Longrightarrow> json_array_loop cb n a s \<noteq> Inl Out_of_fuel"
proof -
  show "shrinks (json_array_loop cb n a)"
    by (induction n arbitrary: a) (auto intro!: reader_shrink assms)
  show "length s < n \<Longrightarrow> json_array_loop cb n a s \<noteq> Inl Out_of_fuel"
  proof (induction n arbitrary: a s)
    case (Suc n)
    show ?case
      unfolding json_array_loop.simps
    proof (intro fuel_bindR)
      fix a1 s1 ch s2
      assume "cb a s = Inr (a1, s1)" "read_token s1 = Inr (ch, s2)"
      then have "ch = 44 \<Longrightarrow> length s2 < n"
        using shrinksD [OF assms(1)] token_consumes [of s1 ch s2] Suc.prems by fastforce
      then show "(if ch = ord (CHR '','') then json_array_loop cb n a1
          else seqR (check_char ch (ord (CHR '']''))) (retR a1)) s2 \<noteq> Inl Out_of_fuel"
        using Suc.IH by (auto intro!: fuelfreeD reader_fuel)
    qed (auto intro!: fuelfreeD reader_fuel assms)
  qed simp
qed

lemma json_struct_loop_ok:
  assumes "\<And>nm a. shrinks (cb nm a)" "\<And>nm a. fuelfree (cb nm a)"
  shows "shrinks (json_struct_loop cb n a)"
    and "length s < n \<Longrightarrow> json_struct_loop cb n a s \<noteq> Inl Out_of_fuel"
proof -
  show "shrinks (json_struct_loop cb n a)"
    by (induction n arbitrary: a) (auto intro!: reader_shrink assms)
  show "length s < n \<Longrightarrow> json_struct_loop cb n a s \<noteq> Inl Out_of_fuel"
  proof (induction n arbitrary: a s)
    case (Suc n)
    define fld where "fld = bindR (json_read_string (replicate 256 0)) (\<lambda>(_, nm).
      seqR read_whitespace (seqR (json_test_char (ord (CHR '':''))) (cb (cstr nm) a)))"
    have fld: "shrinks fld" "fuelfree fld"
      unfolding fld_def by (auto intro!: reader_shrink reader_fuel assms)
    have e: "json_struct_loop cb (Suc n) a = bindR fld (\<lambda>a1. bindR read_token (\<lambda>ch.
        if ch = ord (CHR '','') then json_struct_loop cb n a1
        else seqR (check_char ch (ord (CHR ''}''))) (retR a1)))"
      by (simp add: fld_def bindR_assoc seqR_def case_prod_unfold)
    show ?case
      unfolding e
    proof (intro fuel_bindR)
      fix a1 s1 ch s2
      assume "fld s = Inr (a1, s1)" "read_token s1 = Inr (ch, s2)"
      then have "ch = 44 \<Longrightarrow> length s2 < n"
        using shrinksD [OF fld(1)] token_consumes [of s1 ch s2] Suc.prems by fastforce
      then show "(if ch = ord (CHR '','') then json_struct_loop cb n a1
          else seqR (check_char ch (ord (CHR ''}''))) (retR a1)) s2 \<noteq> Inl Out_of_fuel"
        using Suc.IH by (auto intro!: fuelfreeD reader_fuel)
    qed (auto intro!: fuelfreeD reader_fuel fld)
  qed simp
qed

section \<open>Properties\<close>

text \<open>C23: the string json_write_string wrote, of any bytes, is what json_read_alloc_string returns: every
  escape sequence of the writer is undone by the reader, which stops behind the closing quote.\<close>

theorem json_string_roundtrip:
  "json_read_alloc_string
     (is_items (json_write_string item_class (Some s) \<lparr>is_zero_copy = zc, is_items = []\<rparr>) @ rest) =
   Inr (Some s, rest)"
  using item.writesD [OF item.writes_json_string TrueI, of s "\<lparr>is_zero_copy = zc, is_items = []\<rparr>"]
  by (simp add: json_read_alloc_string_text)



text \<open>json_read_int64 returns the number json_write_int64 wrote, for every 64-bit value but the least,
  where what follows is not a digit.\<close>

theorem json_int64_roundtrip:
  assumes "INT64_MIN < n" "n \<le> INT64_MAX" "no_digit rest"
  shows "\<exists>out. json_write_int64 item_class n \<lparr>is_zero_copy = zc, is_items = []\<rparr> = Inr out \<and>
    json_read_int64 (is_items out @ rest) = Inr (n, rest)"
  using item.writesE_D [OF item.writesE_int64 [OF assms(1,2)] TrueI, of "\<lparr>is_zero_copy = zc, is_items = []\<rparr>"]
    json_read_long_dec [OF assms] by (auto simp: json_read_int64_eq)

theorem json_int64_roundtrip_witness:
  "\<exists>out. json_write_int64 item_class (- 5) \<lparr>is_zero_copy = False, is_items = []\<rparr> = Inr out \<and>
    json_read_int64 (is_items out @ [44]) = Inr (- 5, [44])"
  by (rule json_int64_roundtrip) (simp_all add: no_digit_def is_digit_def)

text \<open>json_read_uint64 returns the number json_write_uint64 wrote, for every 64-bit value.\<close>

theorem json_uint64_roundtrip:
  assumes "no_digit rest"
  shows "json_read_uint64
      (is_items (json_write_uint64 item_class n \<lparr>is_zero_copy = zc, is_items = []\<rparr>) @ rest) = Inr (n, rest)"
  using item.writesD [OF item.writes_uint64 TrueI, of n "\<lparr>is_zero_copy = zc, is_items = []\<rparr>"]
  by (simp add: json_read_uint64_eq json_read_ulong_dec [OF assms])

theorem json_uint64_roundtrip_witness:
  "json_read_uint64
      (is_items (json_write_uint64 item_class (- 1) \<lparr>is_zero_copy = False, is_items = []\<rparr>) @ [125]) = Inr (- 1, [125])"
  by (rule json_uint64_roundtrip) (simp add: no_digit_def is_digit_def)

text \<open>json_read_array ends, on every input, for every callback that ends and gives no input back.\<close>

theorem json_read_array_ends:
  assumes "\<And>a. shrinks (cb a)" "\<And>a. fuelfree (cb a)"
  shows "json_read_array cb arg s \<noteq> Inl Out_of_fuel"
  unfolding json_read_array_def
proof (intro fuel_bindR fuelfreeD [OF fuelfree_read_token], goal_cases)
  case (1 ch s1)
  have "bindR json_peek (\<lambda>ch. if ch = ord (CHR '']'') then seqR read_stream (retR (True, arg))
      else (\<lambda>s. bindR (json_array_loop cb (Suc (length s)) arg) (\<lambda>arg. retR (True, arg)) s)) s1 \<noteq> Inl Out_of_fuel"
  proof (intro fuel_bindR fuelfreeD [OF fuelfree_json_peek], goal_cases)
    case (1 ch s2)
    have "bindR (json_array_loop cb (Suc (length s2)) arg) (\<lambda>arg. retR (True, arg)) s2 \<noteq> Inl Out_of_fuel"
      by (intro fuel_bindR json_array_loop_ok(2) assms) (auto simp: reader_simps)
    then show ?case by (auto intro!: fuelfreeD reader_fuel)
  qed
  then show ?case by (auto intro!: fuelfreeD reader_fuel)
qed

theorem json_read_array_ends_witness:
  "json_read_array (\<lambda>n. bindR json_read_long (\<lambda>m. retR (n + m))) 0 [91, 49, 44, 50] \<noteq> Inl Out_of_fuel"
  by (rule json_read_array_ends) (intro reader_shrink reader_fuel)+

end
