(* ===== verification/Json_Object.thy ===== *)
theory Json_Object
  imports Json_Roundtrip
begin

text \<open>
  Copying whole JSON values with \<open>json_read_object\<close>: it ends on every input, and on the compact
  text of a value it returns that text. Error reports written by \<open>write_errno\<close> are read back by
  \<open>read_errno\<close>.
\<close>

section \<open>skip\_object ends\<close>

lemma skip_string_ok:
  "skip_string buf s \<noteq> Inl Out_of_fuel \<and> (\<forall>r s'. skip_string buf s = Inr (r, s') \<longrightarrow> length s' \<le> length s)"
proof (induction "length s" arbitrary: buf s rule: less_induct)
  case less
  have step: ?case if "skip_string buf s = skip_string buf1 s1" "length s1 < length s" for buf1 s1
    using less [OF that(2), of buf1] that by (auto intro: order.trans [OF _ less_imp_le])
  show ?case
  proof (cases s)
    case (Cons ch s1)
    consider "ch < 0 \<or> ch = 34" | (esc) "ch = 92" | (plain) "\<not> ch < 0" "ch \<noteq> 34" "ch \<noteq> 92" by blast
    then show ?thesis
    proof cases
      case esc
      show ?thesis
      proof (cases s1)
        case Nil
        with Cons esc show ?thesis by (subst (1 2) skip_string.simps) (simp add: reader_simps skip_char_def)
      next
        case (Cons d s2)
        show ?thesis
        proof (cases "d < 0")
          case True
          with Cons \<open>s = ch # s1\<close> esc show ?thesis
            by (subst (1 2) skip_string.simps) (simp add: reader_simps skip_char_def)
        next
          case False
          with Cons \<open>s = ch # s1\<close> esc show ?thesis
            by (intro step [of "buf @ [word_of_int 92, word_of_int d]" s2])
              (subst skip_string.simps, simp_all add: reader_simps skip_char_def)
        qed
      qed
    next
      case plain
      with Cons show ?thesis
        by (intro step [of "buf @ [word_of_int ch]" s1]) (subst skip_string.simps, simp_all add: reader_simps)
    qed (use Cons in \<open>subst (1 2) skip_string.simps, auto simp: reader_simps\<close>)
  qed (subst (1 2) skip_string.simps, simp add: reader_simps)
qed

lemma skip_number_ok:
  "skip_number buf s \<noteq> Inl Out_of_fuel \<and> (\<forall>r s'. skip_number buf s = Inr (r, s') \<longrightarrow> length s' \<le> length s)"
  by (induction buf s rule: skip_number.induct) auto

lemma shrinks_skip [reader_shrink]:
  "shrinks (skip_string buf)" "shrinks (skip_number buf)" "shrinks (skip_block m buf)"
  "shrinks (skip_check x buf)" "shrinks (skip_checks cs buf)"
proof -
  show "shrinks (skip_block m buf)"
    by (induction m arbitrary: buf) (auto intro!: reader_shrink)
  show c: "shrinks (skip_check x buf)" for x buf
    unfolding skip_check_def by (intro reader_shrink)
  show "shrinks (skip_checks cs buf)"
    by (induction cs arbitrary: buf) (auto simp: skip_checks_def intro!: reader_shrink c)
qed (use skip_string_ok skip_number_ok in \<open>auto intro: shrinksI\<close>)

lemma fuelfree_skip [reader_fuel]:
  "fuelfree (skip_string buf)" "fuelfree (skip_number buf)" "fuelfree (skip_block m buf)"
  "fuelfree (skip_char buf)" "fuelfree (skip_check x buf)" "fuelfree (skip_checks cs buf)"
proof -
  show s: "fuelfree (skip_char buf)" for buf
    unfolding skip_char_def by (intro reader_fuel) simp
  show "fuelfree (skip_block m buf)"
    by (induction m arbitrary: buf) (auto intro!: reader_fuel)
  show c: "fuelfree (skip_check x buf)" for x buf
    unfolding skip_check_def by (intro reader_fuel s)
  show "fuelfree (skip_checks cs buf)"
    by (induction cs arbitrary: buf) (auto simp: skip_checks_def intro!: reader_fuel c)
qed (use skip_string_ok skip_number_ok in \<open>auto intro: fuelfreeI\<close>)

lemma skip_object_shrinks:
  "shrinks (skip_object n buf) \<and> shrinks (skip_elements n buf) \<and> shrinks (skip_members n buf)"
proof (induction n arbitrary: buf)
  case (Suc n)
  then have IH: "shrinks (skip_object n buf)" "shrinks (skip_elements n buf)" "shrinks (skip_members n buf)" for buf
    by auto
  show ?case
    unfolding skip_object.simps skip_elements.simps skip_members.simps
    by (intro conjI reader_shrink IH)
qed (simp add: reader_shrink)

lemma skip_object_consumes:
  assumes "skip_object n buf s = Inr (r, s')"
  shows "length s' < length s"
proof (cases n)
  case (Suc m)
  define f where "f = (\<lambda>(ch, buf).
       if ch = ord (CHR ''n'') then skip_checks ''ull'' buf
       else if ch = ord (CHR ''f'') then skip_checks ''alse'' buf
       else if ch = ord (CHR ''t'') then skip_checks ''rue'' buf
       else if ch = 34 then skip_string buf
       else if ch = ord (CHR ''-'') \<or> is_digit ch then skip_number buf
       else if ch = ord (CHR ''['') then
         bindR json_peek (\<lambda>ch.
           if ch = ord (CHR '']'') then bindR (skip_char buf) (\<lambda>(_, buf). retR buf)
           else skip_elements m buf)
       else if ch = ord (CHR ''{'') then
         bindR json_peek (\<lambda>ch.
           if ch = ord (CHR ''}'') then bindR (skip_char buf) (\<lambda>(_, buf). retR buf)
           else skip_members m buf)
       else if ch = ord (CHR ''('') then
         bindR json_read_ulong (\<lambda>size.
         bindR (skip_check (ord (CHR '')'')) buf) (skip_block (unat size)))
       else raiseR (Exception ERR_JSON_SYNTAX))"
  have f: "shrinks (f p)" for p
    unfolding f_def using skip_object_shrinks by (intro reader_shrink) auto
  have "skip_object n buf = seqR read_whitespace (bindR (skip_char buf) f)"
    by (simp add: Suc f_def)
  with assms obtain u s1 p s2 where "read_whitespace s = Inr (u, s1)" "skip_char buf s1 = Inr (p, s2)"
      "f p s2 = Inr (r, s')"
    by (auto elim!: seqR_InrE bindR_InrE)
  then show ?thesis
    using shrinksD [OF shrinks_read_whitespace] skip_char_consumes shrinksD [OF f]
    by (meson le_less_trans less_le_trans)
qed (use assms in \<open>simp add: reader_simps\<close>)

lemma skip_fuel_enough:
  "(2 * length s + 1 \<le> n \<longrightarrow> skip_object n buf s \<noteq> Inl Out_of_fuel) \<and>
   (2 * length s + 2 \<le> n \<longrightarrow> skip_elements n buf s \<noteq> Inl Out_of_fuel) \<and>
   (2 * length s + 2 \<le> n \<longrightarrow> skip_members n buf s \<noteq> Inl Out_of_fuel)"
proof (induction n arbitrary: buf s)
  case (Suc n)
  have ff: "fuelfree m \<Longrightarrow> m s \<noteq> Inl Out_of_fuel" for m :: "'x reader" and s
    by (rule fuelfreeD)
  note base = ff [OF fuelfree_basic(3)] ff [OF fuelfree_skip(4)] ff [OF fuelfree_skip(5)]
  have obj: "skip_object n b t \<noteq> Inl Out_of_fuel" if "2 * length t + 1 \<le> n" for b t
    using Suc.IH that by blast
  have els: "skip_elements n b t \<noteq> Inl Out_of_fuel" "skip_members n b t \<noteq> Inl Out_of_fuel"
    if "2 * length t + 2 \<le> n" for b t
    using Suc.IH that by blast+
  have "skip_object (Suc n) buf s \<noteq> Inl Out_of_fuel" if n: "2 * length s + 1 \<le> Suc n"
    unfolding skip_object.simps
  proof (intro fuel_seqR fuel_bindR base, goal_cases)
    case (1 u s1 p s2)
    have l: "2 * length s2 + 2 \<le> n"
      using n shrinksD [OF shrinks_read_whitespace 1(1)] skip_char_consumes [OF 1(2)] by linarith
    have peek: "bindR json_peek (\<lambda>ch. if ch = c then bindR (skip_char b) (\<lambda>(_, b). retR b) else k) s2
        \<noteq> Inl Out_of_fuel" if "\<And>t. 2 * length t + 2 \<le> n \<Longrightarrow> k t \<noteq> Inl Out_of_fuel" for c b k
    proof (intro fuel_bindR)
      fix ch s3
      assume "json_peek s2 = Inr (ch, s3)"
      with l have "2 * length s3 + 2 \<le> n" using shrinksD [OF shrinks_json_peek] by fastforce
      with that show "(if ch = c then bindR (skip_char b) (\<lambda>(_, b). retR b) else k) s3 \<noteq> Inl Out_of_fuel"
        by (auto intro!: fuelfreeD reader_fuel)
    qed (auto intro!: fuelfreeD reader_fuel)
    show ?case
      using peek [OF els(1)] peek [OF els(2)]
      by (auto split: prod.splits intro!: fuelfreeD reader_fuel)
  qed
  moreover have "skip_elements (Suc n) buf s \<noteq> Inl Out_of_fuel" if n: "2 * length s + 2 \<le> Suc n"
    unfolding skip_elements.simps
  proof (intro fuel_seqR fuel_bindR base, goal_cases)
    case 1
    show ?case using n by (intro obj) simp
  next
    case (2 b1 s1 u s2 p s3)
    have "2 * length s3 + 2 \<le> n"
      using n skip_object_consumes [OF 2(1)] shrinksD [OF shrinks_read_whitespace 2(2)]
        skip_char_consumes [OF 2(3)] by linarith
    then show ?case
      by (auto split: prod.splits simp: els intro!: fuelfreeD reader_fuel)
  qed
  moreover have "skip_members (Suc n) buf s \<noteq> Inl Out_of_fuel" if n: "2 * length s + 2 \<le> Suc n"
    unfolding skip_members.simps
  proof (intro fuel_seqR fuel_bindR base, goal_cases)
    case 1
    show ?case using n by (intro obj) simp
  next
    case (2 b1 s1 u s2 b2 s3)
    show ?case
      using n skip_object_consumes [OF 2(1)] shrinksD [OF shrinks_read_whitespace 2(2)]
        shrinksD [OF shrinks_skip(4) 2(3)] by (intro obj) linarith
  next
    case (3 b1 s1 u s2 b2 s3 b3 s4 u' s5 p s6)
    have "2 * length s6 + 2 \<le> n"
      using n skip_object_consumes [OF 3(1)] shrinksD [OF shrinks_read_whitespace 3(2)]
        shrinksD [OF shrinks_skip(4) 3(3)] skip_object_consumes [OF 3(4)]
        shrinksD [OF shrinks_read_whitespace 3(5)] skip_char_consumes [OF 3(6)] by linarith
    then show ?case
      by (auto split: prod.splits simp: els intro!: fuelfreeD reader_fuel)
  qed
  ultimately show ?case by blast
qed simp

lemma fuelfree_json_read_object [reader_fuel]: "fuelfree json_read_object"
  by (intro fuelfreeI, unfold json_read_object_def,
      rule skip_fuel_enough [THEN conjunct1, rule_format], simp add: skip_fuel_def)

lemma shrinks_json_read_object [reader_shrink]: "shrinks json_read_object"
  by (intro shrinksI) (auto simp: json_read_object_def dest: skip_object_consumes)

section \<open>JSON values\<close>

datatype json =
    JNull
  | JBool bool
  | JInt int
  | JStr "byte list"
  | JArr "json list"
  | JObj "(byte list \<times> json) list"

fun join :: "int list list \<Rightarrow> int list" where
  "join [] = []"
| "join [x] = x"
| "join (x # xs) = x @ [44] @ join xs"

fun json_text :: "json \<Rightarrow> int list" where
  "json_text JNull = str ''null''"
| "json_text (JBool b) = str (if b then ''true'' else ''false'')"
| "json_text (JInt n) = dec_int n"
| "json_text (JStr s) = json_string s"
| "json_text (JArr vs) = [91] @ join (map json_text vs) @ [93]"
| "json_text (JObj ms) = [123] @ join (map (\<lambda>(k, v). json_string k @ [58] @ json_text v) ms) @ [125]"

text \<open>The items of a text as the bytes of a buffer.\<close>

definition tbytes :: "int list \<Rightarrow> byte list" where
  "tbytes = map word_of_int"

lemma tbytes_simps [simp]:
  "tbytes [] = []" "tbytes (c # cs) = word_of_int c # tbytes cs" "tbytes (xs @ ys) = tbytes xs @ tbytes ys"
  by (simp_all add: tbytes_def)

text \<open>A number ends where no character of a number follows.\<close>

definition ends :: "json \<Rightarrow> istream \<Rightarrow> bool" where
  "ends v rest \<longleftrightarrow> (case v of JInt _ \<Rightarrow> rest = [] \<or> \<not> number_char (hd rest) | _ \<Rightarrow> True)"

lemma skip_string_plain:
  "\<forall>c \<in> set cs. 0 \<le> c \<and> c \<noteq> 34 \<and> c \<noteq> 92 \<Longrightarrow> skip_string buf (cs @ s) = skip_string (buf @ tbytes cs) s"
proof (induction cs arbitrary: buf)
  case (Cons c cs)
  then show ?case by (subst skip_string.simps) (simp add: reader_simps)
qed simp

lemma skip_string_esc:
  "0 \<le> c \<Longrightarrow> skip_string buf (92 # c # s) = skip_string (buf @ tbytes [92, c]) s"
  by (subst skip_string.simps) (simp add: reader_simps skip_char_def)

lemma skip_string_escape:
  "skip_string buf (json_escape b @ s) = skip_string (buf @ tbytes (json_escape b)) s"
proof (cases "escaped b")
  case True
  have h: "\<forall>c \<in> set [48, 48, hex_digit (drop_bit 4 (uint b)), hex_digit (uint b)]. 0 \<le> c \<and> c \<noteq> 34 \<and> c \<noteq> 92"
    using hex_digit_range [of "uint b"] hex_digit_range [of "drop_bit 4 (uint b)"] by auto
  show ?thesis
    using True skip_string_plain [OF h, of _ s]
    by (auto simp: json_escape_def skip_string_esc Let_def)
next
  case False
  then show ?thesis
    using skip_string_plain [of "[uint b]" buf s] by (simp add: json_escape_def escaped_iff)
qed

lemma skip_string_text:
  "skip_string buf (concat (map json_escape s) @ 34 # rest) =
    Inr (buf @ tbytes (concat (map json_escape s) @ [34]), rest)"
proof (induction s arbitrary: buf)
  case Nil
  show ?case by (subst skip_string.simps) (simp add: reader_simps)
qed (simp add: skip_string_escape)

lemma skip_number_text:
  assumes "\<forall>c \<in> set ds. number_char c" "rest = [] \<or> \<not> number_char (hd rest)"
  shows "skip_number buf (ds @ rest) = Inr (buf @ tbytes ds, rest)"
  using assms(1)
proof (induction ds arbitrary: buf)
  case Nil
  then show ?case using assms(2) by (cases rest) simp_all
qed simp

lemma skip_checks_text:
  "skip_checks cs buf (str cs @ rest) = Inr (buf @ tbytes (str cs), rest)"
  by (induction cs arbitrary: buf)
    (simp_all add: skip_checks_def skip_check_def skip_char_def check_char_def reader_simps not_less)

lemma number_char_simps: "is_digit c \<Longrightarrow> number_char c" "\<not> number_char 44" "\<not> number_char 93" "\<not> number_char 125"
  by (auto simp: number_char_def is_digit_def)

lemma json_text_first:
  obtains c cs where "json_text v = c # cs" "\<not> isspace c" "0 \<le> c" "c \<noteq> 93" "c \<noteq> 125"
proof (cases v)
  case (JInt n)
  obtain c cs where "dec_digits (nat \<bar>n\<bar>) = c # cs" "is_digit c" by (rule dec_digits_Cons)
  with JInt that show ?thesis
    by (cases "n < 0") (auto simp: dec_int_def isspace_def is_digit_def)
next
  case (JBool b)
  with that show ?thesis by (cases b) (auto simp: isspace_def)
qed (use that in \<open>auto simp: json_string_def isspace_def split: if_splits\<close>)

lemma skip_char_hit: "0 \<le> c \<Longrightarrow> skip_char buf (c # s) = Inr ((c, buf @ [word_of_int c]), s)"
  by (simp add: skip_char_def reader_simps)

lemma dec_int_first:
  obtains c cs where "dec_int n = c # cs" "c = 45 \<or> is_digit c" "\<forall>d \<in> set cs. number_char d"
proof (cases "n < 0")
  case True
  with that [of 45 "dec_digits (nat (- n))"] dec_digits_is_digit show ?thesis
    by (auto simp: dec_int_def number_char_simps)
next
  case False
  obtain c cs where "dec_digits (nat n) = c # cs" "is_digit c" "\<forall>c \<in> set cs. is_digit c"
    by (rule dec_digits_Cons)
  with False that show ?thesis by (auto simp: dec_int_def number_char_simps)
qed

lemma digit_first: "is_digit c \<Longrightarrow> 0 \<le> c \<and> c \<noteq> 110 \<and> c \<noteq> 102 \<and> c \<noteq> 116 \<and> c \<noteq> 34 \<and> \<not> isspace c"
  by (auto simp: is_digit_def isspace_def)

lemma skip_scalar_text:
  assumes "ends v rest" "\<And>vs. v \<noteq> JArr vs" "\<And>ms. v \<noteq> JObj ms"
  shows "skip_object (Suc n) buf (json_text v @ rest) = Inr (buf @ tbytes (json_text v), rest)"
proof (cases v)
  case (JInt k)
  obtain c cs where d: "dec_int k = c # cs" "c = 45 \<or> is_digit c" "\<forall>d \<in> set cs. number_char d"
    by (rule dec_int_first)
  have "skip_number b (cs @ rest) = Inr (b @ tbytes cs, rest)" for b
    using assms(1) JInt by (intro skip_number_text [OF d(3)]) (simp add: ends_def)
  moreover have "0 \<le> c" "\<not> isspace c" "c \<noteq> 110 \<and> c \<noteq> 102 \<and> c \<noteq> 116 \<and> c \<noteq> 34"
    using d(2) digit_first [of c] by (auto simp: isspace_def)
  ultimately show ?thesis
    using JInt d(1,2) by (simp add: reader_simps skip_char_hit)
next
  case (JStr s)
  then show ?thesis
    by (simp add: reader_simps skip_char_hit json_string_def skip_string_text isspace_def)
qed (use assms skip_checks_text [of "''ull''"] skip_checks_text [of "''rue''"] skip_checks_text [of "''alse''"] in
    \<open>auto simp: reader_simps skip_char_hit isspace_def\<close>)

definition skips :: "json \<Rightarrow> bool" where
  "skips v \<longleftrightarrow> (\<forall>n buf rest. 2 * length (json_text v) \<le> n \<longrightarrow> ends v rest \<longrightarrow>
     skip_object n buf (json_text v @ rest) = Inr (buf @ tbytes (json_text v), rest))"

lemma skipsD:
  "skips v \<Longrightarrow> 2 * length (json_text v) \<le> n \<Longrightarrow> ends v rest \<Longrightarrow>
    skip_object n buf (json_text v @ rest) = Inr (buf @ tbytes (json_text v), rest)"
  by (simp add: skips_def)

lemma ends_delim: "ends v (44 # r)" "ends v (93 # r)" "ends v (125 # r)" "ends (JStr k) r"
  by (simp_all add: ends_def number_char_simps split: json.splits)

lemma skip_elements_text:
  assumes "\<forall>v \<in> set vs. skips v" "vs \<noteq> []" "2 * (length (join (map json_text vs)) + 1) \<le> n"
  shows "skip_elements n buf (join (map json_text vs) @ 93 # rest) =
    Inr (buf @ tbytes (join (map json_text vs) @ [93]), rest)"
  using assms
proof (induction vs arbitrary: n buf rule: induct_list012)
  case (2 v)
  then obtain m where n: "n = Suc m" by (cases n) auto
  with 2 have "skip_object m buf (json_text v @ 93 # rest) = Inr (buf @ tbytes (json_text v), 93 # rest)"
    by (intro skipsD) (auto simp: ends_delim)
  then show ?case
    by (simp add: n reader_simps skip_char_hit check_char_def isspace_def)
next
  case (3 v w vs)
  let ?tl = "join (map json_text (w # vs)) @ 93 # rest"
  obtain m where n: "n = Suc m" using 3(5) by (cases n) auto
  have "skip_object m buf (json_text v @ 44 # ?tl) = Inr (buf @ tbytes (json_text v), 44 # ?tl)"
    using 3(3,5) n by (intro skipsD) (auto simp: ends_delim)
  moreover have "skip_elements m b ?tl = Inr (b @ tbytes (join (map json_text (w # vs)) @ [93]), rest)" for b
    using 3(2) [of m b] 3(3,5) n by simp
  ultimately show ?case
    by (simp add: n reader_simps skip_char_hit check_char_def isspace_def)
qed simp

lemma skip_members_text:
  assumes "\<forall>(k, v) \<in> set ms. skips v" "ms \<noteq> []"
    and "2 * (length (join (map (\<lambda>(k, v). json_string k @ [58] @ json_text v) ms)) + 1) \<le> n"
  shows "skip_members n buf (join (map (\<lambda>(k, v). json_string k @ [58] @ json_text v) ms) @ 125 # rest) =
    Inr (buf @ tbytes (join (map (\<lambda>(k, v). json_string k @ [58] @ json_text v) ms) @ [125]), rest)"
  using assms
proof (induction ms arbitrary: n buf rule: induct_list012)
  case (2 kv)
  obtain k v where kv: "kv = (k, v)" by (cases kv)
  obtain m where n: "n = Suc (Suc m)" using 2(3) by (cases n; cases "n - 1") auto
  have k: "skip_object (Suc m) b (json_string k @ r) = Inr (b @ tbytes (json_string k), r)" for b r
    using skip_scalar_text [of "JStr k" r m b] by (simp add: ends_def)
  have v: "skip_object (Suc m) b (json_text v @ 125 # r) = Inr (b @ tbytes (json_text v), 125 # r)" for b r
    using 2(1,3) kv n by (intro skipsD) (auto simp: ends_delim)
  show ?case
    using k v by (simp add: kv n reader_simps skip_char_hit skip_check_def check_char_def isspace_def)
next
  case (3 kv w ms)
  obtain k v where kv: "kv = (k, v)" by (cases kv)
  let ?rest = "join (map (\<lambda>(k, v). json_string k @ [58] @ json_text v) (w # ms))"
  obtain m where n: "n = Suc (Suc m)" using 3(5) by (cases n; cases "n - 1") auto
  have k: "skip_object (Suc m) b (json_string k @ r) = Inr (b @ tbytes (json_string k), r)" for b r
    using skip_scalar_text [of "JStr k" r m b] by (simp add: ends_def)
  have v: "skip_object (Suc m) b (json_text v @ 44 # r) = Inr (b @ tbytes (json_text v), 44 # r)" for b r
    using 3(3,5) kv n by (intro skipsD) (auto simp: ends_delim)
  have "skip_members (Suc m) b (?rest @ 125 # rest) = Inr (b @ tbytes (?rest @ [125]), rest)" for b
    using 3(2) [of "Suc m" b] 3(3,5) n by simp
  with k v show ?case
    by (simp add: kv n reader_simps skip_char_hit skip_check_def check_char_def isspace_def)
qed simp

lemma skipsI:
  assumes "\<And>m buf rest. 2 * length (json_text v) \<le> Suc m \<Longrightarrow> ends v rest \<Longrightarrow>
    skip_object (Suc m) buf (json_text v @ rest) = Inr (buf @ tbytes (json_text v), rest)"
  shows "skips v"
  unfolding skips_def
proof (intro allI impI)
  fix n buf rest
  assume l: "2 * length (json_text v) \<le> n" and e: "ends v rest"
  obtain c cs where "json_text v = c # cs" by (rule json_text_first)
  with l obtain m where "n = Suc m" by (cases n) auto
  with assms l e show "skip_object n buf (json_text v @ rest) = Inr (buf @ tbytes (json_text v), rest)"
    by blast
qed

lemma skips_array:
  assumes "\<forall>v \<in> set vs. skips v"
  shows "skips (JArr vs)"
proof (rule skipsI)
  fix m buf rest
  assume l: "2 * length (json_text (JArr vs)) \<le> Suc m"
  show "skip_object (Suc m) buf (json_text (JArr vs) @ rest) = Inr (buf @ tbytes (json_text (JArr vs)), rest)"
  proof (cases vs)
    case Nil
    then show ?thesis by (simp add: reader_simps skip_char_hit isspace_def is_digit_def)
  next
    case (Cons v ws)
    obtain c cs where c: "json_text v = c # cs" "\<not> isspace c" "c \<noteq> 93" by (rule json_text_first)
    obtain ds where d: "join (map json_text vs) = c # ds"
      using Cons c(1) by (cases ws) auto
    have "skip_elements m b (join (map json_text vs) @ 93 # rest) =
        Inr (b @ tbytes (join (map json_text vs) @ [93]), rest)" for b
      using assms l Cons by (intro skip_elements_text) auto
    with c(2,3) d show ?thesis
      by (simp add: reader_simps skip_char_hit isspace_def [of 91] is_digit_def)
  qed
qed

lemma skips_struct:
  assumes "\<forall>(k, v) \<in> set ms. skips v"
  shows "skips (JObj ms)"
proof (rule skipsI)
  fix m buf rest
  assume l: "2 * length (json_text (JObj ms)) \<le> Suc m"
  let ?ms = "join (map (\<lambda>(k, v). json_string k @ [58] @ json_text v) ms)"
  show "skip_object (Suc m) buf (json_text (JObj ms) @ rest) = Inr (buf @ tbytes (json_text (JObj ms)), rest)"
  proof (cases ms)
    case Nil
    then show ?thesis by (simp add: reader_simps skip_char_hit isspace_def is_digit_def)
  next
    case (Cons kv ws)
    obtain ds where d: "?ms = 34 # ds"
      using Cons by (cases ws; cases kv) (auto simp: json_string_def)
    have "skip_members m b (?ms @ 125 # rest) = Inr (b @ tbytes (?ms @ [125]), rest)" for b
      using assms l Cons by (intro skip_members_text) auto
    with d show ?thesis
      by (simp add: reader_simps skip_char_hit isspace_def is_digit_def)
  qed
qed

lemma json_text_skips: "skips v"
proof (induction v rule: json_text.induct)
  case (5 vs)
  then show ?case by (intro skips_array) blast
next
  case (6 ms)
  then show ?case by (intro skips_struct) auto
qed (rule skipsI, rule skip_scalar_text, assumption, simp_all)+

lemma json_read_object_text:
  assumes "ends v rest"
  shows "json_read_object (json_text v @ rest) = Inr (tbytes (json_text v), rest)"
  using skipsD [OF json_text_skips _ assms, of "skip_fuel (json_text v @ rest)" "[]"]
  by (simp add: json_read_object_def skip_fuel_def del: skip_object.simps)

section \<open>The text of an error report\<close>

definition field_text :: "byte list \<times> int list \<Rightarrow> int list" where
  "field_text f = json_string (fst f) @ [58] @ snd f"

definition error_fields :: "ErrorReport \<Rightarrow> (byte list \<times> int list) list" where
  "error_fields r =
     [(bytes_of ''Code'', dec_int (er_code r))] @
     (if er_time_stamp r \<noteq> 0 then [(bytes_of ''Time'', dec_digits (unat (er_time_stamp r)))] else []) @
     (case er_format r of None \<Rightarrow> [] | Some f \<Rightarrow> [(bytes_of ''Format'', json_string f)]) @
     (if er_params r \<noteq> [] then [(bytes_of ''Params'', [91] @ join (map items_of (er_params r)) @ [93])] else []) @
     map (\<lambda>i. (eri_name i, items_of (eri_value i))) (er_props r)"

definition error_text :: "ErrorReport \<Rightarrow> int list" where
  "error_text r = [123] @ join (map field_text (error_fields r)) @ [125]"

lemma join_Cons: "join (x # xs) = x @ concat (map (\<lambda>y. 44 # y) xs)"
  by (induction xs arbitrary: x) simp_all

context output_stream begin

lemma writes_seqW1: "writes w xs \<Longrightarrow> writes (seqW ws) ys \<Longrightarrow> zs = xs @ ys \<Longrightarrow> writes (seqW (w # ws)) zs"
  by (simp add: writes_Cons)

lemma writes_field:
  assumes "writes w xs"
  shows "writes (seqW [write_stream cl 44, json_write_string cl (Some k), write_stream cl 58, w])
    (44 # field_text (k, xs))"
  by (rule writes_seqW1 [OF writes_int writes_seqW1 [OF writes_json_string writes_seqW1 [OF writes_int
        writes_Cons_last [OF assms]]]]) (simp_all add: field_text_def)

lemma writes_error_params:
  "writes (write_error_params cl first ps) (if first then join (map items_of ps) else concat (map (\<lambda>p. 44 # items_of p) ps))"
proof (induction ps arbitrary: first)
  case Nil
  show ?case by (simp add: writes_def)
next
  case (Cons p ps)
  have "writes (\<lambda>out. write_error_params cl False ps (write_string cl p (write_stream cl 44 out)))
      (([44] @ items_of p) @ concat (map (\<lambda>p. 44 # items_of p) ps))"
    using Cons.IH [of False] by (intro writes_then writes_int writes_string) auto
  moreover have "writes (\<lambda>out. write_error_params cl False ps (write_string cl p out))
      (items_of p @ concat (map (\<lambda>p. 44 # items_of p) ps))"
    using Cons.IH [of False] by (intro writes_then writes_string) auto
  ultimately show ?case by (auto simp: join_Cons comp_def)
qed

lemma writes_error_items:
  "writes (write_error_items cl items0)
    (concat (map (\<lambda>f. 44 # field_text f) (map (\<lambda>i. (eri_name i, items_of (eri_value i))) items0)))"
proof (induction items0)
  case (Cons i items0)
  have "writes (\<lambda>out. write_error_items cl items0 (seqW [write_stream cl 44, json_write_string cl (Some (eri_name i)),
      write_stream cl 58, write_string cl (eri_value i)] out))
    ((44 # field_text (eri_name i, items_of (eri_value i))) @
      concat (map (\<lambda>f. 44 # field_text f) (map (\<lambda>i. (eri_name i, items_of (eri_value i))) items0)))"
    using Cons by (intro writes_then writes_field writes_string)
  then show ?case by simp
qed (simp add: writes_def)

lemma writes_error_props:
  "writes (write_error_props cl r) (concat (map (\<lambda>f. 44 # field_text f) (tl (error_fields r))))"
proof -
  have p: "writes (seqW [write_stream cl 44, json_write_string cl (Some k), write_stream cl 58,
      write_stream cl 91, write_error_params cl True ps, write_stream cl 93])
    (44 # field_text (k, [91] @ join (map items_of ps) @ [93]))" for k ps
    by (rule writes_seqW1 [OF writes_int writes_seqW1 [OF writes_json_string writes_seqW1 [OF writes_int
          writes_seqW1 [OF writes_int writes_seqW1 [OF writes_error_params writes_Cons_last [OF writes_int]]]]]])
      (simp_all add: field_text_def)
  let ?t = "if er_time_stamp r \<noteq> 0 then 44 # field_text (bytes_of ''Time'', dec_digits (unat (er_time_stamp r))) else []"
  let ?f = "case er_format r of None \<Rightarrow> [] | Some f \<Rightarrow> 44 # field_text (bytes_of ''Format'', json_string f)"
  let ?p = "if er_params r \<noteq> [] then 44 # field_text (bytes_of ''Params'', [91] @ join (map items_of (er_params r)) @ [93]) else []"
  let ?i = "concat (map (\<lambda>f. 44 # field_text f) (map (\<lambda>i. (eri_name i, items_of (eri_value i))) (er_props r)))"
  have "writes (write_error_props cl r) (?t @ ?f @ ?p @ ?i)"
    unfolding write_error_props_def
    by (intro writes_Cons writes_Cons_last writes_error_items)
      (auto intro: writes_Nil writes_field [OF writes_uint64, simplified] p [simplified]
         writes_field [OF writes_json_string, simplified] split: option.splits)
  moreover have "?t @ ?f @ ?p @ ?i = concat (map (\<lambda>f. 44 # field_text f) (tl (error_fields r)))"
    by (simp add: error_fields_def split: option.splits)
  ultimately show ?thesis by metis
qed

lemma writesE_error_object:
  assumes "INT64_MIN < er_code r" "er_code r \<le> INT64_MAX"
  shows "writesE (write_error_object cl (Some r)) (error_text r)"
  unfolding writesE_def
proof (intro allI impI)
  fix out
  assume inv: "inv out"
  let ?w1 = "seqW [write_stream cl 123, json_write_string cl (Some (bytes_of ''Code'')), write_stream cl 58]"
  let ?w2 = "seqW [write_error_props cl r, write_stream cl 125]"
  have "writes ?w1 ([123] @ json_string (bytes_of ''Code'') @ [58])"
    by (intro writes_Cons writes_Cons_last writes_int writes_json_string) simp_all
  from writesD [OF this inv] have w1: "inv (?w1 out)"
      "items (?w1 out) = items out @ [123] @ json_string (bytes_of ''Code'') @ [58]" by auto
  from writesE_D [OF writesE_long [OF assms] w1(1)] obtain out1 where
    l: "json_write_long cl (er_code r) (?w1 out) = Inr out1" "inv out1"
      "items out1 = items (?w1 out) @ dec_int (er_code r)" by blast
  have "writes ?w2 (concat (map (\<lambda>f. 44 # field_text f) (tl (error_fields r))) @ [125])"
    by (intro writes_Cons writes_Cons_last writes_int writes_error_props) simp_all
  from writesD [OF this l(2)] have w2: "inv (?w2 out1)"
      "items (?w2 out1) = items out1 @ concat (map (\<lambda>f. 44 # field_text f) (tl (error_fields r))) @ [125]" by auto
  have "error_fields r = (bytes_of ''Code'', dec_int (er_code r)) # tl (error_fields r)"
    by (simp add: error_fields_def)
  then have "map field_text (error_fields r) =
      field_text (bytes_of ''Code'', dec_int (er_code r)) # map field_text (tl (error_fields r))"
    by (metis list.simps(9))
  then have et: "error_text r = [123] @ json_string (bytes_of ''Code'') @ [58] @ dec_int (er_code r) @
      concat (map (\<lambda>f. 44 # field_text f) (tl (error_fields r))) @ [125]"
    by (simp add: error_text_def join_Cons field_text_def [of "(bytes_of ''Code'', _)"] comp_def)
  have "write_error_object cl (Some r) out = Inr (?w2 out1)"
    using l(1) by (simp add: write_error_object_def)
  with w1 l w2 et show "\<exists>out'. write_error_object cl (Some r) out = Inr out' \<and> inv out' \<and>
      items out' = items out @ error_text r"
    by simp
qed

end

section \<open>Reading fields and elements back\<close>

text \<open>A name that fits the array of 256 bytes json_read_struct reads it into.\<close>

definition name_ok :: "byte list \<Rightarrow> bool" where
  "name_ok k \<longleftrightarrow> length k < 256 \<and> 0 \<notin> set k"

lemma json_read_string_text:
  assumes "0 < length arr"
  shows "\<exists>arr'. json_read_string arr (json_string k @ rest) = Inr ((int (length k), arr'), rest) \<and>
    length arr' = length arr \<and> take (Suc (min (length k) (length arr - 1))) arr' = take (length arr - 1) k @ [0]"
  using json_read_string_alloc [OF assms, of "json_string k @ rest"] by (simp add: json_read_alloc_string_text)

lemma cstr_terminated:
  assumes "take (Suc (length k)) arr = k @ [0]" "0 \<notin> set k"
  shows "cstr arr = k"
proof -
  have "arr = k @ [0] @ drop (Suc (length k)) arr"
    using assms(1) by (metis append.assoc append_take_drop_id)
  then have "cstr arr = takeWhile (\<lambda>b. b \<noteq> 0) (k @ 0 # drop (Suc (length k)) arr)"
    by (simp add: cstr_def)
  also have "\<dots> = k"
    using assms(2) by (subst takeWhile_append2) auto
  finally show ?thesis .
qed

lemma json_read_name:
  assumes "name_ok k"
  obtains i nm where "json_read_string (replicate 256 0) (json_string k @ rest) = Inr ((i, nm), rest)" "cstr nm = k"
proof -
  have "0 < length (replicate 256 (0 :: byte))" by simp
  from json_read_string_text [OF this, of k rest] obtain nm where
    nm: "json_read_string (replicate 256 0) (json_string k @ rest) = Inr ((int (length k), nm), rest)"
      "take (Suc (min (length k) 255)) nm = take 255 k @ [0]" by auto
  then have "cstr nm = k"
    using assms by (intro cstr_terminated) (auto simp: name_ok_def)
  with nm(1) that show ?thesis by blast
qed

lemma json_struct_loop_text:
  assumes "\<And>k t a c r. (k, t) \<in> set fs \<Longrightarrow> c = 44 \<or> c = 125 \<Longrightarrow> cb k a (t @ c # r) = Inr (stp (k, t) a, c # r)"
    and "\<forall>(k, t) \<in> set fs. name_ok k" "fs \<noteq> []" "length fs \<le> n"
  shows "json_struct_loop cb n a (join (map field_text fs) @ 125 # rest) = Inr (fold stp fs a, rest)"
  using assms
proof (induction fs arbitrary: n a)
  case (Cons f fs)
  obtain k t where f: "f = (k, t)" by (cases f)
  obtain m where n: "n = Suc m" using Cons.prems(4) by (cases n) auto
  have cb: "cb k a (t @ c # r) = Inr (stp (k, t) a, c # r)" if "c = 44 \<or> c = 125" for c r
    using Cons.prems(1) f that by simp
  have ok: "name_ok k" using Cons.prems(2) f by simp
  have step: "json_struct_loop cb (Suc m) a (json_string k @ 58 # t @ c # r) =
      (if c = 44 then json_struct_loop cb m (stp (k, t) a) r else Inr (stp (k, t) a, r))"
    if "c = 44 \<or> c = 125" for c r
  proof -
    obtain i nm where nm: "json_read_string (replicate 256 0) (json_string k @ 58 # t @ c # r) = Inr ((i, nm), 58 # t @ c # r)"
        "cstr nm = k"
      by (rule json_read_name [OF ok])
    then show ?thesis
      using cb [OF that] that by (auto simp: reader_simps isspace_def check_char_def)
  qed
  show ?case
  proof (cases "fs = []")
    case True
    with f n step [of 125 rest] show ?thesis by (simp add: field_text_def)
  next
    case False
    then have "json_struct_loop cb m (stp f a) (join (map field_text fs) @ 125 # rest) = Inr (fold stp fs (stp f a), rest)"
      using Cons.prems n by (intro Cons.IH) auto
    moreover have "join (map field_text (f # fs)) = json_string k @ 58 # t @ 44 # join (map field_text fs)"
      using False f by (cases fs) (auto simp: field_text_def)
    ultimately show ?thesis
      using f n step [of 44 "join (map field_text fs) @ 125 # rest"] by simp
  qed
qed simp

lemma json_array_loop_text:
  assumes "\<And>t a c r. t \<in> set ts \<Longrightarrow> c = 44 \<or> c = 93 \<Longrightarrow> cb a (t @ c # r) = Inr (stp t a, c # r)"
    and "ts \<noteq> []" "length ts \<le> n"
  shows "json_array_loop cb n a (join ts @ 93 # rest) = Inr (fold stp ts a, rest)"
  using assms
proof (induction ts arbitrary: n a)
  case (Cons t ts)
  obtain m where n: "n = Suc m" using Cons.prems(3) by (cases n) auto
  have step: "json_array_loop cb (Suc m) a (t @ c # r) =
      (if c = 44 then json_array_loop cb m (stp t a) r else Inr (stp t a, r))"
    if "c = 44 \<or> c = 93" for c r
    using Cons.prems(1) [of t c a r] that by (auto simp: reader_simps isspace_def check_char_def)
  show ?case
  proof (cases "ts = []")
    case True
    with n step [of 93 rest] show ?thesis by simp
  next
    case False
    then have "json_array_loop cb m (stp t a) (join ts @ 93 # rest) = Inr (fold stp ts (stp t a), rest)"
      using Cons.prems n by (intro Cons.IH) auto
    moreover have "join (t # ts) = t @ 44 # join ts"
      using False by (cases ts) auto
    ultimately show ?thesis
      using n step [of 44 "join ts @ 93 # rest"] by simp
  qed
qed simp

lemma length_join: "\<forall>t \<in> set ts. t \<noteq> [] \<Longrightarrow> length ts \<le> length (join ts)"
proof (induction ts rule: join.induct)
  case (3 x y xs)
  then show ?case by (cases x) auto
qed (auto simp: Suc_le_eq)

section \<open>Reading an error report back\<close>

definition json_bytes :: "byte list \<Rightarrow> bool" where
  "json_bytes p \<longleftrightarrow> (\<exists>v. items_of p = json_text v)"

definition report_ok :: "ErrorReport \<Rightarrow> bool" where
  "report_ok r \<longleftrightarrow> - 2147483648 \<le> er_code r \<and> er_code r < 2147483648 \<and> er_code r \<noteq> 0 \<and>
     (\<forall>p \<in> set (er_params r). json_bytes p) \<and>
     (\<forall>i \<in> set (er_props r). name_ok (eri_name i) \<and> json_bytes (eri_value i) \<and>
        eri_name i \<notin> {bytes_of ''Code'', bytes_of ''Time'', bytes_of ''Format'', bytes_of ''Params''})"

lemma tbytes_items [simp]: "tbytes (items_of p) = p"
  by (simp add: tbytes_def items_of_def map_idI)

lemma json_read_object_bytes:
  assumes "json_bytes p" "c = 44 \<or> c = 93 \<or> c = 125"
  shows "json_read_object (items_of p @ c # r) = Inr (p, c # r)"
proof -
  obtain v where v: "items_of p = json_text v" using assms(1) by (auto simp: json_bytes_def)
  have "ends v (c # r)" using assms(2) by (auto simp: ends_delim)
  from json_read_object_text [OF this] v show ?thesis by (metis tbytes_items)
qed

lemma json_bytes_first:
  assumes "json_bytes p"
  obtains c cs where "items_of p = c # cs" "\<not> isspace c" "c \<noteq> 93"
  using assms json_text_first by (metis json_bytes_def)

lemma sint_u32:
  assumes "- 2147483648 \<le> n" "n < 2147483648"
  shows "sint (word_of_int n :: u32) = n"
  using assms by (simp add: sint_sbintrunc' signed_take_bit_int_eq_self)

text \<open>What one field of the text of the report \<open>r\<close> does to the report under construction.\<close>

definition error_step :: "ErrorReport \<Rightarrow> byte list \<times> int list \<Rightarrow> ErrorReport option \<Rightarrow> ErrorReport option" where
  "error_step r f a =
     (let e = (case a of None \<Rightarrow> create_error_report | Some e \<Rightarrow> e) in
      Some (if fst f = bytes_of ''Code'' then e\<lparr>er_code := er_code r\<rparr>
        else if fst f = bytes_of ''Time'' then e\<lparr>er_time_stamp := er_time_stamp r\<rparr>
        else if fst f = bytes_of ''Format'' then e\<lparr>er_format := er_format r\<rparr>
        else if fst f = bytes_of ''Params'' then e\<lparr>er_params := er_params e @ er_params r\<rparr>
        else e\<lparr>er_props := \<lparr>eri_name = fst f, eri_value = tbytes (snd f)\<rparr> # er_props e\<rparr>))"

lemma read_params_text:
  assumes "\<forall>p \<in> set ps. json_bytes p" "ps \<noteq> []"
  shows "json_read_array read_errno_param e (91 # join (map items_of ps) @ 93 # r) =
    Inr ((True, e\<lparr>er_params := er_params e @ ps\<rparr>), r)"
proof -
  define stp where "stp t e = e\<lparr>er_params := er_params e @ [tbytes t]\<rparr>" for t and e :: ErrorReport
  have el: "read_errno_param e (t @ c # r) = Inr (stp t e, c # r)"
    if "t \<in> set (map items_of ps)" "c = 44 \<or> c = 93" for t e c r
    using that assms(1) json_read_object_bytes
    by (auto simp: read_errno_param_def reader_simps stp_def)
  have f: "fold stp (map items_of ps) e = e\<lparr>er_params := er_params e @ ps\<rparr>" for e
    by (induction ps arbitrary: e) (simp_all add: stp_def)
  obtain p qs where ps: "ps = p # qs" using assms(2) by (cases ps) auto
  obtain c cs where c: "items_of p = c # cs" "\<not> isspace c" "c \<noteq> 93"
    using json_bytes_first [of p] assms(1) ps by auto
  obtain ds where d: "join (map items_of ps) = c # ds"
    using ps c(1) by (cases qs) auto
  have "items_of q \<noteq> []" if "json_bytes q" for q
    using that by (elim json_bytes_first) simp
  then have "\<forall>t \<in> set (map items_of ps). t \<noteq> []"
    using assms(1) by simp
  from length_join [OF this] have "length (map items_of ps) \<le> Suc (length (join (map items_of ps) @ 93 # r))"
    by simp
  from json_array_loop_text [OF el _ this, where a = e and rest = r] f assms(2)
  have "json_array_loop read_errno_param (Suc (length (join (map items_of ps) @ 93 # r))) e (join (map items_of ps) @ 93 # r) =
      Inr (e\<lparr>er_params := er_params e @ ps\<rparr>, r)" by (simp del: json_array_loop.simps)
  with c(2,3) show ?thesis
    by (simp add: json_read_array_def reader_simps d isspace_def [of 91] del: json_array_loop.simps)
qed

lemma field_cases:
  assumes "report_ok r" "(k, t) \<in> set (error_fields r)"
  obtains (Code) "k = bytes_of ''Code''" "t = dec_int (er_code r)"
  | (Time) "k = bytes_of ''Time''" "t = dec_digits (unat (er_time_stamp r))"
  | (Format) f where "k = bytes_of ''Format''" "er_format r = Some f" "t = json_string f"
  | (Params) "k = bytes_of ''Params''" "er_params r \<noteq> []" "t = 91 # join (map items_of (er_params r)) @ [93]"
  | (Item) v where "k \<notin> {bytes_of ''Code'', bytes_of ''Time'', bytes_of ''Format'', bytes_of ''Params''}"
      "t = items_of v" "json_bytes v"
  using assms by (cases "er_format r") (auto simp: error_fields_def report_ok_def split: if_splits)

lemma error_names:
  "bytes_of ''Time'' \<noteq> bytes_of ''Code''" "bytes_of ''Format'' \<noteq> bytes_of ''Code''"
  "bytes_of ''Params'' \<noteq> bytes_of ''Code''" "bytes_of ''Format'' \<noteq> bytes_of ''Time''"
  "bytes_of ''Params'' \<noteq> bytes_of ''Time''" "bytes_of ''Params'' \<noteq> bytes_of ''Format''"
  by (simp_all add: bytes_of_def)

lemma no_digit_delim: "c = 44 \<or> c = 125 \<Longrightarrow> no_digit (c # r)"
  by (auto simp: no_digit_def is_digit_def)

lemma read_error_field_text:
  assumes "report_ok r" "(k, t) \<in> set (error_fields r)" "c = 44 \<or> c = 125"
  shows "read_error_field k a (t @ c # s) = Inr (error_step r (k, t) a, c # s)"
proof -
  note defs = read_error_field_def error_step_def error_names Let_def reader_simps
  from assms(1,2) show ?thesis
  proof (cases rule: field_cases)
    case Code
    have n: "- 2147483648 \<le> er_code r" "er_code r < 2147483648" using assms(1) by (auto simp: report_ok_def)
    then have "json_read_long (t @ c # s) = Inr (er_code r, c # s)"
      unfolding Code by (intro json_read_long_dec no_digit_delim assms(3)) simp_all
    with Code n show ?thesis by (simp add: defs sint_u32)
  next
    case Time
    have "json_read_ulong (t @ c # s) = Inr (er_time_stamp r, c # s)"
      unfolding Time by (intro json_read_ulong_dec no_digit_delim assms(3))
    with Time show ?thesis by (simp add: defs json_read_uint64_eq)
  next
    case (Format f)
    then show ?thesis by (simp add: defs json_read_alloc_string_text)
  next
    case Params
    have "\<forall>p \<in> set (er_params r). json_bytes p" using assms(1) by (simp add: report_ok_def)
    from read_params_text [OF this Params(2)] Params show ?thesis by (simp add: defs)
  next
    case (Item v)
    then show ?thesis
      using json_read_object_bytes [of v c s] assms(3) by (auto simp: defs)
  qed
qed

lemma fold_error_items:
  assumes "\<forall>i \<in> set is. eri_name i \<notin> {bytes_of ''Code'', bytes_of ''Time'', bytes_of ''Format'', bytes_of ''Params''}"
  shows "fold (error_step r) (map (\<lambda>i. (eri_name i, items_of (eri_value i))) is) (Some e) =
    Some (e\<lparr>er_props := rev is @ er_props e\<rparr>)"
  using assms by (induction "is" arbitrary: e) (simp_all add: error_step_def Let_def)

lemma fold_error_fields:
  assumes "report_ok r"
  shows "fold (error_step r) (error_fields r) None = Some (r\<lparr>er_props := rev (er_props r)\<rparr>)"
proof -
  have items: "fold (error_step r) (map (\<lambda>i. (eri_name i, items_of (eri_value i))) (er_props r)) (Some e) =
      Some (e\<lparr>er_props := rev (er_props r) @ er_props e\<rparr>)" for e
    using assms by (intro fold_error_items) (simp add: report_ok_def)
  have steps: "error_step r (bytes_of ''Code'', t) None = Some (create_error_report\<lparr>er_code := er_code r\<rparr>)"
    "error_step r (bytes_of ''Time'', t) (Some e) = Some (e\<lparr>er_time_stamp := er_time_stamp r\<rparr>)"
    "error_step r (bytes_of ''Format'', t) (Some e) = Some (e\<lparr>er_format := er_format r\<rparr>)"
    "error_step r (bytes_of ''Params'', t) (Some e) = Some (e\<lparr>er_params := er_params e @ er_params r\<rparr>)" for t e
    by (simp_all add: error_step_def error_names)
  show ?thesis
    by (cases "er_format r"; cases "er_time_stamp r = 0"; cases "er_params r = []")
      (simp_all add: error_fields_def steps items ErrorReport.equality create_error_report_def)
qed

lemma error_fields_names: "report_ok r \<Longrightarrow> \<forall>(k, t) \<in> set (error_fields r). name_ok k"
  by (auto simp: error_fields_def report_ok_def name_ok_def bytes_of_def split: option.splits)

lemma read_error_object_text:
  assumes "report_ok r"
  shows "read_error_object set_errno (error_text r @ rest) =
    Inr (set_errno (r\<lparr>er_props := rev (er_props r)\<rparr>), rest)"
proof -
  let ?t = "join (map field_text (error_fields r))"
  have ne: "error_fields r \<noteq> []" by (simp add: error_fields_def)
  then obtain ds where d: "?t = 34 # ds"
    by (cases "error_fields r" rule: list.exhaust; cases "tl (error_fields r)")
      (auto simp: field_text_def json_string_def join_Cons)
  have "\<forall>t \<in> set (map field_text (error_fields r)). t \<noteq> []" by (auto simp: field_text_def)
  from length_join [OF this] have l: "length (error_fields r) \<le> Suc (length (?t @ 125 # rest))" by simp
  have "json_struct_loop read_error_field (Suc (length (?t @ 125 # rest))) None (?t @ 125 # rest) =
      Inr (fold (error_step r) (error_fields r) None, rest)"
    by (intro json_struct_loop_text read_error_field_text assms error_fields_names ne l)
  with d fold_error_fields [OF assms] assms show ?thesis
    by (simp add: read_error_object_def error_text_def reader_simps check_char_def isspace_def report_ok_def
        del: json_struct_loop.simps)
qed

section \<open>Properties\<close>

text \<open>C25: an error report written by write_errno is read back by read_errno: the number returned is
  the one registered for the same report (its properties in reverse order, as read_error_object adds
  each at the head of the list), and reading stops behind the end-of-argument marker.\<close>

theorem errno_roundtrip:
  assumes "report_ok r" "get_error_report err = Some r" "err \<noteq> 0"
  shows "\<exists>out. write_errno item_class get_error_report err \<lparr>is_zero_copy = zc, is_items = []\<rparr> = Inr out \<and>
    read_errno set_error_report_errno (is_items out @ rest) =
      Inr (set_error_report_errno (r\<lparr>er_props := rev (er_props r)\<rparr>), rest)"
proof -
  have "INT64_MIN < er_code r" "er_code r \<le> INT64_MAX" using assms(1) by (auto simp: report_ok_def)
  from item.writesE_D [OF item.writesE_error_object [OF this] TrueI, of "\<lparr>is_zero_copy = zc, is_items = []\<rparr>"]
  obtain out1 where o: "write_error_object item_class (Some r) \<lparr>is_zero_copy = zc, is_items = []\<rparr> = Inr out1"
    "is_items out1 = error_text r" by auto
  moreover have "is_items (write_stream item_class 0 out1) = error_text r @ [0]"
    using item.writesD [OF item.writes_int [of 0] TrueI, of out1] o by simp
  moreover have "read_errno set_error_report_errno (error_text r @ 0 # rest) =
      Inr (set_error_report_errno (r\<lparr>er_props := rev (er_props r)\<rparr>), rest)"
    using read_error_object_text [OF assms(1), of set_error_report_errno "0 # rest"]
    by (simp add: read_errno_def reader_simps error_text_def isspace_def)
  ultimately show ?thesis using assms(2,3) by (simp add: write_errno_def)
qed

theorem errno_roundtrip_witness:
  "\<exists>out. write_errno item_class (\<lambda>_. Some \<lparr>er_code = 7, er_format = Some [104], er_params = [bytes_of ''12''],
      er_props = [], er_time_stamp = 9\<rparr>) 1 \<lparr>is_zero_copy = False, is_items = []\<rparr> = Inr out \<and>
    read_errno (\<lambda>r. er_code r + 100) (is_items out @ [-1]) = Inr (107, [-1])"
proof -
  have "json_bytes (bytes_of ''12'')"
    unfolding json_bytes_def
    by (rule exI [of _ "JInt 12"]) (simp add: bytes_of_def dec_int_def dec_digits.simps)
  then have "report_ok \<lparr>er_code = 7, er_format = Some [104], er_params = [bytes_of ''12''], er_props = [], er_time_stamp = 9\<rparr>"
    by (simp add: report_ok_def)
  from errno_roundtrip [OF this, of "\<lambda>_. Some \<lparr>er_code = 7, er_format = Some [104], er_params = [bytes_of ''12''],
      er_props = [], er_time_stamp = 9\<rparr>" 1 False "\<lambda>r. er_code r + 100" "[-1]"]
  show ?thesis by simp
qed

text \<open>json_read_object returns the compact text of any JSON value, arrays and structures of any
  depth included, and stops behind it; what follows a number must not look like more of it.\<close>

theorem json_read_object_copies:
  assumes "ends v rest"
  shows "json_read_object (json_text v @ rest) = Inr (tbytes (json_text v), rest)"
  using assms by (rule json_read_object_text)

theorem json_read_object_copies_witness:
  "json_read_object (json_text (JArr [JNull, JStr [34]]) @ [44]) = Inr (bytes_of ''[null,'' @ [34, 92, 34, 34, 93], [44])"
  using json_read_object_copies [of "JArr [JNull, JStr [34]]" "[44]"]
  by (simp add: ends_def json_string_def json_escape_def escaped_iff bytes_of_def)

text \<open>C35: json_read_object ends on every input, valid or not, and consumes at least one item when it
  returns: recursion and loops cannot run forever.\<close>

theorem json_read_object_ends:
  "json_read_object s \<noteq> Inl Out_of_fuel \<and> (\<forall>b s'. json_read_object s = Inr (b, s') \<longrightarrow> length s' < length s)"
  using fuelfreeD [OF fuelfree_json_read_object, of s]
  by (auto simp: json_read_object_def dest: skip_object_consumes)

theorem json_read_object_ends_witness:
  "json_read_object [91, 91, 44] \<noteq> Inl Out_of_fuel"
  using json_read_object_ends [of "[91, 91, 44]"] by blast

text \<open>the copy of a binary value loses its size: json_read_object returns the parentheses with
  nothing between them, which is not what was written.\<close>

theorem json_read_object_drops_size:
  "json_read_object (str ''(2)ab,'') = Inr (bytes_of ''()ab'', str '','')"
  by code_simp

end
