(* ===== verification/Json_Binary.thy ===== *)
theory Json_Binary
  imports Json_Roundtrip
begin

text \<open>
  Binary data: what \<open>json_write_binary\<close> or a sequence of \<open>json_write_binary_data\<close> wrote is what
  \<open>json_read_binary_data\<close> delivers, in pieces of any sizes, and what
  \<open>json_read_alloc_binary\<close> returns, whatever the size of the static buffer.
\<close>

section \<open>Base64 in pieces\<close>

text \<open>The stream that has the encoding of \<open>bs\<close> still to come.\<close>

definition b64_stream :: "byte list \<Rightarrow> istream \<Rightarrow> istream" where
  "b64_stream bs rest = items_of (base64_ref bs) @ rest"

lemma read_base64_loop_part:
  assumes "after_base64 rest"
  shows "read_base64_loop sz buf (b64_stream bs rest) =
    Inr (buf @ take (3 * ((sz - length buf) div 3)) bs, b64_stream (drop (3 * ((sz - length buf) div 3)) bs) rest)"
proof (induction bs arbitrary: buf rule: base64_ref.induct)
  case 1
  show ?case using assms by (simp add: b64_stream_def read_base64_loop_end after_base64_def)
next
  case (2 b0)
  show ?case
  proof (cases "length buf + 3 \<le> sz")
    case True
    then have "1 \<le> 3 * ((sz - length buf) div 3)" by simp
    with read_group1 [OF True, of b0 rest] show ?thesis
      by (simp add: b64_stream_def del: base64_ref.simps(2))
  qed (simp add: b64_stream_def read_base64_loop_end del: base64_ref.simps(2))
next
  case (3 b0 b1)
  show ?case
  proof (cases "length buf + 3 \<le> sz")
    case True
    then have "1 \<le> (sz - length buf) div 3" by simp
    then have "2 \<le> 3 * ((sz - length buf) div 3)" by linarith
    with read_group2 [OF True, of b0 b1 rest] show ?thesis
      by (simp add: b64_stream_def del: base64_ref.simps(3))
  qed (simp add: b64_stream_def read_base64_loop_end del: base64_ref.simps(3))
next
  case (4 b0 b1 b2 bs)
  show ?case
  proof (cases "length buf + 3 \<le> sz")
    case True
    then have k: "3 * ((sz - length buf) div 3) = Suc (Suc (Suc (3 * ((sz - length (buf @ [b0, b1, b2])) div 3))))"
      using div_add_self2 [of 3 "sz - length (buf @ [b0, b1, b2])"] by simp
    show ?thesis
      unfolding k using 4 [OF refl, of "buf @ [b0, b1, b2]"] read_group3 [OF True, of b0 b1 b2 bs rest]
      by (simp add: b64_stream_def del: base64_ref.simps(4))
  qed (simp add: b64_stream_def read_base64_loop_end del: base64_ref.simps(4))
qed

lemma read_base64_part:
  assumes "after_base64 rest" "3 \<le> sz"
  shows "read_base64 sz (b64_stream bs rest) =
    Inr (take (3 * (sz div 3)) bs, b64_stream (drop (3 * (sz div 3)) bs) rest)"
  using read_base64_loop_part [OF assms(1), of sz "[]" bs] assms(2) by (simp add: read_base64_def)

text \<open>One call delivers the next \<open>len\<close> bytes, and the rest stays in the state and the stream.\<close>

lemma json_read_binary_loop_part:
  assumes "after_base64 rest"
  shows "\<exists>rem' bs' early. json_read_binary_loop rem res len (b64_stream bs rest) =
      Inr ((rem', res @ take len (rem @ bs), early), b64_stream bs' rest) \<and>
    rem' @ bs' = drop len (rem @ bs)"
proof (induction rem res len arbitrary: bs rule: json_read_binary_loop.induct)
  case (1 rem res len)
  define i where "i = min (length rem) len"
  define len1 where "len1 = len - i"
  consider (zero) "len = 0" | (early) "len \<noteq> 0" "i < length rem"
    | (big) "len \<noteq> 0" "\<not> i < length rem" "3 \<le> len1" | (small) "len \<noteq> 0" "\<not> i < length rem" "\<not> 3 \<le> len1"
    by blast
  then show ?case
  proof cases
    case zero
    then show ?thesis by (subst json_read_binary_loop.simps) (auto simp: reader_simps)
  next
    case early
    then have "i = len" "len < length rem" by (auto simp: i_def)
    then show ?thesis
      using early by (subst json_read_binary_loop.simps) (auto simp: reader_simps Let_def)
  next
    case big
    then have i: "i = length rem" "len = length rem + len1" by (auto simp: i_def len1_def)
    define k where "k = 3 * (len1 div 3)"
    have k: "0 < k" "k \<le> len1" using big(3) by (auto simp: k_def)
    have rd: "read_base64 len1 (b64_stream bs rest) = Inr (take k bs, b64_stream (drop k bs) rest)"
      using read_base64_part [OF assms big(3)] by (simp add: k_def)
    show ?thesis
    proof (cases "bs = []")
      case True
      then show ?thesis
        using big rd i by (subst json_read_binary_loop.simps)
          (auto simp: reader_simps Let_def i_def [symmetric] len1_def [symmetric])
    next
      case False
      with k have ne: "take k bs \<noteq> []" by simp
      have e: "json_read_binary_loop rem res len (b64_stream bs rest) =
          json_read_binary_loop [] ((res @ take i rem) @ take k bs) (len1 - length (take k bs)) (b64_stream (drop k bs) rest)"
        using big rd ne by (subst json_read_binary_loop.simps)
          (simp add: reader_simps Let_def i_def [symmetric] len1_def [symmetric])
      have t: "take k bs @ take (len1 - length (take k bs)) (drop k bs) = take len1 bs"
        "drop (len1 - length (take k bs)) (drop k bs) = drop len1 bs"
        using take_add [of k "len1 - k" bs] k(2) by (cases "k \<le> length bs"; simp)+
      show ?thesis
        using 1(1) [OF big(1) i_def refl len1_def big(2,3) ne, of "drop k bs"] t i
        unfolding e by simp
    qed
  next
    case small
    then have i: "i = length rem" "len = length rem + len1" "len1 < 3" by (auto simp: i_def len1_def)
    have rd: "read_base64 3 (b64_stream bs rest) = Inr (take 3 bs, b64_stream (drop 3 bs) rest)"
      using read_base64_part [OF assms, of 3 bs] by simp
    show ?thesis
    proof (cases "bs = []")
      case True
      then show ?thesis
        using small rd i by (subst json_read_binary_loop.simps)
          (auto simp: reader_simps Let_def i_def [symmetric] len1_def [symmetric])
    next
      case False
      then have ne: "take 3 bs \<noteq> []" by simp
      have e: "json_read_binary_loop rem res len (b64_stream bs rest) =
          json_read_binary_loop (take 3 bs) (res @ take i rem) len1 (b64_stream (drop 3 bs) rest)"
        using small rd ne by (subst json_read_binary_loop.simps)
          (simp add: reader_simps Let_def i_def [symmetric] len1_def [symmetric])
      show ?thesis
        using 1(2) [OF small(1) i_def refl len1_def small(2,3) ne, of "drop 3 bs"] i
        unfolding e by simp
    qed
  qed
qed

section \<open>The whole value\<close>

text \<open>There is always room for a byte after the check of \<open>buf_pos\<close> against \<open>buf_size\<close>.\<close>

definition grow :: "nat \<Rightarrow> byte list \<Rightarrow> nat" where
  "grow sz buf = (if length buf \<ge> sz then realloc_buf sz else sz)"

lemma grow_room: "length buf \<le> sz \<Longrightarrow> length buf < grow sz buf"
  by (auto simp: grow_def realloc_buf_def)

lemma alloc_loop_Suc:
  "json_alloc_binary_loop (Suc n) sz st buf =
     bindR (json_read_binary_data st (grow sz buf - length buf)) (\<lambda>(rd, st).
       if length rd = 0 then retR (buf, st) else json_alloc_binary_loop n (grow sz buf) st (buf @ rd))"
  by (simp only: json_alloc_binary_loop.simps(2) grow_def Let_def)

declare json_alloc_binary_loop.simps(2) [simp del]

lemma alloc_binary_loop_base64:
  assumes "after_base64 rest" "rb_encoding st \<noteq> ENCODING_BINARY" "length (rb_buf st @ bs) < n" "length buf \<le> sz"
  shows "\<exists>st'. json_alloc_binary_loop n sz st buf (b64_stream bs rest) = Inr ((buf @ rb_buf st @ bs, st'), rest) \<and>
    rb_buf st' = [] \<and> rb_encoding st' = rb_encoding st \<and> rb_size_start st' = rb_size_start st"
  using assms(2-4)
proof (induction n arbitrary: sz st buf bs)
  case (Suc n)
  define len where "len = grow sz buf - length buf"
  have len: "0 < len" "length buf + len = grow sz buf"
    using grow_room [OF Suc.prems(3)] by (auto simp: len_def)
  from json_read_binary_loop_part [OF assms(1), of "rb_buf st" "[]" len bs] obtain rem' bs' early where
    rd: "json_read_binary_loop (rb_buf st) [] len (b64_stream bs rest) =
        Inr ((rem', take len (rb_buf st @ bs), early), b64_stream bs' rest)"
      "rem' @ bs' = drop len (rb_buf st @ bs)" by auto
  define st1 where "st1 = (if early then st\<lparr>rb_buf := rem'\<rparr> else st\<lparr>rb_buf := rem',
      rb_size_done := rb_size_done st + length (take len (rb_buf st @ bs))\<rparr>)"
  have st1: "rb_buf st1 = rem'" "rb_encoding st1 = rb_encoding st" "rb_size_start st1 = rb_size_start st"
    by (auto simp: st1_def)
  have data: "json_read_binary_data st len (b64_stream bs rest) =
      Inr ((take len (rb_buf st @ bs), st1), b64_stream bs' rest)"
    using Suc.prems(1) rd(1) by (simp add: json_read_binary_data_def reader_simps st1_def)
  show ?case
  proof (cases "rb_buf st @ bs = []")
    case True
    with rd(2) have "rem' = []" "bs' = []" by auto
    with True data st1 show ?thesis
      by (simp add: alloc_loop_Suc reader_simps b64_stream_def flip: len_def)
  next
    case False
    with len(1) have ne: "take len (rb_buf st @ bs) \<noteq> []" by simp
    have step: "json_alloc_binary_loop (Suc n) sz st buf (b64_stream bs rest) =
        json_alloc_binary_loop n (grow sz buf) st1 (buf @ take len (rb_buf st @ bs)) (b64_stream bs' rest)"
      using data ne by (auto simp: alloc_loop_Suc reader_simps simp flip: len_def)
    have "length (rem' @ bs') < length (rb_buf st @ bs)"
      using rd(2) False len(1) by (cases "rb_buf st @ bs") simp_all
    then have "length (rb_buf st1 @ bs') < n" using Suc.prems(2) st1 by simp
    moreover have "length (buf @ take len (rb_buf st @ bs)) \<le> grow sz buf"
      using len(2) by simp
    ultimately have IH: "\<exists>st'. json_alloc_binary_loop n (grow sz buf) st1 (buf @ take len (rb_buf st @ bs)) (b64_stream bs' rest) =
        Inr (((buf @ take len (rb_buf st @ bs)) @ rb_buf st1 @ bs', st'), rest) \<and>
        rb_buf st' = [] \<and> rb_encoding st' = rb_encoding st1 \<and> rb_size_start st' = rb_size_start st1"
      using Suc.prems(1) st1 by (intro Suc.IH) simp_all
    have "(buf @ take len (rb_buf st @ bs)) @ rb_buf st1 @ bs' = buf @ rb_buf st @ bs"
      using rd(2) st1(1) append_take_drop_id [of len "rb_buf st @ bs"] by simp
    with IH st1 show ?thesis unfolding step by simp
  qed
qed simp

lemma read_raw_items: "read_raw (length bs) (items_of bs @ rest) = Inr (bs, rest)"
  by (induction bs) (simp_all add: reader_simps)

lemma alloc_binary_loop_binary:
  assumes "rb_encoding st = ENCODING_BINARY" "rb_size_start st = rb_size_done st + length bs"
    and "length bs < n" "length buf \<le> sz"
  shows "json_alloc_binary_loop n sz st buf (items_of bs @ rest) =
    Inr ((buf @ bs, st\<lparr>rb_size_done := rb_size_start st\<rparr>), rest)"
  using assms
proof (induction n arbitrary: sz st buf bs)
  case (Suc n)
  define len where "len = grow sz buf - length buf"
  have len: "0 < len" "length buf + len = grow sz buf"
    using grow_room [OF Suc.prems(4)] by (auto simp: len_def)
  define st1 where "st1 = st\<lparr>rb_size_done := rb_size_done st + length (take len bs)\<rparr>"
  have "read_raw (min len (length bs)) (items_of bs @ rest) = Inr (take len bs, items_of (drop len bs) @ rest)"
    using read_raw_items [of "take len bs" "items_of (drop len bs) @ rest"]
    by (simp add: min.commute flip: append_assoc items_of_simps(3))
  then have data: "json_read_binary_data st len (items_of bs @ rest) = Inr ((take len bs, st1), items_of (drop len bs) @ rest)"
    using Suc.prems(1,2) by (simp add: json_read_binary_data_def reader_simps st1_def)
  show ?case
  proof (cases "bs = []")
    case True
    with data Suc.prems(2) show ?thesis
      by (simp add: alloc_loop_Suc reader_simps st1_def flip: len_def)
  next
    case False
    have step: "json_alloc_binary_loop (Suc n) sz st buf (items_of bs @ rest) =
        json_alloc_binary_loop n (grow sz buf) st1 (buf @ take len bs) (items_of (drop len bs) @ rest)"
      using data False len(1) by (simp add: alloc_loop_Suc reader_simps flip: len_def)
    have "length (drop len bs) < n" using Suc.prems(3) len(1) False by (cases bs) auto
    then show ?thesis
      unfolding step using Suc.prems(1,2) len(2)
      by (subst Suc.IH) (auto simp: st1_def)
  qed
qed simp

lemma after_quote: "after_base64 (34 # r)"
  by (simp add: after_base64_def b64_digit_def char2int_def)

lemma no_digit_paren: "no_digit (41 # r)"
  by (simp add: no_digit_def is_digit_def)

lemma json_read_alloc_binary_base64:
  "json_read_alloc_binary buf_size (34 # items_of (base64_ref bs) @ 34 # rest) = Inr (Some bs, rest)"
proof -
  define st where "st = \<lparr>rb_encoding = ENCODING_BASE64, rb_size_start = 0, rb_size_done = 0, rb_buf = []\<rparr>"
  define s where "s = b64_stream bs (34 # rest)"
  have "length bs \<le> length (base64_ref bs)" by (simp add: base64_ref_length)
  then have "length (rb_buf st @ bs) < Suc (length s + rb_size_start st)"
    by (simp add: st_def s_def b64_stream_def)
  from alloc_binary_loop_base64 [OF after_quote _ this, of "[]" buf_size rest] obtain st' where
    l: "json_alloc_binary_loop (Suc (length s + rb_size_start st)) buf_size st [] s = Inr ((bs, st'), 34 # rest)"
      "rb_buf st' = []" "rb_encoding st' = ENCODING_BASE64" "rb_size_start st' = 0"
    by (auto simp: st_def s_def)
  have "json_read_binary_start (34 # s) = Inr (st, s)"
    by (simp add: json_read_binary_start_def reader_simps st_def isspace_def)
  moreover have "json_read_binary_end st' (34 # rest) = Inr ((), rest)"
    using l by (simp add: json_read_binary_end_def reader_simps isspace_def)
  moreover have "34 # items_of (base64_ref bs) @ 34 # rest = 34 # s"
    by (simp add: s_def b64_stream_def)
  ultimately show ?thesis
    using l by (simp add: json_read_alloc_binary_def reader_simps isspace_def)
qed

lemma json_read_alloc_binary_raw:
  assumes "length bs < 18446744073709551616"
  shows "json_read_alloc_binary buf_size ([40] @ dec_digits (length bs) @ [41] @ items_of bs @ rest) = Inr (Some bs, rest)"
proof -
  have n: "unat (of_nat (length bs) :: u64) = length bs"
    using assms by (simp add: unat_of_nat)
  define st where "st = \<lparr>rb_encoding = ENCODING_BINARY, rb_size_start = length bs, rb_size_done = 0, rb_buf = []\<rparr>"
  have "json_read_ulong (dec_digits (length bs) @ 41 # items_of bs @ rest) =
      Inr (of_nat (length bs), 41 # items_of bs @ rest)"
    using json_read_ulong_dec [OF no_digit_paren, of "of_nat (length bs)"] by (simp add: n)
  then have "json_read_binary_start (40 # dec_digits (length bs) @ 41 # items_of bs @ rest) = Inr (st, items_of bs @ rest)"
    using n by (simp add: json_read_binary_start_def reader_simps st_def isspace_def)
  moreover have "json_alloc_binary_loop (Suc (length (items_of bs @ rest) + rb_size_start st)) buf_size st [] (items_of bs @ rest) =
      Inr (([] @ bs, st\<lparr>rb_size_done := rb_size_start st\<rparr>), rest)"
    by (rule alloc_binary_loop_binary) (simp_all add: st_def)
  ultimately show ?thesis
    by (simp add: json_read_alloc_binary_def reader_simps isspace_def st_def json_read_binary_end_def)
qed

section \<open>Properties\<close>

text \<open>C31: binary data of any length written by json_write_binary, raw on a zero-copy stream and as
  base64 otherwise, is returned unchanged by json_read_alloc_binary, for every size the static buffer
  may have from earlier calls; no assertion fails and reading stops behind the value.\<close>

theorem json_binary_roundtrip:
  assumes "length bs < 18446744073709551616"
  shows "\<exists>out. json_write_binary item_class (Some bs) \<lparr>is_zero_copy = zc, is_items = []\<rparr> = Inr out \<and>
    json_read_alloc_binary buf_size (is_items out @ rest) = Inr (Some bs, rest)"
proof -
  from item.writesE_binary [OF TrueI assms, of "\<lparr>is_zero_copy = zc, is_items = []\<rparr>"] obtain out where
    "json_write_binary item_class (Some bs) \<lparr>is_zero_copy = zc, is_items = []\<rparr> = Inr out"
    "is_items out = json_binary_text zc bs" by (auto simp: item_class_def)
  moreover have "json_read_alloc_binary buf_size (json_binary_text zc bs @ rest) = Inr (Some bs, rest)"
    using json_read_alloc_binary_base64 [of buf_size bs rest] json_read_alloc_binary_raw [OF assms, of buf_size rest]
    by (simp add: json_binary_text_def)
  ultimately show ?thesis by auto
qed

theorem json_binary_roundtrip_witness:
  "\<exists>out. json_write_binary item_class (Some [1, 2, 255, 3]) \<lparr>is_zero_copy = True, is_items = []\<rparr> = Inr out \<and>
    json_read_alloc_binary 2 (is_items out @ [0, -1]) = Inr (Some [1, 2, 255, 3], [0, -1])"
  by (rule json_binary_roundtrip) simp

text \<open>one call of json_read_binary_data on base64 data delivers exactly the next len bytes (or all
  that are left), and keeps the others in its state and the stream: the sizes a client reads with do not
  change what it reads.\<close>

theorem json_read_binary_data_pieces:
  assumes "after_base64 rest" "rb_encoding st \<noteq> ENCODING_BINARY"
  shows "\<exists>st' bs'. json_read_binary_data st len (items_of (base64_ref bs) @ rest) =
      Inr ((take len (rb_buf st @ bs), st'), items_of (base64_ref bs') @ rest) \<and>
    rb_buf st' @ bs' = drop len (rb_buf st @ bs)"
proof -
  from json_read_binary_loop_part [OF assms(1), of "rb_buf st" "[]" len bs] obtain rem' bs' early where
    "json_read_binary_loop (rb_buf st) [] len (items_of (base64_ref bs) @ rest) =
        Inr ((rem', take len (rb_buf st @ bs), early), items_of (base64_ref bs') @ rest)"
      "rem' @ bs' = drop len (rb_buf st @ bs)" by (auto simp: b64_stream_def)
  then show ?thesis
    using assms(2) by (auto simp: json_read_binary_data_def reader_simps)
qed

theorem json_read_binary_data_pieces_witness:
  "\<exists>st' bs'. json_read_binary_data \<lparr>rb_encoding = 1, rb_size_start = 0, rb_size_done = 0, rb_buf = [7]\<rparr> 2
      (items_of (base64_ref [8, 9, 10]) @ [34]) = Inr (([7, 8], st'), items_of (base64_ref bs') @ [34]) \<and>
    rb_buf st' @ bs' = [9, 10]"
  using json_read_binary_data_pieces [OF after_quote [of "[]"],
      of "\<lparr>rb_encoding = 1, rb_size_start = 0, rb_size_done = 0, rb_buf = [7]\<rparr>" 2 "[8, 9, 10]"]
  by simp

end
