(* ===== verification/Vm.thy ===== *)
theory Vm
  imports Prelude
begin

text \<open>
  services/vm.c: the stack machine that evaluates DWARF location expressions.

  The record \<open>vm\<close> has the fields of \<open>LocationExpressionState\<close> and the static variables of
  vm.c. The stack is a list with the top first; \<open>code_pos\<close> and \<open>code_len\<close> are natural numbers,
  with the wrap-around of \<open>size_t\<close> written out where a jump adds a negative offset. Registers,
  memory, stack frames and the client callback belong to the debugged target and to other services;
  they are the fields of the record \<open>vm_env\<close>. A shift by the width of the type or more and a write
  behind the local array of \<open>read_memory\<close> are \<open>Undefined\<close>, a read behind the end of the code
  is \<open>Out_of_bounds\<close>.
\<close>

section \<open>State\<close>

record RegisterDefinition =
  reg_name :: string
  reg_size :: nat
  reg_big_endian :: bool

record StackFrame =
  sf_frame :: int
  sf_fp :: u64

record LocationPiece =
  lp_optimized_away :: bool
  lp_addr :: u64
  lp_reg :: "RegisterDefinition option"
  lp_value :: "byte list option"
  lp_size :: u64
  lp_bit_offs :: u32
  lp_bit_size :: u32
  lp_implicit_pointer :: u32

record vm =
  vm_frame :: "StackFrame option"
  vm_args :: "u64 list"
  vm_code :: "byte list"
  vm_pos :: nat
  vm_len :: nat
  vm_big_endian :: bool
  vm_addr_size :: nat
  vm_pieces :: "LocationPiece list"
  vm_stk :: "u64 list"
  vm_reg_def :: "RegisterDefinition option"
  vm_value :: "byte list option"
  vm_implicit :: u32

record vm_env =
  get_reg_by_id :: "u32 \<Rightarrow> error + RegisterDefinition"
  read_reg_value :: "StackFrame option \<Rightarrow> RegisterDefinition \<Rightarrow> error + u64"
  context_read_mem :: "u64 \<Rightarrow> nat \<Rightarrow> error + byte list"
  get_prev_frame :: "StackFrame option \<Rightarrow> int"
  get_frame_info :: "int \<Rightarrow> error + StackFrame option"
  read_location_pieces :: "StackFrame option \<Rightarrow> LocationPiece list \<Rightarrow> exn + byte list"
  client_op :: "byte \<Rightarrow> vm \<Rightarrow> exn + vm"

type_synonym 'a vmc = "(vm, 'a) comp"

definition getV :: "(vm \<Rightarrow> 'a) \<Rightarrow> 'a vmc" where
  "getV f = (\<lambda>s. Inr (f s, s))"

definition modV :: "(vm \<Rightarrow> vm) \<Rightarrow> unit vmc" where
  "modV f = (\<lambda>s. Inr ((), f s))"

lemma getV_apply [reader_simps]: "getV f s = Inr (f s, s)"
  by (simp add: getV_def)

lemma modV_apply [reader_simps]: "modV f s = Inr ((), f s)"
  by (simp add: modV_def)

text \<open>The call of a function of the environment that sets \<open>errno\<close>.\<close>

definition callV :: "error + 'a \<Rightarrow> 'a vmc" where
  "callV r = (case r of Inl e \<Rightarrow> raiseR (Exception e) | Inr x \<Rightarrow> retR x)"

definition inv_dwarf :: "string \<Rightarrow> 'a vmc" where
  "inv_dwarf msg = raiseR (Str_exception ERR_INV_DWARF msg)"

definition check_e_stack :: "nat \<Rightarrow> unit vmc" where
  "check_e_stack n =
     bindR (getV vm_stk) (\<lambda>stk.
       if length stk < n then inv_dwarf ''Invalid location expression stack'' else retR ())"

definition pushV :: "u64 \<Rightarrow> unit vmc" where
  "pushV x = modV (\<lambda>s. s\<lparr>vm_stk := x # vm_stk s\<rparr>)"

section \<open>Reading the code and the memory\<close>

definition bytes_be :: "byte list \<Rightarrow> u64" where
  "bytes_be bs = foldl (\<lambda>n b. push_bit 8 n OR ucast b) 0 bs"

text \<open>\<open>buf\<close> has eight bytes.\<close>

definition read_memory :: "vm_env \<Rightarrow> u64 \<Rightarrow> nat \<Rightarrow> u64 vmc" where
  "read_memory env addr sz =
     (if sz > 8 then raiseR Undefined
      else bindR (callV (context_read_mem env addr sz)) (\<lambda>buf.
           bindR (getV vm_big_endian) (\<lambda>be. retR (bytes_be (if be then buf else rev buf)))))"

definition read_u1 :: "byte vmc" where
  "read_u1 s =
     (if vm_pos s \<ge> vm_len s then inv_dwarf ''Invalid command'' s
      else if vm_pos s \<ge> length (vm_code s) then raiseR Out_of_bounds s
      else Inr (vm_code s ! vm_pos s, s\<lparr>vm_pos := Suc (vm_pos s)\<rparr>))"

definition read_u2 :: "u16 vmc" where
  "read_u2 =
     bindR read_u1 (\<lambda>x0. bindR read_u1 (\<lambda>x1. bindR (getV vm_big_endian) (\<lambda>be.
       retR (if be then push_bit 8 (ucast x0) OR ucast x1 else ucast x0 OR push_bit 8 (ucast x1)))))"

definition read_u4 :: "u32 vmc" where
  "read_u4 =
     bindR read_u2 (\<lambda>x0. bindR read_u2 (\<lambda>x1. bindR (getV vm_big_endian) (\<lambda>be.
       retR (if be then push_bit 16 (ucast x0) OR ucast x1 else ucast x0 OR push_bit 16 (ucast x1)))))"

definition read_u8 :: "u64 vmc" where
  "read_u8 =
     bindR read_u4 (\<lambda>x0. bindR read_u4 (\<lambda>x1. bindR (getV vm_big_endian) (\<lambda>be.
       retR (if be then push_bit 32 (ucast x0) OR ucast x1 else ucast x0 OR push_bit 32 (ucast x1)))))"

function read_u4leb128_loop :: "nat \<Rightarrow> u32 \<Rightarrow> u32 vmc" where
  "read_u4leb128_loop i res =
     bindR read_u1 (\<lambda>n.
       if i \<ge> 32 then raiseR Undefined
       else let res = res OR push_bit i (ucast (n AND 0x7F)) in
         if n AND 0x80 = 0 then retR res else read_u4leb128_loop (i + 7) res)"
  by pat_completeness auto
termination
  by (relation "measure (\<lambda>(i, res). 32 - i)") auto

definition read_u4leb128 :: "u32 vmc" where
  "read_u4leb128 = read_u4leb128_loop 0 0"

function read_u8leb128_loop :: "nat \<Rightarrow> u64 \<Rightarrow> u64 vmc" where
  "read_u8leb128_loop i res =
     bindR read_u1 (\<lambda>n.
       if i \<ge> 64 then raiseR Undefined
       else let res = res OR push_bit i (ucast (n AND 0x7F)) in
         if n AND 0x80 = 0 then retR res else read_u8leb128_loop (i + 7) res)"
  by pat_completeness auto
termination
  by (relation "measure (\<lambda>(i, res). 64 - i)") auto

definition read_u8leb128 :: "u64 vmc" where
  "read_u8leb128 = read_u8leb128_loop 0 0"

text \<open>The shift of the negative value \<open>-(int64_t)(n & 0x40) << i\<close> is the shift of its two's
  complement bits, as the compilers of the agent define it.\<close>

function read_i8leb128_loop :: "nat \<Rightarrow> u64 \<Rightarrow> u64 vmc" where
  "read_i8leb128_loop i res =
     bindR read_u1 (\<lambda>n.
       if i \<ge> 64 then raiseR Undefined
       else let res = res OR push_bit i (ucast (n AND 0x7F)) in
         if n AND 0x80 = 0 then retR (res OR push_bit i (- ucast (n AND 0x40)))
         else read_i8leb128_loop (i + 7) res)"
  by pat_completeness auto
termination
  by (relation "measure (\<lambda>(i, res). 64 - i)") auto

definition read_i8leb128 :: "u64 vmc" where
  "read_i8leb128 = read_i8leb128_loop 0 0"

declare read_u4leb128_loop.simps [simp del] read_u8leb128_loop.simps [simp del]
  read_i8leb128_loop.simps [simp del]

definition read_ia :: "u64 vmc" where
  "read_ia =
     bindR (getV vm_addr_size) (\<lambda>sz.
       if sz = 1 then bindR read_u1 (\<lambda>x. retR (scast x))
       else if sz = 2 then bindR read_u2 (\<lambda>x. retR (scast x))
       else if sz = 4 then bindR read_u4 (\<lambda>x. retR (scast x))
       else if sz = 8 then bindR read_u8 (\<lambda>x. retR (scast x))
       else inv_dwarf ''Invalid address size'')"

definition read_ua :: "u64 vmc" where
  "read_ua =
     bindR (getV vm_addr_size) (\<lambda>sz.
       if sz = 1 then bindR read_u1 (\<lambda>x. retR (ucast x))
       else if sz = 2 then bindR read_u2 (\<lambda>x. retR (ucast x))
       else if sz = 4 then bindR read_u4 (\<lambda>x. retR (ucast x))
       else if sz = 8 then read_u8
       else inv_dwarf ''Invalid address size'')"

section \<open>Pieces\<close>

definition empty_piece :: LocationPiece where
  "empty_piece = \<lparr>lp_optimized_away = False, lp_addr = 0, lp_reg = None, lp_value = None, lp_size = 0,
     lp_bit_offs = 0, lp_bit_size = 0, lp_implicit_pointer = 0\<rparr>"

definition add_piece :: "vm \<Rightarrow> vm" where
  "add_piece s =
     (let (piece, stk) =
        (case vm_reg_def s of
           Some r \<Rightarrow> (empty_piece\<lparr>lp_reg := Some r, lp_size := of_nat (reg_size r)\<rparr>, vm_stk s)
         | None \<Rightarrow> (case vm_value s of
             Some v \<Rightarrow> (empty_piece\<lparr>lp_value := Some v, lp_size := of_nat (length v)\<rparr>, vm_stk s)
           | None \<Rightarrow> (case vm_stk s of
               [] \<Rightarrow> (empty_piece\<lparr>lp_optimized_away := True\<rparr>, [])
             | x # stk \<Rightarrow> (empty_piece\<lparr>lp_addr := x\<rparr>, stk))))
      in s\<lparr>vm_pieces := vm_pieces s @ [piece\<lparr>lp_implicit_pointer := vm_implicit s\<rparr>], vm_stk := stk,
           vm_implicit := 0, vm_value := None, vm_reg_def := None\<rparr>)"

text \<open>A change of the piece \<open>add_piece\<close> returned.\<close>

definition set_piece :: "(LocationPiece \<Rightarrow> LocationPiece) \<Rightarrow> vm \<Rightarrow> vm" where
  "set_piece f s = s\<lparr>vm_pieces := butlast (vm_pieces s) @ [f (last (vm_pieces s))]\<rparr>"

abbreviation (input) OP_piece :: byte where "OP_piece \<equiv> 0x93"
abbreviation (input) OP_bit_piece :: byte where "OP_bit_piece \<equiv> 0x9d"
abbreviation (input) OP_TCF_offset :: byte where "OP_TCF_offset \<equiv> 0xff"

definition is_end_of_loc_expr :: "bool vmc" where
  "is_end_of_loc_expr s =
     (if vm_pos s \<ge> vm_len s then Inr (True, s)
      else if vm_pos s \<ge> length (vm_code s) then raiseR Out_of_bounds s
      else Inr (vm_code s ! vm_pos s = OP_piece \<or> vm_code s ! vm_pos s = OP_bit_piece \<or>
                vm_code s ! vm_pos s = OP_TCF_offset, s))"

definition must_be_last :: "string \<Rightarrow> unit vmc" where
  "must_be_last msg = bindR is_end_of_loc_expr (\<lambda>e. if e then retR () else inv_dwarf msg)"

section \<open>The operations\<close>

text \<open>The operation codes of dwarf.h.\<close>

abbreviation (input) OP_deref2 :: byte where "OP_deref2 \<equiv> 0x05"
abbreviation (input) OP_deref :: byte where "OP_deref \<equiv> 0x06"
abbreviation (input) OP_const :: byte where "OP_const \<equiv> 0x04"
abbreviation (input) OP_add :: byte where "OP_add \<equiv> 0x07"
abbreviation (input) OP_const1u :: byte where "OP_const1u \<equiv> 0x08"
abbreviation (input) OP_const1s :: byte where "OP_const1s \<equiv> 0x09"
abbreviation (input) OP_const2u :: byte where "OP_const2u \<equiv> 0x0a"
abbreviation (input) OP_const2s :: byte where "OP_const2s \<equiv> 0x0b"
abbreviation (input) OP_const4u :: byte where "OP_const4u \<equiv> 0x0c"
abbreviation (input) OP_const4s :: byte where "OP_const4s \<equiv> 0x0d"
abbreviation (input) OP_const8u :: byte where "OP_const8u \<equiv> 0x0e"
abbreviation (input) OP_const8s :: byte where "OP_const8s \<equiv> 0x0f"
abbreviation (input) OP_constu :: byte where "OP_constu \<equiv> 0x10"
abbreviation (input) OP_consts :: byte where "OP_consts \<equiv> 0x11"
abbreviation (input) OP_dup :: byte where "OP_dup \<equiv> 0x12"
abbreviation (input) OP_drop :: byte where "OP_drop \<equiv> 0x13"
abbreviation (input) OP_over :: byte where "OP_over \<equiv> 0x14"
abbreviation (input) OP_pick :: byte where "OP_pick \<equiv> 0x15"
abbreviation (input) OP_swap :: byte where "OP_swap \<equiv> 0x16"
abbreviation (input) OP_rot :: byte where "OP_rot \<equiv> 0x17"
abbreviation (input) OP_xderef :: byte where "OP_xderef \<equiv> 0x18"
abbreviation (input) OP_abs :: byte where "OP_abs \<equiv> 0x19"
abbreviation (input) OP_and :: byte where "OP_and \<equiv> 0x1a"
abbreviation (input) OP_div :: byte where "OP_div \<equiv> 0x1b"
abbreviation (input) OP_minus :: byte where "OP_minus \<equiv> 0x1c"
abbreviation (input) OP_mod :: byte where "OP_mod \<equiv> 0x1d"
abbreviation (input) OP_mul :: byte where "OP_mul \<equiv> 0x1e"
abbreviation (input) OP_neg :: byte where "OP_neg \<equiv> 0x1f"
abbreviation (input) OP_not :: byte where "OP_not \<equiv> 0x20"
abbreviation (input) OP_or :: byte where "OP_or \<equiv> 0x21"
abbreviation (input) OP_plus :: byte where "OP_plus \<equiv> 0x22"
abbreviation (input) OP_plus_uconst :: byte where "OP_plus_uconst \<equiv> 0x23"
abbreviation (input) OP_shl :: byte where "OP_shl \<equiv> 0x24"
abbreviation (input) OP_shr :: byte where "OP_shr \<equiv> 0x25"
abbreviation (input) OP_shra :: byte where "OP_shra \<equiv> 0x26"
abbreviation (input) OP_xor :: byte where "OP_xor \<equiv> 0x27"
abbreviation (input) OP_bra :: byte where "OP_bra \<equiv> 0x28"
abbreviation (input) OP_eq :: byte where "OP_eq \<equiv> 0x29"
abbreviation (input) OP_ge :: byte where "OP_ge \<equiv> 0x2a"
abbreviation (input) OP_gt :: byte where "OP_gt \<equiv> 0x2b"
abbreviation (input) OP_le :: byte where "OP_le \<equiv> 0x2c"
abbreviation (input) OP_lt :: byte where "OP_lt \<equiv> 0x2d"
abbreviation (input) OP_ne :: byte where "OP_ne \<equiv> 0x2e"
abbreviation (input) OP_skip :: byte where "OP_skip \<equiv> 0x2f"
abbreviation (input) OP_lit0 :: byte where "OP_lit0 \<equiv> 0x30"
abbreviation (input) OP_lit31 :: byte where "OP_lit31 \<equiv> 0x4f"
abbreviation (input) OP_reg0 :: byte where "OP_reg0 \<equiv> 0x50"
abbreviation (input) OP_reg31 :: byte where "OP_reg31 \<equiv> 0x6f"
abbreviation (input) OP_breg0 :: byte where "OP_breg0 \<equiv> 0x70"
abbreviation (input) OP_breg31 :: byte where "OP_breg31 \<equiv> 0x8f"
abbreviation (input) OP_reg :: byte where "OP_reg \<equiv> 0x01"
abbreviation (input) OP_basereg :: byte where "OP_basereg \<equiv> 0x02"
abbreviation (input) OP_regx :: byte where "OP_regx \<equiv> 0x90"
abbreviation (input) OP_bregx :: byte where "OP_bregx \<equiv> 0x92"
abbreviation (input) OP_deref_size :: byte where "OP_deref_size \<equiv> 0x94"
abbreviation (input) OP_xderef_size :: byte where "OP_xderef_size \<equiv> 0x95"
abbreviation (input) OP_nop :: byte where "OP_nop \<equiv> 0x96"
abbreviation (input) OP_push_object_address :: byte where "OP_push_object_address \<equiv> 0x97"
abbreviation (input) OP_call_frame_cfa :: byte where "OP_call_frame_cfa \<equiv> 0x9c"
abbreviation (input) OP_implicit_value :: byte where "OP_implicit_value \<equiv> 0x9e"
abbreviation (input) OP_stack_value :: byte where "OP_stack_value \<equiv> 0x9f"
abbreviation (input) OP_GNU_entry_value :: byte where "OP_GNU_entry_value \<equiv> 0xf3"
abbreviation (input) OP_TCF_switch :: byte where "OP_TCF_switch \<equiv> 0xfe"

definition un_op :: "(u64 \<Rightarrow> u64) \<Rightarrow> unit vmc" where
  "un_op f = seqR (check_e_stack 1) (modV (\<lambda>s. s\<lparr>vm_stk := f (hd (vm_stk s)) # tl (vm_stk s)\<rparr>))"

text \<open>\<open>x\<close> is \<open>stk[stk_pos - 2]\<close> and \<open>y\<close> is \<open>stk[stk_pos - 1]\<close>; the result replaces both.\<close>

definition bin_op :: "(u64 \<Rightarrow> u64 \<Rightarrow> u64) \<Rightarrow> unit vmc" where
  "bin_op f = seqR (check_e_stack 2)
     (modV (\<lambda>s. s\<lparr>vm_stk := f (vm_stk s ! 1) (vm_stk s ! 0) # drop 2 (vm_stk s)\<rparr>))"

text \<open>An operation that replaces the top of the stack by the memory at that address.\<close>

definition deref_op :: "vm_env \<Rightarrow> nat vmc \<Rightarrow> (u64 \<Rightarrow> u64) \<Rightarrow> unit vmc" where
  "deref_op env sz cnv = seqR (check_e_stack 1)
     (bindR sz (\<lambda>sz. bindR (getV (\<lambda>s. hd (vm_stk s))) (\<lambda>a. bindR (read_memory env a sz) (\<lambda>x.
        modV (\<lambda>s. s\<lparr>vm_stk := cnv x # tl (vm_stk s)\<rparr>)))))"

definition xderef_op :: "vm_env \<Rightarrow> nat vmc \<Rightarrow> unit vmc" where
  "xderef_op env sz = seqR (check_e_stack 2)
     (bindR sz (\<lambda>sz. bindR (getV (\<lambda>s. hd (vm_stk s))) (\<lambda>a. bindR (read_memory env a sz) (\<lambda>x.
        modV (\<lambda>s. s\<lparr>vm_stk := x # drop 2 (vm_stk s)\<rparr>)))))"

definition read_size :: "nat vmc" where
  "read_size = bindR read_u1 (\<lambda>n. retR (unat n))"

text \<open>Each group takes what to do with an operation that is not its own.\<close>

definition vm_stack_op :: "vm_env \<Rightarrow> byte \<Rightarrow> unit vmc \<Rightarrow> unit vmc" where
  "vm_stack_op env op other =
     (if op = OP_deref then deref_op env (getV vm_addr_size) id
      else if op = OP_deref2 then deref_op env (retR 2) (\<lambda>x. scast (ucast x :: u16))
      else if op = OP_deref_size then deref_op env read_size id
      else if op = OP_const then bindR read_ia pushV
      else if op = OP_const1u then bindR read_u1 (\<lambda>x. pushV (ucast x))
      else if op = OP_const1s then bindR read_u1 (\<lambda>x. pushV (scast x))
      else if op = OP_const2u then bindR read_u2 (\<lambda>x. pushV (ucast x))
      else if op = OP_const2s then bindR read_u2 (\<lambda>x. pushV (scast x))
      else if op = OP_const4u then bindR read_u4 (\<lambda>x. pushV (ucast x))
      else if op = OP_const4s then bindR read_u4 (\<lambda>x. pushV (scast x))
      else if op = OP_const8u then bindR read_u8 pushV
      else if op = OP_const8s then bindR read_u8 pushV
      else if op = OP_constu then bindR read_u8leb128 pushV
      else if op = OP_consts then bindR read_i8leb128 pushV
      else if op = OP_dup then
        seqR (check_e_stack 1) (bindR (getV (\<lambda>s. vm_stk s ! 0)) pushV)
      else if op = OP_drop then
        seqR (check_e_stack 1) (modV (\<lambda>s. s\<lparr>vm_stk := tl (vm_stk s)\<rparr>))
      else if op = OP_over then
        seqR (check_e_stack 2) (bindR (getV (\<lambda>s. vm_stk s ! 1)) pushV)
      else if op = OP_pick then
        bindR read_u1 (\<lambda>n.
        seqR (check_e_stack (unat n + 1)) (bindR (getV (\<lambda>s. vm_stk s ! unat n)) pushV))
      else if op = OP_swap then
        seqR (check_e_stack 2)
          (modV (\<lambda>s. s\<lparr>vm_stk := vm_stk s ! 1 # vm_stk s ! 0 # drop 2 (vm_stk s)\<rparr>))
      else if op = OP_rot then
        seqR (check_e_stack 3)
          (modV (\<lambda>s. s\<lparr>vm_stk := vm_stk s ! 1 # vm_stk s ! 2 # vm_stk s ! 0 # drop 3 (vm_stk s)\<rparr>))
      else if op = OP_xderef then xderef_op env (getV vm_addr_size)
      else if op = OP_xderef_size then xderef_op env read_size
      else other)"

text \<open>Division checks for zero after the operands are there.\<close>

definition div_op :: "(u64 \<Rightarrow> u64 \<Rightarrow> u64) \<Rightarrow> unit vmc" where
  "div_op f = seqR (check_e_stack 2)
     (bindR (getV (\<lambda>s. vm_stk s ! 0)) (\<lambda>y.
        if y = 0 then inv_dwarf ''Division by zero in location expression'' else bin_op f))"

text \<open>A shift by 64 or more is undefined.\<close>

definition shift_op :: "(nat \<Rightarrow> u64 \<Rightarrow> u64) \<Rightarrow> unit vmc" where
  "shift_op f = seqR (check_e_stack 2)
     (bindR (getV (\<lambda>s. vm_stk s ! 0)) (\<lambda>y.
        if y \<ge> 64 then raiseR Undefined else bin_op (\<lambda>x y. f (unat y) x)))"

primrec shra_loop :: "nat \<Rightarrow> u64 \<Rightarrow> u64" where
  "shra_loop 0 data = data"
| "shra_loop (Suc cnt) data =
     (let s = (data AND push_bit 63 1 \<noteq> 0);
          data = drop_bit 1 data
      in shra_loop cnt (if s then data OR push_bit 63 1 else data))"

definition shra :: "u64 \<Rightarrow> u64 \<Rightarrow> u64" where
  "shra data cnt =
     (if cnt \<ge> 64 then (if data AND push_bit 63 1 \<noteq> 0 then NOT 0 else 0)
      else shra_loop (unat cnt) data)"

definition vm_arith_op :: "byte \<Rightarrow> unit vmc \<Rightarrow> unit vmc" where
  "vm_arith_op op other =
     (if op = OP_abs then un_op (\<lambda>x. if sint x < 0 then NOT x + 1 else x)
      else if op = OP_and then bin_op (\<lambda>x y. x AND y)
      else if op = OP_div then div_op (\<lambda>x y. x div y)
      else if op = OP_minus then bin_op (\<lambda>x y. x - y)
      else if op = OP_mod then div_op (\<lambda>x y. x mod y)
      else if op = OP_mul then bin_op (\<lambda>x y. x * y)
      else if op = OP_neg then un_op (\<lambda>x. NOT x + 1)
      else if op = OP_not then un_op (\<lambda>x. NOT x)
      else if op = OP_or then bin_op (\<lambda>x y. x OR y)
      else if op = OP_add \<or> op = OP_plus then bin_op (\<lambda>x y. x + y)
      else if op = OP_plus_uconst then
        seqR (check_e_stack 1) (bindR read_u8leb128 (\<lambda>n. un_op (\<lambda>x. x + n)))
      else if op = OP_shl then shift_op push_bit
      else if op = OP_shr then shift_op drop_bit
      else if op = OP_shra then bin_op shra
      else if op = OP_xor then bin_op (\<lambda>x y. x XOR y)
      else other)"

text \<open>A jump adds the sign-extended offset to \<open>code_pos\<close> modulo 2^64 and checks the result.
  (\<open>OP_skip\<close> of the source leaves open whether \<open>code_pos\<close> is read before the offset is; the
  model reads the offset first, as \<open>OP_bra\<close> does.)\<close>

definition jump :: "u16 \<Rightarrow> unit vmc" where
  "jump offs =
     bindR (getV (\<lambda>s. unat (of_nat (vm_pos s) + scast offs :: u64))) (\<lambda>pos.
     bindR (getV vm_len) (\<lambda>len.
       if pos > len then inv_dwarf ''Invalid command'' else modV (\<lambda>s. s\<lparr>vm_pos := pos\<rparr>)))"

definition cmp_op :: "(u64 \<Rightarrow> u64 \<Rightarrow> bool) \<Rightarrow> unit vmc" where
  "cmp_op f = bin_op (\<lambda>x y. if f x y then 1 else 0)"

definition vm_control_op :: "byte \<Rightarrow> unit vmc \<Rightarrow> unit vmc" where
  "vm_control_op op other =
     (if op = OP_bra then
        seqR (check_e_stack 1) (
        bindR read_u2 (\<lambda>offs.
        bindR (getV (\<lambda>s. hd (vm_stk s))) (\<lambda>x.
        seqR (if x \<noteq> 0 then jump offs else retR ())
          (modV (\<lambda>s. s\<lparr>vm_stk := tl (vm_stk s)\<rparr>)))))
      else if op = OP_eq then cmp_op (\<lambda>x y. x = y)
      else if op = OP_ge then cmp_op (\<lambda>x y. x \<ge> y)
      else if op = OP_gt then cmp_op (\<lambda>x y. x > y)
      else if op = OP_le then cmp_op (\<lambda>x y. x \<le> y)
      else if op = OP_lt then cmp_op (\<lambda>x y. x < y)
      else if op = OP_ne then cmp_op (\<lambda>x y. x \<noteq> y)
      else if op = OP_skip then bindR read_u2 jump
      else if OP_lit0 \<le> op \<and> op \<le> OP_lit31 then pushV (ucast (op - OP_lit0))
      else other)"

definition set_reg :: "vm_env \<Rightarrow> u32 \<Rightarrow> string \<Rightarrow> unit vmc" where
  "set_reg env n msg =
     seqR (must_be_last msg)
       (bindR (callV (get_reg_by_id env n)) (\<lambda>r. modV (\<lambda>s. s\<lparr>vm_reg_def := Some r\<rparr>)))"

definition reg_value :: "vm_env \<Rightarrow> u32 \<Rightarrow> u64 vmc" where
  "reg_value env n =
     bindR (callV (get_reg_by_id env n)) (\<lambda>r.
     bindR (getV vm_frame) (\<lambda>frame. callV (read_reg_value env frame r)))"

definition vm_register_op :: "vm_env \<Rightarrow> byte \<Rightarrow> unit vmc \<Rightarrow> unit vmc" where
  "vm_register_op env op other =
     (if OP_reg0 \<le> op \<and> op \<le> OP_reg31 then
        set_reg env (ucast (op - OP_reg0)) ''OP_reg* must be last instruction''
      else if op = OP_regx then
        bindR read_u4leb128 (\<lambda>n. set_reg env n ''OP_regx must be last instruction'')
      else if op = OP_reg then
        bindR read_ua (\<lambda>n. set_reg env (ucast n) ''OP_reg must be last instruction'')
      else if OP_breg0 \<le> op \<and> op \<le> OP_breg31 then
        bindR (reg_value env (ucast (op - OP_breg0))) (\<lambda>v.
        bindR read_i8leb128 (\<lambda>offs. pushV (v + offs)))
      else if op = OP_bregx then
        bindR read_u4leb128 (\<lambda>n.
        bindR (reg_value env n) (\<lambda>v.
        bindR read_i8leb128 (\<lambda>offs. pushV (v + offs))))
      else if op = OP_basereg then
        bindR read_ua (\<lambda>n. bindR (reg_value env (ucast n)) pushV)
      else if op = OP_call_frame_cfa then
        bindR (getV vm_frame) (\<lambda>frame. case frame of
          None \<Rightarrow> raiseR (Str_exception ERR_INV_ADDRESS ''Stack frame address not available'')
        | Some f \<Rightarrow> pushV (sf_fp f))
      else if op = OP_nop then retR ()
      else if op = OP_push_object_address then
        bindR (getV vm_args) (\<lambda>args. case args of
          [] \<Rightarrow> raiseR (Exception ERR_INV_CONT_OBJ)
        | a # _ \<Rightarrow> pushV a)
      else other)"

text \<open>\<open>OP_TCF_offset\<close> over pieces: drop the first \<open>offs\<close> bytes of the value they describe.
  All numbers are \<open>uint32_t\<close>.\<close>

primrec offset_pieces :: "u32 \<Rightarrow> u32 \<Rightarrow> LocationPiece list \<Rightarrow> LocationPiece list" where
  "offset_pieces offs bit_offs [] = []"
| "offset_pieces offs bit_offs (p # ps) =
     (let org = (if lp_bit_size p = 0 then p\<lparr>lp_bit_size := ucast (lp_size p) * 8\<rparr> else p);
          rest = offset_pieces offs (bit_offs + lp_bit_size org) ps
      in if bit_offs + lp_bit_size org > offs * 8 then
           (let q1 = (if bit_offs < offs * 8
                      then org\<lparr>lp_bit_offs := lp_bit_offs org + (offs * 8 - bit_offs),
                               lp_bit_size := lp_bit_size org - (offs * 8 - bit_offs)\<rparr>
                      else org);
                q2 = (if lp_bit_offs q1 = 0 \<and> lp_bit_size q1 mod 8 = 0
                      then q1\<lparr>lp_size := ucast (lp_bit_size q1 div 8), lp_bit_size := 0\<rparr>
                      else q1)
            in q2\<lparr>lp_implicit_pointer := lp_implicit_pointer q2 + 1\<rparr> # rest)
         else rest)"

definition value_bytes :: "bool \<Rightarrow> nat \<Rightarrow> u64 \<Rightarrow> byte list" where
  "value_bytes be sz n =
     (let le = map (\<lambda>i. ucast (drop_bit (8 * i) n)) [0..<sz] in if be then rev le else le)"

definition vm_piece_op :: "byte \<Rightarrow> unit vmc \<Rightarrow> unit vmc" where
  "vm_piece_op op other =
     (if op = OP_piece then
        seqR (modV add_piece) (
        bindR read_u4leb128 (\<lambda>n. modV (set_piece (\<lambda>p. p\<lparr>lp_size := ucast n\<rparr>))))
      else if op = OP_bit_piece then
        seqR (modV add_piece) (
        bindR read_u4leb128 (\<lambda>n. seqR (modV (set_piece (\<lambda>p. p\<lparr>lp_bit_size := n\<rparr>))) (
        bindR read_u4leb128 (\<lambda>n. modV (set_piece (\<lambda>p. p\<lparr>lp_bit_offs := n\<rparr>))))))
      else if op = OP_implicit_value then
        bindR read_u4leb128 (\<lambda>n.
        seqR (\<lambda>s. let sz = unat n in
               if vm_pos s + sz > vm_len s then inv_dwarf ''Invalid command'' s
               else if vm_pos s + sz > length (vm_code s) then raiseR Out_of_bounds s
               else Inr ((), s\<lparr>vm_value := Some (take sz (drop (vm_pos s) (vm_code s))),
                               vm_pos := vm_pos s + sz\<rparr>))
          (must_be_last ''OP_implicit_value must be last instruction''))
      else if op = OP_stack_value then
        seqR (check_e_stack 1) (
        seqR (modV (\<lambda>s. s\<lparr>vm_value := Some (value_bytes (vm_big_endian s) (vm_addr_size s) (hd (vm_stk s))),
                          vm_stk := tl (vm_stk s)\<rparr>))
          (must_be_last ''OP_stack_value must be last instruction''))
      else if op = OP_TCF_offset then
        seqR (modV (\<lambda>s. if vm_reg_def s \<noteq> None \<or> vm_value s \<noteq> None then add_piece s else s)) (
        bindR (getV vm_pieces) (\<lambda>pieces.
          if pieces \<noteq> [] then
            bindR read_u4leb128 (\<lambda>offs.
              let ps = offset_pieces offs 0 pieces in
              if ps = [] then inv_dwarf ''Invalid size of implicit value''
              else modV (\<lambda>s. s\<lparr>vm_pieces := ps\<rparr>))
          else
            seqR (check_e_stack 1) (
            bindR read_u8leb128 (\<lambda>n.
            seqR (un_op (\<lambda>x. x + n)) (modV (\<lambda>s. s\<lparr>vm_implicit := vm_implicit s + 1\<rparr>))))))
      else other)"

text \<open>
  \<open>OP_TCF_switch\<close> runs the alternative whose address range has the value on the stack; \<open>ev\<close> is
  the recursive call of \<open>evaluate_expression\<close>. Every turn of its loop moves \<open>code_pos\<close>
  forward inside the code, so the length of the code is enough fuel.
\<close>

primrec switch_loop :: "nat \<Rightarrow> unit vmc \<Rightarrow> u64 \<Rightarrow> nat \<Rightarrow> unit vmc" where
  "switch_loop 0 ev n end_pos = raiseR Out_of_fuel"
| "switch_loop (Suc k) ev n end_pos =
     bindR read_u2 (\<lambda>d.
     bindR (getV vm_pos) (\<lambda>pos.
     let nxt_pos = unat d + pos in
     if nxt_pos > end_pos then inv_dwarf ''Invalid command''
     else if nxt_pos = pos then
       raiseR (Str_exception ERR_OTHER ''Object is not available at this location in the code'')
     else
       bindR read_u8leb128 (\<lambda>addr.
       bindR read_u8leb128 (\<lambda>size.
         if size = 0 \<or> (n \<ge> addr \<and> n - addr < size) then
           bindR (getV vm_len) (\<lambda>code_len_org.
           seqR (modV (\<lambda>s. s\<lparr>vm_len := nxt_pos\<rparr>)) (
           seqR ev (modV (\<lambda>s. s\<lparr>vm_len := code_len_org\<rparr>))))
         else
           seqR (modV (\<lambda>s. s\<lparr>vm_pos := nxt_pos\<rparr>)) (switch_loop k ev n end_pos)))))"

definition tcf_switch :: "unit vmc \<Rightarrow> unit vmc" where
  "tcf_switch ev =
     seqR (check_e_stack 1) (
     bindR (getV (\<lambda>s. hd (vm_stk s))) (\<lambda>n.
     seqR (modV (\<lambda>s. s\<lparr>vm_stk := tl (vm_stk s)\<rparr>)) (
     bindR read_u2 (\<lambda>d.
     bindR (getV vm_pos) (\<lambda>pos.
     bindR (getV vm_len) (\<lambda>len.
     let end_pos = unat d + pos in
     if end_pos > len then inv_dwarf ''Invalid command''
     else
       seqR (switch_loop (Suc len) ev n end_pos) (modV (\<lambda>s. s\<lparr>vm_pos := end_pos\<rparr>))))))))"

text \<open>\<open>evaluate_vm_expression\<close> over the loop that runs the code: the static variables are reset
  first, and a pending register, value or implicit pointer becomes a piece at the end.\<close>

definition evaluate_vm_with :: "unit vmc \<Rightarrow> vm \<Rightarrow> exn + vm" where
  "evaluate_vm_with ev s =
     (case ev (s\<lparr>vm_implicit := 0, vm_value := None, vm_reg_def := None\<rparr>) of
        Inl e \<Rightarrow> Inl e
      | Inr (_, s1) \<Rightarrow>
          Inr (if vm_reg_def s1 \<noteq> None \<or> vm_value s1 \<noteq> None \<or> vm_implicit s1 \<noteq> 0
               then add_piece s1 else s1))"

text \<open>
  The value of the pieces of an entry value: byte \<open>i\<close>, an \<open>int\<close> after promotion, is shifted by
  \<open>8 * i\<close>, which is undefined from the fifth byte on and where the fourth has its top bit set.
\<close>

primrec entry_bytes :: "nat \<Rightarrow> byte list \<Rightarrow> exn + u64" where
  "entry_bytes i [] = Inr 0"
| "entry_bytes i (b # bs) =
     (if i \<ge> 4 \<or> (i = 3 \<and> b \<ge> 128) then Inl Undefined
      else case entry_bytes (Suc i) bs of Inl e \<Rightarrow> Inl e | Inr v \<Rightarrow> Inr (push_bit (8 * i) (ucast b) OR v))"

definition entry_value :: "vm_env \<Rightarrow> unit vmc \<Rightarrow> unit vmc" where
  "entry_value env ev =
     bindR read_u4leb128 (\<lambda>sz s.
       (case get_frame_info env (get_prev_frame env (vm_frame s)) of
          Inl e \<Rightarrow> Inl (Exception e)
        | Inr frame \<Rightarrow>
            (case evaluate_vm_with ev
                \<lparr>vm_frame = frame, vm_args = [], vm_code = drop (vm_pos s) (vm_code s), vm_pos = 0,
                 vm_len = unat sz, vm_big_endian = vm_big_endian s, vm_addr_size = vm_addr_size s,
                 vm_pieces = [], vm_stk = [], vm_reg_def = None, vm_value = None, vm_implicit = 0\<rparr> of
               Inl e \<Rightarrow> Inl e
             | Inr es \<Rightarrow>
                 (case (if vm_pieces es \<noteq> [] then
                          (case read_location_pieces env (vm_frame es) (vm_pieces es) of
                             Inl e \<Rightarrow> Inl e
                           | Inr v \<Rightarrow>
                               if length v > 8
                               then Inl (Str_exception ERR_INV_DWARF ''Invalid OP_entry_value expression'')
                               else entry_bytes 0 v)
                        else if length (vm_stk es) = 1 then Inr (hd (vm_stk es))
                        else Inl (Str_exception ERR_INV_DWARF ''Invalid OP_entry_value expression'')) of
                    Inl e \<Rightarrow> Inl e
                  | Inr v \<Rightarrow>
                      Inr ((), s\<lparr>vm_stk := v # vm_stk s, vm_pos := vm_pos s + unat sz, vm_reg_def := None,
                                 vm_value := None, vm_implicit := 0\<rparr>)))))"

definition call_client :: "vm_env \<Rightarrow> byte \<Rightarrow> unit vmc" where
  "call_client env op s = (case client_op env op s of Inl e \<Rightarrow> Inl e | Inr s1 \<Rightarrow> Inr ((), s1))"

definition vm_step :: "vm_env \<Rightarrow> unit vmc \<Rightarrow> byte \<Rightarrow> unit vmc" where
  "vm_step env ev op =
     vm_stack_op env op (vm_arith_op op (vm_control_op op (vm_register_op env op (vm_piece_op op
       (if op = OP_TCF_switch then tcf_switch ev
        else if op = OP_GNU_entry_value then entry_value env ev
        else call_client env op)))))"

text \<open>The code may jump backwards and need not end: the fuel is the number of operations executed.\<close>

definition check_len :: "unit vmc \<Rightarrow> unit vmc" where
  "check_len ev = (\<lambda>s. if vm_len s = 0 then inv_dwarf ''location expression size = 0'' s else ev s)"

definition fetch :: "byte vmc" where
  "fetch s =
     (if vm_pos s \<ge> length (vm_code s) then raiseR Out_of_bounds s
      else Inr (vm_code s ! vm_pos s, s\<lparr>vm_pos := Suc (vm_pos s)\<rparr>))"

primrec eval_loop :: "vm_env \<Rightarrow> nat \<Rightarrow> unit vmc" where
  "eval_loop env 0 = raiseR Out_of_fuel"
| "eval_loop env (Suc n) =
     (\<lambda>s. if vm_pos s < vm_len s
          then seqR (bindR fetch (vm_step env (check_len (eval_loop env n)))) (eval_loop env n) s
          else Inr ((), s))"

definition evaluate_expression :: "vm_env \<Rightarrow> nat \<Rightarrow> unit vmc" where
  "evaluate_expression env n = check_len (eval_loop env n)"

definition evaluate_vm_expression :: "vm_env \<Rightarrow> nat \<Rightarrow> vm \<Rightarrow> exn + vm" where
  "evaluate_vm_expression env n s = evaluate_vm_with (evaluate_expression env n) s"

end
