(* ===== verification/Vm_Proofs.thy ===== *)
theory Vm_Proofs
  imports Vm
begin

text \<open>
  What the machine of vm.c computes: the LEB128 and fixed-size operands are decoded to the numbers
  they encode, \<open>OP_shra\<close> is the arithmetic shift, the code of an expression leaves its value on the
  stack; and where it can go wrong.
\<close>

section \<open>Operands\<close>

text \<open>The next bytes of the code are \<open>bs\<close>.\<close>

definition at_code :: "vm \<Rightarrow> byte list \<Rightarrow> bool" where
  "at_code s bs \<longleftrightarrow> vm_len s \<le> length (vm_code s) \<and> vm_pos s + length bs \<le> vm_len s \<and>
     take (length bs) (drop (vm_pos s) (vm_code s)) = bs"

definition advance :: "nat \<Rightarrow> vm \<Rightarrow> vm" where
  "advance n s = s\<lparr>vm_pos := vm_pos s + n\<rparr>"

lemma advance_simps [simp]:
  "vm_stk (advance n s) = vm_stk s" "vm_big_endian (advance n s) = vm_big_endian s"
  "vm_code (advance n s) = vm_code s" "vm_len (advance n s) = vm_len s"
  "vm_pos (advance n s) = vm_pos s + n" "advance m (advance n s) = advance (n + m) s"
  "advance 0 s = s" "vm_addr_size (advance n s) = vm_addr_size s"
  by (simp_all add: advance_def ac_simps)

lemma at_code_Cons: "at_code s (b # bs) \<longleftrightarrow> at_code s [b] \<and> at_code (advance 1 s) bs"
proof -
  have "drop (Suc (vm_pos s)) (vm_code s) = tl (drop (vm_pos s) (vm_code s))"
    by (simp add: drop_Suc tl_drop)
  then have "take (length (b # bs)) (drop (vm_pos s) (vm_code s)) = b # bs \<longleftrightarrow>
      take 1 (drop (vm_pos s) (vm_code s)) = [b] \<and> take (length bs) (drop (Suc (vm_pos s)) (vm_code s)) = bs"
    by (cases "drop (vm_pos s) (vm_code s)") auto
  then show ?thesis by (auto simp: at_code_def)
qed

lemma at_code_append: "at_code s (bs @ cs) \<longleftrightarrow> at_code s bs \<and> at_code (advance (length bs) s) cs"
proof (induction bs arbitrary: s)
  case Nil
  then show ?case by (auto simp: at_code_def)
next
  case (Cons b bs)
  show ?case
    using Cons.IH [of "advance 1 s"] at_code_Cons [of s b "bs @ cs"] at_code_Cons [of s b bs] by simp
qed

lemma at_code_1: "at_code s [b] \<Longrightarrow> vm_pos s < vm_len s \<and> vm_pos s < length (vm_code s) \<and> vm_code s ! vm_pos s = b"
  by (cases "drop (vm_pos s) (vm_code s)")
    (auto simp: at_code_def nth_via_drop)

lemma read_u1_at: "at_code s [b] \<Longrightarrow> read_u1 s = Inr (b, advance 1 s)"
  by (drule at_code_1) (simp add: read_u1_def advance_def)

lemma fetch_at: "at_code s [b] \<Longrightarrow> fetch s = Inr (b, advance 1 s)"
  by (drule at_code_1) (simp add: fetch_def advance_def)

subsection \<open>LEB128\<close>

function uleb :: "u64 \<Rightarrow> byte list" where
  "uleb v = (if v < 128 then [ucast v] else (ucast v OR 0x80) # uleb (drop_bit 7 v))"
  by pat_completeness auto
termination
proof (relation "measure unat")
  fix v :: u64
  assume "\<not> v < 128"
  then have "128 \<le> unat v" by (simp add: word_less_nat_alt)
  moreover have "unat (drop_bit 7 v) = unat v div 128"
    by (simp add: drop_bit_eq_div unat_div)
  ultimately show "(drop_bit 7 v, v) \<in> measure unat" by simp
qed simp

declare uleb.simps [simp del]

lemma bit_0x80: "bit (0x80 :: byte) n \<longleftrightarrow> n = 7"
proof -
  have e: "(0x80 :: byte) = push_bit 7 1" by simp
  have "bit (push_bit 7 (1 :: byte)) n \<longleftrightarrow> n = 7"
    by (simp only: bit_push_bit_iff bit_1_iff) auto
  then show ?thesis by (simp only: e)
qed

lemma and_0x80: "(n :: byte) AND 0x80 = 0 \<longleftrightarrow> \<not> bit n 7"
proof -
  have "bit (n AND 0x80) k \<longleftrightarrow> bit n 7 \<and> k = 7" for k
    by (auto simp only: bit_and_iff bit_0x80)
  note b = this
  show ?thesis
  proof
    assume "n AND 0x80 = 0"
    with b [of 7] show "\<not> bit n 7" by simp
  next
    assume "\<not> bit n 7"
    then have "\<not> bit (n AND 0x80) k" for k using b by blast
    then show "n AND 0x80 = 0" by (intro bit_eqI) simp
  qed
qed

lemma and_0x7f: "(n :: byte) AND 0x7F = take_bit 7 n"
  by (simp add: take_bit_eq_mask mask_eq_exp_minus_1)

text \<open>A byte of the encoding: seven bits of the number, and the top bit where more follow.\<close>

lemma leb_last: "v < 128 \<Longrightarrow> take_bit 7 v = (v :: u64)" "v < 128 \<Longrightarrow> \<not> bit (ucast v :: byte) 7"
proof -
  assume "v < 128"
  then have "unat v < 2 ^ 7" by (simp add: word_less_nat_alt)
  then have "take_bit 7 (unat v) = unat v" by (simp add: take_bit_nat_eq_self)
  then show t: "take_bit 7 v = v" by (metis unsigned_take_bit_eq word_unat_eq_iff)
  show "\<not> bit (ucast v :: byte) 7"
    by (subst t [symmetric]) (simp add: bit_simps)
qed

lemma leb_byte:
  "ucast (take_bit 7 (ucast v OR x :: byte)) = take_bit 7 (v :: u64)" if "x = 0 \<or> x = 0x80" for x
proof (rule bit_word_eqI)
  fix n
  assume "n < LENGTH(64)"
  have "\<not> bit x n" if "n < 7" using \<open>x = 0 \<or> x = 0x80\<close> that bit_0x80 [of n] by auto
  then show "bit (ucast (take_bit 7 (ucast v OR x :: byte)) :: u64) n = bit (take_bit 7 v) n"
    by (auto simp: bit_ucast_iff bit_take_bit_iff bit_or_iff)
qed

lemma leb_join: "push_bit i (take_bit 7 v) OR push_bit (i + 7) (drop_bit 7 v) = push_bit i (v :: u64)"
proof (rule bit_word_eqI)
  fix n
  assume "n < LENGTH(64)"
  then show "bit (push_bit i (take_bit 7 v) OR push_bit (i + 7) (drop_bit 7 v)) n = bit (push_bit i v) n"
    by (cases "i + 7 \<le> n") (auto simp: bit_simps)
qed

lemma unat_drop_bit: "unat (drop_bit n (v :: u64)) = unat v div 2 ^ n"
proof -
  have "unat (drop_bit n v) = drop_bit n (take_bit LENGTH(64) (unat v))"
    by (rule unsigned_drop_bit_eq)
  also have "take_bit LENGTH(64) (unat v) = unat v"
    using unsigned_less [of v] by (intro take_bit_nat_eq_self) simp
  finally show ?thesis by (simp only: drop_bit_eq_div)
qed

lemma read_u8leb128_loop_at:
  assumes "at_code s (uleb v)" "i < 64" "unat v < 2 ^ (64 - i)"
  shows "read_u8leb128_loop i res s = Inr (res OR push_bit i v, advance (length (uleb v)) s)"
  using assms
proof (induction v arbitrary: s i res rule: uleb.induct)
  case (1 v)
  show ?case
  proof (cases "v < 128")
    case True
    then have u: "uleb v = [ucast v]" by (subst uleb.simps) simp
    then have at: "at_code s [ucast v]" using 1(2) by simp
    have "ucast (take_bit 7 (ucast v :: byte)) = v"
      using leb_byte [of 0 v] leb_last(1) [OF True] by simp
    with True u read_u1_at [OF at] leb_last(2) [OF True] 1(3) show ?thesis
      by (subst read_u8leb128_loop.simps) (simp add: reader_simps and_0x80 and_0x7f Let_def)
  next
    case False
    then have u: "uleb v = (ucast v OR 0x80) # uleb (drop_bit 7 v)" by (subst uleb.simps) simp
    then have at: "at_code s [ucast v OR 0x80]" "at_code (advance 1 s) (uleb (drop_bit 7 v))"
      using 1(2) by (simp_all add: at_code_Cons [of s _ "uleb _"])
    have "128 \<le> unat v" using False by (simp add: word_less_nat_alt)
    then have i: "7 < 64 - i"
      using 1(4) power_increasing [of "64 - i" 7 "2 :: nat"] by (cases "64 - i \<le> 7") auto
    have "(2 :: nat) ^ (64 - i) = 2 ^ (64 - (i + 7)) * 2 ^ 7"
      using i by (simp only: power_add [symmetric]) (rule arg_cong [where f = "power 2"], simp)
    then have "unat (drop_bit 7 v) < 2 ^ (64 - (i + 7))"
      using 1(4) unfolding unat_drop_bit by (intro less_mult_imp_div_less) simp
    with 1(1) [OF False at(2), of "i + 7"] i have IH:
      "read_u8leb128_loop (i + 7) r (advance 1 s) =
        Inr (r OR push_bit (i + 7) (drop_bit 7 v), advance (length (uleb (drop_bit 7 v))) (advance 1 s))" for r
      by simp
    have bit7: "bit (ucast v OR 0x80 :: byte) 7" using bit_0x80 [of 7] by (simp add: bit_or_iff)
    show ?thesis
      using read_u1_at [OF at(1)] bit7 1(3) leb_byte [of "0x80" v] IH u leb_join [of i v]
      by (subst read_u8leb128_loop.simps)
        (simp add: reader_simps and_0x80 and_0x7f Let_def or.assoc)
  qed
qed

lemma read_u8leb128_at:
  "at_code s (uleb v) \<Longrightarrow> read_u8leb128 s = Inr (v, advance (length (uleb v)) s)"
  using read_u8leb128_loop_at [of s v 0 0] unsigned_less [of v] by (simp add: read_u8leb128_def)

text \<open>The signed encoding: the last byte carries the sign in its bit 6.\<close>

function sleb :: "int \<Rightarrow> byte list" where
  "sleb n = (if - 64 \<le> n \<and> n < 64 then [word_of_int (n mod 128)]
     else (word_of_int (n mod 128) OR 0x80) # sleb (n div 128))"
  by pat_completeness auto
termination
proof (relation "measure (\<lambda>n. nat \<bar>n\<bar>)")
  fix n :: int
  assume "\<not> (- 64 \<le> n \<and> n < 64)"
  moreover have "n = 128 * (n div 128) + n mod 128" "0 \<le> n mod 128" "n mod 128 < 128"
    by simp_all
  ultimately have "\<bar>n div 128\<bar> < \<bar>n\<bar>" by linarith
  then show "(n div 128, n) \<in> measure (\<lambda>n. nat \<bar>n\<bar>)" by simp
qed simp

declare sleb.simps [simp del]

lemma sleb_last_table:
  "\<forall>n \<in> set [-64..63]. let b = (word_of_int (n mod 128) :: byte) in
     (ucast (b AND 0x7F) OR - ucast (b AND 0x40) :: u64) = word_of_int n \<and> b AND 0x80 = 0"
  by code_simp

lemma sleb_last:
  assumes "- 64 \<le> n" "n < 64"
  defines "b \<equiv> (word_of_int (n mod 128) :: byte)"
  shows "(ucast (b AND 0x7F) OR - ucast (b AND 0x40) :: u64) = word_of_int n" "b AND 0x80 = 0"
proof -
  have "n \<in> set [-64..63]"
    unfolding set_upto using assms(1,2) by auto
  from bspec [OF sleb_last_table this]
  show "(ucast (b AND 0x7F) OR - ucast (b AND 0x40) :: u64) = word_of_int n" "b AND 0x80 = 0"
    by (simp_all only: Let_def b_def)
qed

lemma sleb_byte: "(word_of_int (n mod 128) :: byte) = take_bit 7 (word_of_int n)"
proof -
  have "(take_bit 7 (word_of_int n) :: byte) = word_of_int (take_bit 7 n)"
    by (rule bit_word_eqI) (auto simp: bit_simps)
  then show ?thesis by (simp add: take_bit_eq_mod)
qed

lemma sleb_more: "ucast ((word_of_int (n mod 128) OR 0x80 :: byte) AND 0x7F) = take_bit 7 (word_of_int n :: u64)"
proof -
  have "bit ((take_bit 7 (word_of_int n) OR 0x80 :: byte) AND 0x7F) k \<longleftrightarrow> k < 7 \<and> bit n k" for k
    by (auto simp only: and_0x7f bit_take_bit_iff bit_or_iff bit_0x80 bit_word_of_int_iff) simp
  then show ?thesis
    unfolding sleb_byte by (intro bit_word_eqI) (auto simp: bit_ucast_iff bit_take_bit_iff bit_word_of_int_iff)
qed

lemma sleb_join:
  "push_bit i (take_bit 7 (word_of_int n)) OR push_bit (i + 7) (word_of_int (n div 128)) =
    push_bit i (word_of_int n :: u64)"
proof -
  have "n div 128 = drop_bit 7 n" by (simp add: drop_bit_eq_div)
  then show ?thesis
    by (intro bit_word_eqI, case_tac "i + 7 \<le> na") (auto simp: bit_simps)
qed

lemma read_i8leb128_loop_at:
  assumes "at_code s (sleb n)" "i < 64" "- (2 ^ (63 - i)) \<le> n" "n < 2 ^ (63 - i)"
  shows "read_i8leb128_loop i res s = Inr (res OR push_bit i (word_of_int n), advance (length (sleb n)) s)"
  using assms
proof (induction n arbitrary: s i res rule: sleb.induct)
  case (1 n)
  let ?b = "word_of_int (n mod 128) :: byte"
  show ?case
  proof (cases "- 64 \<le> n \<and> n < 64")
    case True
    then have u: "sleb n = [?b]" by (subst sleb.simps) simp
    then have at: "at_code s [?b]" using 1(2) by simp
    have "(res OR push_bit i (ucast (?b AND 0x7F))) OR push_bit i (- ucast (?b AND 0x40)) = res OR push_bit i (word_of_int n)"
      using sleb_last(1) [of n] True by (simp only: or.assoc push_bit_or [symmetric])
    with u read_u1_at [OF at] sleb_last(2) [of n] True 1(3) show ?thesis
      by (subst read_i8leb128_loop.simps) (simp add: reader_simps Let_def)
  next
    case False
    then have u: "sleb n = (?b OR 0x80) # sleb (n div 128)" by (subst sleb.simps) (simp only: if_False)
    then have at: "at_code s [?b OR 0x80]" "at_code (advance 1 s) (sleb (n div 128))"
      using 1(2) by (simp_all add: at_code_Cons [of s _ "sleb _"])
    have i: "7 \<le> 63 - i"
    proof (rule ccontr)
      assume "\<not> 7 \<le> 63 - i"
      then have "(2 :: int) ^ (63 - i) \<le> 2 ^ 6" by (intro power_increasing) auto
      with 1(4,5) False show False by auto
    qed
    have p: "(2 :: int) ^ (63 - i) = 2 ^ (63 - (i + 7)) * 128"
    proof -
      have "63 - i = (63 - (i + 7)) + 7" using i by simp
      then have "(2 :: int) ^ (63 - i) = 2 ^ (63 - (i + 7)) * 2 ^ 7" by (metis power_add)
      then show ?thesis by simp
    qed
    have "- (2 ^ (63 - (i + 7))) \<le> n div 128" "n div 128 < 2 ^ (63 - (i + 7))"
      using 1(4,5) unfolding p by linarith+
    with 1(1) [OF False at(2), of "i + 7"] i have IH:
      "read_i8leb128_loop (i + 7) r (advance 1 s) =
        Inr (r OR push_bit (i + 7) (word_of_int (n div 128)), advance (length (sleb (n div 128))) (advance 1 s))" for r
      by simp
    have bit7: "bit (?b OR 0x80) 7" using bit_0x80 [of 7] by (simp add: bit_or_iff)
    show ?thesis
      using read_u1_at [OF at(1)] bit7 1(3) sleb_more [of n] IH u sleb_join [of i n]
      by (subst read_i8leb128_loop.simps) (simp add: reader_simps and_0x80 Let_def or.assoc)
  qed
qed

lemma read_i8leb128_at:
  "at_code s (sleb n) \<Longrightarrow> - (2 ^ 63) \<le> n \<Longrightarrow> n < 2 ^ 63 \<Longrightarrow>
    read_i8leb128 s = Inr (word_of_int n, advance (length (sleb n)) s)"
  using read_i8leb128_loop_at [of s n 0 0] by (simp add: read_i8leb128_def)

subsection \<open>Operands of a fixed size\<close>

lemma join16: "(ucast (ucast w :: byte) OR push_bit 8 (ucast (ucast (drop_bit 8 w) :: byte)) :: u16) = ucast (w :: u64)"
proof (rule bit_word_eqI)
  fix n
  assume "n < LENGTH(16)"
  then show "bit (ucast (ucast w :: byte) OR push_bit 8 (ucast (ucast (drop_bit 8 w) :: byte)) :: u16) n = bit (ucast w :: u16) n"
    by (cases "n < 8") (auto simp: bit_simps)
qed

lemma join32: "(ucast (ucast w :: u16) OR push_bit 16 (ucast (ucast (drop_bit 16 w) :: u16)) :: u32) = ucast (w :: u64)"
proof (rule bit_word_eqI)
  fix n
  assume "n < LENGTH(32)"
  then show "bit (ucast (ucast w :: u16) OR push_bit 16 (ucast (ucast (drop_bit 16 w) :: u16)) :: u32) n = bit (ucast w :: u32) n"
    by (cases "n < 16") (auto simp: bit_simps)
qed

lemma join64: "(ucast (ucast w :: u32) OR push_bit 32 (ucast (ucast (drop_bit 32 w) :: u32)) :: u64) = w"
proof (rule bit_word_eqI)
  fix n
  assume "n < LENGTH(64)"
  then show "bit (ucast (ucast w :: u32) OR push_bit 32 (ucast (ucast (drop_bit 32 w) :: u32)) :: u64) n = bit w n"
    by (cases "n < 32") (auto simp: bit_simps)
qed

text \<open>The bytes of the lower part of a number, in the byte order of the target.\<close>

lemma value_bytes_2:
  "value_bytes be 2 w = (if be then [ucast (drop_bit 8 w), ucast w] else [ucast w, ucast (drop_bit 8 w)])"
  by (simp add: value_bytes_def numeral_2_eq_2 Let_def)

lemma value_bytes_double:
  "value_bytes be (k + k) w =
    (if be then value_bytes be k (drop_bit (8 * k) w) @ value_bytes be k w
     else value_bytes be k w @ value_bytes be k (drop_bit (8 * k) w))"
proof -
  have "map (\<lambda>i. ucast (drop_bit (8 * i) w) :: byte) [0..<k + k] =
      map (\<lambda>i. ucast (drop_bit (8 * i) w)) [0..<k] @ map (\<lambda>i. ucast (drop_bit (8 * i) (drop_bit (8 * k) w))) [0..<k]"
    by (simp add: upt_add_eq_append map_add_upt [symmetric] comp_def algebra_simps)
  then show ?thesis by (simp add: value_bytes_def Let_def)
qed

lemma length_value_bytes [simp]: "length (value_bytes be k w) = k"
  by (simp add: value_bytes_def Let_def)

lemma read_u2_at:
  assumes "at_code s (value_bytes (vm_big_endian s) 2 w)"
  shows "read_u2 s = Inr (ucast w, advance 2 s)"
proof -
  obtain a b where ab: "value_bytes (vm_big_endian s) 2 w = [a, b]"
      "[a, b] = (if vm_big_endian s then [ucast (drop_bit 8 w), ucast w] else [ucast w, ucast (drop_bit 8 w)])"
    by (cases "vm_big_endian s") (simp_all add: value_bytes_2)
  then have "at_code s [a]" "at_code (advance 1 s) [b]"
    using assms at_code_Cons [of s a "[b]"] by auto
  then show ?thesis
    using ab(2) join16 [of w] read_u1_at [of s a] read_u1_at [of "advance 1 s" b]
    by (auto simp: read_u2_def reader_simps or.commute numeral_2_eq_2 split: if_splits)
qed

lemma read_u4_at:
  assumes "at_code s (value_bytes (vm_big_endian s) 4 w)"
  shows "read_u4 s = Inr (ucast w, advance 4 s)"
proof -
  have e: "value_bytes (vm_big_endian s) 4 w = (if vm_big_endian s
      then value_bytes True 2 (drop_bit 16 w) @ value_bytes True 2 w
      else value_bytes False 2 w @ value_bytes False 2 (drop_bit 16 w))"
    using value_bytes_double [of "vm_big_endian s" 2 w] by (auto split: if_splits)
  show ?thesis
  proof (cases "vm_big_endian s")
    case True
    with assms e have "read_u2 s = Inr (ucast (drop_bit 16 w), advance 2 s)"
        "read_u2 (advance 2 s) = Inr (ucast w, advance 2 (advance 2 s))"
      by (intro read_u2_at; simp add: at_code_append)+
    with True join32 [of w] show ?thesis by (simp add: read_u4_def reader_simps or.commute)
  next
    case False
    with assms e have "read_u2 s = Inr (ucast w, advance 2 s)"
        "read_u2 (advance 2 s) = Inr (ucast (drop_bit 16 w), advance 2 (advance 2 s))"
      by (intro read_u2_at; simp add: at_code_append)+
    with False join32 [of w] show ?thesis by (simp add: read_u4_def reader_simps)
  qed
qed

lemma read_u8_at:
  assumes "at_code s (value_bytes (vm_big_endian s) 8 w)"
  shows "read_u8 s = Inr (w, advance 8 s)"
proof -
  have e: "value_bytes (vm_big_endian s) 8 w = (if vm_big_endian s
      then value_bytes True 4 (drop_bit 32 w) @ value_bytes True 4 w
      else value_bytes False 4 w @ value_bytes False 4 (drop_bit 32 w))"
    using value_bytes_double [of "vm_big_endian s" 4 w] by (auto split: if_splits)
  show ?thesis
  proof (cases "vm_big_endian s")
    case True
    with assms e have "read_u4 s = Inr (ucast (drop_bit 32 w), advance 4 s)"
        "read_u4 (advance 4 s) = Inr (ucast w, advance 4 (advance 4 s))"
      by (intro read_u4_at; simp add: at_code_append)+
    with True join64 [of w] show ?thesis by (simp add: read_u8_def reader_simps or.commute)
  next
    case False
    with assms e have "read_u4 s = Inr (ucast w, advance 4 s)"
        "read_u4 (advance 4 s) = Inr (ucast (drop_bit 32 w), advance 4 (advance 4 s))"
      by (intro read_u4_at; simp add: at_code_append)+
    with False join64 [of w] show ?thesis by (simp add: read_u8_def reader_simps)
  qed
qed

section \<open>The arithmetic shift\<close>

lemma shra_step:
  "(if data AND push_bit 63 1 \<noteq> 0 then drop_bit 1 data OR push_bit 63 1 else drop_bit 1 data) =
    signed_drop_bit 1 (data :: u64)"
proof -
  have b: "data AND push_bit 63 1 \<noteq> 0 \<longleftrightarrow> bit data 63"
    by (metis and_exp_eq_0_iff_not_bit push_bit_of_1)
  show ?thesis
    unfolding b
    by (rule bit_word_eqI)
      (auto simp: bit_signed_drop_bit_iff bit_or_iff bit_drop_bit_eq bit_push_bit_iff bit_1_iff
        simp flip: push_bit_of_1 dest: bit_imp_le_length)
qed

lemma shra_loop_eq: "shra_loop c data = signed_drop_bit c data"
proof (induction c arbitrary: data)
  case (Suc c)
  then show ?case
    unfolding shra_loop.simps Let_def shra_step by simp
qed simp

lemma shra_eq: "shra data cnt = signed_drop_bit (unat cnt) data"
proof (cases "cnt \<ge> 64")
  case True
  have b: "data AND push_bit 63 1 \<noteq> 0 \<longleftrightarrow> bit data 63"
    by (metis and_exp_eq_0_iff_not_bit push_bit_of_1)
  have "64 \<le> unat cnt" using True by (simp add: word_le_nat_alt)
  then show ?thesis
    unfolding shra_def b using True
    by (intro bit_word_eqI) (auto simp: bit_signed_drop_bit_iff bit_not_iff)
qed (simp add: shra_def shra_loop_eq)

section \<open>The code of an expression\<close>

text \<open>Expressions over 64-bit numbers, their value (none where they divide by zero) and their code.\<close>

datatype binop = Plus | Minus | Mul | And | Or | Xor | Div | Mod | Shra | Eq | Lt

datatype dexpr =
    Lit8 u64
  | LitU u64
  | LitS int
  | Neg dexpr
  | Not dexpr
  | Bin binop dexpr dexpr

fun bin_val :: "binop \<Rightarrow> u64 \<Rightarrow> u64 \<Rightarrow> u64 option" where
  "bin_val Plus x y = Some (x + y)"
| "bin_val Minus x y = Some (x - y)"
| "bin_val Mul x y = Some (x * y)"
| "bin_val And x y = Some (x AND y)"
| "bin_val Or x y = Some (x OR y)"
| "bin_val Xor x y = Some (x XOR y)"
| "bin_val Div x y = (if y = 0 then None else Some (x div y))"
| "bin_val Mod x y = (if y = 0 then None else Some (x mod y))"
| "bin_val Shra x y = Some (signed_drop_bit (unat y) x)"
| "bin_val Eq x y = Some (if x = y then 1 else 0)"
| "bin_val Lt x y = Some (if x < y then 1 else 0)"

fun bin_code :: "binop \<Rightarrow> byte" where
  "bin_code Plus = OP_plus"
| "bin_code Minus = OP_minus"
| "bin_code Mul = OP_mul"
| "bin_code And = OP_and"
| "bin_code Or = OP_or"
| "bin_code Xor = OP_xor"
| "bin_code Div = OP_div"
| "bin_code Mod = OP_mod"
| "bin_code Shra = OP_shra"
| "bin_code Eq = OP_eq"
| "bin_code Lt = OP_lt"

fun dval :: "dexpr \<Rightarrow> u64 option" where
  "dval (Lit8 v) = Some v"
| "dval (LitU v) = Some v"
| "dval (LitS n) = Some (word_of_int n)"
| "dval (Neg e) = map_option (\<lambda>x. - x) (dval e)"
| "dval (Not e) = map_option (\<lambda>x. NOT x) (dval e)"
| "dval (Bin b e f) = (case dval e of None \<Rightarrow> None | Some x \<Rightarrow>
     (case dval f of None \<Rightarrow> None | Some y \<Rightarrow> bin_val b x y))"

fun dcode :: "bool \<Rightarrow> dexpr \<Rightarrow> byte list" where
  "dcode be (Lit8 v) = OP_const8u # value_bytes be 8 v"
| "dcode be (LitU v) = OP_constu # uleb v"
| "dcode be (LitS n) = OP_consts # sleb n"
| "dcode be (Neg e) = dcode be e @ [OP_neg]"
| "dcode be (Not e) = dcode be e @ [OP_not]"
| "dcode be (Bin b e f) = dcode be e @ dcode be f @ [bin_code b]"

fun dops :: "dexpr \<Rightarrow> nat" where
  "dops (Neg e) = Suc (dops e)"
| "dops (Not e) = Suc (dops e)"
| "dops (Bin b e f) = Suc (dops e + dops f)"
| "dops _ = 1"

fun lits_ok :: "dexpr \<Rightarrow> bool" where
  "lits_ok (LitS n) \<longleftrightarrow> - (2 ^ 63) \<le> n \<and> n < 2 ^ 63"
| "lits_ok (Neg e) \<longleftrightarrow> lits_ok e"
| "lits_ok (Not e) \<longleftrightarrow> lits_ok e"
| "lits_ok (Bin b e f) \<longleftrightarrow> lits_ok e \<and> lits_ok f"
| "lits_ok _ \<longleftrightarrow> True"

abbreviation (input) div_zero :: exn where
  "div_zero \<equiv> Str_exception ERR_INV_DWARF ''Division by zero in location expression''"

definition result :: "nat \<Rightarrow> u64 \<Rightarrow> vm \<Rightarrow> vm" where
  "result n v s = (advance n s)\<lparr>vm_stk := v # vm_stk s\<rparr>"

lemma result_simps [simp]:
  "vm_stk (result n v s) = v # vm_stk s" "vm_big_endian (result n v s) = vm_big_endian s"
  "vm_pos (result n v s) = vm_pos s + n" "vm_len (result n v s) = vm_len s" "vm_code (result n v s) = vm_code s"
  by (simp_all add: result_def)

lemma at_code_result: "at_code (result n v s) bs \<longleftrightarrow> at_code (advance n s) bs"
  by (simp add: at_code_def)

lemma eval_loop_step:
  assumes "at_code s [op]"
  shows "eval_loop env (Suc n) s =
    seqR (vm_step env (check_len (eval_loop env n)) op) (eval_loop env n) (advance 1 s)"
  using fetch_at [OF assms] at_code_1 [OF assms] by (simp add: reader_simps)

declare eval_loop.simps(2) [simp del]

lemmas op_defs = vm_step_def vm_stack_op_def vm_arith_op_def vm_control_op_def
lemmas stack_defs = check_e_stack_def un_op_def bin_op_def div_op_def cmp_op_def pushV_def inv_dwarf_def

lemma step_un:
  assumes "vm_stk s = x # st"
  shows "vm_step env ev OP_neg s = Inr ((), s\<lparr>vm_stk := - x # st\<rparr>)"
    and "vm_step env ev OP_not s = Inr ((), s\<lparr>vm_stk := NOT x # st\<rparr>)"
  using assms by (simp_all add: op_defs stack_defs reader_simps not_eq_complement)

fun bin_comp :: "binop \<Rightarrow> unit vmc" where
  "bin_comp Plus = bin_op (\<lambda>x y. x + y)"
| "bin_comp Minus = bin_op (\<lambda>x y. x - y)"
| "bin_comp Mul = bin_op (\<lambda>x y. x * y)"
| "bin_comp And = bin_op (\<lambda>x y. x AND y)"
| "bin_comp Or = bin_op (\<lambda>x y. x OR y)"
| "bin_comp Xor = bin_op (\<lambda>x y. x XOR y)"
| "bin_comp Div = div_op (\<lambda>x y. x div y)"
| "bin_comp Mod = div_op (\<lambda>x y. x mod y)"
| "bin_comp Shra = bin_op shra"
| "bin_comp Eq = cmp_op (\<lambda>x y. x = y)"
| "bin_comp Lt = cmp_op (\<lambda>x y. x < y)"

lemma step_bin_comp: "vm_step env ev (bin_code b) = bin_comp b"
  by (cases b) (simp_all add: op_defs)

lemma bin_op_apply: "vm_stk s = y # x # st \<Longrightarrow> bin_op f s = Inr ((), s\<lparr>vm_stk := f x y # st\<rparr>)"
  by (simp add: stack_defs reader_simps)

lemma div_op_apply:
  "vm_stk s = y # x # st \<Longrightarrow> div_op f s = (if y = 0 then Inl div_zero else Inr ((), s\<lparr>vm_stk := f x y # st\<rparr>))"
  by (simp add: div_op_def check_e_stack_def inv_dwarf_def bin_op_apply reader_simps)

lemma step_bin:
  assumes "vm_stk s = y # x # st"
  shows "vm_step env ev (bin_code b) s =
    (case bin_val b x y of None \<Rightarrow> Inl div_zero | Some v \<Rightarrow> Inr ((), s\<lparr>vm_stk := v # st\<rparr>))"
  unfolding step_bin_comp
  by (cases b) (simp_all add: cmp_op_def bin_op_apply [OF assms] div_op_apply [OF assms] shra_eq)

lemma step_lit:
  "vm_step env ev OP_const8u = bindR read_u8 pushV"
  "vm_step env ev OP_constu = bindR read_u8leb128 pushV"
  "vm_step env ev OP_consts = bindR read_i8leb128 pushV"
  by (simp_all add: op_defs)

lemma eval_lit:
  assumes "at_code s (op # bs)" "vm_step env (check_len (eval_loop env n)) op = bindR rd pushV"
    and "rd (advance 1 s) = Inr (v, advance (length bs) (advance 1 s))"
  shows "eval_loop env (Suc n) s = eval_loop env n (result (length (op # bs)) v s)"
proof -
  have "at_code s [op]" using assms(1) at_code_Cons by blast
  then show ?thesis
    using assms(2,3) by (simp add: eval_loop_step reader_simps pushV_def result_def)
qed

lemma eval_un:
  assumes "at_code (advance k s) [op]"
    and "\<And>ev s x st. vm_stk s = x # st \<Longrightarrow> vm_step env ev op s = Inr ((), s\<lparr>vm_stk := f x # st\<rparr>)"
  shows "eval_loop env (Suc n) (result k x s) = eval_loop env n (result (k + 1) (f x) s)"
proof -
  have "at_code (result k x s) [op]" using assms(1) by (simp add: at_code_result)
  from eval_loop_step [OF this] show ?thesis
    using assms(2) [of "advance 1 (result k x s)" x "vm_stk s"]
    by (simp add: reader_simps result_def advance_def)
qed

lemma eval_dcode:
  assumes "at_code s (dcode (vm_big_endian s) e)" "lits_ok e"
  shows "eval_loop env (dops e + n) s = (case dval e of
      None \<Rightarrow> Inl div_zero
    | Some v \<Rightarrow> eval_loop env n (result (length (dcode (vm_big_endian s) e)) v s))"
  using assms
proof (induction e arbitrary: s n)
  case (Lit8 v)
  let ?bs = "value_bytes (vm_big_endian s) 8 v"
  have at: "at_code s (OP_const8u # ?bs)" using Lit8.prems by simp
  then have "at_code (advance 1 s) (value_bytes (vm_big_endian (advance 1 s)) 8 v)"
    using at_code_Cons [of s OP_const8u ?bs] by (simp only: advance_simps)
  from read_u8_at [OF this] have "read_u8 (advance 1 s) = Inr (v, advance (length ?bs) (advance 1 s))"
    by (simp only: length_value_bytes)
  from eval_lit [OF at step_lit(1) this] show ?case by (simp only: dops.simps dval.simps dcode.simps option.case add_Suc One_nat_def add_0)
next
  case (LitU v)
  have at: "at_code s (OP_constu # uleb v)" using LitU.prems by simp
  then have "at_code (advance 1 s) (uleb v)" using at_code_Cons by blast
  from eval_lit [OF at step_lit(2) read_u8leb128_at [OF this]] show ?case
    by (simp only: dops.simps dval.simps dcode.simps option.case add_Suc One_nat_def add_0)
next
  case (LitS k)
  have at: "at_code s (OP_consts # sleb k)" using LitS.prems by simp
  then have "at_code (advance 1 s) (sleb k)" using at_code_Cons by blast
  moreover have "- (2 ^ 63) \<le> k" "k < 2 ^ 63" using LitS.prems by simp_all
  ultimately show ?case
    using eval_lit [OF at step_lit(3) read_i8leb128_at [of "advance 1 s" k]]
    by (simp only: dops.simps dval.simps dcode.simps option.case add_Suc One_nat_def add_0)
next
  case (Neg e)
  let ?c = "dcode (vm_big_endian s) e"
  have at: "at_code s ?c" "at_code (advance (length ?c) s) [OP_neg]"
    using Neg.prems by (simp_all add: at_code_append)
  show ?case
    using Neg.IH [OF at(1), of "Suc n"] Neg.prems eval_un [OF at(2) step_un(1)]
    by (auto split: option.splits)
next
  case (Not e)
  let ?c = "dcode (vm_big_endian s) e"
  have at: "at_code s ?c" "at_code (advance (length ?c) s) [OP_not]"
    using Not.prems by (simp_all add: at_code_append)
  show ?case
    using Not.IH [OF at(1), of "Suc n"] Not.prems eval_un [OF at(2) step_un(2)]
    by (auto split: option.splits)
next
  case (Bin b e f)
  let ?c = "dcode (vm_big_endian s) e" and ?d = "dcode (vm_big_endian s) f"
  have at: "at_code s ?c" "at_code (advance (length ?c) s) ?d"
      "at_code (advance (length ?c + length ?d) s) [bin_code b]"
    using Bin.prems by (simp_all add: at_code_append)
  have ok: "lits_ok e" "lits_ok f" using Bin.prems by simp_all
  have e: "eval_loop env (dops (Bin b e f) + n) s = (case dval e of None \<Rightarrow> Inl div_zero
      | Some x \<Rightarrow> eval_loop env (dops f + Suc n) (result (length ?c) x s))"
    using Bin.IH(1) [OF at(1) ok(1), of "dops f + Suc n"] by (simp add: add.assoc)
  have f: "eval_loop env (dops f + Suc n) (result (length ?c) x s) = (case dval f of None \<Rightarrow> Inl div_zero
      | Some y \<Rightarrow> eval_loop env (Suc n) (result (length ?d) y (result (length ?c) x s)))" for x
    using Bin.IH(2) [of "result (length ?c) x s" "Suc n"] at(2) ok(2)
    by (auto simp: at_code_result split: option.splits)
  have b: "eval_loop env (Suc n) (result (length ?d) y (result (length ?c) x s)) = (case bin_val b x y of
      None \<Rightarrow> Inl div_zero | Some v \<Rightarrow> eval_loop env n (result (length ?c + length ?d + 1) v s))" for x y
  proof -
    have "at_code (result (length ?d) y (result (length ?c) x s)) [bin_code b]"
      using at(3) by (simp add: at_code_def add.assoc)
    from eval_loop_step [OF this] show ?thesis
      by (simp add: reader_simps step_bin [where st = "vm_stk s"] result_def advance_def add.assoc split: option.splits)
  qed
  show ?case
    unfolding e f b by (auto split: option.splits simp: add.assoc)
qed

section \<open>Reads of the code stay inside\<close>

text \<open>
  \<open>safe m\<close>: where the length of the code is not more than the bytes there are, \<open>m\<close> does not read
  behind them, and keeps the code and its length.
\<close>

definition same_code :: "vm \<Rightarrow> vm \<Rightarrow> bool" where
  "same_code s s' \<longleftrightarrow> vm_code s' = vm_code s \<and> vm_len s' = vm_len s"

definition safe_at :: "(vm, 'a) comp \<Rightarrow> vm \<Rightarrow> bool" where
  "safe_at m s \<longleftrightarrow> (case m s of Inl e \<Rightarrow> e \<noteq> Out_of_bounds | Inr (x, s') \<Rightarrow> same_code s s')"

definition safe :: "(vm, 'a) comp \<Rightarrow> bool" where
  "safe m \<longleftrightarrow> (\<forall>s. vm_len s \<le> length (vm_code s) \<longrightarrow> safe_at m s)"

named_theorems vm_safe \<open>operations that read the code only inside its bounds\<close>

lemma safe_at_bind:
  assumes "safe_at m s" "\<And>x s'. m s = Inr (x, s') \<Longrightarrow> same_code s s' \<Longrightarrow> safe_at (f x) s'"
  shows "safe_at (bindR m f) s"
proof (cases "m s")
  case (Inl e)
  with assms(1) show ?thesis by (simp add: safe_at_def reader_simps)
next
  case (Inr r)
  then obtain x s' where r: "m s = Inr (x, s')" by (cases r) auto
  with assms(1) have s': "same_code s s'" by (simp add: safe_at_def)
  from assms(2) [OF r s'] r s' show ?thesis
    by (auto simp: safe_at_def reader_simps same_code_def split: sum.splits)
qed

lemma safe_bind [vm_safe]: "safe m \<Longrightarrow> (\<And>x. safe (f x)) \<Longrightarrow> safe (bindR m f)"
  unfolding safe_def by (intro allI impI safe_at_bind) (auto simp: same_code_def)

lemma safe_seq [vm_safe]: "safe m \<Longrightarrow> safe n \<Longrightarrow> safe (seqR m n)"
  unfolding seqR_def by (rule safe_bind)

lemma safe_basic [vm_safe]:
  "safe (retR x)" "e \<noteq> Out_of_bounds \<Longrightarrow> safe (raiseR e)" "safe (getV f)" "safe (inv_dwarf msg)" "safe (callV r)"
  by (auto simp: safe_def safe_at_def same_code_def reader_simps inv_dwarf_def callV_def split: sum.splits)

lemma safe_modV [vm_safe]: "(\<And>s. same_code s (f s)) \<Longrightarrow> safe (modV f)"
  by (simp add: safe_def safe_at_def reader_simps)

lemma safe_if [vm_safe]: "(b \<Longrightarrow> safe m) \<Longrightarrow> (\<not> b \<Longrightarrow> safe n) \<Longrightarrow> safe (if b then m else n)"
  by simp

lemma safe_read_u1 [vm_safe]: "safe read_u1"
  by (auto simp: safe_def safe_at_def same_code_def read_u1_def inv_dwarf_def reader_simps)

lemma safe_end [vm_safe]: "safe is_end_of_loc_expr"
  by (auto simp: safe_def safe_at_def same_code_def is_end_of_loc_expr_def reader_simps)

lemma safe_fixed [vm_safe]: "safe read_u2" "safe read_u4" "safe read_u8" "safe read_size"
  unfolding read_u8_def read_u4_def read_u2_def read_size_def by (intro vm_safe)+

lemma safe_let [vm_safe]: "safe (f x) \<Longrightarrow> safe (let y = x in f y)"
  by simp

lemma safe_u4leb_loop: "safe (read_u4leb128_loop i res)"
proof (induction i res rule: read_u4leb128_loop.induct)
  case (1 i res)
  show ?case
    by (subst read_u4leb128_loop.simps, unfold Let_def, intro vm_safe) (use 1 in \<open>auto simp: Let_def\<close>)
qed

lemma safe_u8leb_loop: "safe (read_u8leb128_loop i res)"
proof (induction i res rule: read_u8leb128_loop.induct)
  case (1 i res)
  show ?case
    by (subst read_u8leb128_loop.simps, unfold Let_def, intro vm_safe) (use 1 in \<open>auto simp: Let_def\<close>)
qed

lemma safe_i8leb_loop: "safe (read_i8leb128_loop i res)"
proof (induction i res rule: read_i8leb128_loop.induct)
  case (1 i res)
  show ?case
    by (subst read_i8leb128_loop.simps, unfold Let_def, intro vm_safe) (use 1 in \<open>auto simp: Let_def\<close>)
qed

lemma safe_leb [vm_safe]: "safe read_u4leb128" "safe read_u8leb128" "safe read_i8leb128"
  by (simp_all add: read_u4leb128_def read_u8leb128_def read_i8leb128_def
      safe_u4leb_loop safe_u8leb_loop safe_i8leb_loop)

lemma safe_addr [vm_safe]: "safe read_ia" "safe read_ua"
  unfolding read_ia_def read_ua_def by (intro vm_safe)+

lemma safe_ops [vm_safe]:
  "safe (check_e_stack n)" "safe (pushV x)" "safe (un_op f)" "safe (bin_op g)" "safe (div_op g)" "safe (shift_op h)"
  "safe (cmp_op c)" "safe (read_memory env a sz)" "safe (must_be_last msg)" "safe (jump offs)"
  "safe (set_reg env r msg)" "safe (reg_value env r)"
  unfolding div_op_def shift_op_def cmp_op_def un_op_def bin_op_def pushV_def check_e_stack_def read_memory_def
    must_be_last_def jump_def set_reg_def reg_value_def
  by (intro vm_safe; simp add: same_code_def)+

lemma safe_deref [vm_safe]: "safe sz \<Longrightarrow> safe (deref_op env sz cnv)" "safe sz \<Longrightarrow> safe (xderef_op env sz)"
  unfolding deref_op_def xderef_op_def by (intro vm_safe; simp add: same_code_def)+

lemma safe_stack_op: "safe other \<Longrightarrow> safe (vm_stack_op env op other)"
  unfolding vm_stack_op_def by (intro vm_safe) (simp_all add: same_code_def)

lemma safe_arith_op: "safe other \<Longrightarrow> safe (vm_arith_op op other)"
  unfolding vm_arith_op_def by (intro vm_safe)

lemma safe_control_op: "safe other \<Longrightarrow> safe (vm_control_op op other)"
  unfolding vm_control_op_def by (intro vm_safe) (simp_all add: same_code_def)

lemma safe_case_frame [vm_safe]:
  "safe m \<Longrightarrow> (\<And>x. safe (f x)) \<Longrightarrow> safe (case v of None \<Rightarrow> m | Some x \<Rightarrow> f x)"
  "safe m \<Longrightarrow> (\<And>x xs. safe (g x xs)) \<Longrightarrow> safe (case l of [] \<Rightarrow> m | x # xs \<Rightarrow> g x xs)"
  by (cases v; simp) (cases l; simp)

lemma safe_register_op: "safe other \<Longrightarrow> safe (vm_register_op env op other)"
  unfolding vm_register_op_def by (intro vm_safe) simp_all

lemma same_code_piece [simp]: "same_code s (add_piece s)" "same_code s (set_piece f s)"
  by (simp_all add: same_code_def add_piece_def set_piece_def Let_def split: prod.splits)

lemma safe_implicit [vm_safe]:
  "safe (\<lambda>s. let sz = unat n in
      if vm_pos s + sz > vm_len s then inv_dwarf ''Invalid command'' s
      else if vm_pos s + sz > length (vm_code s) then raiseR Out_of_bounds s
      else Inr ((), s\<lparr>vm_value := Some (take sz (drop (vm_pos s) (vm_code s))), vm_pos := vm_pos s + sz\<rparr>))"
  by (auto simp: safe_def safe_at_def same_code_def inv_dwarf_def reader_simps Let_def)

lemma safe_piece_op: "safe other \<Longrightarrow> safe (vm_piece_op op other)"
  unfolding vm_piece_op_def by (intro vm_safe) (auto simp: same_code_def add_piece_def set_piece_def Let_def split: prod.splits)

lemma same_code_refl [simp]: "same_code s s"
  by (simp add: same_code_def)

lemma safe_atI: "safe m \<Longrightarrow> vm_len s \<le> length (vm_code s) \<Longrightarrow> safe_at m s"
  by (simp add: safe_def)

lemma safe_with_len:
  assumes "safe ev" "nxt \<le> vm_len s" "vm_len s \<le> length (vm_code s)"
  shows "safe_at (bindR (getV vm_len) (\<lambda>org. seqR (modV (\<lambda>s. s\<lparr>vm_len := nxt\<rparr>))
    (seqR ev (modV (\<lambda>s. s\<lparr>vm_len := org\<rparr>))))) s"
proof -
  have "safe_at ev (s\<lparr>vm_len := nxt\<rparr>)"
    using assms by (intro safe_atI) simp_all
  then show ?thesis
    by (auto simp: safe_at_def reader_simps same_code_def split: sum.splits)
qed

lemma safe_switch_loop:
  assumes "safe ev" "vm_len s \<le> length (vm_code s)" "end_pos \<le> vm_len s"
  shows "safe_at (switch_loop k ev n end_pos) s"
  using assms(2,3)
proof (induction k arbitrary: s)
  case (Suc k)
  note leb = safe_atI [OF safe_leb(2)]
  show ?case
    unfolding switch_loop.simps Let_def
  proof (intro safe_at_bind safe_atI [OF safe_fixed(1)] safe_atI [OF safe_basic(3)], goal_cases)
    case (3 d s1 pos s2)
    then have s2: "vm_len s2 \<le> length (vm_code s2)" "end_pos \<le> vm_len s2" using Suc.prems by (simp_all add: same_code_def)
    let ?nxt = "unat d + pos"
    have br: "safe_at (bindR read_u8leb128 (\<lambda>addr. bindR read_u8leb128 (\<lambda>size.
        if size = 0 \<or> addr \<le> n \<and> n - addr < size
        then bindR (getV vm_len) (\<lambda>org. seqR (modV (\<lambda>s. s\<lparr>vm_len := ?nxt\<rparr>)) (seqR ev (modV (\<lambda>s. s\<lparr>vm_len := org\<rparr>))))
        else seqR (modV (\<lambda>s. s\<lparr>vm_pos := ?nxt\<rparr>)) (switch_loop k ev n end_pos)))) s2"
      if le: "?nxt \<le> end_pos"
    proof (intro safe_at_bind leb, goal_cases)
      case (3 addr s3 size s4)
      then have s4: "vm_len s4 \<le> length (vm_code s4)" "end_pos \<le> vm_len s4" using s2 by (simp_all add: same_code_def)
      have "safe_at (seqR (modV (\<lambda>s. s\<lparr>vm_pos := ?nxt\<rparr>)) (switch_loop k ev n end_pos)) s4"
        unfolding seqR_def using s4
        by (intro safe_at_bind) (auto simp: safe_at_def reader_simps same_code_def intro!: Suc.IH [unfolded safe_at_def])
      moreover have "safe_at (bindR (getV vm_len) (\<lambda>org. seqR (modV (\<lambda>s. s\<lparr>vm_len := ?nxt\<rparr>))
          (seqR ev (modV (\<lambda>s. s\<lparr>vm_len := org\<rparr>))))) s4"
        using assms(1) le s4 by (intro safe_with_len) simp_all
      ultimately show ?case by simp
    qed (use s2 in \<open>simp_all add: same_code_def\<close>)
    then show ?case
      by (auto simp: not_less safe_at_def [of "inv_dwarf _"] safe_at_def [of "raiseR _"] inv_dwarf_def reader_simps)
  qed (use Suc.prems in \<open>simp_all add: same_code_def\<close>)
qed (simp add: safe_at_def reader_simps)

lemma safe_switch:
  assumes "safe ev"
  shows "safe (tcf_switch ev)"
proof -
  define body where "body d pos len n = (let end_pos = unat d + pos in
     if end_pos > len then inv_dwarf ''Invalid command''
     else seqR (switch_loop (Suc len) ev n end_pos) (modV (\<lambda>s. s\<lparr>vm_pos := end_pos\<rparr>)))"
    for d :: u16 and pos len n
  have "safe_at (body d pos (vm_len s) n) s" if "vm_len s \<le> length (vm_code s)" for d pos s n
  proof (cases "vm_len s < unat d + pos")
    case True
    then show ?thesis by (simp add: body_def safe_atI [OF safe_basic(4) that])
  next
    case False
    have "safe_at (seqR (switch_loop (Suc (vm_len s)) ev n (unat d + pos)) (modV (\<lambda>s. s\<lparr>vm_pos := unat d + pos\<rparr>))) s"
      unfolding seqR_def
      by (rule safe_at_bind [OF safe_switch_loop [OF assms that]])
        (use False in \<open>simp_all add: safe_at_def modV_apply same_code_def\<close>)
    with False show ?thesis by (simp add: body_def Let_def del: switch_loop.simps)
  qed
  then have body: "safe (bindR (getV vm_pos) (\<lambda>pos. bindR (getV vm_len) (\<lambda>len. body d pos len n)))" for d n
    by (auto simp: safe_def safe_at_def reader_simps)
  show ?thesis
    unfolding tcf_switch_def body_def [symmetric]
    by (rule safe_seq, rule safe_ops, rule safe_bind, rule safe_basic, rule safe_seq, rule safe_modV,
        simp add: same_code_def, rule safe_bind, rule safe_fixed, rule body)
qed

lemma safe_entry:
  assumes "\<And>f. \<exists>e. get_frame_info env f = Inl e"
  shows "safe (entry_value env ev)"
proof -
  have "safe (\<lambda>s. case get_frame_info env (get_prev_frame env (vm_frame s)) of Inl e \<Rightarrow> Inl (Exception e)
      | Inr r \<Rightarrow> g r s)" for g :: "StackFrame option \<Rightarrow> unit vmc"
    unfolding safe_def
  proof (intro allI impI)
    fix s :: vm
    obtain e where "get_frame_info env (get_prev_frame env (vm_frame s)) = Inl e" using assms by blast
    then show "safe_at (\<lambda>s. case get_frame_info env (get_prev_frame env (vm_frame s)) of Inl e \<Rightarrow> Inl (Exception e)
        | Inr r \<Rightarrow> g r s) s"
      by (simp add: safe_at_def)
  qed
  then show ?thesis
    unfolding entry_value_def by (intro safe_bind safe_leb)
qed

lemma safe_step:
  assumes "safe ev" "\<And>op. safe (call_client env op)" "\<And>f. \<exists>e. get_frame_info env f = Inl e"
  shows "safe (vm_step env ev op)"
  unfolding vm_step_def
  by (intro safe_stack_op safe_arith_op safe_control_op safe_register_op safe_piece_op safe_if safe_switch
      safe_entry assms)

lemma safe_check_len: "safe m \<Longrightarrow> safe (check_len m)"
  by (auto simp: safe_def check_len_def safe_at_def inv_dwarf_def reader_simps)

lemma safe_eval_loop:
  assumes "\<And>op. safe (call_client env op)" "\<And>f. \<exists>e. get_frame_info env f = Inl e"
  shows "safe (eval_loop env n)"
proof (induction n)
  case (Suc n)
  let ?body = "seqR (bindR fetch (vm_step env (check_len (eval_loop env n)))) (eval_loop env n)"
  have step: "safe (vm_step env (check_len (eval_loop env n)) op)" for op
    by (intro safe_step safe_check_len Suc assms)
  have body: "safe_at ?body s" if "vm_pos s < vm_len s" "vm_len s \<le> length (vm_code s)" for s
    unfolding seqR_def
  proof (intro safe_at_bind)
    show "safe_at fetch s"
      using that by (simp add: safe_at_def fetch_def same_code_def)
    show "\<And>x s'. same_code s s' \<Longrightarrow> safe_at (vm_step env (check_len (eval_loop env n)) x) s'"
      using that by (intro safe_atI step) (simp add: same_code_def)
    show "\<And>x s'. same_code s s' \<Longrightarrow> safe_at (eval_loop env n) s'"
      using that by (intro safe_atI Suc) (simp add: same_code_def)
  qed
  show ?case
    unfolding safe_def
  proof (intro allI impI)
    fix s :: vm
    assume l: "vm_len s \<le> length (vm_code s)"
    show "safe_at (eval_loop env (Suc n)) s"
    proof (cases "vm_pos s < vm_len s")
      case True
      from body [OF this l] True show ?thesis by (simp only: safe_at_def eval_loop.simps if_True)
    next
      case False
      then show ?thesis by (simp add: safe_at_def eval_loop.simps)
    qed
  qed
qed (simp add: safe_basic)

text \<open>A fresh machine on a piece of code, and an environment where nothing is available but memory of
  zeros.\<close>

definition vm_start :: "byte list \<Rightarrow> vm" where
  "vm_start code = \<lparr>vm_frame = None, vm_args = [], vm_code = code, vm_pos = 0, vm_len = length code,
     vm_big_endian = False, vm_addr_size = 8, vm_pieces = [], vm_stk = [], vm_reg_def = None, vm_value = None,
     vm_implicit = 0\<rparr>"

definition null_env :: vm_env where
  "null_env = \<lparr>get_reg_by_id = (\<lambda>_. Inl ERR_OTHER), read_reg_value = (\<lambda>_ _. Inl ERR_OTHER),
     context_read_mem = (\<lambda>_ n. Inr (replicate n 0)), get_prev_frame = (\<lambda>_. 0), get_frame_info = (\<lambda>_. Inl ERR_OTHER),
     read_location_pieces = (\<lambda>_ _. Inr []), client_op = (\<lambda>_ _. Inl (Exception ERR_OTHER))\<rparr>"

section \<open>Properties\<close>

text \<open>C24: the machine run on the code of an expression of constants (fixed-size and LEB128, signed and
  unsigned), negation, complement and the binary operations leaves exactly its value on the stack, in both
  byte orders; an expression that divides by zero raises the division error. The number of operations,
  and one, is enough fuel: the run ends.\<close>

theorem evaluate_expression_value:
  assumes "lits_ok e" "vm_code s = dcode (vm_big_endian s) e" "vm_pos s = 0" "vm_len s = length (vm_code s)"
    and "vm_stk s = []" "vm_reg_def s = None" "vm_value s = None" "vm_implicit s = 0"
  shows "evaluate_vm_expression env (dops e + 1) s = (case dval e of
      None \<Rightarrow> Inl (Str_exception ERR_INV_DWARF ''Division by zero in location expression'')
    | Some v \<Rightarrow> Inr (s\<lparr>vm_pos := vm_len s, vm_stk := [v]\<rparr>))"
proof -
  have s: "s\<lparr>vm_implicit := 0, vm_value := None, vm_reg_def := None\<rparr> = s" using assms by (cases s) simp
  have "dcode be e \<noteq> []" for be by (cases e) simp_all
  then have ne: "vm_len s \<noteq> 0" using assms(2,4) by simp
  have "at_code s (dcode (vm_big_endian s) e)" using assms by (simp add: at_code_def)
  from eval_dcode [OF this assms(1), of env 1] have
    "eval_loop env (dops e + 1) s = (case dval e of None \<Rightarrow> Inl div_zero
      | Some v \<Rightarrow> eval_loop env 1 (result (length (dcode (vm_big_endian s) e)) v s))" .
  moreover have "eval_loop env 1 (result (length (dcode (vm_big_endian s) e)) v s) =
      Inr ((), s\<lparr>vm_pos := vm_len s, vm_stk := [v]\<rparr>)" for v
    using assms by (simp add: eval_loop.simps result_def advance_def)
  ultimately show ?thesis
    unfolding evaluate_vm_expression_def evaluate_vm_with_def evaluate_expression_def check_len_def s
    using ne assms(6-8) by (auto split: option.splits)
qed

theorem evaluate_expression_value_witness:
  "evaluate_vm_expression null_env 4 (vm_start (dcode False (Bin Minus (LitU 5) (LitS (- 2))))) =
    Inr ((vm_start (dcode False (Bin Minus (LitU 5) (LitS (- 2)))))\<lparr>vm_pos := 5, vm_stk := [7]\<rparr>)"
proof -
  let ?s = "vm_start (dcode False (Bin Minus (LitU 5) (LitS (- 2))))"
  have "evaluate_vm_expression null_env (dops (Bin Minus (LitU 5) (LitS (- 2))) + 1) ?s =
      (case dval (Bin Minus (LitU 5) (LitS (- 2))) of
        None \<Rightarrow> Inl (Str_exception ERR_INV_DWARF ''Division by zero in location expression'')
      | Some v \<Rightarrow> Inr (?s\<lparr>vm_pos := vm_len ?s, vm_stk := [v]\<rparr>))"
    by (rule evaluate_expression_value) (simp_all add: vm_start_def)
  moreover have "dops (Bin Minus (LitU 5) (LitS (- 2))) + 1 = 4" "dval (Bin Minus (LitU 5) (LitS (- 2))) = Some 7"
    by simp_all
  moreover have "vm_len ?s = 5"
    by (simp add: vm_start_def uleb.simps [of 5] sleb.simps [of "- 2"])
  ultimately show ?thesis by (simp only: option.case)
qed

text \<open>read_u8leb128 decodes the unsigned LEB128 encoding of every 64-bit number, and
  read_i8leb128 the signed one of every number in range; both stop behind the last byte.\<close>

theorem leb128_roundtrip:
  assumes "at_code s (uleb v)" "at_code t (sleb n)" "- (2 ^ 63) \<le> n" "n < 2 ^ 63"
  shows "read_u8leb128 s = Inr (v, advance (length (uleb v)) s) \<and>
    read_i8leb128 t = Inr (word_of_int n, advance (length (sleb n)) t)"
  using assms by (simp add: read_u8leb128_at read_i8leb128_at)

theorem leb128_roundtrip_witness:
  "read_u8leb128 (vm_start [0xE5, 0x8E, 0x26]) = Inr (624485, (vm_start [0xE5, 0x8E, 0x26])\<lparr>vm_pos := 3\<rparr>) \<and>
   read_i8leb128 (vm_start [0x7E]) = Inr (- 2, (vm_start [0x7E])\<lparr>vm_pos := 1\<rparr>)"
proof -
  have u: "uleb 624485 = [0xE5, 0x8E, 0x26]"
    by (simp add: uleb.simps [of 624485] uleb.simps [of 4878] uleb.simps [of 38])
  have i: "sleb (- 2) = [0x7E]" by (simp add: sleb.simps)
  have "at_code (vm_start [0xE5, 0x8E, 0x26]) (uleb 624485)" "at_code (vm_start [0x7E]) (sleb (- 2))"
    by (simp_all add: at_code_def vm_start_def u i)
  from leb128_roundtrip [OF this] show ?thesis by (simp add: u i vm_start_def advance_def)
qed

text \<open>OP_shra is the arithmetic shift: the signed value divided by the power of two, rounded down,
  for every shift count.\<close>

theorem shra_arithmetic: "sint (shra x c) = sint x div 2 ^ unat c"
  by (simp add: shra_eq sint_signed_drop_bit_eq drop_bit_eq_div)

text \<open>C39: no operation reads behind the code: from a state whose length is not more than the bytes there
  are, whatever the code, provided the client callback behaves and no caller frame is available for
  OP_GNU_entry_value (whose operand is not checked).\<close>

theorem evaluate_in_bounds:
  assumes "\<And>op. safe (call_client env op)" "\<And>f. \<exists>e. get_frame_info env f = Inl e"
    and "vm_len s \<le> length (vm_code s)"
  shows "evaluate_vm_expression env n s \<noteq> Inl Out_of_bounds"
proof -
  have "safe (evaluate_expression env n)"
    unfolding evaluate_expression_def by (intro safe_check_len safe_eval_loop assms(1,2))
  from safe_atI [OF this, of "s\<lparr>vm_implicit := 0, vm_value := None, vm_reg_def := None\<rparr>"] assms(3)
  show ?thesis
    by (auto simp: evaluate_vm_expression_def evaluate_vm_with_def safe_at_def split: sum.splits)
qed

theorem evaluate_in_bounds_witness:
  "evaluate_vm_expression null_env 10 (vm_start [0x0e, 1, 2]) \<noteq> Inl Out_of_bounds"
  by (rule evaluate_in_bounds)
    (simp_all add: null_env_def vm_start_def safe_def safe_at_def call_client_def)

text \<open>an entry value whose size is larger than the code makes the machine read behind the code.\<close>

theorem entry_value_out_of_bounds:
  "evaluate_vm_expression (null_env\<lparr>get_frame_info := \<lambda>_. Inr None\<rparr>) 10 (vm_start [0xf3, 2, 0x96]) = Inl Out_of_bounds"
  by code_simp

text \<open>a backward jump can keep the machine running: on a loop of one OP_skip no fuel is enough.\<close>

theorem skip_loop_never_ends:
  "evaluate_vm_expression env n (vm_start [0x2f, 0xFD, 0xFF]) = Inl Out_of_fuel"
proof -
  let ?s = "vm_start [0x2f, 0xFD, 0xFF]"
  have "bindR fetch (vm_step env ev) ?s = Inr ((), ?s)" for ev
    by (simp add: vm_start_def fetch_def reader_simps op_defs read_u2_def read_u1_def jump_def)
  then have "eval_loop env n ?s = Inl Out_of_fuel"
    by (induction n) (simp_all add: eval_loop.simps reader_simps, simp add: vm_start_def)
  moreover have "?s\<lparr>vm_implicit := 0, vm_value := None, vm_reg_def := None\<rparr> = ?s" by (simp add: vm_start_def)
  ultimately show ?thesis
    by (simp add: evaluate_vm_expression_def evaluate_vm_with_def evaluate_expression_def check_len_def)
      (simp add: vm_start_def)
qed

text \<open>OP_deref_size takes its size from the code without a check: a size above eight overflows the
  local buffer of read_memory.\<close>

theorem deref_size_overflows:
  "evaluate_vm_expression null_env 10 (vm_start [0x30, 0x94, 9]) = Inl Undefined"
  by code_simp

end
