(* ===== verification/Contextquery.thy ===== *)
theory Contextquery
  imports Json_Object
begin

text \<open>
  services/contextquery.c: the query language that selects debug contexts by their place in the
  context tree, its parser, the matcher and the two commands of the service.

  A query is the list of its bytes, without the terminating zero. The parser keeps its result in
  static variables, the record \<open>query\<close>: the parts of the query, last part first (the
  \<open>parent\<close> links of the source), each part the list of its attributes, last one first (the
  \<open>next\<close> links). What a context has as ancestors is the chain the \<open>get_parent\<close> callback
  yields: a list that starts with the context itself.
\<close>

section \<open>Comparators\<close>

record 'c Comparator =
  cmp_attr_name :: "byte list"
  cmp_callback :: "byte list \<Rightarrow> 'c \<Rightarrow> byte list \<Rightarrow> bool"

text \<open>The callback gets \<open>query_attr_name\<close>, which it may ask for, as its first argument.\<close>

definition add_context_query_comparator ::
    "byte list \<Rightarrow> (byte list \<Rightarrow> 'c \<Rightarrow> byte list \<Rightarrow> bool) \<Rightarrow> 'c Comparator list \<Rightarrow> 'c Comparator list" where
  "add_context_query_comparator attr_name callback comparators =
     \<lparr>cmp_attr_name = attr_name, cmp_callback = callback\<rparr> # comparators"

section \<open>The parser\<close>

record attribute =
  attr_name :: "byte list option"
  attr_value :: "byte list"

record query =
  q_attrs :: "attribute list list"
  q_abs_path :: bool

abbreviation (input) ch :: "char \<Rightarrow> byte" where "ch c \<equiv> of_char c"

text \<open>The first character of a string, zero at its end.\<close>

definition cur :: "byte list \<Rightarrow> byte" where
  "cur q = (case q of [] \<Rightarrow> 0 | c # _ \<Rightarrow> c)"

text \<open>A parse function returns the contents of \<open>str_buf\<close> and the rest of the query, or the message
  of the error it sets (some quote characters of the messages are left out).\<close>

type_synonym 'a parse = "byte list \<Rightarrow> string + 'a \<times> byte list"

definition parse_wildcard :: "byte list parse" where
  "parse_wildcard q =
     (let c1 = tl q;
          (buf, c2) = (if cur c1 = ch (CHR ''*'') then ([cur q, cur c1], tl c1) else ([cur q], c1))
      in if cur c2 \<noteq> 0 \<and> cur c2 \<noteq> ch (CHR ''/'')
         then Inl ''Invalid context query syntax: * and ** are the only valid wildcards''
         else Inr (buf, c2))"

definition is_dec :: "byte \<Rightarrow> bool" where
  "is_dec c \<longleftrightarrow> ch (CHR ''0'') \<le> c \<and> c \<le> ch (CHR ''9'')"

definition parse_number :: "byte list parse" where
  "parse_number q =
     (let buf = takeWhile is_dec q; c = dropWhile is_dec q
      in if cur c \<noteq> ch (CHR '','') \<and> cur c \<noteq> ch (CHR ''/'') \<and> cur c \<noteq> 0
         then Inl ''Invalid context query syntax: expecting [0-9] or ',' or '/' after number''
         else Inr (buf, c))"

definition is_symbol_char :: "byte \<Rightarrow> bool" where
  "is_symbol_char c \<longleftrightarrow> \<not> (c \<noteq> ch (CHR ''_'') \<and> \<not> is_dec c \<and>
     (c < ch (CHR ''a'') \<or> c > ch (CHR ''z'')) \<and> (c < ch (CHR ''A'') \<or> c > ch (CHR ''Z'')))"

definition parse_symbol :: "byte list parse" where
  "parse_symbol q =
     (let buf = takeWhile is_symbol_char q; c = dropWhile is_symbol_char q
      in if cur c \<noteq> ch (CHR ''/'') \<and> cur c \<noteq> ch (CHR ''='') \<and> cur c \<noteq> ch (CHR '','') \<and> cur c \<noteq> 0
         then Inl ''Invalid context query syntax: unquoted strings must only contain alphanumerical characters or _''
         else Inr (buf, c))"

fun parse_quoted_loop :: "byte list \<Rightarrow> byte list parse" where
  "parse_quoted_loop buf [] = Inl ''Invalid context query syntax: missing closing quote character''"
| "parse_quoted_loop buf (c # q) =
     (if c = 34 then Inr (buf, q)
      else if c = 0 then Inl ''Invalid context query syntax: missing closing quote character''
      else if c = 92 then
        (case q of
           [] \<Rightarrow> Inl ''Invalid context query syntax: quote and backslash are the only characters that can be escaped''
         | d # q' \<Rightarrow>
            if d \<noteq> 92 \<and> d \<noteq> 34
            then Inl ''Invalid context query syntax: quote and backslash are the only characters that can be escaped''
            else parse_quoted_loop (buf @ [d]) q')
      else parse_quoted_loop (buf @ [c]) q)"

definition parse_quoted_string :: "byte list parse" where
  "parse_quoted_string q = parse_quoted_loop [] (tl q)"

definition parse_string :: "byte list parse" where
  "parse_string q = (if cur q = 34 then parse_quoted_string q else parse_symbol q)"

definition parse_value :: "byte list parse" where
  "parse_value q =
     (if is_dec (cur q) then parse_number q
      else if cur q = 34 then parse_quoted_string q
      else parse_symbol q)"

text \<open>The characters no part or property may start with.\<close>

definition missing :: "byte list \<Rightarrow> bool" where
  "missing q \<longleftrightarrow> cur q = ch (CHR ''/'') \<or> cur q = ch (CHR ''='') \<or> cur q = ch (CHR '','') \<or> cur q = 0"

definition parse_property :: "attribute parse" where
  "parse_property q =
     (case parse_string q of
        Inl e \<Rightarrow> Inl e
      | Inr (name, c) \<Rightarrow>
          if cur c = ch (CHR ''='') then
            (if missing (tl c) then Inl ''Invalid context query syntax: missing value''
             else case parse_value (tl c) of
                Inl e \<Rightarrow> Inl e
              | Inr (val, d) \<Rightarrow>
                  if cur d = ch (CHR ''='')
                  then Inl ''Invalid context query syntax: can't assign several values to a property at the same time''
                  else Inr (\<lparr>attr_name = Some name, attr_value = val\<rparr>, d))
          else Inr (\<lparr>attr_name = None, attr_value = name\<rparr>, c))"

text \<open>Parsing consumes something unless it stops at a separator.\<close>

lemma cur_tl: "cur q \<noteq> 0 \<Longrightarrow> Suc (length (tl q)) = length q"
  by (cases q) (simp_all add: cur_def)

lemma parse_wildcard_length: "parse_wildcard q = Inr (b, q1) \<Longrightarrow> cur q \<noteq> 0 \<Longrightarrow> length q1 < length q"
  by (cases q) (auto simp: parse_wildcard_def cur_def Let_def split: if_splits list.splits)

lemma parse_quoted_length: "parse_quoted_loop b q = Inr (r, q1) \<Longrightarrow> length q1 < length q"
  by (induction b q rule: parse_quoted_loop.induct) (auto split: if_splits list.splits)

lemma parse_quoted_string_length: "parse_quoted_string q = Inr (r, q1) \<Longrightarrow> length q1 < length q"
  by (drule parse_quoted_length [of "[]" "tl q", folded parse_quoted_string_def]) (cases q; simp)

lemma parse_symbol_length:
  assumes "parse_symbol q = Inr (r, q1)"
  shows "length q1 \<le> length q" "cur q \<noteq> ch (CHR ''/'') \<Longrightarrow> cur q \<noteq> ch (CHR ''='') \<Longrightarrow> cur q \<noteq> ch (CHR '','') \<Longrightarrow>
    cur q \<noteq> 0 \<Longrightarrow> length q1 < length q"
proof -
  have q1: "q1 = dropWhile is_symbol_char q"
    "cur q1 = ch (CHR ''/'') \<or> cur q1 = ch (CHR ''='') \<or> cur q1 = ch (CHR '','') \<or> cur q1 = 0"
    using assms by (auto simp: parse_symbol_def Let_def split: if_splits)
  show l: "length q1 \<le> length q" using q1(1) by (simp add: length_dropWhile_le)
  assume "cur q \<noteq> ch (CHR ''/'')" "cur q \<noteq> ch (CHR ''='')" "cur q \<noteq> ch (CHR '','')" "cur q \<noteq> 0"
  with q1(2) have "q1 \<noteq> q" by auto
  then have "length q1 \<noteq> length q"
    using q1(1) by (metis append_eq_append_conv append_Nil length_0_conv takeWhile_dropWhile_id
        length_append add_cancel_left_left)
  with l show "length q1 < length q" by simp
qed

lemma parse_number_length: "parse_number q = Inr (r, q1) \<Longrightarrow> length q1 \<le> length q"
  by (auto simp: parse_number_def Let_def length_dropWhile_le split: if_splits)

lemma parse_value_length: "parse_value q = Inr (r, q1) \<Longrightarrow> length q1 \<le> length q"
  by (auto simp: parse_value_def dest: parse_number_length parse_quoted_string_length parse_symbol_length(1)
      split: if_splits)

lemma parse_string_length: "parse_string q = Inr (r, q1) \<Longrightarrow> length q1 \<le> length q"
  by (auto simp: parse_string_def dest: parse_quoted_string_length parse_symbol_length(1) split: if_splits)

lemma parse_property_length:
  assumes "parse_property q = Inr (a, q1)"
  shows "length q1 \<le> length q"
    and "cur q \<noteq> 0 \<Longrightarrow> cur q1 \<noteq> ch (CHR ''/'') \<Longrightarrow> cur q1 \<noteq> ch (CHR '','') \<Longrightarrow> length q1 < length q"
proof -
  obtain name c where c: "parse_string q = Inr (name, c)"
    using assms by (auto simp: parse_property_def split: sum.splits)
  have l: "length c \<le> length q" by (rule parse_string_length [OF c])
  have eq: "cur c = ch (CHR ''='') \<Longrightarrow> length q1 < length c"
    using assms c cur_tl [of c]
    by (auto simp: parse_property_def dest!: parse_value_length split: sum.splits if_splits)
  have ne: "cur c \<noteq> ch (CHR ''='') \<Longrightarrow> q1 = c"
    using assms c by (auto simp: parse_property_def split: if_splits)
  show "length q1 \<le> length q" using l eq ne by force
  assume a: "cur q \<noteq> 0" "cur q1 \<noteq> ch (CHR ''/'')" "cur q1 \<noteq> ch (CHR '','')"
  show "length q1 < length q"
  proof (cases "cur c = ch (CHR ''='')")
    case True
    with eq l show ?thesis by simp
  next
    case False
    with ne have q1: "q1 = c" by simp
    have "length c < length q"
    proof (cases "cur q = 34")
      case True
      with c show ?thesis by (simp add: parse_string_def parse_quoted_string_length)
    next
      case False
      then have s: "parse_symbol q = Inr (name, c)" using c by (simp add: parse_string_def)
      show ?thesis
      proof (rule ccontr)
        assume "\<not> length c < length q"
        then have stop: "cur q = ch (CHR ''/'') \<or> cur q = ch (CHR ''='') \<or> cur q = ch (CHR '','')"
          using parse_symbol_length(2) [OF s] a(1) by blast
        then have "\<not> is_symbol_char (cur q)" by (auto simp: is_symbol_char_def is_dec_def)
        then have "c = q"
          using s a(1) by (cases q) (auto simp: parse_symbol_def cur_def Let_def split: if_splits)
        with stop a q1 \<open>cur c \<noteq> ch (CHR ''='')\<close> show False by simp
      qed
    qed
    with q1 show ?thesis by simp
  qed
qed

text \<open>One attribute or wildcard.\<close>

definition parse_attribute :: "attribute parse" where
  "parse_attribute q =
     (if cur q = ch (CHR ''*'') then
        (case parse_wildcard q of
           Inl e \<Rightarrow> Inl e
         | Inr (buf, c) \<Rightarrow> Inr (\<lparr>attr_name = None, attr_value = buf\<rparr>, c))
      else parse_property q)"

lemma parse_attribute_length:
  assumes "parse_attribute q = Inr (a, q1)" "cur q \<noteq> 0"
  shows "length q1 \<le> length q"
    and "cur q1 \<noteq> ch (CHR ''/'') \<Longrightarrow> cur q1 \<noteq> ch (CHR '','') \<Longrightarrow> length q1 < length q"
  using assms parse_property_length [of q a q1] parse_wildcard_length [of q _ q1]
  by (auto simp: parse_attribute_def less_imp_le split: if_splits sum.splits)

text \<open>The loop of \<open>parse_context_query\<close>: the error, if any, and what \<open>attrs\<close> is then.\<close>

function parse_parts ::
    "attribute list list \<Rightarrow> attribute list \<Rightarrow> byte list \<Rightarrow> string option \<times> attribute list list" where
  "parse_parts attrs attr q =
     (if cur q = 0 then (None, attr # attrs)
      else case parse_attribute q of
        Inl e \<Rightarrow> (Some e, attrs)
      | Inr (a, q1) \<Rightarrow>
          if cur q1 = ch (CHR ''/'') then
            (if missing (tl q1)
             then (Some ''Invalid context query syntax: missing context name, property or wildcard'', (a # attr) # attrs)
             else parse_parts ((a # attr) # attrs) [] (tl q1))
          else if cur q1 = ch (CHR '','') then
            (if missing (tl q1) then (Some ''Invalid context query syntax: missing property'', attrs)
             else parse_parts attrs (a # attr) (tl q1))
          else parse_parts attrs (a # attr) q1)"
  by pat_completeness auto
termination
proof (relation "measure (\<lambda>(attrs, attr, q). length q)", goal_cases)
  case 1
  show ?case by simp
next
  case (2 attrs attr q r a q1)
  then show ?case using parse_attribute_length(1) [of q a q1] cur_tl [of q1] by simp
next
  case (3 attrs attr q r a q1)
  then show ?case using parse_attribute_length(1) [of q a q1] cur_tl [of q1] by simp
next
  case (4 attrs attr q r a q1)
  then show ?case using parse_attribute_length(2) [of q a q1] by simp
qed

declare parse_parts.simps [simp del]

definition parse_context_query :: "byte list option \<Rightarrow> string option \<times> query" where
  "parse_context_query q =
     (case q of
        None \<Rightarrow> (None, \<lparr>q_attrs = [], q_abs_path = False\<rparr>)
      | Some q \<Rightarrow>
          if cur q = 0 then (None, \<lparr>q_attrs = [], q_abs_path = False\<rparr>)
          else
            let absp = (cur q = ch (CHR ''/''));
                q1 = (if absp then tl q else q)
            in if missing q1
               then (Some ''Invalid context query syntax: missing context name, property or wildcard'',
                     \<lparr>q_attrs = [], q_abs_path = absp\<rparr>)
               else let (err, attrs) = parse_parts [] [] q1
                    in (err, \<lparr>q_attrs = attrs, q_abs_path = absp\<rparr>))"

section \<open>The matcher\<close>

definition to_lower :: "byte \<Rightarrow> byte" where
  "to_lower c = (if ch (CHR ''A'') \<le> c \<and> c \<le> ch (CHR ''Z'') then c + 32 else c)"

definition strcasecmp_eq :: "byte list \<Rightarrow> byte list \<Rightarrow> bool" where
  "strcasecmp_eq s t \<longleftrightarrow> map to_lower s = map to_lower t"

definition DEFAULT_CONTEXT_QUERY_COMPARATOR :: "byte list" where
  "DEFAULT_CONTEXT_QUERY_COMPARATOR = bytes_of ''*''"

text \<open>The second loop of \<open>match_attribute\<close>: a default comparator that accepts is enough.\<close>

fun default_comparators :: "'c Comparator list \<Rightarrow> byte list \<Rightarrow> 'c \<Rightarrow> byte list \<Rightarrow> bool" where
  "default_comparators [] key ctx val = False"
| "default_comparators (c # cs) key ctx val =
     (if cmp_attr_name c = DEFAULT_CONTEXT_QUERY_COMPARATOR \<and> cmp_callback c key ctx val then True
      else default_comparators cs key ctx val)"

definition match_attribute :: "'c Comparator list \<Rightarrow> 'c \<Rightarrow> byte list \<Rightarrow> byte list \<Rightarrow> bool" where
  "match_attribute comparators ctx key val =
     (case find (\<lambda>c. strcasecmp_eq (cmp_attr_name c) key) comparators of
        Some c \<Rightarrow> cmp_callback c key ctx val
      | None \<Rightarrow> default_comparators comparators key ctx val)"

text \<open>
  \<open>match\<close> goes from the context up to its ancestors while it goes from the last part of the query
  to the first. The third argument is the context with its ancestors, as \<open>get_parent\<close> yields them.
\<close>

fun match_attributes :: "'c Comparator list \<Rightarrow> 'c \<Rightarrow> attribute list \<Rightarrow> bool" where
  "match_attributes comparators ctx [] = True"
| "match_attributes comparators ctx (a # attr) =
     (case attr_name a of
        Some name \<Rightarrow>
          (if \<not> match_attribute comparators ctx name (attr_value a) then False
           else match_attributes comparators ctx attr)
      | None \<Rightarrow>
          (if attr_value a \<noteq> bytes_of ''*'' \<and>
              \<not> match_attribute comparators ctx (bytes_of ''Name'') (attr_value a) then False
           else match_attributes comparators ctx attr))"

definition is_any_path :: "attribute list \<Rightarrow> bool" where
  "is_any_path attr \<longleftrightarrow> attr_name (hd attr) = None \<and> attr_value (hd attr) = bytes_of ''**''"

fun match_upwards :: "('c list \<Rightarrow> bool) \<Rightarrow> 'c list \<Rightarrow> bool" where
  "match_upwards m [] = False"
| "match_upwards m (ctx # parents) = (if m (ctx # parents) then True else match_upwards m parents)"

fun match :: "'c Comparator list \<Rightarrow> bool \<Rightarrow> 'c list \<Rightarrow> attribute list list \<Rightarrow> bool" where
  "match comparators abs_path (ctx # parents) (attr # attr_parent) =
     (if is_any_path attr then
        (if attr_parent = [] then True
         else match_upwards (\<lambda>c. match comparators abs_path c attr_parent) (ctx # parents))
      else if attr_parent \<noteq> [] \<and>
          (parents = [] \<or> \<not> match comparators abs_path parents attr_parent) then False
      else if attr_parent = [] \<and> abs_path \<and> parents \<noteq> [] then False
      else match_attributes comparators ctx attr)"
| "match comparators abs_path [] attrs = False"
| "match comparators abs_path (ctx # parents) [] = False"

definition run_context_query_ext :: "'c Comparator list \<Rightarrow> ('c \<Rightarrow> 'c list) \<Rightarrow> query \<Rightarrow> 'c \<Rightarrow> bool" where
  "run_context_query_ext comparators get_parents q ctx =
     (if q_attrs q = [] then \<not> q_abs_path q
      else match comparators (q_abs_path q) (ctx # get_parents ctx) (q_attrs q))"

text \<open>The fields of a \<open>Context\<close> (context.h) the service uses.\<close>

datatype Context = Context
  (ctx_id: "byte list") (ctx_name: "byte list option") (ctx_exited: bool) (ctx_parent: "Context option")

text \<open>\<open>get_context_parent\<close>, iterated up to the top of the tree.\<close>

function context_parents :: "Context \<Rightarrow> Context list" where
  "context_parents ctx = (case ctx_parent ctx of None \<Rightarrow> [] | Some p \<Rightarrow> p # context_parents p)"
  by pat_completeness auto
termination
proof (relation "measure size", goal_cases)
  case (2 ctx p)
  then show ?case by (cases ctx) simp
qed simp

declare context_parents.simps [simp del]

definition run_context_query :: "Context Comparator list \<Rightarrow> query \<Rightarrow> Context \<Rightarrow> bool" where
  "run_context_query comparators q ctx = run_context_query_ext comparators context_parents q ctx"

definition context_query :: "Context Comparator list \<Rightarrow> Context \<Rightarrow> byte list option \<Rightarrow> bool" where
  "context_query comparators ctx q = run_context_query comparators (snd (parse_context_query q)) ctx"

definition cmp_id :: "byte list \<Rightarrow> Context \<Rightarrow> byte list \<Rightarrow> bool" where
  "cmp_id key ctx v \<longleftrightarrow> ctx_id ctx = v"

definition cmp_name :: "byte list \<Rightarrow> Context \<Rightarrow> byte list \<Rightarrow> bool" where
  "cmp_name key ctx v \<longleftrightarrow> (case ctx_name ctx of Some n \<Rightarrow> n = v | None \<Rightarrow> ctx_id ctx = v)"

definition ini_context_query_service :: "Context Comparator list \<Rightarrow> Context Comparator list" where
  "ini_context_query_service comparators =
     add_context_query_comparator (bytes_of ''Name'') cmp_name
       (add_context_query_comparator (bytes_of ''ID'') cmp_id comparators)"

section \<open>The commands\<close>

fun write_query_ids :: "'o out_class \<Rightarrow> (Context \<Rightarrow> bool) \<Rightarrow> nat \<Rightarrow> Context list \<Rightarrow> 'o \<Rightarrow> 'o" where
  "write_query_ids cl run cnt [] out = out"
| "write_query_ids cl run cnt (ctx # l) out =
     (if ctx_exited ctx then write_query_ids cl run cnt l out
      else if run ctx then
        write_query_ids cl run (Suc cnt) l
          (json_write_string cl (Some (ctx_id ctx)) (if cnt > 0 then write_stream cl 44 out else out))
      else write_query_ids cl run cnt l out)"

text \<open>\<open>set_errno\<close> yields the number a message is registered under (errors.c).\<close>

definition command_query ::
    "'o out_class \<Rightarrow> (string \<Rightarrow> int) \<Rightarrow> (int \<Rightarrow> ErrorReport option) \<Rightarrow> Context Comparator list \<Rightarrow> Context list
      \<Rightarrow> byte list \<Rightarrow> 'o \<Rightarrow> 'o reader" where
  "command_query cl set_errno get_error_report comparators context_root token out =
     bindR json_read_alloc_string (\<lambda>q.
     seqR (json_test_char MARKER_EOA) (seqR (json_test_char MARKER_EOM)
       (let (msg, qry) = parse_context_query q;
            err = (case msg of None \<Rightarrow> 0 | Some e \<Rightarrow> set_errno e)
        in case write_errno cl get_error_report err
               (write_stringz cl token (write_stringz cl (bytes_of ''R'') out)) of
             Inl e \<Rightarrow> raiseR e
           | Inr out1 \<Rightarrow>
               retR (seqW [write_stream cl 91,
                 if err = 0 then write_query_ids cl (run_context_query comparators qry) 0 context_root else id,
                 write_stream cl 93, write_stream cl 0, write_stream cl MARKER_EOM] out1))))"

fun write_attr_names :: "'o out_class \<Rightarrow> nat \<Rightarrow> 'c Comparator list \<Rightarrow> 'o \<Rightarrow> 'o" where
  "write_attr_names cl cnt [] out = out"
| "write_attr_names cl cnt (l # ls) out =
     write_attr_names cl (Suc cnt) ls
       (json_write_string cl (Some (cmp_attr_name l)) (if cnt > 0 then write_stream cl 44 out else out))"

definition command_get_attr_names ::
    "'o out_class \<Rightarrow> (int \<Rightarrow> ErrorReport option) \<Rightarrow> 'c Comparator list \<Rightarrow> byte list \<Rightarrow> 'o \<Rightarrow> 'o reader" where
  "command_get_attr_names cl get_error_report comparators token out =
     seqR (json_test_char MARKER_EOM)
       (case write_errno cl get_error_report 0
            (write_stringz cl token (write_stringz cl (bytes_of ''R'') out)) of
          Inl e \<Rightarrow> raiseR e
        | Inr out1 \<Rightarrow>
            retR (seqW [write_stream cl 91, write_attr_names cl 0 comparators,
              write_stream cl 93, write_stream cl 0, write_stream cl MARKER_EOM] out1))"

end
