(* ===== verification/Contextquery_Proofs.thy ===== *)
theory Contextquery_Proofs
  imports Contextquery
begin

text \<open>
  What a context query means: a declarative reading of the paths of contextquery.h, which the matcher
  decides; the text of a query, which the parser reads back; and the reply of the commands.
\<close>

section \<open>The paths a query describes\<close>

definition attribute_holds :: "'c Comparator list \<Rightarrow> 'c \<Rightarrow> attribute \<Rightarrow> bool" where
  "attribute_holds comparators ctx a \<longleftrightarrow>
     (case attr_name a of
        Some name \<Rightarrow> match_attribute comparators ctx name (attr_value a)
      | None \<Rightarrow> attr_value a = bytes_of ''*'' \<or> match_attribute comparators ctx (bytes_of ''Name'') (attr_value a))"

lemma match_attributes_iff:
  "match_attributes comparators ctx attr \<longleftrightarrow> (\<forall>a \<in> set attr. attribute_holds comparators ctx a)"
  by (induction attr) (auto simp: attribute_holds_def split: option.splits)

text \<open>
  A path of contexts, the context first and its ancestors behind it, is covered by parts of a query, last
  part first: each part but \<open>**\<close> takes one context, and \<open>**\<close> takes any number of them.
\<close>

inductive covers :: "'c Comparator list \<Rightarrow> attribute list list \<Rightarrow> 'c list \<Rightarrow> bool"
  for comparators where
  covers_any_last: "is_any_path p \<Longrightarrow> path \<noteq> [] \<Longrightarrow> covers comparators [p] path"
| covers_any: "is_any_path p \<Longrightarrow> covers comparators ps path \<Longrightarrow> covers comparators (p # ps) (skip @ path)"
| covers_last: "\<not> is_any_path p \<Longrightarrow> \<forall>a \<in> set p. attribute_holds comparators ctx a \<Longrightarrow> covers comparators [p] [ctx]"
| covers_part: "\<not> is_any_path p \<Longrightarrow> \<forall>a \<in> set p. attribute_holds comparators ctx a \<Longrightarrow>
    covers comparators ps path \<Longrightarrow> covers comparators (p # ps) (ctx # path)"

text \<open>A relative query covers some path that starts at the context, an absolute one the path to the root.\<close>

definition covered :: "'c Comparator list \<Rightarrow> bool \<Rightarrow> 'c list \<Rightarrow> attribute list list \<Rightarrow> bool" where
  "covered comparators absp chain ps \<longleftrightarrow>
     (\<exists>path rest. chain = path @ rest \<and> covers comparators ps path \<and> (absp \<longrightarrow> rest = []))"

inductive_cases covers_Cons_E: "covers comparators (p # ps) path"

lemma covers_parts: "covers comparators ps path \<Longrightarrow> ps \<noteq> []"
  by (induction rule: covers.induct) simp_all

lemma covers_path: "covers comparators ps path \<Longrightarrow> path \<noteq> []"
  by (induction rule: covers.induct) simp_all

lemma coveredE:
  assumes "covered comparators absp chain ps"
  obtains path rest where "chain = path @ rest" "covers comparators ps path" "absp \<longrightarrow> rest = []"
  using assms unfolding covered_def by (elim exE conjE) (rule that)

lemma coveredI: "covers comparators ps path \<Longrightarrow> (absp \<longrightarrow> rest = []) \<Longrightarrow> covered comparators absp (path @ rest) ps"
  unfolding covered_def by blast

lemma covered_Nil [simp]: "\<not> covered comparators absp [] ps" "\<not> covered comparators absp chain []"
  by (auto simp: covered_def dest: covers_path covers_parts)

lemma match_upwards_iff: "match_upwards m chain \<longleftrightarrow> (\<exists>skip path. chain = skip @ path \<and> path \<noteq> [] \<and> m path)"
proof (induction chain)
  case (Cons c chain)
  have "(\<exists>skip path. c # chain = skip @ path \<and> path \<noteq> [] \<and> m path) \<longleftrightarrow>
      m (c # chain) \<or> (\<exists>skip path. chain = skip @ path \<and> path \<noteq> [] \<and> m path)"
  proof
    assume "\<exists>skip path. c # chain = skip @ path \<and> path \<noteq> [] \<and> m path"
    then obtain skip path where "c # chain = skip @ path" "path \<noteq> []" "m path" by blast
    then show "m (c # chain) \<or> (\<exists>skip path. chain = skip @ path \<and> path \<noteq> [] \<and> m path)"
      by (cases skip) auto
  next
    assume "m (c # chain) \<or> (\<exists>skip path. chain = skip @ path \<and> path \<noteq> [] \<and> m path)"
    then show "\<exists>skip path. c # chain = skip @ path \<and> path \<noteq> [] \<and> m path"
    proof
      assume "\<exists>skip path. chain = skip @ path \<and> path \<noteq> [] \<and> m path"
      then obtain skip path where "chain = skip @ path" "path \<noteq> []" "m path" by blast
      then show ?thesis by (intro exI [of _ "c # skip"] exI [of _ path]) simp
    qed (intro exI [of _ "[]"] exI [of _ "c # chain"], simp)
  qed
  with Cons show ?case by simp
qed simp

lemma covered_any:
  assumes "is_any_path p" "ps \<noteq> []"
  shows "covered comparators absp chain (p # ps) \<longleftrightarrow>
    (\<exists>skip path. chain = skip @ path \<and> covered comparators absp path ps)"
proof
  assume "covered comparators absp chain (p # ps)"
  then obtain path rest where c: "chain = path @ rest" "covers comparators (p # ps) path" "absp \<longrightarrow> rest = []"
    by (rule coveredE)
  from c(2) obtain skip path' where "path = skip @ path'" "covers comparators ps path'"
    using assms by (auto elim: covers_Cons_E)
  with c coveredI [of comparators ps path' absp rest] show "\<exists>skip path. chain = skip @ path \<and> covered comparators absp path ps"
    by (intro exI [of _ skip] exI [of _ "path' @ rest"]) simp
next
  assume "\<exists>skip path. chain = skip @ path \<and> covered comparators absp path ps"
  then obtain skip path rest where "chain = skip @ path @ rest" "covers comparators ps path" "absp \<longrightarrow> rest = []"
    by (auto elim!: coveredE)
  then show "covered comparators absp chain (p # ps)"
    using coveredI [OF covers_any [OF assms(1), of comparators ps path skip], of absp rest] by simp
qed

lemma covered_any_last:
  assumes "is_any_path p"
  shows "covered comparators absp chain [p] \<longleftrightarrow> chain \<noteq> []"
  using coveredI [OF covers_any_last [OF assms], of chain absp "[]" comparators] by auto

lemma covers_part_iff:
  assumes "\<not> is_any_path p"
  shows "covers comparators [p] path \<longleftrightarrow> (\<exists>c. path = [c] \<and> match_attributes comparators c p)"
    and "ps \<noteq> [] \<Longrightarrow> covers comparators (p # ps) path \<longleftrightarrow>
      (\<exists>c path'. path = c # path' \<and> match_attributes comparators c p \<and> covers comparators ps path')"
  using assms by (auto simp: match_attributes_iff intro: covers_last covers_part dest: covers_parts elim!: covers_Cons_E)

lemma covered_part:
  assumes "\<not> is_any_path p"
  shows "covered comparators absp (ctx # chain) [p] \<longleftrightarrow> match_attributes comparators ctx p \<and> \<not> (absp \<and> chain \<noteq> [])"
    and "ps \<noteq> [] \<Longrightarrow> covered comparators absp (ctx # chain) (p # ps) \<longleftrightarrow>
      match_attributes comparators ctx p \<and> covered comparators absp chain ps"
proof -
  have "(ctx # chain = path @ rest \<and> (\<exists>c. path = [c] \<and> match_attributes comparators c p) \<and> (absp \<longrightarrow> rest = [])) \<longleftrightarrow>
      path = [ctx] \<and> rest = chain \<and> match_attributes comparators ctx p \<and> (absp \<longrightarrow> chain = [])" for path rest
    by auto
  then show "covered comparators absp (ctx # chain) [p] \<longleftrightarrow> match_attributes comparators ctx p \<and> \<not> (absp \<and> chain \<noteq> [])"
    unfolding covered_def covers_part_iff(1) [OF assms] by simp
  assume "ps \<noteq> []"
  note c = covers_part_iff(2) [OF assms this]
  show "covered comparators absp (ctx # chain) (p # ps) \<longleftrightarrow>
      match_attributes comparators ctx p \<and> covered comparators absp chain ps"
  proof
    assume "covered comparators absp (ctx # chain) (p # ps)"
    then obtain path rest where "ctx # chain = path @ rest" "covers comparators (p # ps) path" "absp \<longrightarrow> rest = []"
      by (rule coveredE)
    then show "match_attributes comparators ctx p \<and> covered comparators absp chain ps"
      using coveredI [of comparators ps "tl path" absp rest] by (auto simp: c)
  next
    assume "match_attributes comparators ctx p \<and> covered comparators absp chain ps"
    then show "covered comparators absp (ctx # chain) (p # ps)"
      using coveredI [of comparators "p # ps" "ctx # _"] by (auto elim!: coveredE simp: c)
  qed
qed

lemma match_iff: "match comparators absp chain ps \<longleftrightarrow> covered comparators absp chain ps"
proof (induction ps arbitrary: chain)
  case Nil
  show ?case by (cases chain) simp_all
next
  case (Cons p ps)
  show ?case
  proof (cases chain)
    case (Cons ctx parents)
    consider "is_any_path p" "ps = []" | "is_any_path p" "ps \<noteq> []" | "\<not> is_any_path p" "ps = []"
      | "\<not> is_any_path p" "ps \<noteq> []" by blast
    then show ?thesis
    proof cases
      case 2
      have "match comparators absp chain (p # ps) \<longleftrightarrow>
          (\<exists>skip path. chain = skip @ path \<and> path \<noteq> [] \<and> covered comparators absp path ps)"
        using 2 Cons Cons.IH match_upwards_iff [of "\<lambda>c. match comparators absp c ps" chain] by simp
      then show ?thesis by (subst covered_any [OF 2]) (metis covered_Nil(1))
    next
      case 4
      then show ?thesis using Cons.IH [of parents] Cons by (auto simp: covered_part(2))
    qed (use Cons in \<open>auto simp: covered_any_last covered_part(1)\<close>)
  qed simp
qed

section \<open>The text of a query\<close>

definition quote_char :: "byte \<Rightarrow> byte list" where
  "quote_char c = (if c = 34 \<or> c = 92 then [92, c] else [c])"

definition quoted :: "byte list \<Rightarrow> byte list" where
  "quoted s = 34 # concat (map quote_char s) @ [34]"

definition attribute_text :: "attribute \<Rightarrow> byte list" where
  "attribute_text a =
     (case attr_name a of
        None \<Rightarrow> quoted (attr_value a)
      | Some n \<Rightarrow> quoted n @ ch (CHR ''='') # quoted (attr_value a))"

fun part_text :: "attribute list \<Rightarrow> byte list" where
  "part_text [] = []"
| "part_text [a] = attribute_text a"
| "part_text (a # as) = attribute_text a @ ch (CHR '','') # part_text as"

fun parts_text :: "attribute list list \<Rightarrow> byte list" where
  "parts_text [] = []"
| "parts_text [p] = part_text p"
| "parts_text (p # ps) = part_text p @ ch (CHR ''/'') # parts_text ps"

definition query_text :: "query \<Rightarrow> byte list" where
  "query_text q = (if q_abs_path q then [ch (CHR ''/'')] else []) @ parts_text (rev (map rev (q_attrs q)))"

definition attribute_ok :: "attribute \<Rightarrow> bool" where
  "attribute_ok a \<longleftrightarrow> 0 \<notin> set (attr_value a) \<and> (case attr_name a of None \<Rightarrow> True | Some n \<Rightarrow> 0 \<notin> set n)"

definition query_ok :: "query \<Rightarrow> bool" where
  "query_ok q \<longleftrightarrow> q_attrs q \<noteq> [] \<and> (\<forall>p \<in> set (q_attrs q). p \<noteq> [] \<and> (\<forall>a \<in> set p. attribute_ok a))"

lemma parse_quoted_loop_text:
  "0 \<notin> set s \<Longrightarrow> parse_quoted_loop buf (concat (map quote_char s) @ 34 # rest) = Inr (buf @ s, rest)"
  by (induction s arbitrary: buf) (auto simp: quote_char_def)

lemma parse_quoted_string_text:
  "0 \<notin> set s \<Longrightarrow> parse_quoted_string (quoted s @ rest) = Inr (s, rest)"
  by (simp add: parse_quoted_string_def quoted_def parse_quoted_loop_text)

lemma cur_quoted [simp]: "cur (quoted s @ rest) = 34" "cur (quoted s) = 34"
  by (simp_all add: quoted_def cur_def)

lemma cur_attribute_text [simp]: "cur (attribute_text a @ rest) = 34"
  by (simp add: attribute_text_def split: option.splits)

lemma is_dec_34 [simp]: "\<not> is_dec 34"
  by (simp add: is_dec_def)

lemma cur_Cons [simp]: "cur (c # q) = c" "cur [] = 0"
  by (simp_all add: cur_def)

lemma parse_attribute_text:
  assumes "attribute_ok a" "cur rest \<noteq> ch (CHR ''='')"
  shows "parse_attribute (attribute_text a @ rest) = Inr (a, rest)"
  using assms
  by (cases a) (auto simp: parse_attribute_def parse_property_def parse_string_def parse_value_def missing_def
      attribute_text_def attribute_ok_def parse_quoted_string_text split: option.splits)

lemma parse_part_text:
  assumes "\<forall>a \<in> set p. attribute_ok a" "p \<noteq> []" "rest = [] \<or> cur rest = ch (CHR ''/'')"
  shows "parse_parts attrs attr (part_text p @ rest) =
    (if rest = [] then (None, (rev p @ attr) # attrs)
     else if missing (tl rest)
     then (Some ''Invalid context query syntax: missing context name, property or wildcard'', (rev p @ attr) # attrs)
     else parse_parts ((rev p @ attr) # attrs) [] (tl rest))"
  using assms
proof (induction p arbitrary: attr rule: part_text.induct)
  case (2 a)
  then have "parse_attribute (attribute_text a @ rest) = Inr (a, rest)"
    by (intro parse_attribute_text) auto
  with 2 show ?case
    by (subst parse_parts.simps) (auto simp: parse_parts.simps [of attrs _ "[]"])
next
  case (3 a b as)
  have "parse_attribute (attribute_text a @ ch (CHR '','') # part_text (b # as) @ rest) =
      Inr (a, ch (CHR '','') # part_text (b # as) @ rest)"
    using 3 by (intro parse_attribute_text) auto
  moreover have "\<not> missing (part_text (b # as) @ rest)"
    by (cases as) (simp_all add: missing_def)
  ultimately show ?case
    using 3 by (subst parse_parts.simps) simp
qed simp

lemma cur_parts_text: "ps \<noteq> [] \<Longrightarrow> \<forall>p \<in> set ps. p \<noteq> [] \<Longrightarrow> cur (parts_text ps) = 34"
  using cur_attribute_text [where rest = "[]"]
  by (cases ps rule: parts_text.cases; cases "hd ps" rule: part_text.cases) auto

lemma parse_parts_text:
  assumes "ps \<noteq> []" "\<forall>p \<in> set ps. p \<noteq> [] \<and> (\<forall>a \<in> set p. attribute_ok a)"
  shows "parse_parts attrs [] (parts_text ps) = (None, rev (map rev ps) @ attrs)"
  using assms
proof (induction ps arbitrary: attrs rule: parts_text.induct)
  case (2 p)
  then show ?case using parse_part_text [of p "[]" attrs "[]"] by simp
next
  case (3 p p' ps)
  have "\<not> missing (parts_text (p' # ps))"
    using 3 cur_parts_text [of "p' # ps"] by (simp add: missing_def)
  with 3 show ?case using parse_part_text [of p "ch (CHR ''/'') # parts_text (p' # ps)" attrs "[]"] by simp
qed simp

section \<open>The replies\<close>

text \<open>The contexts a query reports, and a JSON array of strings.\<close>

definition reported :: "Context Comparator list \<Rightarrow> query \<Rightarrow> Context list \<Rightarrow> byte list list" where
  "reported comparators q l = map ctx_id (filter (\<lambda>c. \<not> ctx_exited c \<and> run_context_query comparators q c) l)"

definition string_array :: "byte list list \<Rightarrow> int list" where
  "string_array ss = [91] @ join (map json_string ss) @ [93]"

definition separated :: "nat \<Rightarrow> int list list \<Rightarrow> int list" where
  "separated cnt xs = (if cnt = 0 then join xs else concat (map (\<lambda>x. 44 # x) xs))"

lemma separated_Cons: "separated cnt (x # xs) = (if cnt > 0 then 44 # x else x) @ separated (Suc cnt) xs"
  by (simp add: separated_def join_Cons)

lemma separated_Nil [simp]: "separated cnt [] = []"
  by (simp add: separated_def)

context output_stream begin

lemma writes_separated:
  "writes (\<lambda>out. json_write_string cl (Some s) (if cnt > 0 then write_stream cl 44 out else out))
     (if cnt > 0 then 44 # json_string s else json_string s)"
  using writes_then [OF writes_int [of 44] writes_json_string [of s]] writes_json_string [of s]
  by (cases "cnt > 0") simp_all

lemma writes_query_ids:
  "writes (write_query_ids cl run cnt l)
     (separated cnt (map (\<lambda>c. json_string (ctx_id c)) (filter (\<lambda>c. \<not> ctx_exited c \<and> run c) l)))"
proof (induction l arbitrary: cnt)
  case Nil
  show ?case by (simp add: writes_def)
next
  case (Cons c l)
  from writes_then [OF writes_separated [of "ctx_id c" cnt] Cons.IH [of "Suc cnt"]] Cons.IH [of cnt]
  show ?case by (cases "ctx_exited c"; cases "run c") (simp_all add: separated_Cons)
qed

lemma writes_attr_names:
  "writes (write_attr_names cl cnt l) (separated cnt (map (\<lambda>c. json_string (cmp_attr_name c)) l))"
proof (induction l arbitrary: cnt)
  case Nil
  show ?case by (simp add: writes_def)
next
  case (Cons c l)
  from writes_then [OF writes_separated [of "cmp_attr_name c" cnt] Cons.IH [of "Suc cnt"]]
  show ?case by (simp add: separated_Cons)
qed

lemma writes_reply_head:
  "writes (\<lambda>out. write_stringz cl token (write_stringz cl (bytes_of ''R'') out)) (82 # 0 # items_of token @ [0])"
  using writes_then [OF writes_stringz [of "bytes_of ''R''"] writes_stringz [of token]]
  by (simp add: bytes_of_def)

lemma writes_reply_array:
  assumes "writes w (join (map json_string ss))" "ok MARKER_EOM"
  shows "writes (seqW [write_stream cl 91, w, write_stream cl 93, write_stream cl 0, write_stream cl MARKER_EOM])
    (string_array ss @ [0, MARKER_EOM])"
  by (rule writes_seqW1 [OF writes_int writes_seqW1 [OF assms(1) writes_seqW1 [OF writes_int
        writes_seqW1 [OF writes_int writes_Cons_last [OF writes_write_stream [OF assms(2)]]]]]])
    (simp_all add: string_array_def)

end

lemma item_ok_EOM: "MARKER_EOM < 256"
  by simp

lemma writes_item: "item.writes w xs \<Longrightarrow> is_items (w out) = is_items out @ xs"
  using item.writesD [of w xs out] by simp

lemma query_ids_reply:
  "is_items (seqW [write_stream item_class 91, write_query_ids item_class (run_context_query comparators q) 0 l,
     write_stream item_class 93, write_stream item_class 0, write_stream item_class MARKER_EOM] out) =
   is_items out @ string_array (reported comparators q l) @ [0, MARKER_EOM]"
  using writes_item [OF item.writes_reply_array [OF _ item_ok_EOM]]
    item.writes_query_ids [of "run_context_query comparators q" 0 l]
  by (simp add: reported_def separated_def comp_def)

section \<open>Properties\<close>


text \<open>C32: parsing the text of a query, all its strings quoted, gives the query back, for any strings of non-zero
  bytes, any number of properties in a part and any number of parts.\<close>

theorem context_query_roundtrip:
  assumes "query_ok q"
  shows "parse_context_query (Some (query_text q)) = (None, q)"
proof -
  let ?ps = "rev (map rev (q_attrs q))"
  have ps: "?ps \<noteq> []" "\<forall>p \<in> set ?ps. p \<noteq> [] \<and> (\<forall>a \<in> set p. attribute_ok a)"
    using assms by (auto simp: query_ok_def)
  then have "cur (parts_text ?ps) = 34" "parse_parts [] [] (parts_text ?ps) = (None, q_attrs q)"
    using cur_parts_text [of ?ps] parse_parts_text [OF ps, of "[]"] by (auto simp: rev_map)
  then show ?thesis
    by (cases q) (auto simp: parse_context_query_def query_text_def missing_def Let_def)
qed

theorem context_query_roundtrip_witness:
  "parse_context_query (Some (bytes_of ''/'' @ [34] @ bytes_of ''server'' @ [34] @ bytes_of ''/'' @ [34] @ bytes_of ''**'' @ [34])) =
     (None, \<lparr>q_attrs = [[\<lparr>attr_name = None, attr_value = bytes_of ''**''\<rparr>],
       [\<lparr>attr_name = None, attr_value = bytes_of ''server''\<rparr>]], q_abs_path = True\<rparr>)"
proof -
  let ?q = "\<lparr>q_attrs = [[\<lparr>attr_name = None, attr_value = bytes_of ''**''\<rparr>],
       [\<lparr>attr_name = None, attr_value = bytes_of ''server''\<rparr>]], q_abs_path = True\<rparr>"
  have "query_ok ?q" by (simp add: query_ok_def attribute_ok_def bytes_of_def)
  from context_query_roundtrip [OF this] show ?thesis
    by (simp add: query_text_def attribute_text_def quoted_def quote_char_def bytes_of_def)
qed

text \<open>context_query does not look at the result of the parser: of the text "=", which the parser refuses, it says
  that it selects any context.\<close>

theorem context_query_ignores_error:
  "fst (parse_context_query (Some (bytes_of ''=''))) \<noteq> None \<and> context_query comparators ctx (Some (bytes_of ''=''))"
  by (simp add: parse_context_query_def bytes_of_def missing_def context_query_def run_context_query_def
      run_context_query_ext_def)

text \<open>the reply to the query command: the token, no error, and the array of the IDs of the contexts that have not
  exited and are selected by the query, in the order of the list of contexts; the whole message is consumed.\<close>

theorem command_query_reply:
  assumes "parse_context_query (Some s) = (None, q)"
  shows "\<exists>out. command_query item_class set_errno get_error_report comparators context_root token
      \<lparr>is_zero_copy = zc, is_items = []\<rparr> (json_string s @ MARKER_EOA # MARKER_EOM # rest) = Inr (out, rest) \<and>
    is_items out = 82 # 0 # items_of token @ 0 # 0 # string_array (reported comparators q context_root) @ [0, MARKER_EOM]"
proof -
  let ?out = "\<lparr>is_zero_copy = zc, is_items = []\<rparr> :: item_stream"
  let ?head = "write_stringz item_class token (write_stringz item_class (bytes_of ''R'') ?out)"
  have head: "is_items (write_stream item_class 0 ?head) = 82 # 0 # items_of token @ [0, 0]"
    using writes_item [OF item.writes_reply_head, of token ?out] writes_item [OF item.writes_int [of 0], of ?head]
    by simp
  have "command_query item_class set_errno get_error_report comparators context_root token ?out
      (json_string s @ MARKER_EOA # MARKER_EOM # rest) =
    Inr (seqW [write_stream item_class 91, write_query_ids item_class (run_context_query comparators q) 0 context_root,
      write_stream item_class 93, write_stream item_class 0, write_stream item_class MARKER_EOM]
      (write_stream item_class 0 ?head), rest)"
    using assms
    by (simp add: command_query_def reader_simps json_read_alloc_string_text json_test_char_def check_char_def read_stream_def
        isspace_def write_errno_def del: seqW.simps)
  with query_ids_reply [of comparators q context_root "write_stream item_class 0 ?head"] head
  show ?thesis by (simp del: seqW.simps)
qed

text \<open>The list of contexts of the witness: a process, its thread and a process that has exited.\<close>

definition example_contexts :: "Context list" where
  "example_contexts =
     (let p = Context (bytes_of ''P1'') (Some (bytes_of ''httpd'')) False None
      in [p, Context (bytes_of ''P1.1'') None False (Some p), Context (bytes_of ''P2'') (Some (bytes_of ''httpd'')) True None])"

theorem command_query_reply_witness:
  "\<exists>out. command_query item_class (\<lambda>_. 1) (\<lambda>_. None) (ini_context_query_service []) example_contexts (bytes_of ''7'')
      \<lparr>is_zero_copy = False, is_items = []\<rparr> (json_string (bytes_of ''httpd'') @ [MARKER_EOA, MARKER_EOM]) = Inr (out, []) \<and>
    is_items out = 82 # 0 # items_of (bytes_of ''7'') @ 0 # 0 # string_array [bytes_of ''P1''] @ [0, MARKER_EOM]"
proof -
  let ?q = "\<lparr>q_attrs = [[\<lparr>attr_name = None, attr_value = bytes_of ''httpd''\<rparr>]], q_abs_path = False\<rparr>"
  have "parse_context_query (Some (bytes_of ''httpd'')) = (None, ?q)"
    by (simp add: parse_context_query_def bytes_of_def missing_def parse_parts.simps parse_attribute_def
        parse_property_def parse_string_def parse_symbol_def is_symbol_char_def is_dec_def)
  moreover have "reported (ini_context_query_service []) ?q example_contexts = [bytes_of ''P1'']"
    by (simp add: reported_def example_contexts_def Let_def run_context_query_def run_context_query_ext_def
        context_parents.simps is_any_path_def match_attribute_def ini_context_query_service_def
        add_context_query_comparator_def strcasecmp_eq_def to_lower_def cmp_name_def bytes_of_def)
  ultimately show ?thesis
    using command_query_reply [of "bytes_of ''httpd''" ?q "\<lambda>_. 1" "\<lambda>_. None" "ini_context_query_service []"
        example_contexts "bytes_of ''7''" False "[]"] by simp
qed

text \<open>the reply to the getAttrNames command: the token, no error, and the array of the names of the registered
  comparators, the last one registered first.\<close>

theorem command_get_attr_names_reply:
  "\<exists>out. command_get_attr_names item_class get_error_report comparators token
      \<lparr>is_zero_copy = zc, is_items = []\<rparr> (MARKER_EOM # rest) = Inr (out, rest) \<and>
    is_items out = 82 # 0 # items_of token @ 0 # 0 # string_array (map cmp_attr_name comparators) @ [0, MARKER_EOM]"
proof -
  let ?out = "\<lparr>is_zero_copy = zc, is_items = []\<rparr> :: item_stream"
  let ?head = "write_stringz item_class token (write_stringz item_class (bytes_of ''R'') ?out)"
  let ?w = "seqW [write_stream item_class 91, write_attr_names item_class 0 comparators,
      write_stream item_class 93, write_stream item_class 0, write_stream item_class MARKER_EOM]"
  have "is_items (write_stream item_class 0 ?head) = 82 # 0 # items_of token @ [0, 0]"
    using writes_item [OF item.writes_reply_head, of token ?out] writes_item [OF item.writes_int [of 0], of ?head]
    by simp
  moreover have "is_items (?w out) = is_items out @ string_array (map cmp_attr_name comparators) @ [0, MARKER_EOM]" for out
    using writes_item [OF item.writes_reply_array [OF _ item_ok_EOM]] item.writes_attr_names [of 0 comparators]
    by (simp add: separated_def comp_def del: seqW.simps)
  moreover have "command_get_attr_names item_class get_error_report comparators token ?out (MARKER_EOM # rest) =
      Inr (?w (write_stream item_class 0 ?head), rest)"
    by (simp add: command_get_attr_names_def reader_simps json_test_char_def check_char_def read_stream_def
        isspace_def write_errno_def del: seqW.simps)
  ultimately show ?thesis by (simp del: seqW.simps)
qed

end
