(* ===== verification/Errors.thy ===== *)
theory Errors
  imports Json_Object
begin

text \<open>
  framework/errors.c: the error numbers of the agent. A message, an error of the resolver or an error
  report from a remote peer gets a number of its own, a slot of the ring \<open>msgs\<close>; the reports are
  counted objects, which the slots and the clients share.

  The reports live in a store from addresses to \<open>ReportBuffer\<close>; an access to an address that is
  not there is a use after free, \<open>Undefined\<close>. The functions run on the dispatch thread, so the asserts
  that say so are left out. What errors.c takes from the C library is the record \<open>err_env\<close>.
\<close>

section \<open>Numbers\<close>

definition STD_ERR_BASE :: int where "STD_ERR_BASE = 0x20000"
definition ERR_MESSAGE_MIN :: int where "ERR_MESSAGE_MIN = STD_ERR_BASE + 100"
definition ERR_MESSAGE_MAX :: int where "ERR_MESSAGE_MAX = STD_ERR_BASE + 199"
definition MESSAGE_CNT :: nat where "MESSAGE_CNT = 100"

text \<open>The number of an error of the source, by its name.\<close>

fun error_no :: "error \<Rightarrow> int" where
  "error_no ERR_OTHER = STD_ERR_BASE + 1"
| "error_no ERR_JSON_SYNTAX = STD_ERR_BASE + 2"
| "error_no ERR_PROTOCOL = STD_ERR_BASE + 3"
| "error_no ERR_BUFFER_OVERFLOW = STD_ERR_BASE + 4"
| "error_no ERR_CHANNEL_CLOSED = STD_ERR_BASE + 5"
| "error_no ERR_COMMAND_CANCELLED = STD_ERR_BASE + 6"
| "error_no ERR_BASE64 = STD_ERR_BASE + 8"
| "error_no ERR_EOF = STD_ERR_BASE + 9"
| "error_no ERR_INV_CONTEXT = STD_ERR_BASE + 16"
| "error_no ERR_INV_ADDRESS = STD_ERR_BASE + 17"
| "error_no ERR_INV_DWARF = STD_ERR_BASE + 21"
| "error_no ERR_UNSUPPORTED = STD_ERR_BASE + 23"
| "error_no ERR_INV_COMMAND = STD_ERR_BASE + 25"
| "error_no ERR_INV_CONT_OBJ = STD_ERR_BASE + 29"
| "error_no (ERRNO n) = n"

text \<open>The messages of \<open>errno_to_str\<close>, by the offset of the number from \<open>STD_ERR_BASE\<close>.\<close>

definition std_messages :: "(int \<times> string) list" where
  "std_messages = [
     (1, ''Unspecified failure''), (2, ''JSON syntax error''), (3, ''Protocol format error''),
     (4, ''Buffer overflow''), (5, ''Channel closed''), (6, ''Command canceled''), (7, ''Unknown peer''),
     (8, ''Invalid BASE64 string''), (9, ''End of file''), (10, ''Already stopped''), (11, ''Already exited''),
     (12, ''Already running''), (13, ''Already attached''), (14, ''Execution context is running''),
     (15, ''Invalid data size''), (16, ''Invalid context''), (17, ''Invalid address''), (18, ''Invalid expression''),
     (19, ''Format is not supported''), (20, ''Invalid number''), (21, ''Error reading DWARF data''),
     (22, ''Symbol not found''), (23, ''Unsupported command''), (24, ''Invalid data type''),
     (25, ''Command is not recognized''), (26, ''Invalid transport name''), (27, ''Invalid data cache state''),
     (28, ''Context is not active''), (29, ''Invalid address of containing object'')]"

section \<open>State\<close>

datatype msg_source = SRC_NONE | SRC_GAI | SRC_MESSAGE | SRC_REPORT

record ReportBuffer =
  rb_pub :: ErrorReport
  rb_posix_code :: int
  rb_refs :: int
  rb_gets :: int

record ErrorMessage =
  em_source :: msg_source
  em_error :: int
  em_text :: "byte list option"
  em_report :: "nat option"

record errors =
  es_msgs :: "ErrorMessage list"
  es_msgs_pos :: nat
  es_reports :: "nat \<rightharpoonup> ReportBuffer"
  es_next :: nat
  es_errno :: int

record err_env =
  env_strerror :: "int \<Rightarrow> byte list option"
  env_gai_strerror :: "int \<Rightarrow> byte list"
  env_format_number :: "byte list \<Rightarrow> byte list \<Rightarrow> byte list option"
  env_clock :: "u64 option"

text \<open>\<open>static ErrorMessage msgs[MESSAGE_CNT]\<close> is zero at the start.\<close>

definition errors_init :: errors where
  "errors_init = \<lparr>es_msgs = replicate MESSAGE_CNT \<lparr>em_source = SRC_NONE, em_error = 0, em_text = None, em_report = None\<rparr>,
     es_msgs_pos = 0, es_reports = Map.empty, es_next = 0, es_errno = 0\<rparr>"

type_synonym 'a err_op = "(errors, 'a) comp"

definition modE :: "(errors \<Rightarrow> errors) \<Rightarrow> unit err_op" where
  "modE f = (\<lambda>s. Inr ((), f s))"

text \<open>A pointer to a report is followed.\<close>

definition the_report :: "nat \<Rightarrow> ReportBuffer err_op" where
  "the_report a = (\<lambda>s. case es_reports s a of None \<Rightarrow> Inl Undefined | Some r \<Rightarrow> Inr (r, s))"

definition put_report :: "nat \<Rightarrow> ReportBuffer \<Rightarrow> unit err_op" where
  "put_report a r = modE (\<lambda>s. s\<lparr>es_reports := (es_reports s)(a \<mapsto> r)\<rparr>)"

definition free_report :: "nat \<Rightarrow> unit err_op" where
  "free_report a = modE (\<lambda>s. s\<lparr>es_reports := (es_reports s)(a := None)\<rparr>)"

definition alloc_report :: "ReportBuffer \<Rightarrow> nat err_op" where
  "alloc_report r = (\<lambda>s. Inr (es_next s, s\<lparr>es_reports := (es_reports s)(es_next s \<mapsto> r), es_next := Suc (es_next s)\<rparr>))"

definition set_msg :: "nat \<Rightarrow> (ErrorMessage \<Rightarrow> ErrorMessage) \<Rightarrow> unit err_op" where
  "set_msg i f = modE (\<lambda>s. s\<lparr>es_msgs := (es_msgs s)[i := f (es_msgs s ! i)]\<rparr>)"

section \<open>Slots and reports\<close>

definition release_report :: "nat option \<Rightarrow> unit err_op" where
  "release_report report =
     (case report of
        None \<Rightarrow> retR ()
      | Some a \<Rightarrow>
          bindR (the_report a) (\<lambda>r.
            if \<not> rb_refs r > rb_gets r then raiseR Assertion
            else if rb_refs r - 1 = 0 then free_report a
            else put_report a (r\<lparr>rb_refs := rb_refs r - 1\<rparr>)))"

definition alloc_msg :: "msg_source \<Rightarrow> nat err_op" where
  "alloc_msg source =
     (\<lambda>s. let m = es_msgs_pos s; pos = Suc m in
       seqR (modE (\<lambda>s. s\<lparr>es_errno := ERR_MESSAGE_MIN + int m, es_msgs_pos := (if pos \<ge> MESSAGE_CNT then 0 else pos)\<rparr>))
        (seqR (release_report (em_report (es_msgs s ! m)))
          (seqR (set_msg m (\<lambda>_. \<lparr>em_source = source, em_error = 0, em_text = None, em_report = None\<rparr>))
            (retR m))) s)"

definition is_msg_no :: "int \<Rightarrow> bool" where
  "is_msg_no no \<longleftrightarrow> no \<ge> ERR_MESSAGE_MIN \<and> no \<le> ERR_MESSAGE_MAX"

definition msg_of :: "errors \<Rightarrow> int \<Rightarrow> ErrorMessage" where
  "msg_of s no = es_msgs s ! nat (no - ERR_MESSAGE_MIN)"

text \<open>The loop of \<open>get_error_code\<close> may go round for ever: then the value is \<open>None\<close>.\<close>

partial_function (option) get_error_code :: "errors \<Rightarrow> int \<Rightarrow> (exn + int) option" where
  "get_error_code s no =
     (if is_msg_no no then
        (let m = msg_of s no in
         if em_source m = SRC_REPORT \<or> em_source m = SRC_MESSAGE then
           (case em_report m of
              None \<Rightarrow> get_error_code s (em_error m)
            | Some a \<Rightarrow>
                (case es_reports s a of
                   None \<Rightarrow> Some (Inl Undefined)
                 | Some r \<Rightarrow> if rb_posix_code r \<noteq> 0 then Some (Inr (rb_posix_code r)) else get_error_code s (em_error m)))
         else Some (Inr (error_no ERR_OTHER)))
      else Some (Inr no))"

section \<open>Texts\<close>

text \<open>
  \<open>append_format_parameter\<close>: a parameter is JSON text. A string is decoded, up to its first zero;
  a parameter of the type number is converted by the C library; anything else, and what cannot be decoded,
  is copied.
\<close>

definition c_string :: "byte list \<Rightarrow> byte list" where
  "c_string bs = takeWhile (\<lambda>b. b \<noteq> 0) bs"

definition append_format_parameter :: "err_env \<Rightarrow> byte list \<Rightarrow> byte list \<Rightarrow> byte list \<Rightarrow> exn + byte list" where
  "append_format_parameter env typ style param =
     (if param \<noteq> [] \<and> hd param = 34 then
        (case json_read_alloc_string (items_of param) of
           Inr (Some x, _) \<Rightarrow> Inr (c_string x)
         | Inr (None, _) \<Rightarrow> Inr []
         | Inl (Exception _) \<Rightarrow> Inr param
         | Inl (Str_exception _ _) \<Rightarrow> Inr param
         | Inl e \<Rightarrow> Inl e)
      else if typ = bytes_of ''number'' then
        (case env_format_number env style param of Some t \<Rightarrow> Inr t | None \<Rightarrow> Inr param)
      else Inr param)"

definition INT_MAX :: int where "INT_MAX = 2147483647"

definition fmt_digit :: "byte \<Rightarrow> bool" where
  "fmt_digit c \<longleftrightarrow> of_char (CHR ''0'') \<le> c \<and> c \<le> of_char (CHR ''9'')"

definition fmt_letter :: "byte \<Rightarrow> bool" where
  "fmt_letter c \<longleftrightarrow> of_char (CHR ''a'') \<le> c \<and> c \<le> of_char (CHR ''z'')"

text \<open>The number behind an opening brace; an \<open>int\<close> that overflows is undefined.\<close>

fun fmt_index :: "int \<Rightarrow> byte list \<Rightarrow> exn + int \<times> byte list" where
  "fmt_index index [] = Inr (index, [])"
| "fmt_index index (c # fmt) =
     (if fmt_digit c then
        (if index * 10 + (uint c - ord (CHR ''0'')) > INT_MAX then Inl Undefined
         else fmt_index (index * 10 + (uint c - ord (CHR ''0''))) fmt)
      else Inr (index, c # fmt))"

text \<open>A word of at most 15 letters after a comma; what is longer is cut.\<close>

definition fmt_word :: "byte list \<Rightarrow> byte list \<times> byte list" where
  "fmt_word fmt = (take 15 (takeWhile fmt_letter fmt), dropWhile fmt_letter fmt)"

definition fmt_type_style :: "byte list \<Rightarrow> byte list \<times> byte list \<times> byte list" where
  "fmt_type_style fmt =
     (case fmt of
        [] \<Rightarrow> ([], [], [])
      | c # fmt1 \<Rightarrow>
          if c = of_char (CHR '','') then
            (let (typ, fmt2) = fmt_word fmt1 in
             case fmt2 of
               [] \<Rightarrow> (typ, [], [])
             | d # fmt3 \<Rightarrow>
                 if d = of_char (CHR '','') then (let (style, fmt4) = fmt_word fmt3 in (typ, style, fmt4))
                 else (typ, [], fmt2))
          else ([], [], fmt))"

definition skip_brace :: "byte list \<Rightarrow> byte list" where
  "skip_brace fmt = tl (dropWhile (\<lambda>c. c \<noteq> of_char (CHR ''}'')) fmt)"

lemma fmt_index_length: "fmt_index i fmt = Inr (index, fmt1) \<Longrightarrow> length fmt1 \<le> length fmt"
  by (induction i fmt rule: fmt_index.induct) (auto split: if_splits)

lemma fmt_word_length: "fmt_word fmt = (w, fmt1) \<Longrightarrow> length fmt1 \<le> length fmt"
  by (auto simp: fmt_word_def length_dropWhile_le)

lemma fmt_type_style_length: "fmt_type_style fmt = (typ, style, fmt1) \<Longrightarrow> length fmt1 \<le> length fmt"
  by (auto simp: fmt_type_style_def Let_def dest!: fmt_word_length split: list.splits if_splits prod.splits)

lemma skip_brace_length: "length (skip_brace fmt) \<le> length fmt"
  unfolding skip_brace_def using length_dropWhile_le [of "\<lambda>c. c \<noteq> of_char (CHR ''}'')" fmt] by simp

text \<open>The loop of \<open>format_error_report_message\<close>; the second argument is \<open>in_quotes\<close>.\<close>

function format_loop :: "err_env \<Rightarrow> byte list list \<Rightarrow> bool \<Rightarrow> byte list \<Rightarrow> byte list \<Rightarrow> exn + byte list" where
  "format_loop env params q buf [] = Inr buf"
| "format_loop env params q buf (c # fmt) =
     (if q \<and> c = 39 then format_loop env params False buf fmt
      else if q then format_loop env params True (buf @ [c]) fmt
      else if c = 39 \<and> fmt \<noteq> [] \<and> hd fmt = 39 then format_loop env params False (buf @ [c]) (tl fmt)
      else if c = 39 then format_loop env params True buf fmt
      else if c = of_char (CHR ''{'') then
        (case fmt_index 0 fmt of
           Inl e \<Rightarrow> Inl e
         | Inr (index, fmt1) \<Rightarrow>
             (case fmt_type_style fmt1 of
                (typ, style, fmt2) \<Rightarrow>
                  (case (if nat index < length params
                         then append_format_parameter env typ style (params ! nat index) else Inr []) of
                     Inl e \<Rightarrow> Inl e
                   | Inr t \<Rightarrow> format_loop env params False (buf @ t) (skip_brace fmt2))))
      else format_loop env params False (buf @ [c]) fmt)"
  by pat_completeness auto
termination
proof (relation "measure (\<lambda>(env, params, q, buf, fmt). length fmt)", goal_cases)
  case (6 env params q buf c fmt r index fmt1 ty b style fmt2 t)
  then show ?case
    using fmt_index_length [of 0 fmt index fmt1] fmt_type_style_length [of fmt1 ty style fmt2]
      skip_brace_length [of fmt2] by simp
qed auto

declare format_loop.simps(2) [simp del]

definition format_error_report_message :: "err_env \<Rightarrow> byte list \<Rightarrow> byte list list \<Rightarrow> exn + byte list" where
  "format_error_report_message env fmt params = format_loop env params False [] fmt"

definition hex_digit_of :: "int \<Rightarrow> byte" where
  "hex_digit_of n = (if n < 10 then word_of_int (48 + n) else word_of_int (87 + n))"

text \<open>\<open>%08x\<close> of a 32-bit value.\<close>

definition hex8 :: "int \<Rightarrow> byte list" where
  "hex8 n = map (\<lambda>i. hex_digit_of (take_bit 4 (drop_bit (4 * i) n))) [7, 6, 5, 4, 3, 2, 1, 0]"

definition posix_strerror :: "err_env \<Rightarrow> int \<Rightarrow> byte list" where
  "posix_strerror env err =
     (case env_strerror env err of
        None \<Rightarrow> bytes_of ''Error 0x'' @ hex8 err
      | Some msg \<Rightarrow> if msg = [] then bytes_of ''Error 0x'' @ hex8 err else msg)"

text \<open>\<open>None\<close> is a recursion that does not end, \<open>Some (Inr None)\<close> the null pointer.\<close>

partial_function (option) errno_to_str :: "err_env \<Rightarrow> errors \<Rightarrow> int \<Rightarrow> (exn + byte list option) option" where
  "errno_to_str env s err =
     (case map_of std_messages (err - STD_ERR_BASE) of
        Some t \<Rightarrow> Some (Inr (Some (bytes_of t)))
      | None \<Rightarrow>
          if err = 0 then Some (Inr (Some (bytes_of ''Success'')))
          else if is_msg_no err then
            (let m = msg_of s err in
             case em_report m of
               Some a \<Rightarrow>
                 (case es_reports s a of
                    None \<Rightarrow> Some (Inl Undefined)
                  | Some r \<Rightarrow>
                      (case er_format (rb_pub r) of
                         Some f \<Rightarrow>
                           (case format_error_report_message env f (er_params (rb_pub r)) of
                              Inl e \<Rightarrow> Some (Inl e) | Inr t \<Rightarrow> Some (Inr (Some t)))
                       | None \<Rightarrow>
                           (case em_source m of
                              SRC_GAI \<Rightarrow> Some (Inr (Some (env_gai_strerror env (em_error m))))
                            | SRC_MESSAGE \<Rightarrow> Some (Inr (em_text m))
                            | SRC_REPORT \<Rightarrow> errno_to_str env s (em_error m)
                            | SRC_NONE \<Rightarrow> Some (Inr (Some (posix_strerror env err))))))
             | None \<Rightarrow>
                 (case em_source m of
                    SRC_GAI \<Rightarrow> Some (Inr (Some (env_gai_strerror env (em_error m))))
                  | SRC_MESSAGE \<Rightarrow> Some (Inr (em_text m))
                  | SRC_REPORT \<Rightarrow> errno_to_str env s (em_error m)
                  | SRC_NONE \<Rightarrow> Some (Inr (Some (posix_strerror env err)))))
          else Some (Inr (Some (posix_strerror env err))))"

section \<open>Operations\<close>

definition callE :: "(errors \<Rightarrow> (exn + 'a) option) \<Rightarrow> 'a err_op" where
  "callE f = (\<lambda>s. case f s of None \<Rightarrow> Inl Diverges | Some (Inl e) \<Rightarrow> Inl e | Some (Inr x) \<Rightarrow> Inr (x, s))"

definition errnoE :: "int err_op" where
  "errnoE = (\<lambda>s. Inr (es_errno s, s))"

definition set_errno :: "err_env \<Rightarrow> int \<Rightarrow> byte list option \<Rightarrow> int err_op" where
  "set_errno env no msg =
     seqR (modE (\<lambda>s. s\<lparr>es_errno := no\<rparr>))
      (case msg of
         None \<Rightarrow> errnoE
       | Some text0 \<Rightarrow>
           if no = 0 then errnoE
           else
             bindR (alloc_msg SRC_MESSAGE) (\<lambda>m.
             bindR errnoE (\<lambda>err.
             bindR (callE (\<lambda>s. get_error_code s no)) (\<lambda>code.
             seqR (set_msg m (\<lambda>x. x\<lparr>em_error := code\<rparr>))
             (seqR
               (if no = error_no ERR_OTHER then set_msg m (\<lambda>x. x\<lparr>em_text := Some text0\<rparr>)
                else bindR (callE (\<lambda>s. errno_to_str env s no)) (\<lambda>text1.
                  case text1 of
                    None \<Rightarrow> raiseR Undefined
                  | Some t \<Rightarrow> set_msg m (\<lambda>x. x\<lparr>em_text := Some (text0 @ bytes_of ''. '' @ t)\<rparr>)))
               (seqR (modE (\<lambda>s. s\<lparr>es_errno := err\<rparr>)) errnoE))))))"

definition set_gai_errno :: "int \<Rightarrow> int err_op" where
  "set_gai_errno no =
     seqR (modE (\<lambda>s. s\<lparr>es_errno := no\<rparr>))
      (seqR (if no \<noteq> 0 then bindR (alloc_msg SRC_GAI) (\<lambda>m. set_msg m (\<lambda>x. x\<lparr>em_error := no\<rparr>)) else retR ())
        errnoE)"

definition set_error_report_errno :: "nat option \<Rightarrow> int err_op" where
  "set_error_report_errno r =
     seqR (modE (\<lambda>s. s\<lparr>es_errno := 0\<rparr>))
      (seqR
        (case r of
           None \<Rightarrow> retR ()
         | Some a \<Rightarrow>
             bindR (alloc_msg SRC_REPORT) (\<lambda>m.
             bindR (the_report a) (\<lambda>rb.
               if er_code (rb_pub rb) + STD_ERR_BASE > INT_MAX then raiseR Undefined
               else
                 seqR (set_msg m (\<lambda>x. x\<lparr>em_error := er_code (rb_pub rb) + STD_ERR_BASE, em_report := Some a\<rparr>))
                   (put_report a (rb\<lparr>rb_refs := rb_refs rb + 1\<rparr>)))))
        errnoE)"

definition add_report_prop :: "byte list \<Rightarrow> ByteArrayOutputStream \<Rightarrow> ErrorReport \<Rightarrow> ErrorReport" where
  "add_report_prop name buf report =
     report\<lparr>er_props := \<lparr>eri_name = name,
        eri_value = c_string (fst (fst (get_byte_array_output_stream_data buf)))\<rparr> # er_props report\<rparr>"

definition add_report_prop_int :: "byte list \<Rightarrow> u64 \<Rightarrow> ErrorReport \<Rightarrow> ErrorReport" where
  "add_report_prop_int name n =
     add_report_prop name (write_stream bao_class 0 (json_write_ulong bao_class n create_byte_array_output_stream))"

definition add_report_prop_str :: "byte list \<Rightarrow> byte list \<Rightarrow> ErrorReport \<Rightarrow> ErrorReport" where
  "add_report_prop_str name s =
     add_report_prop name (write_stream bao_class 0 (json_write_string bao_class (Some s) create_byte_array_output_stream))"

text \<open>What the report of a number without one says, and the code it carries.\<close>

definition posix_report :: "int \<Rightarrow> ReportBuffer \<Rightarrow> ReportBuffer" where
  "posix_report err r = r\<lparr>rb_posix_code := err,
     rb_pub := add_report_prop_str (bytes_of ''AltOrg'') (bytes_of ''Linux'')
       (add_report_prop_int (bytes_of ''AltCode'') (word_of_int err) (rb_pub r))\<rparr>"

text \<open>The report for a number that has none: its code is that of the number in the range of the agent's own
  numbers, and of \<open>ERR_OTHER\<close> for a system error, which goes to the properties.\<close>

definition new_report :: "err_env \<Rightarrow> byte list \<Rightarrow> int \<Rightarrow> exn + ReportBuffer" where
  "new_report env format err =
     (let time = (case env_clock env of None \<Rightarrow> 0 | Some t \<Rightarrow> t);
          report = \<lparr>rb_pub = \<lparr>er_code = 0, er_format = Some format, er_params = [], er_props = [], er_time_stamp = time\<rparr>,
            rb_posix_code = 0, rb_refs = 0, rb_gets = 0\<rparr>;
          posix = (err < STD_ERR_BASE \<or> err > ERR_MESSAGE_MAX);
          report1 = (if posix then posix_report err report else report);
          err1 = (if posix then error_no ERR_OTHER else err)
      in if \<not> err1 \<ge> STD_ERR_BASE \<or> \<not> err1 < ERR_MESSAGE_MIN then Inl Assertion
         else Inr (report1\<lparr>rb_pub := (rb_pub report1)\<lparr>er_code := err1 - STD_ERR_BASE\<rparr>, rb_refs := 1, rb_gets := 1\<rparr>))"

definition get_error_report :: "err_env \<Rightarrow> int \<Rightarrow> nat option err_op" where
  "get_error_report env err =
     (\<lambda>s. case (if is_msg_no err then em_report (msg_of s err) else None) of
        Some a \<Rightarrow>
          bindR (the_report a) (\<lambda>r.
            seqR (put_report a (r\<lparr>rb_refs := rb_refs r + 1, rb_gets := rb_gets r + 1\<rparr>)) (retR (Some a))) s
      | None \<Rightarrow>
          if err \<noteq> 0 then
            bindR (callE (\<lambda>s. errno_to_str env s err)) (\<lambda>format.
            case format of
              None \<Rightarrow> raiseR Undefined
            | Some f \<Rightarrow>
              (case new_report env f
                  (if is_msg_no err then
                     (if em_source (msg_of s err) = SRC_MESSAGE then em_error (msg_of s err) else error_no ERR_OTHER)
                   else err) of
                 Inl e \<Rightarrow> raiseR e
               | Inr report \<Rightarrow>
                   if is_msg_no err then
                     bindR (alloc_report (report\<lparr>rb_refs := rb_refs report + 1\<rparr>)) (\<lambda>a.
                       seqR (set_msg (nat (err - ERR_MESSAGE_MIN)) (\<lambda>x. x\<lparr>em_report := Some a\<rparr>)) (retR (Some a)))
                   else bindR (alloc_report report) (\<lambda>a. retR (Some a)))) s
          else retR None s)"

definition create_report_buffer :: "nat err_op" where
  "create_report_buffer =
     alloc_report \<lparr>rb_pub = create_error_report, rb_posix_code = 0, rb_refs = 1, rb_gets = 1\<rparr>"

definition release_error_report :: "nat option \<Rightarrow> unit err_op" where
  "release_error_report r =
     (case r of
        None \<Rightarrow> retR ()
      | Some a \<Rightarrow>
          bindR (the_report a) (\<lambda>rb.
            if \<not> rb_gets rb > 0 then raiseR Assertion
            else seqR (put_report a (rb\<lparr>rb_gets := rb_gets rb - 1\<rparr>)) (release_report (Some a))))"

text \<open>\<open>compare_error_reports\<close> on the reports behind two pointers; equal pointers mean equal contents.\<close>

fun compare_props :: "ErrorReportItem list \<Rightarrow> ErrorReportItem list \<Rightarrow> bool" where
  "compare_props [] [] = True"
| "compare_props (px # xs) (py # ys) =
     (if eri_name px \<noteq> eri_name py then False
      else if eri_value px \<noteq> eri_value py then False
      else compare_props xs ys)"
| "compare_props xs ys = False"

definition compare_error_reports :: "ErrorReport option \<Rightarrow> ErrorReport option \<Rightarrow> bool" where
  "compare_error_reports x y =
     (case (x, y) of
        (None, None) \<Rightarrow> True
      | (Some x, Some y) \<Rightarrow>
          if er_code x \<noteq> er_code y then False
          else if er_format x \<noteq> er_format y then False
          else if length (er_params x) \<noteq> length (er_params y) then False
          else if er_params x \<noteq> er_params y then False
          else compare_props (er_props x) (er_props x)
      | _ \<Rightarrow> False)"

end
