(* ===== verification/Errors_Proofs.thy ===== *)
theory Errors_Proofs
  imports Errors "HOL-Library.Multiset"
begin

text \<open>
  The reports of errors.c are counted: in every state that calls of the module reach, the counter of a report is
  the number of its clients and of the slots that point to it, no call follows a pointer to a freed report and no
  assertion fails.
\<close>

lemmas err_ops = modE_def the_report_def put_report_def free_report_def alloc_report_def set_msg_def errnoE_def

section \<open>The invariant\<close>

definition slot_count :: "nat option list \<Rightarrow> nat \<Rightarrow> nat" where
  "slot_count rs a = count (mset rs) (Some a)"

lemma slot_count_update:
  "i < length rs \<Longrightarrow> slot_count (rs[i := r]) a =
     slot_count rs a - (if rs ! i = Some a then 1 else 0) + (if r = Some a then 1 else 0)"
  by (simp add: slot_count_def mset_update)

lemma slot_count_pos: "i < length rs \<Longrightarrow> rs ! i = Some a \<Longrightarrow> 0 < slot_count rs a"
  by (metis count_greater_zero_iff nth_mem_mset slot_count_def)

text \<open>
  The counter of what is at an address, given the slots' pointers \<open>rs\<close> and the next free address: a free
  address is in no slot, and a report counts its clients and its slots.
\<close>

definition ref_at :: "nat option list \<Rightarrow> nat \<Rightarrow> nat \<Rightarrow> ReportBuffer option \<Rightarrow> bool" where
  "ref_at rs lim a v \<longleftrightarrow>
     (case v of
        None \<Rightarrow> slot_count rs a = 0
      | Some r \<Rightarrow> rb_refs r = rb_gets r + int (slot_count rs a) \<and> 0 \<le> rb_gets r \<and> 0 < rb_refs r \<and> a < lim)"

definition refs_ok :: "nat option list \<Rightarrow> (nat \<rightharpoonup> ReportBuffer) \<Rightarrow> nat \<Rightarrow> bool" where
  "refs_ok rs reports lim \<longleftrightarrow> (\<forall>a. ref_at rs lim a (reports a))"

definition report_codes_ok :: "(nat \<rightharpoonup> ReportBuffer) \<Rightarrow> bool" where
  "report_codes_ok reports \<longleftrightarrow> (\<forall>r \<in> ran reports. \<not> is_msg_no (rb_posix_code r))"

definition msg_ok :: "ErrorMessage \<Rightarrow> bool" where
  "msg_ok m \<longleftrightarrow>
     (em_source m = SRC_MESSAGE \<longrightarrow> em_text m \<noteq> None \<and> \<not> is_msg_no (em_error m)) \<and>
     (em_source m = SRC_REPORT \<longrightarrow> em_report m \<noteq> None)"

definition errors_inv :: "errors \<Rightarrow> bool" where
  "errors_inv s \<longleftrightarrow> length (es_msgs s) = MESSAGE_CNT \<and> es_msgs_pos s < MESSAGE_CNT \<and>
     refs_ok (map em_report (es_msgs s)) (es_reports s) (es_next s) \<and>
     report_codes_ok (es_reports s) \<and> (\<forall>m \<in> set (es_msgs s). msg_ok m)"

lemma ref_at_simps [simp]:
  "ref_at rs lim a None \<longleftrightarrow> slot_count rs a = 0"
  "ref_at rs lim a (Some r) \<longleftrightarrow>
     rb_refs r = rb_gets r + int (slot_count rs a) \<and> 0 \<le> rb_gets r \<and> 0 < rb_refs r \<and> a < lim"
  by (simp_all add: ref_at_def)

lemma refs_okD: "refs_ok rs reports lim \<Longrightarrow> reports a = v \<Longrightarrow> ref_at rs lim a v"
  by (auto simp: refs_ok_def)

lemma ref_at_mono: "ref_at rs lim b v \<Longrightarrow> slot_count rs' b = slot_count rs b \<Longrightarrow> lim \<le> lim' \<Longrightarrow> ref_at rs' lim' b v"
  by (cases v) auto

text \<open>What is at one address changes.\<close>

lemma refs_ok_upd:
  assumes "refs_ok rs reports lim" "\<And>b. b \<noteq> a \<Longrightarrow> slot_count rs' b = slot_count rs b" "lim \<le> lim'" "ref_at rs' lim' a v"
  shows "refs_ok rs' (reports(a := v)) lim'"
  unfolding refs_ok_def
proof
  fix b
  show "ref_at rs' lim' b ((reports(a := v)) b)"
  proof (cases "b = a")
    case False
    with assms(2,3) refs_okD [OF assms(1) refl, of b] show ?thesis by (simp add: ref_at_mono)
  qed (simp add: assms(4))
qed

text \<open>A slot points to a report that lives, and holds one reference to it.\<close>

lemma slot_live:
  assumes "refs_ok rs reports lim" "i < length rs" "rs ! i = Some a"
  obtains r where "reports a = Some r" "rb_refs r > rb_gets r"
  using refs_okD [OF assms(1) refl, of a] slot_count_pos [OF assms(2,3)] by (cases "reports a") auto

lemma refs_ok_drop:
  assumes ok: "refs_ok rs reports lim" and i: "i < length rs" "rs ! i = Some a" and r: "reports a = Some r"
  shows "refs_ok (rs[i := None]) (reports(a := (if rb_refs r - 1 = 0 then None else Some (r\<lparr>rb_refs := rb_refs r - 1\<rparr>)))) lim"
  by (rule refs_ok_upd [OF ok])
    (use i refs_okD [OF ok r] slot_count_pos [OF i] in \<open>auto simp: slot_count_update\<close>)

lemma refs_ok_None: "refs_ok rs reports lim \<Longrightarrow> i < length rs \<Longrightarrow> rs ! i = None \<Longrightarrow> refs_ok (rs[i := None]) reports lim"
  by (metis list_update_id)

lemma refs_ok_add:
  assumes ok: "refs_ok rs reports lim" and i: "i < length rs" "rs ! i = None" and r: "reports a = Some r"
  shows "refs_ok (rs[i := Some a]) (reports(a \<mapsto> r\<lparr>rb_refs := rb_refs r + 1\<rparr>)) lim"
  by (rule refs_ok_upd [OF ok]) (use i refs_okD [OF ok r] in \<open>auto simp: slot_count_update\<close>)

text \<open>A client gets, gives back, creates or fills in a report.\<close>

lemma refs_ok_get:
  assumes ok: "refs_ok rs reports lim" and r: "reports a = Some r"
  shows "refs_ok rs (reports(a \<mapsto> r\<lparr>rb_refs := rb_refs r + 1, rb_gets := rb_gets r + 1\<rparr>)) lim"
  by (rule refs_ok_upd [OF ok]) (use refs_okD [OF ok r] in auto)

lemma refs_ok_release:
  assumes ok: "refs_ok rs reports lim" and r: "reports a = Some r" and g: "0 < rb_gets r"
  shows "refs_ok rs (reports(a := (if rb_refs r - 1 = 0 then None
    else Some (r\<lparr>rb_gets := rb_gets r - 1, rb_refs := rb_refs r - 1\<rparr>)))) lim"
  by (rule refs_ok_upd [OF ok]) (use g refs_okD [OF ok r] in auto)

lemma refs_ok_top: "refs_ok rs reports lim \<Longrightarrow> reports lim = None \<and> slot_count rs lim = 0"
  using refs_okD [of rs reports lim lim "reports lim"] by (cases "reports lim") auto

lemma refs_ok_new:
  assumes ok: "refs_ok rs reports lim" and r: "rb_refs r = rb_gets r" "0 < rb_gets r"
  shows "refs_ok rs (reports(lim \<mapsto> r)) (Suc lim)"
  by (rule refs_ok_upd [OF ok]) (use r refs_ok_top [OF ok] in auto)

lemma refs_ok_new_slot:
  assumes ok: "refs_ok rs reports lim" and i: "i < length rs" "rs ! i = None"
    and r: "rb_refs r = rb_gets r + 1" "0 < rb_gets r"
  shows "refs_ok (rs[i := Some lim]) (reports(lim \<mapsto> r)) (Suc lim)"
  by (rule refs_ok_upd [OF ok]) (use i r refs_ok_top [OF ok] in \<open>auto simp: slot_count_update\<close>)

lemma refs_ok_pub:
  assumes ok: "refs_ok rs reports lim" and r: "reports a = Some r"
  shows "refs_ok rs (reports(a \<mapsto> r\<lparr>rb_pub := p\<rparr>)) lim"
  by (rule refs_ok_upd [OF ok]) (use refs_okD [OF ok r] in auto)

section \<open>The slots\<close>

text \<open>Every report a client holds stays, with what it says; only the slots' references to it may change.\<close>

definition held :: "errors \<Rightarrow> nat \<Rightarrow> bool" where
  "held s a \<longleftrightarrow> (\<exists>r. es_reports s a = Some r \<and> 0 < rb_gets r)"

definition keeps_held :: "errors \<Rightarrow> errors \<Rightarrow> bool" where
  "keeps_held s s' \<longleftrightarrow> (\<forall>a r. es_reports s a = Some r \<longrightarrow> 0 < rb_gets r \<longrightarrow> (\<exists>n. es_reports s' a = Some (r\<lparr>rb_refs := n\<rparr>)))"

lemma refs_id: "\<exists>n. r = r\<lparr>rb_refs := n\<rparr>"
  by (rule exI [of _ "rb_refs r"]) simp

lemma keeps_held_refl: "es_reports s' = es_reports s \<Longrightarrow> keeps_held s s'"
  by (simp add: keeps_held_def refs_id)

lemma keeps_held_upd:
  assumes "es_reports s a = Some r" "es_reports s' = (es_reports s)(a := v)"
    and "0 < rb_gets r \<Longrightarrow> \<exists>n. v = Some (r\<lparr>rb_refs := n\<rparr>)"
  shows "keeps_held s s'"
  using assms by (auto simp: keeps_held_def refs_id)

definition fresh_msg :: "msg_source \<Rightarrow> ErrorMessage" where
  "fresh_msg source = \<lparr>em_source = source, em_error = 0, em_text = None, em_report = None\<rparr>"

definition next_pos :: "nat \<Rightarrow> nat" where
  "next_pos m = (if Suc m \<ge> MESSAGE_CNT then 0 else Suc m)"

text \<open>After \<open>alloc_msg\<close> the new slot is all that is left to fill in.\<close>

definition errors_inv_but :: "nat \<Rightarrow> errors \<Rightarrow> bool" where
  "errors_inv_but i s \<longleftrightarrow> length (es_msgs s) = MESSAGE_CNT \<and> es_msgs_pos s < MESSAGE_CNT \<and>
     refs_ok (map em_report (es_msgs s)) (es_reports s) (es_next s) \<and>
     report_codes_ok (es_reports s) \<and> (\<forall>j < MESSAGE_CNT. j \<noteq> i \<longrightarrow> msg_ok (es_msgs s ! j))"

lemma alloc_msg_ok:
  assumes inv: "errors_inv s"
  obtains s' where "alloc_msg source s = Inr (es_msgs_pos s, s')"
    and "es_msgs s' = (es_msgs s)[es_msgs_pos s := fresh_msg source]"
    and "es_msgs_pos s' = next_pos (es_msgs_pos s)" "es_errno s' = ERR_MESSAGE_MIN + int (es_msgs_pos s)"
    and "es_next s' = es_next s" "errors_inv_but (es_msgs_pos s) s'" "keeps_held s s'"
proof -
  let ?m = "es_msgs_pos s"
  let ?rs = "map em_report (es_msgs s)"
  have m: "?m < length (es_msgs s)" "length (es_msgs s) = MESSAGE_CNT" "?m < MESSAGE_CNT"
    and ok: "refs_ok ?rs (es_reports s) (es_next s)" and c: "report_codes_ok (es_reports s)"
    and ms: "\<forall>m \<in> set (es_msgs s). msg_ok m"
    using inv by (auto simp: errors_inv_def)
  define reports where "reports = (case em_report (es_msgs s ! ?m) of None \<Rightarrow> es_reports s
    | Some a \<Rightarrow> (case es_reports s a of None \<Rightarrow> es_reports s
      | Some r \<Rightarrow> (es_reports s)(a := (if rb_refs r - 1 = 0 then None else Some (r\<lparr>rb_refs := rb_refs r - 1\<rparr>)))))"
  let ?s' = "s\<lparr>es_errno := ERR_MESSAGE_MIN + int ?m, es_msgs_pos := next_pos ?m, es_reports := reports,
    es_msgs := (es_msgs s)[?m := fresh_msg source]\<rparr>"
  have rs: "map em_report (es_msgs ?s') = ?rs[?m := None]"
    by (simp add: map_update fresh_msg_def)
  have msgs: "msg_ok (es_msgs ?s' ! j)" if "j < MESSAGE_CNT" "j \<noteq> ?m" for j
    using that m ms by simp
  have pos: "next_pos ?m < MESSAGE_CNT" by (auto simp: next_pos_def MESSAGE_CNT_def)
  have "alloc_msg source s = Inr (?m, ?s') \<and> refs_ok (?rs[?m := None]) reports (es_next s) \<and>
      report_codes_ok reports \<and> keeps_held s ?s'"
  proof (cases "em_report (es_msgs s ! ?m)")
    case None
    then show ?thesis
      using refs_ok_None [OF ok] m c
      by (simp add: alloc_msg_def Let_def reader_simps err_ops release_report_def reports_def next_pos_def fresh_msg_def
          keeps_held_refl)
  next
    case (Some a)
    then obtain r where r: "es_reports s a = Some r" "rb_refs r > rb_gets r"
      using slot_live [OF ok, of ?m a] m by auto
    have "keeps_held s ?s'"
      using r Some by (intro keeps_held_upd [of s a r]) (auto simp: reports_def)
    moreover have "report_codes_ok reports"
      using c r Some by (auto simp: report_codes_ok_def reports_def ran_def split: if_splits)
    moreover have "refs_ok (?rs[?m := None]) reports (es_next s)"
      using refs_ok_drop [OF ok _ _ r(1), of ?m] Some r m by (simp add: reports_def)
    ultimately show ?thesis
      using Some r
      by (simp add: alloc_msg_def Let_def reader_simps err_ops release_report_def reports_def next_pos_def fresh_msg_def)
  qed
  then show ?thesis
    using that [of ?s'] m rs msgs pos by (simp add: errors_inv_but_def)
qed

section \<open>Error codes\<close>

lemma get_error_code_not_msg:
  assumes "get_error_code s no = Some (Inr c)" "report_codes_ok (es_reports s)"
  shows "\<not> is_msg_no c"
proof -
  let ?P = "\<lambda>(s :: errors) (no :: int) (y :: exn + int). report_codes_ok (es_reports s) \<longrightarrow> (\<forall>c. y = Inr c \<longrightarrow> \<not> is_msg_no c)"
  have "?P s no (Inr c)"
  proof (rule get_error_code.raw_induct [where P = ?P, OF _ assms(1)])
    fix f s no y
    assume IH: "\<And>s no y. f s no = Some y \<Longrightarrow> ?P s no y"
    assume "(if is_msg_no no then let m = msg_of s no in
          if em_source m = SRC_REPORT \<or> em_source m = SRC_MESSAGE then
            case em_report m of None \<Rightarrow> f s (em_error m)
            | Some a \<Rightarrow> (case es_reports s a of None \<Rightarrow> Some (Inl Undefined)
                | Some r \<Rightarrow> if rb_posix_code r \<noteq> 0 then Some (Inr (rb_posix_code r)) else f s (em_error m))
          else Some (Inr (error_no ERR_OTHER))
        else Some (Inr no)) = Some y"
    then show "?P s no y"
      by (auto simp: Let_def report_codes_ok_def ran_def is_msg_no_def ERR_MESSAGE_MIN_def ERR_MESSAGE_MAX_def
          STD_ERR_BASE_def split: if_splits option.splits dest!: IH)
  qed
  with assms(2) show ?thesis by simp
qed

lemma get_error_code_plain: "\<not> is_msg_no no \<Longrightarrow> get_error_code s no = Some (Inr no)"
  by (subst get_error_code.simps) simp

section \<open>Every operation keeps the invariant\<close>

lemma errors_inv_errno [simp]: "errors_inv (s\<lparr>es_errno := n\<rparr>) = errors_inv s" "errors_inv_but i (s\<lparr>es_errno := n\<rparr>) = errors_inv_but i s"
  by (simp_all add: errors_inv_def errors_inv_but_def)

lemma keeps_held_errno [simp]: "keeps_held (s\<lparr>es_errno := n\<rparr>) s' = keeps_held s s'" "keeps_held s (s'\<lparr>es_errno := n\<rparr>) = keeps_held s s'"
  "keeps_held s (s'\<lparr>es_msgs := ms\<rparr>) = keeps_held s s'"
  by (simp_all add: keeps_held_def)

lemma errors_inv_set_msg:
  assumes inv: "errors_inv_but i s" and m: "em_report m = em_report (es_msgs s ! i)"
  shows "errors_inv_but i (s\<lparr>es_msgs := (es_msgs s)[i := m]\<rparr>)"
proof -
  have "map em_report ((es_msgs s)[i := m]) = map em_report (es_msgs s)"
    using m by (metis list_update_id map_update)
  then show ?thesis using inv by (simp add: errors_inv_but_def)
qed

lemma errors_inv_done:
  assumes "errors_inv_but i s" "msg_ok (es_msgs s ! i)"
  shows "errors_inv s"
  using assms by (auto simp: errors_inv_def errors_inv_but_def in_set_conv_nth)

lemma errors_inv_fill:
  assumes "errors_inv_but i s" "em_report m = em_report (es_msgs s ! i)" "msg_ok m" "i < MESSAGE_CNT"
  shows "errors_inv (s\<lparr>es_msgs := (es_msgs s)[i := m]\<rparr>)"
  using errors_inv_done [OF errors_inv_set_msg [OF assms(1,2)]] assms by (simp add: errors_inv_but_def)

lemma callE_InrE:
  assumes "callE f s = Inr (x, s')"
  obtains "f s = Some (Inr x)" "s' = s"
  using assms by (auto simp: callE_def split: option.splits sum.splits)

text \<open>The body of \<open>set_errno\<close> behind the allocation of the slot.\<close>

lemma set_errno_ok:
  assumes inv: "errors_inv s" and run: "set_errno env no msg s = Inr (err, s')"
  shows "errors_inv s'" "keeps_held s s'"
proof -
  have "errors_inv s' \<and> keeps_held s s'"
  proof (cases "msg = None \<or> no = 0")
    case True
    then show ?thesis
      using assms by (auto simp: set_errno_def reader_simps err_ops keeps_held_refl split: option.splits)
  next
    case False
    then obtain t where msg: "msg = Some t" "no \<noteq> 0" by auto
    let ?s0 = "s\<lparr>es_errno := no\<rparr>"
    let ?i = "es_msgs_pos s"
    obtain s1 where s1: "alloc_msg SRC_MESSAGE ?s0 = Inr (?i, s1)" "es_msgs s1 = (es_msgs s)[?i := fresh_msg SRC_MESSAGE]"
        "errors_inv_but ?i s1" "keeps_held s s1"
      using alloc_msg_ok [of ?s0 SRC_MESSAGE] inv by auto
    have i: "?i < MESSAGE_CNT" "?i < length (es_msgs s1)"
      using inv s1(3) by (simp_all add: errors_inv_def errors_inv_but_def)
    have fresh: "es_msgs s1 ! ?i = fresh_msg SRC_MESSAGE" using s1(2) i by simp
    from run obtain code where code: "get_error_code s1 no = Some (Inr code)"
      using msg s1 by (auto simp: set_errno_def reader_simps modE_def errnoE_def callE_def split: option.splits sum.splits)
    have c: "\<not> is_msg_no code"
      using get_error_code_not_msg [OF code] s1(3) by (simp add: errors_inv_but_def)
    let ?m = "\<lambda>x. (fresh_msg SRC_MESSAGE)\<lparr>em_error := code, em_text := Some x\<rparr>"
    have "\<exists>x. s' = s1\<lparr>es_msgs := (es_msgs s1)[?i := ?m x], es_errno := es_errno s1\<rparr>"
      using run msg s1 code fresh i
      by (auto simp: set_errno_def reader_simps err_ops callE_def split: if_splits option.splits sum.splits) (rule exI, rule refl)
    then obtain x where s': "s' = s1\<lparr>es_msgs := (es_msgs s1)[?i := ?m x], es_errno := es_errno s1\<rparr>" by blast
    have "errors_inv (s1\<lparr>es_msgs := (es_msgs s1)[?i := ?m x]\<rparr>)"
      using s1(3) fresh c i by (intro errors_inv_fill) (simp_all add: fresh_msg_def msg_ok_def)
    then show ?thesis using s' s1(4) by simp
  qed
  then show "errors_inv s'" "keeps_held s s'" by simp_all
qed

lemma set_gai_errno_ok:
  assumes inv: "errors_inv s"
  obtains err s' where "set_gai_errno no s = Inr (err, s')" "errors_inv s'" "keeps_held s s'"
proof (cases "no = 0")
  case True
  then show ?thesis
    using that [of 0 "s\<lparr>es_errno := 0\<rparr>"] inv by (simp add: set_gai_errno_def reader_simps err_ops keeps_held_refl)
next
  case False
  let ?i = "es_msgs_pos s"
  obtain s1 where s1: "alloc_msg SRC_GAI (s\<lparr>es_errno := no\<rparr>) = Inr (?i, s1)" "es_msgs s1 = (es_msgs s)[?i := fresh_msg SRC_GAI]"
      "errors_inv_but ?i s1" "keeps_held s s1"
    using alloc_msg_ok [of "s\<lparr>es_errno := no\<rparr>" SRC_GAI] inv by auto
  have i: "?i < MESSAGE_CNT" "es_msgs s1 ! ?i = fresh_msg SRC_GAI"
    using inv s1(2) by (simp_all add: errors_inv_def)
  have "errors_inv (s1\<lparr>es_msgs := (es_msgs s1)[?i := (fresh_msg SRC_GAI)\<lparr>em_error := no\<rparr>]\<rparr>)"
    using s1(3) i by (intro errors_inv_fill) (simp_all add: fresh_msg_def msg_ok_def)
  then show ?thesis
    using that False s1 i by (auto simp: set_gai_errno_def reader_simps err_ops)
qed

lemmas err_numbers = is_msg_no_def ERR_MESSAGE_MIN_def ERR_MESSAGE_MAX_def STD_ERR_BASE_def MESSAGE_CNT_def

lemma errors_inv_butD:
  assumes "errors_inv_but i s"
  shows "length (es_msgs s) = MESSAGE_CNT" "refs_ok (map em_report (es_msgs s)) (es_reports s) (es_next s)"
    "report_codes_ok (es_reports s)" "es_msgs_pos s < MESSAGE_CNT"
  using assms by (simp_all add: errors_inv_but_def)

lemma errors_invD:
  assumes "errors_inv s"
  shows "length (es_msgs s) = MESSAGE_CNT" "refs_ok (map em_report (es_msgs s)) (es_reports s) (es_next s)"
    "report_codes_ok (es_reports s)" "es_msgs_pos s < MESSAGE_CNT" "i < MESSAGE_CNT \<Longrightarrow> msg_ok (es_msgs s ! i)"
  using assms by (simp_all add: errors_inv_def)

lemma report_codes_ok_upd:
  "report_codes_ok reports \<Longrightarrow> \<not> is_msg_no (rb_posix_code r) \<Longrightarrow> report_codes_ok (reports(a \<mapsto> r))"
  by (auto simp: report_codes_ok_def ran_def)

lemma report_codes_ok_del: "report_codes_ok reports \<Longrightarrow> report_codes_ok (reports(a := None))"
  by (auto simp: report_codes_ok_def ran_def)

lemma report_codes_okD: "report_codes_ok reports \<Longrightarrow> reports a = Some r \<Longrightarrow> \<not> is_msg_no (rb_posix_code r)"
  by (auto simp: report_codes_ok_def ran_def)

lemma set_error_report_errno_ok:
  assumes inv: "errors_inv s" and held: "held s a" and run: "set_error_report_errno (Some a) s = Inr (err, s')"
  shows "errors_inv s'"
proof -
  let ?i = "es_msgs_pos s"
  obtain s1 where s1: "alloc_msg SRC_REPORT (s\<lparr>es_errno := 0\<rparr>) = Inr (?i, s1)" "es_msgs s1 = (es_msgs s)[?i := fresh_msg SRC_REPORT]"
      "errors_inv_but ?i s1" "keeps_held s s1"
    using alloc_msg_ok [of "s\<lparr>es_errno := 0\<rparr>" SRC_REPORT] inv by auto
  note d = errors_inv_butD [OF s1(3)]
  have i: "?i < MESSAGE_CNT" "es_msgs s1 ! ?i = fresh_msg SRC_REPORT"
    using errors_invD [OF inv] s1(2) by simp_all
  obtain r where r: "es_reports s1 a = Some r"
    using held s1(4) by (auto simp: held_def keeps_held_def)
  let ?m = "(fresh_msg SRC_REPORT)\<lparr>em_error := er_code (rb_pub r) + STD_ERR_BASE, em_report := Some a\<rparr>"
  have s': "s' = s1\<lparr>es_msgs := (es_msgs s1)[?i := ?m], es_reports := (es_reports s1)(a \<mapsto> r\<lparr>rb_refs := rb_refs r + 1\<rparr>)\<rparr>"
    using run s1(1) r i(2) by (auto simp: set_error_report_errno_def reader_simps err_ops split: if_splits)
  have "refs_ok ((map em_report (es_msgs s1))[?i := Some a]) (es_reports s') (es_next s1)"
    unfolding s' using refs_ok_add [OF d(2) _ _ r, of ?i] i d(1) by (simp add: fresh_msg_def)
  moreover have "map em_report (es_msgs s') = (map em_report (es_msgs s1))[?i := Some a]"
    unfolding s' by (simp add: map_update)
  moreover have "report_codes_ok (es_reports s')"
    unfolding s' using d(3) report_codes_okD [OF d(3) r] by (simp add: report_codes_ok_upd)
  moreover have "msg_ok ?m" by (simp add: msg_ok_def fresh_msg_def)
  ultimately show ?thesis
    using s1(3) i(1) by (auto simp: errors_inv_def errors_inv_but_def s' in_set_conv_nth nth_list_update)
qed

lemma is_msg_no_index: "is_msg_no err \<Longrightarrow> nat (err - ERR_MESSAGE_MIN) < MESSAGE_CNT"
  by (auto simp: err_numbers)

lemma std_messages_not_msg: "is_msg_no err \<Longrightarrow> map_of std_messages (err - STD_ERR_BASE) = None"
  by (auto simp: err_numbers std_messages_def)

text \<open>A number without a report has a text.\<close>

lemma errno_to_str_ok:
  assumes inv: "errors_inv s" and none: "is_msg_no err \<Longrightarrow> em_report (msg_of s err) = None"
  obtains t where "errno_to_str env s err = Some (Inr (Some t))"
proof (cases "map_of std_messages (err - STD_ERR_BASE) = None \<and> err \<noteq> 0 \<and> is_msg_no err")
  case True
  then have "msg_ok (msg_of s err)"
    using errors_invD(5) [OF inv is_msg_no_index] by (simp add: msg_of_def)
  with True none have "\<exists>t. errno_to_str env s err = Some (Inr (Some t))"
    by (subst errno_to_str.simps) (auto simp: Let_def msg_ok_def split: msg_source.splits)
  with that show ?thesis by blast
next
  case False
  then have "\<exists>t. errno_to_str env s err = Some (Inr (Some t))"
    by (subst errno_to_str.simps) (auto split: option.splits)
  with that show ?thesis by blast
qed

lemma new_report_ok:
  assumes "\<not> is_msg_no err"
  obtains r where "new_report env f err = Inr r" "rb_refs r = 1" "rb_gets r = 1" "\<not> is_msg_no (rb_posix_code r)"
    "er_format (rb_pub r) = Some f"
  using assms
  by (cases "err < STD_ERR_BASE \<or> err > ERR_MESSAGE_MAX")
    (auto simp: new_report_def Let_def posix_report_def err_numbers add_report_prop_str_def add_report_prop_int_def
      add_report_prop_def)

lemma get_error_report_ok:
  assumes inv: "errors_inv s"
  obtains "err = 0" "get_error_report env err s = Inr (None, s)"
  | a s' where "err \<noteq> 0" "get_error_report env err s = Inr (Some a, s')" "errors_inv s'" "held s' a"
proof (cases "is_msg_no err \<and> em_report (msg_of s err) \<noteq> None")
  case True
  then obtain a where a: "em_report (msg_of s err) = Some a" by auto
  have i: "nat (err - ERR_MESSAGE_MIN) < length (map em_report (es_msgs s))"
    using True is_msg_no_index errors_invD(1) [OF inv] by simp
  obtain r where r: "es_reports s a = Some r"
    using slot_live [OF errors_invD(2) [OF inv] i, of a] a i by (auto simp: msg_of_def)
  let ?s' = "s\<lparr>es_reports := (es_reports s)(a \<mapsto> r\<lparr>rb_refs := rb_refs r + 1, rb_gets := rb_gets r + 1\<rparr>)\<rparr>"
  have "errors_inv ?s'"
    using inv refs_ok_get [OF errors_invD(2) [OF inv] r] report_codes_okD [OF errors_invD(3) [OF inv] r]
    by (simp add: errors_inv_def report_codes_ok_upd)
  moreover have "held ?s' a" using refs_okD [OF errors_invD(2) [OF inv] r] by (simp add: held_def)
  moreover have "get_error_report env err s = Inr (Some a, ?s')"
    using True a r by (simp add: get_error_report_def reader_simps err_ops)
  moreover have "err \<noteq> 0" using True by (auto simp: err_numbers)
  ultimately show ?thesis using that(2) by blast
next
  case none: False
  show ?thesis
  proof (cases "err = 0")
    case True
    with none that(1) show ?thesis by (auto simp: get_error_report_def reader_simps)
  next
    case False
    obtain t where t: "errno_to_str env s err = Some (Inr (Some t))"
      using errno_to_str_ok [OF inv, of err env] none by auto
    let ?e = "if is_msg_no err then
        (if em_source (msg_of s err) = SRC_MESSAGE then em_error (msg_of s err) else error_no ERR_OTHER) else err"
    let ?i = "nat (err - ERR_MESSAGE_MIN)"
    have "\<not> is_msg_no ?e"
    proof (cases "is_msg_no err")
      case True
      then have "msg_ok (msg_of s err)"
        using errors_invD(5) [OF inv is_msg_no_index] by (simp add: msg_of_def)
      then show ?thesis by (auto simp: msg_ok_def) (auto simp: err_numbers)
    qed simp
    then obtain r where r: "new_report env t ?e = Inr r" "rb_refs r = 1" "rb_gets r = 1" "\<not> is_msg_no (rb_posix_code r)"
      by (rule new_report_ok)
    note d = errors_invD [OF inv]
    show ?thesis
    proof (cases "is_msg_no err")
      case True
      let ?a = "es_next s"
      let ?m = "(msg_of s err)\<lparr>em_report := Some ?a\<rparr>"
      let ?s' = "s\<lparr>es_reports := (es_reports s)(?a \<mapsto> r\<lparr>rb_refs := rb_refs r + 1\<rparr>), es_next := Suc ?a,
        es_msgs := (es_msgs s)[?i := ?m]\<rparr>"
      have i: "?i < length (es_msgs s)" using True is_msg_no_index d(1) by simp
      have "get_error_report env err s = Inr (Some ?a, ?s')"
        using False none True t r(1) by (simp add: get_error_report_def reader_simps err_ops callE_def msg_of_def)
      moreover have "refs_ok (map em_report (es_msgs ?s')) (es_reports ?s') (es_next ?s')"
        using refs_ok_new_slot [OF d(2), of ?i "r\<lparr>rb_refs := rb_refs r + 1\<rparr>"] i r none True
        by (simp add: map_update msg_of_def)
      moreover have "\<forall>x \<in> set (es_msgs ?s'). msg_ok x"
        using d(5) [OF is_msg_no_index [OF True]] inv set_update_subset_insert [of "es_msgs s" ?i ?m]
        by (auto simp: msg_ok_def msg_of_def errors_inv_def)
      ultimately show ?thesis
        using that(2) [of ?a ?s'] False inv i r
        by (simp add: errors_inv_def held_def report_codes_ok_upd)
    next
      case no: False
      let ?a = "es_next s"
      let ?s' = "s\<lparr>es_reports := (es_reports s)(?a \<mapsto> r), es_next := Suc ?a\<rparr>"
      have "get_error_report env err s = Inr (Some ?a, ?s')"
        using False no t r(1) by (simp add: get_error_report_def reader_simps err_ops callE_def)
      then show ?thesis
        using that(2) [of ?a ?s'] False inv r refs_ok_new [OF d(2), of r]
        by (simp add: errors_inv_def held_def report_codes_ok_upd)
    qed
  qed
qed

lemma create_report_buffer_ok:
  assumes inv: "errors_inv s" and run: "create_report_buffer s = Inr (a, s')"
  shows "errors_inv s'"
  using run inv refs_ok_new [OF errors_invD(2) [OF inv]]
  by (auto simp: create_report_buffer_def err_ops errors_inv_def report_codes_ok_upd err_numbers)

lemma release_error_report_ok:
  assumes inv: "errors_inv s" and held: "held s a"
  obtains s' where "release_error_report (Some a) s = Inr ((), s')" "errors_inv s'"
proof -
  note d = errors_invD [OF inv]
  obtain r where r: "es_reports s a = Some r" "0 < rb_gets r" using held by (auto simp: held_def)
  let ?v = "if rb_refs r - 1 = 0 then None else Some (r\<lparr>rb_gets := rb_gets r - 1, rb_refs := rb_refs r - 1\<rparr>)"
  let ?s' = "s\<lparr>es_reports := (es_reports s)(a := ?v)\<rparr>"
  have "rb_refs r \<ge> rb_gets r" using refs_okD [OF d(2) r(1)] by simp
  then have "release_error_report (Some a) s = Inr ((), ?s')"
    using r by (simp add: release_error_report_def release_report_def reader_simps err_ops)
  moreover have "errors_inv ?s'"
    using inv refs_ok_release [OF d(2) r] d(3) report_codes_okD [OF d(3) r(1)]
    by (simp add: errors_inv_def report_codes_ok_upd report_codes_ok_del)
  ultimately show ?thesis using that by blast
qed

section \<open>Reachable states\<close>

text \<open>
  The calls of the module that return, by clients that give back and pass on only reports they hold. A client that
  holds a report may fill it in, as read_error_object of json.c does.
\<close>

inductive err_step :: "err_env \<Rightarrow> errors \<Rightarrow> errors \<Rightarrow> bool" for env where
  step_set_errno: "set_errno env no msg s = Inr (err, s') \<Longrightarrow> err_step env s s'"
| step_set_gai_errno: "set_gai_errno no s = Inr (err, s') \<Longrightarrow> err_step env s s'"
| step_get_error_report: "get_error_report env no s = Inr (r, s') \<Longrightarrow> err_step env s s'"
| step_create_error_report: "create_report_buffer s = Inr (a, s') \<Longrightarrow> err_step env s s'"
| step_fill: "held s a \<Longrightarrow> es_reports s a = Some r \<Longrightarrow>
    err_step env s (s\<lparr>es_reports := (es_reports s)(a \<mapsto> r\<lparr>rb_pub := p\<rparr>)\<rparr>)"
| step_set_error_report_errno: "held s a \<Longrightarrow> set_error_report_errno (Some a) s = Inr (err, s') \<Longrightarrow> err_step env s s'"
| step_release_error_report: "held s a \<Longrightarrow> release_error_report (Some a) s = Inr ((), s') \<Longrightarrow> err_step env s s'"

inductive err_reachable :: "err_env \<Rightarrow> errors \<Rightarrow> bool" for env where
  reach_init: "err_reachable env errors_init"
| reach_step: "err_reachable env s \<Longrightarrow> err_step env s s' \<Longrightarrow> err_reachable env s'"

lemma errors_inv_init: "errors_inv errors_init"
  by (auto simp: errors_inv_def errors_init_def refs_ok_def slot_count_def report_codes_ok_def msg_ok_def MESSAGE_CNT_def)

lemma err_step_inv: "err_step env s s' \<Longrightarrow> errors_inv s \<Longrightarrow> errors_inv s'"
proof (induction rule: err_step.induct)
  case (step_set_errno no msg s err s')
  then show ?case using set_errno_ok(1) by blast
next
  case (step_set_gai_errno no s err s')
  then show ?case using set_gai_errno_ok [of s no] by auto
next
  case (step_get_error_report no s r s')
  show ?case
    by (rule get_error_report_ok [OF step_get_error_report(2), of no env]) (use step_get_error_report in simp_all)
next
  case (step_create_error_report s a s')
  then show ?case using create_report_buffer_ok by blast
next
  case (step_fill s a r p)
  note d = errors_invD [OF step_fill(3)]
  from step_fill refs_ok_pub [OF d(2) step_fill(2)] report_codes_okD [OF d(3) step_fill(2)] show ?case
    by (simp add: errors_inv_def report_codes_ok_upd)
next
  case (step_set_error_report_errno s a err s')
  then show ?case using set_error_report_errno_ok by blast
next
  case (step_release_error_report s a s')
  then show ?case using release_error_report_ok [of s a] by auto
qed

lemma err_reachable_inv: "err_reachable env s \<Longrightarrow> errors_inv s"
  by (induction rule: err_reachable.induct) (auto intro: errors_inv_init err_step_inv)

section \<open>Texts\<close>

text \<open>A text without quotes and braces is its own message.\<close>

lemma format_loop_plain:
  "39 \<notin> set f \<Longrightarrow> of_char (CHR ''{'') \<notin> set f \<Longrightarrow> format_loop env params False buf f = Inr (buf @ f)"
  by (induction f arbitrary: buf) (auto simp: format_loop.simps(2))

lemma set_errno_other:
  assumes inv: "errors_inv s"
  obtains s' where "set_errno env (error_no ERR_OTHER) (Some msg) s = Inr (ERR_MESSAGE_MIN + int (es_msgs_pos s), s')"
    "es_msgs s' = (es_msgs s)[es_msgs_pos s := \<lparr>em_source = SRC_MESSAGE, em_error = error_no ERR_OTHER,
      em_text = Some msg, em_report = None\<rparr>]"
    "es_msgs_pos s' = next_pos (es_msgs_pos s)"
proof -
  let ?s0 = "s\<lparr>es_errno := error_no ERR_OTHER\<rparr>"
  let ?i = "es_msgs_pos s"
  obtain s1 where s1: "alloc_msg SRC_MESSAGE ?s0 = Inr (?i, s1)" "es_msgs s1 = (es_msgs s)[?i := fresh_msg SRC_MESSAGE]"
      "es_msgs_pos s1 = next_pos ?i" "es_errno s1 = ERR_MESSAGE_MIN + int ?i"
    using alloc_msg_ok [of ?s0 SRC_MESSAGE] inv by auto
  have i: "?i < length (es_msgs s)" using errors_invD [OF inv] by simp
  have o: "error_no ERR_OTHER \<noteq> 0" "\<not> is_msg_no (error_no ERR_OTHER)" by (auto simp: err_numbers)
  show ?thesis
    using that s1 i o
    by (auto simp: set_errno_def reader_simps err_ops callE_def get_error_code_plain fresh_msg_def simp del: error_no.simps)
qed

lemma errno_to_str_message:
  assumes "is_msg_no err" "msg_of s err = \<lparr>em_source = SRC_MESSAGE, em_error = e, em_text = Some t, em_report = None\<rparr>"
  shows "errno_to_str env s err = Some (Inr (Some t))"
  using assms std_messages_not_msg [OF assms(1)]
  by (subst errno_to_str.simps) (auto simp: Let_def err_numbers)

lemma msg_number:
  assumes "i < MESSAGE_CNT"
  shows "is_msg_no (ERR_MESSAGE_MIN + int i)" "msg_of s (ERR_MESSAGE_MIN + int i) = es_msgs s ! i"
  using assms by (auto simp: err_numbers msg_of_def)

section \<open>Registering messages\<close>

definition message_slot :: "byte list \<Rightarrow> ErrorMessage" where
  "message_slot m = \<lparr>em_source = SRC_MESSAGE, em_error = error_no ERR_OTHER, em_text = Some m, em_report = None\<rparr>"

primrec set_errnos :: "err_env \<Rightarrow> byte list list \<Rightarrow> int list err_op" where
  "set_errnos env [] = retR []"
| "set_errnos env (m # ms) =
     bindR (set_errno env (error_no ERR_OTHER) (Some m)) (\<lambda>e. bindR (set_errnos env ms) (\<lambda>es. retR (e # es)))"

lemma next_pos_mod: "p < MESSAGE_CNT \<Longrightarrow> (next_pos p + i) mod MESSAGE_CNT = (p + Suc i) mod MESSAGE_CNT"
proof (cases "Suc p < MESSAGE_CNT")
  case False
  assume "p < MESSAGE_CNT"
  with False have p: "p + Suc i = MESSAGE_CNT + i" by simp
  have "(p + Suc i) mod MESSAGE_CNT = i mod MESSAGE_CNT" unfolding p by simp
  with False show ?thesis by (simp only: next_pos_def not_less if_True add_0)
qed (simp add: next_pos_def)

text \<open>Going round the ring, the slots are different for fewer steps than there are slots.\<close>

lemma ring_inj: "inj_on (\<lambda>i. (p + i) mod MESSAGE_CNT) {0..<MESSAGE_CNT}"
proof (rule linorder_inj_onI)
  fix i j
  assume "i < j" "i \<in> {0..<MESSAGE_CNT}" "j \<in> {0..<MESSAGE_CNT}"
  then have "\<not> MESSAGE_CNT dvd (p + j) - (p + i)" by (auto dest: dvd_imp_le)
  then show "(p + i) mod MESSAGE_CNT \<noteq> (p + j) mod MESSAGE_CNT"
    using \<open>i < j\<close> mod_eq_dvd_iff_nat [of "p + i" "p + j" MESSAGE_CNT] by auto
qed auto

lemma set_errnos_ok:
  assumes "errors_inv s" "length ms \<le> MESSAGE_CNT"
  shows "\<exists>s'. set_errnos env ms s =
      Inr (map (\<lambda>i. ERR_MESSAGE_MIN + int ((es_msgs_pos s + i) mod MESSAGE_CNT)) [0..<length ms], s') \<and>
    (\<forall>i < length ms. es_msgs s' ! ((es_msgs_pos s + i) mod MESSAGE_CNT) = message_slot (ms ! i)) \<and>
    (\<forall>j. (\<forall>i < length ms. j \<noteq> (es_msgs_pos s + i) mod MESSAGE_CNT) \<longrightarrow> es_msgs s' ! j = es_msgs s ! j)"
  using assms
proof (induction ms arbitrary: s)
  case Nil
  show ?case by (rule exI [of _ s]) (simp add: retR_def)
next
  case (Cons m ms)
  let ?p = "es_msgs_pos s"
  obtain s1 where s1: "set_errno env (error_no ERR_OTHER) (Some m) s = Inr (ERR_MESSAGE_MIN + int ?p, s1)"
      "es_msgs s1 = (es_msgs s)[?p := message_slot m]" "es_msgs_pos s1 = next_pos ?p"
    using set_errno_other [OF Cons.prems(1)] unfolding message_slot_def by blast
  have inv1: "errors_inv s1" by (rule set_errno_ok(1) [OF Cons.prems(1) s1(1)])
  have p: "?p < MESSAGE_CNT" "?p < length (es_msgs s)" using errors_invD [OF Cons.prems(1)] by simp_all
  have ring: "(es_msgs_pos s1 + i) mod MESSAGE_CNT = (?p + Suc i) mod MESSAGE_CNT" for i
    using next_pos_mod [OF p(1)] s1(3) by simp
  obtain s' where s': "set_errnos env ms s1 =
        Inr (map (\<lambda>i. ERR_MESSAGE_MIN + int ((?p + Suc i) mod MESSAGE_CNT)) [0..<length ms], s')"
      "\<forall>i < length ms. es_msgs s' ! ((?p + Suc i) mod MESSAGE_CNT) = message_slot (ms ! i)"
      "\<forall>j. (\<forall>i < length ms. j \<noteq> (?p + Suc i) mod MESSAGE_CNT) \<longrightarrow> es_msgs s' ! j = es_msgs s1 ! j"
    using Cons.IH [OF inv1] Cons.prems(2) unfolding ring by auto
  have ne: "?p \<noteq> (?p + Suc i) mod MESSAGE_CNT" if "i < length ms" for i
    using inj_onD [OF ring_inj [of ?p], of 0 "Suc i"] that Cons.prems(2) p by auto
  have nums: "map f [0..<Suc n] = f 0 # map (\<lambda>i. f (Suc i)) [0..<n]" for f :: "nat \<Rightarrow> int" and n
    by (simp add: upt_conv_Cons map_Suc_upt [symmetric] comp_def del: upt_Suc)
  have first: "es_msgs s' ! (?p mod MESSAGE_CNT) = message_slot m"
    using s'(3) ne s1(2) p by simp
  show ?case
  proof (rule exI [of _ s'], intro conjI allI impI)
    show "set_errnos env (m # ms) s =
        Inr (map (\<lambda>i. ERR_MESSAGE_MIN + int ((?p + i) mod MESSAGE_CNT)) [0..<length (m # ms)], s')"
      using s1(1) s'(1) p by (simp add: reader_simps nums del: error_no.simps upt_Suc)
  next
    fix i assume "i < length (m # ms)"
    then show "es_msgs s' ! ((?p + i) mod MESSAGE_CNT) = message_slot ((m # ms) ! i)"
      using first s'(2) by (cases i) simp_all
  next
    fix j assume j: "\<forall>i < length (m # ms). j \<noteq> (?p + i) mod MESSAGE_CNT"
    then have "j \<noteq> ?p" "\<forall>i < length ms. j \<noteq> (?p + Suc i) mod MESSAGE_CNT"
      using p by force+
    then show "es_msgs s' ! j = es_msgs s ! j" using s'(3) s1(2) by simp
  qed
qed

section \<open>Loops\<close>

lemma get_error_code_ok:
  assumes inv: "errors_inv s" and codes: "\<forall>m \<in> set (es_msgs s). em_source m = SRC_REPORT \<longrightarrow> \<not> is_msg_no (em_error m)"
  shows "\<exists>c. get_error_code s no = Some (Inr c)"
proof (cases "is_msg_no no")
  case True
  let ?i = "nat (no - ERR_MESSAGE_MIN)"
  have i: "?i < length (es_msgs s)" using is_msg_no_index [OF True] errors_invD(1) [OF inv] by simp
  then have "msg_of s no \<in> set (es_msgs s)" by (simp add: msg_of_def)
  with codes inv have e: "em_source (msg_of s no) = SRC_REPORT \<or> em_source (msg_of s no) = SRC_MESSAGE \<Longrightarrow>
      \<not> is_msg_no (em_error (msg_of s no))"
    by (auto simp: errors_inv_def msg_ok_def)
  have "em_report (msg_of s no) = Some a \<Longrightarrow> \<exists>r. es_reports s a = Some r" for a
    using slot_live [OF errors_invD(2) [OF inv], of ?i a] i by (auto simp: msg_of_def)
  with True e show ?thesis
    by (subst get_error_code.simps) (auto simp: Let_def get_error_code_plain split: option.splits)
qed (simp add: get_error_code_plain)

lemma get_error_code_loop:
  assumes "is_msg_no no" "msg_of s no = m" "em_source m = SRC_REPORT" "em_error m = no" "em_report m = Some a"
    "es_reports s a = Some r" "rb_posix_code r = 0"
  shows "get_error_code s no = None"
proof (rule ccontr)
  assume "get_error_code s no \<noteq> None"
  then obtain y where y: "get_error_code s no = Some y" by blast
  let ?P = "\<lambda>(s1 :: errors) (no1 :: int) (y :: exn + int). \<not> (s1 = s \<and> no1 = no)"
  have "?P s no y"
  proof (rule get_error_code.raw_induct [where P = ?P, OF _ y])
    fix f s1 no1 y1
    assume IH: "\<And>s no y. f s no = Some y \<Longrightarrow> ?P s no y"
    assume "(if is_msg_no no1 then let m = msg_of s1 no1 in
          if em_source m = SRC_REPORT \<or> em_source m = SRC_MESSAGE then
            case em_report m of None \<Rightarrow> f s1 (em_error m)
            | Some a \<Rightarrow> (case es_reports s1 a of None \<Rightarrow> Some (Inl Undefined)
                | Some r \<Rightarrow> if rb_posix_code r \<noteq> 0 then Some (Inr (rb_posix_code r)) else f s1 (em_error m))
          else Some (Inr (error_no ERR_OTHER))
        else Some (Inr no1)) = Some y1"
    with assms show "?P s1 no1 y1" by (auto simp: Let_def dest: IH)
  qed
  then show False by simp
qed

lemma compare_props_refl: "compare_props ps ps"
  by (induction ps) simp_all

section \<open>Properties\<close>



text \<open>get_error_report succeeds in every reachable state for every number: none of its assertions fails, it never follows
  a null or dangling pointer, and the report it returns for a number other than 0 is held by the caller.\<close>

theorem get_error_report_succeeds:
  assumes "err_reachable env s"
  shows "\<exists>s'. (err = 0 \<and> get_error_report env err s = Inr (None, s')) \<or>
    (\<exists>a. err \<noteq> 0 \<and> get_error_report env err s = Inr (Some a, s') \<and> held s' a)"
  by (rule get_error_report_ok [OF err_reachable_inv [OF assms], of err env]) blast+

theorem get_error_report_succeeds_witness:
  "\<exists>a s'. get_error_report \<lparr>env_strerror = \<lambda>_. None, env_gai_strerror = \<lambda>_. [], env_format_number = \<lambda>_ _. None, env_clock = None\<rparr>
     2 errors_init = Inr (Some a, s') \<and> held s' a"
  using get_error_report_succeeds [OF reach_init, where err = 2 and env = "\<lparr>env_strerror = \<lambda>_. None,
    env_gai_strerror = \<lambda>_. [], env_format_number = \<lambda>_ _. None, env_clock = None\<rparr>"] by auto

text \<open>a client that holds a report can give it back: no assertion of release_error_report or release_report fails in any
  reachable state.\<close>

theorem release_error_report_succeeds:
  assumes "err_reachable env s" "held s a"
  shows "\<exists>s'. release_error_report (Some a) s = Inr ((), s')"
  by (rule release_error_report_ok [OF err_reachable_inv [OF assms(1)] assms(2)]) blast

definition one_report :: errors where
  "one_report = errors_init\<lparr>es_reports := [0 \<mapsto> \<lparr>rb_pub = create_error_report, rb_posix_code = 0, rb_refs = 1, rb_gets = 1\<rparr>],
     es_next := 1\<rparr>"

lemma create_one_report: "create_report_buffer errors_init = Inr (0, one_report)"
  by (simp add: create_report_buffer_def alloc_report_def one_report_def errors_init_def)

theorem release_error_report_succeeds_witness:
  "\<exists>s'. release_error_report (Some 0) one_report = Inr ((), s')"
proof (rule release_error_report_succeeds)
  let ?env = "\<lparr>env_strerror = \<lambda>_. None, env_gai_strerror = \<lambda>_. [], env_format_number = \<lambda>_ _. None, env_clock = None\<rparr>"
  show "err_reachable ?env one_report"
    by (rule reach_step [OF reach_init step_create_error_report [OF create_one_report]])
  show "held one_report 0" by (simp add: held_def one_report_def)
qed

text \<open>get_error_code returns in every reachable state in which no report in a slot carries a code that is itself a message
  number, and its result is then no message number.\<close>

theorem get_error_code_returns:
  assumes "err_reachable env s" "\<forall>m \<in> set (es_msgs s). em_source m = SRC_REPORT \<longrightarrow> \<not> is_msg_no (em_error m)"
  shows "\<exists>c. get_error_code s no = Some (Inr c) \<and> \<not> is_msg_no c"
  using get_error_code_ok [OF err_reachable_inv [OF assms(1)] assms(2), of no]
    get_error_code_not_msg [of s no] errors_invD(3) [OF err_reachable_inv [OF assms(1)]] by auto

theorem get_error_code_returns_witness: "\<exists>c. get_error_code errors_init (ERR_MESSAGE_MIN + 7) = Some (Inr c) \<and> \<not> is_msg_no c"
  by (rule get_error_code_returns [OF reach_init]) (simp add: errors_init_def)

text \<open>a remote error report whose code, moved to the agent's range, is the number of the slot it gets makes get_error_code
  go round for ever.\<close>

theorem get_error_code_diverges:
  assumes "err_reachable env s" "es_reports s a = Some r" "0 < rb_gets r" "rb_posix_code r = 0"
    "er_code (rb_pub r) = 100 + int (es_msgs_pos s)"
  shows "\<exists>err s'. set_error_report_errno (Some a) s = Inr (err, s') \<and> get_error_code s' err = None"
proof -
  let ?i = "es_msgs_pos s"
  have inv: "errors_inv s" by (rule err_reachable_inv [OF assms(1)])
  obtain s1 where s1: "alloc_msg SRC_REPORT (s\<lparr>es_errno := 0\<rparr>) = Inr (?i, s1)" "es_msgs s1 = (es_msgs s)[?i := fresh_msg SRC_REPORT]"
      "es_errno s1 = ERR_MESSAGE_MIN + int ?i" "keeps_held s s1"
    using alloc_msg_ok [of "s\<lparr>es_errno := 0\<rparr>" SRC_REPORT] inv by auto
  obtain n where r: "es_reports s1 a = Some (r\<lparr>rb_refs := n\<rparr>)"
    using s1(4) assms(2,3) by (auto simp: keeps_held_def)
  have i: "?i < MESSAGE_CNT" "?i < length (es_msgs s)" using errors_invD [OF inv] by simp_all
  let ?err = "ERR_MESSAGE_MIN + int ?i"
  let ?m = "(fresh_msg SRC_REPORT)\<lparr>em_error := ?err, em_report := Some a\<rparr>"
  let ?s' = "s1\<lparr>es_msgs := (es_msgs s)[?i := ?m], es_reports := (es_reports s1)(a \<mapsto> r\<lparr>rb_refs := n + 1\<rparr>)\<rparr>"
  have code: "er_code (rb_pub r) + STD_ERR_BASE = ?err" "?err \<le> INT_MAX"
    using assms(5) i(1) by (auto simp: err_numbers INT_MAX_def)
  have "set_error_report_errno (Some a) s = Inr (?err, ?s')"
    using s1 r i code by (simp add: set_error_report_errno_def reader_simps err_ops)
  moreover have "get_error_code ?s' ?err = None"
  proof (rule get_error_code_loop [where a = a and r = "r\<lparr>rb_refs := n + 1\<rparr>"])
    show "is_msg_no ?err" "msg_of ?s' ?err = ?m"
      using msg_number [OF i(1)] i by simp_all
  qed (use assms(4) in \<open>simp_all add: fresh_msg_def\<close>)
  ultimately show ?thesis by blast
qed

theorem get_error_code_diverges_witness:
  "\<exists>err s'. set_error_report_errno (Some 0) (one_report\<lparr>es_reports := [0 \<mapsto> \<lparr>rb_pub = create_error_report\<lparr>er_code := 100\<rparr>,
      rb_posix_code = 0, rb_refs = 1, rb_gets = 1\<rparr>]\<rparr>) = Inr (err, s') \<and> get_error_code s' err = None"
proof (rule get_error_code_diverges [where r = "\<lparr>rb_pub = create_error_report\<lparr>er_code := 100\<rparr>,
      rb_posix_code = 0, rb_refs = 1, rb_gets = 1\<rparr>"])
  let ?env = "\<lparr>env_strerror = \<lambda>_. None, env_gai_strerror = \<lambda>_. [], env_format_number = \<lambda>_ _. None, env_clock = None\<rparr>"
  have "err_reachable ?env one_report"
    by (rule reach_step [OF reach_init step_create_error_report [OF create_one_report]])
  then show "err_reachable ?env (one_report\<lparr>es_reports := [0 \<mapsto> \<lparr>rb_pub = create_error_report\<lparr>er_code := 100\<rparr>,
      rb_posix_code = 0, rb_refs = 1, rb_gets = 1\<rparr>]\<rparr>)"
    by (rule reach_step)
      (use step_fill [of one_report 0 "\<lparr>rb_pub = create_error_report, rb_posix_code = 0, rb_refs = 1, rb_gets = 1\<rparr>" ?env
          "create_error_report\<lparr>er_code := 100\<rparr>"] in \<open>simp add: held_def one_report_def\<close>)
qed (simp_all add: one_report_def errors_init_def)

text \<open>as many messages as there are slots can be registered one after the other, whatever was registered before: each gets a
  number of its own, and errno_to_str then gives the text of each of them.\<close>

theorem messages_survive:
  assumes "err_reachable env s" "length ms \<le> MESSAGE_CNT"
  shows "\<exists>es s'. set_errnos env ms s = Inr (es, s') \<and> length es = length ms \<and> distinct es \<and>
    (\<forall>i < length ms. errno_to_str env s' (es ! i) = Some (Inr (Some (ms ! i))))"
proof -
  let ?p = "es_msgs_pos s"
  let ?es = "map (\<lambda>i. ERR_MESSAGE_MIN + int ((?p + i) mod MESSAGE_CNT)) [0..<length ms]"
  obtain s' where s': "set_errnos env ms s = Inr (?es, s')"
      "\<forall>i < length ms. es_msgs s' ! ((?p + i) mod MESSAGE_CNT) = message_slot (ms ! i)"
    using set_errnos_ok [OF err_reachable_inv [OF assms(1)] assms(2)] by blast
  have "errno_to_str env s' (?es ! i) = Some (Inr (Some (ms ! i)))" if "i < length ms" for i
    using that s'(2) msg_number(1) [of "(?p + i) mod MESSAGE_CNT"] msg_number(2) [of "(?p + i) mod MESSAGE_CNT" s']
    by (intro errno_to_str_message [of _ _ "error_no ERR_OTHER"]) (simp_all add: message_slot_def MESSAGE_CNT_def)
  moreover have "distinct ?es"
    using inj_on_subset [OF ring_inj [of ?p], where B = "{0..<length ms}"] assms(2) by (auto simp: distinct_map inj_on_def)
  ultimately show ?thesis using s'(1) by (intro exI [of _ ?es] exI [of _ s']) simp
qed

theorem messages_survive_witness:
  "\<exists>es s'. set_errnos \<lparr>env_strerror = \<lambda>_. None, env_gai_strerror = \<lambda>_. [], env_format_number = \<lambda>_ _. None, env_clock = None\<rparr>
      [bytes_of ''first'', bytes_of ''second''] errors_init = Inr (es, s') \<and> length es = 2 \<and> distinct es \<and>
    errno_to_str \<lparr>env_strerror = \<lambda>_. None, env_gai_strerror = \<lambda>_. [], env_format_number = \<lambda>_ _. None, env_clock = None\<rparr> s' (es ! 0) =
      Some (Inr (Some (bytes_of ''first'')))"
  using messages_survive [OF reach_init [of "\<lparr>env_strerror = \<lambda>_. None, env_gai_strerror = \<lambda>_. [],
    env_format_number = \<lambda>_ _. None, env_clock = None\<rparr>"], of "[bytes_of ''first'', bytes_of ''second'']"]
  by (force simp: MESSAGE_CNT_def)

text \<open>set_errno with a message on top of the oldest number still in the ring dereferences a null pointer: the slot of that
  number is cleared before its text is read.\<close>

theorem set_errno_on_oldest_crashes:
  assumes "err_reachable env s"
  shows "set_errno env (ERR_MESSAGE_MIN + int (es_msgs_pos s)) (Some msg) s = Inl Undefined"
proof -
  let ?i = "es_msgs_pos s"
  let ?no = "ERR_MESSAGE_MIN + int ?i"
  have inv: "errors_inv s" by (rule err_reachable_inv [OF assms])
  obtain s1 where s1: "alloc_msg SRC_MESSAGE (s\<lparr>es_errno := ?no\<rparr>) = Inr (?i, s1)" "es_msgs s1 = (es_msgs s)[?i := fresh_msg SRC_MESSAGE]"
    using alloc_msg_ok [of "s\<lparr>es_errno := ?no\<rparr>" SRC_MESSAGE] inv by auto
  have i: "?i < MESSAGE_CNT" "?i < length (es_msgs s)" using errors_invD [OF inv] by simp_all
  have n: "?no \<noteq> 0" "?no \<noteq> error_no ERR_OTHER" by (auto simp: err_numbers)
  have m: "is_msg_no ?no" "msg_of s1 ?no = fresh_msg SRC_MESSAGE"
    using msg_number [OF i(1)] s1(2) i(2) by simp_all
  have "get_error_code s1 ?no = Some (Inr 0)"
    using m by (subst get_error_code.simps) (simp add: fresh_msg_def get_error_code_plain err_numbers)
  moreover have "errno_to_str env (s1\<lparr>es_msgs := (es_msgs s)[?i := fresh_msg SRC_MESSAGE\<lparr>em_error := 0\<rparr>]\<rparr>) ?no = Some (Inr None)"
    using m n msg_number [OF i(1)] i(2) std_messages_not_msg [OF m(1)]
    by (subst errno_to_str.simps) (simp add: fresh_msg_def Let_def)
  ultimately show ?thesis
    using s1 n i by (simp add: set_errno_def reader_simps err_ops callE_def del: error_no.simps)
qed

theorem set_errno_on_oldest_crashes_witness:
  "set_errno \<lparr>env_strerror = \<lambda>_. None, env_gai_strerror = \<lambda>_. [], env_format_number = \<lambda>_ _. None, env_clock = None\<rparr>
     ERR_MESSAGE_MIN (Some (bytes_of ''x'')) errors_init = Inl Undefined"
  using set_errno_on_oldest_crashes [OF reach_init [of "\<lparr>env_strerror = \<lambda>_. None, env_gai_strerror = \<lambda>_. [],
    env_format_number = \<lambda>_ _. None, env_clock = None\<rparr>"], of "bytes_of ''x''"]
  by (simp add: errors_init_def)

text \<open>compare_error_reports does not compare the properties: two reports that differ in them only are the same to it.\<close>

theorem compare_ignores_props:
  "compare_error_reports (Some x) (Some (x\<lparr>er_props := ps, er_time_stamp := t\<rparr>))"
  by (simp add: compare_error_reports_def compare_props_refl)

text \<open>the text of a message becomes the format of its report unquoted: once a report was made for a message with an
  apostrophe, errno_to_str loses the apostrophe, and keeps a message without apostrophes and braces as it is.\<close>

theorem report_format_unquoted:
  "format_error_report_message env (bytes_of ''can'' @ 39 # bytes_of ''t open'') [] = Inr (bytes_of ''cant open'') \<and>
   format_error_report_message env (filter (\<lambda>c. c \<noteq> 39 \<and> c \<noteq> of_char (CHR ''{'')) f) ps =
     Inr (filter (\<lambda>c. c \<noteq> 39 \<and> c \<noteq> of_char (CHR ''{'')) f)"
  using format_loop_plain [of "filter (\<lambda>c. c \<noteq> 39 \<and> c \<noteq> of_char (CHR ''{'')) f" env ps "[]"]
  by (simp add: format_error_report_message_def format_loop.simps(2) bytes_of_def)

end
