(* ===== verification/Wire.thy ===== *)
theory Wire
  imports Streams
begin

text \<open>
  The encoding of stream items on the wire: what the bytes of a channel mean. A byte stands for itself except
  \<open>ESC\<close>, which starts an escape sequence: \<open>ESC 0\<close> is the byte \<open>ESC\<close>, \<open>ESC 1\<close> the end of a message,
  \<open>ESC 2\<close> the end of the stream, and \<open>ESC 3\<close> a block of binary data behind its size, seven bits of it in a byte.
  This is the specification both sides of a channel are measured against.
\<close>

datatype wire_state =
    Plain
  | Escaped
  | Size nat nat
  | Data nat
  | Invalid

text \<open>
  A size: how many bytes of it were read, and their value; it has at most four bytes (see \<open>size_bits\<close> of the input
  buffer). A block of no bytes is no block.
\<close>

definition data_state :: "nat \<Rightarrow> wire_state" where
  "data_state n = (if n = 0 then Plain else Data n)"

fun wire_step :: "wire_state \<Rightarrow> byte \<Rightarrow> int list \<times> wire_state" where
  "wire_step Plain b = (if uint b = ESC then ([], Escaped) else ([uint b], Plain))"
| "wire_step Escaped b =
     (if b = 0 then ([ESC], Plain)
      else if b = 1 then ([MARKER_EOM], Plain)
      else if b = 2 then ([MARKER_EOS], Plain)
      else if b = 3 then ([], Size 0 0)
      else ([], Invalid))"
| "wire_step (Size k n) b =
     (if 4 \<le> k then ([], Invalid)
      else
        let n' = n + (unat b mod 128) * 128 ^ k
        in ([], if unat b < 128 then data_state n' else Size (Suc k) n'))"
| "wire_step (Data n) b = ([uint b], data_state (n - 1))"
| "wire_step Invalid b = ([], Invalid)"

fun decode :: "wire_state \<Rightarrow> byte list \<Rightarrow> int list \<times> wire_state" where
  "decode st [] = ([], st)"
| "decode st (b # bs) =
     (let (xs, st') = wire_step st b; (ys, st'') = decode st' bs in (xs @ ys, st''))"

lemma decode_append:
  "decode st (as @ bs) = (fst (decode st as) @ fst (decode (snd (decode st as)) bs), snd (decode (snd (decode st as)) bs))"
  by (induction as arbitrary: st) (auto simp: Let_def split: prod.splits)

lemma decode_append_eq: "decode st as = (xs, st') \<Longrightarrow> decode st (as @ bs) = (xs @ fst (decode st' bs), snd (decode st' bs))"
  by (simp add: decode_append)

lemma decode_Invalid [simp]: "decode Invalid bs = ([], Invalid)"
  by (induction bs) simp_all

lemma decode_data: "length bs = n \<Longrightarrow> 0 < n \<Longrightarrow> decode (Data n) bs = (items_of bs, Plain)"
proof (induction bs arbitrary: n)
  case (Cons b bs)
  then show ?case by (cases "bs = []") (auto simp: data_state_def)
qed simp

lemma decode_plain: "\<forall>b \<in> set bs. uint b \<noteq> ESC \<Longrightarrow> decode Plain bs = (items_of bs, Plain)"
  by (induction bs) simp_all

text \<open>The escape sequence of an item that has one.\<close>

definition escape_code :: "int \<Rightarrow> byte" where
  "escape_code c = (if c = ESC then 0 else if c = MARKER_EOM then 1 else 2)"

lemma decode_escape:
  "c = ESC \<or> c = MARKER_EOM \<or> c = MARKER_EOS \<Longrightarrow> decode Plain [word_of_int ESC, escape_code c] = ([c], Plain)"
  by (auto simp: escape_code_def)

text \<open>A block of fewer than 2 ^ 14 bytes behind a size of two bytes.\<close>

lemma decode_block:
  assumes "length bs = n" "0 < n" "n < 16384"
  shows "decode Plain (word_of_int ESC # 3 # word_of_nat (n mod 128 + 128) # word_of_nat (n div 128) # bs) = (items_of bs, Plain)"
proof -
  have "n mod 128 < 128" by simp
  then have lo: "unat (word_of_nat (n mod 128 + 128) :: byte) = n mod 128 + 128"
    unfolding unat_of_nat by simp
  have hi: "unat (word_of_nat (n div 128) :: byte) = n div 128" "n div 128 < 128"
    using assms(3) by (simp_all add: unat_of_nat)
  have "n mod 128 + n div 128 * 128 = n" by simp
  with decode_data [OF assms(1,2)] assms(2) lo hi show ?thesis
    by (simp add: data_state_def Let_def)
qed

end
