(* ===== verification/Outputbuf.thy ===== *)
theory Outputbuf
  imports Prelude
begin

text \<open>
  framework/outputbuf.c: the queue of output buffers between a channel and its transport, and the pool of free
  buffers.

  A buffer is the data in it (\<open>buf_len\<close> bytes of at most \<open>OUTPUT_QUEUE_BUF_SIZE\<close>) and \<open>buf_pos\<close>, how much of it
  was transmitted. The callback \<open>post_io_request\<close> asks the transport to write the rest of a buffer; the
  requests the transport has not answered yet are the list \<open>oq_requests\<close>.
\<close>

section \<open>State and operations\<close>

definition OUTPUT_QUEUE_BUF_SIZE :: nat where "OUTPUT_QUEUE_BUF_SIZE = 4096"
definition MAX_POOL_SIZE :: nat where "MAX_POOL_SIZE = 32"

record OutputBuffer =
  ob_data :: "byte list"
  ob_pos :: nat

record OutputQueue =
  oq_error :: int
  oq_queue :: "OutputBuffer list"
  oq_requests :: "byte list list"
  oq_pool :: "OutputBuffer list"
  oq_pool_size :: nat

definition output_queue_ini :: "OutputBuffer list \<Rightarrow> OutputQueue" where
  "output_queue_ini pool = \<lparr>oq_error = 0, oq_queue = [], oq_requests = [], oq_pool = pool, oq_pool_size = length pool\<rparr>"

definition ob_rest :: "OutputBuffer \<Rightarrow> byte list" where
  "ob_rest bf = drop (ob_pos bf) (ob_data bf)"

definition post_io_request :: "OutputBuffer \<Rightarrow> OutputQueue \<Rightarrow> OutputQueue" where
  "post_io_request bf q = q\<lparr>oq_requests := oq_requests q @ [ob_rest bf]\<rparr>"

definition output_queue_alloc_obuf :: "OutputQueue \<Rightarrow> OutputBuffer \<times> OutputQueue" where
  "output_queue_alloc_obuf q =
     (case oq_pool q of
        [] \<Rightarrow> (\<lparr>ob_data = [], ob_pos = 0\<rparr>, q)
      | bf # pool \<Rightarrow> (bf\<lparr>ob_data := [], ob_pos := 0\<rparr>, q\<lparr>oq_pool := pool, oq_pool_size := oq_pool_size q - 1\<rparr>))"

definition output_queue_free_obuf :: "OutputBuffer \<Rightarrow> OutputQueue \<Rightarrow> OutputQueue" where
  "output_queue_free_obuf bf q =
     (if oq_pool_size q < MAX_POOL_SIZE
      then q\<lparr>oq_pool := oq_pool q @ [bf], oq_pool_size := Suc (oq_pool_size q)\<rparr> else q)"

text \<open>\<open>q->queue.next != q->queue.prev\<close>: more than one buffer is in the queue.\<close>

definition has_pending :: "OutputQueue \<Rightarrow> bool" where
  "has_pending q \<longleftrightarrow> length (oq_queue q) > 1"

definition list_add_last_obuf :: "OutputBuffer \<Rightarrow> OutputQueue \<Rightarrow> OutputQueue" where
  "list_add_last_obuf bf q =
     (let q1 = q\<lparr>oq_queue := oq_queue q @ [bf]\<rparr> in if oq_queue q = [] then post_io_request bf q1 else q1)"

definition append_last :: "byte list \<Rightarrow> OutputQueue \<Rightarrow> OutputQueue" where
  "append_last bs q =
     q\<lparr>oq_queue := butlast (oq_queue q) @
        [(last (oq_queue q))\<lparr>ob_data := ob_data (last (oq_queue q)) @ bs\<rparr>]\<rparr>"

definition output_queue_add_obuf :: "OutputBuffer \<Rightarrow> OutputQueue \<Rightarrow> exn + OutputQueue" where
  "output_queue_add_obuf bf q =
     (if has_pending q \<and> ob_pos (last (oq_queue q)) \<noteq> 0 then Inl Assertion
      else if has_pending q \<and> OUTPUT_QUEUE_BUF_SIZE - length (ob_data (last (oq_queue q))) \<ge> length (ob_data bf)
      then Inr (output_queue_free_obuf bf (append_last (ob_data bf) q))
      else Inr (list_add_last_obuf (bf\<lparr>ob_pos := 0\<rparr>) q))"

function add_chunks :: "byte list \<Rightarrow> OutputQueue \<Rightarrow> OutputQueue" where
  "add_chunks bs q =
     (if bs = [] then q
      else
        let len = min (length bs) OUTPUT_QUEUE_BUF_SIZE;
            (bf, q1) = output_queue_alloc_obuf q
        in add_chunks (drop len bs) (list_add_last_obuf (bf\<lparr>ob_pos := 0, ob_data := take len bs\<rparr>) q1))"
  by pat_completeness auto
termination
  by (relation "measure (\<lambda>(bs, q). length bs)") (auto simp: OUTPUT_QUEUE_BUF_SIZE_def)

declare add_chunks.simps [simp del]

definition output_queue_add :: "byte list \<Rightarrow> OutputQueue \<Rightarrow> exn + OutputQueue" where
  "output_queue_add bs q =
     (if oq_error q \<noteq> 0 then Inr q
      else if has_pending q \<and> ob_pos (last (oq_queue q)) \<noteq> 0 then Inl Assertion
      else if has_pending q then
        let gap = OUTPUT_QUEUE_BUF_SIZE - length (ob_data (last (oq_queue q)));
            len = min (length bs) gap
        in Inr (add_chunks (drop len bs) (append_last (take len bs) q))
      else Inr (add_chunks bs q))"

text \<open>Free the buffers of the queue, first to last.\<close>

definition output_queue_clear :: "OutputQueue \<Rightarrow> OutputQueue" where
  "output_queue_clear q = fold output_queue_free_obuf (oq_queue q) (q\<lparr>oq_queue := []\<rparr>)"

text \<open>
  \<open>output_queue_done\<close>: the transport has answered the request, with an error or with the number of bytes it wrote.
  The head of an empty queue would not be a buffer.
\<close>

definition output_queue_done :: "int \<Rightarrow> nat \<Rightarrow> OutputQueue \<Rightarrow> exn + OutputQueue" where
  "output_queue_done error n q =
     (if oq_error q \<noteq> 0 then Inl Assertion
      else case oq_queue q of
        [] \<Rightarrow> Inl Undefined
      | bf # bfs \<Rightarrow>
          let q0 = q\<lparr>oq_requests := tl (oq_requests q)\<rparr>;
              q1 = (if error \<noteq> 0 then output_queue_clear (q0\<lparr>oq_error := error\<rparr>)
                    else if ob_pos bf + n < length (ob_data bf)
                    then q0\<lparr>oq_queue := bf\<lparr>ob_pos := ob_pos bf + n\<rparr> # bfs\<rparr>
                    else output_queue_free_obuf (bf\<lparr>ob_pos := ob_pos bf + n\<rparr>) (q0\<lparr>oq_queue := bfs\<rparr>))
          in Inr (case oq_queue q1 of [] \<Rightarrow> q1 | bf1 # _ \<Rightarrow> post_io_request bf1 q1))"

section \<open>The invariant\<close>

text \<open>
  No buffer in the queue is empty or too long, only the first one is partly transmitted, exactly the rest of the
  first one is requested, and the pool is not larger than its bound.
\<close>

definition oq_bytes :: "OutputQueue \<Rightarrow> byte list" where
  "oq_bytes q = concat (map ob_rest (oq_queue q))"

definition ob_ok :: "OutputBuffer \<Rightarrow> bool" where
  "ob_ok bf \<longleftrightarrow> ob_pos bf < length (ob_data bf) \<and> length (ob_data bf) \<le> OUTPUT_QUEUE_BUF_SIZE"

definition requested :: "OutputBuffer list \<Rightarrow> byte list list" where
  "requested bfs = (case bfs of [] \<Rightarrow> [] | bf # _ \<Rightarrow> [ob_rest bf])"

definition pool_ok :: "OutputQueue \<Rightarrow> bool" where
  "pool_ok q \<longleftrightarrow> oq_pool_size q = length (oq_pool q) \<and> oq_pool_size q \<le> MAX_POOL_SIZE"

definition oq_inv :: "OutputQueue \<Rightarrow> bool" where
  "oq_inv q \<longleftrightarrow>
     (\<forall>bf \<in> set (oq_queue q). ob_ok bf) \<and> (\<forall>bf \<in> set (tl (oq_queue q)). ob_pos bf = 0) \<and>
     oq_requests q = requested (oq_queue q) \<and> pool_ok q"

lemma pool_ok_update [simp]:
  "pool_ok (q\<lparr>oq_queue := bfs\<rparr>) = pool_ok q" "pool_ok (q\<lparr>oq_requests := rs\<rparr>) = pool_ok q" "pool_ok (q\<lparr>oq_error := e\<rparr>) = pool_ok q"
  by (simp_all add: pool_ok_def)

lemma oq_inv_ini: "length pool \<le> MAX_POOL_SIZE \<Longrightarrow> oq_inv (output_queue_ini pool)"
  by (simp add: oq_inv_def output_queue_ini_def requested_def pool_ok_def)

lemma alloc_obuf:
  assumes "oq_inv q" "output_queue_alloc_obuf q = (bf, q1)"
  shows "oq_inv q1" "oq_queue q1 = oq_queue q" "oq_error q1 = oq_error q" "ob_data bf = []" "ob_pos bf = 0"
  using assms by (auto simp: output_queue_alloc_obuf_def oq_inv_def pool_ok_def split: list.splits)

lemma free_obuf [simp]:
  "pool_ok (output_queue_free_obuf bf q) = pool_ok q"
  "oq_queue (output_queue_free_obuf bf q) = oq_queue q"
  "oq_error (output_queue_free_obuf bf q) = oq_error q"
  "oq_requests (output_queue_free_obuf bf q) = oq_requests q"
  by (auto simp: output_queue_free_obuf_def pool_ok_def)

lemma free_obuf_inv [simp]: "oq_inv (output_queue_free_obuf bf q) = oq_inv q"
  by (simp add: oq_inv_def)

lemma fold_free_obuf [simp]:
  "pool_ok (fold output_queue_free_obuf bfs q) = pool_ok q"
  "oq_queue (fold output_queue_free_obuf bfs q) = oq_queue q"
  "oq_error (fold output_queue_free_obuf bfs q) = oq_error q"
  "oq_requests (fold output_queue_free_obuf bfs q) = oq_requests q"
  by (induction bfs arbitrary: q) simp_all

lemma add_last_obuf:
  assumes "oq_inv q" "ob_ok bf" "ob_pos bf = 0"
  shows "oq_inv (list_add_last_obuf bf q)" "oq_bytes (list_add_last_obuf bf q) = oq_bytes q @ ob_data bf"
    "oq_error (list_add_last_obuf bf q) = oq_error q"
  using assms
  by (cases "oq_queue q"; auto simp: list_add_last_obuf_def oq_inv_def oq_bytes_def ob_rest_def Let_def post_io_request_def
      requested_def)+

lemma append_last:
  assumes inv: "oq_inv q" and p: "has_pending q"
    and room: "length (ob_data (last (oq_queue q))) + length bs \<le> OUTPUT_QUEUE_BUF_SIZE"
  shows "oq_inv (append_last bs q)" "oq_bytes (append_last bs q) = oq_bytes q @ bs" "oq_error (append_last bs q) = oq_error q"
proof -
  obtain a as where q: "oq_queue q = a # as" "as \<noteq> []" using p by (cases "oq_queue q") (auto simp: has_pending_def)
  then obtain bs0 b where as: "as = bs0 @ [b]" by (cases as rule: rev_cases) auto
  from inv room q as show "oq_inv (append_last bs q)" "oq_bytes (append_last bs q) = oq_bytes q @ bs"
      "oq_error (append_last bs q) = oq_error q"
    by (auto simp: append_last_def oq_inv_def oq_bytes_def ob_rest_def ob_ok_def requested_def)
qed

lemma last_pos:
  assumes "oq_inv q" "has_pending q"
  shows "ob_pos (last (oq_queue q)) = 0" "length (ob_data (last (oq_queue q))) \<le> OUTPUT_QUEUE_BUF_SIZE"
proof -
  obtain a as where q: "oq_queue q = a # as" "as \<noteq> []" using assms(2) by (cases "oq_queue q") (auto simp: has_pending_def)
  with assms(1) show "ob_pos (last (oq_queue q)) = 0" "length (ob_data (last (oq_queue q))) \<le> OUTPUT_QUEUE_BUF_SIZE"
    by (auto simp: oq_inv_def ob_ok_def dest!: last_in_set)
qed

lemma add_chunks_ok:
  assumes "oq_inv q"
  shows "oq_inv (add_chunks bs q) \<and> oq_bytes (add_chunks bs q) = oq_bytes q @ bs \<and> oq_error (add_chunks bs q) = oq_error q"
  using assms
proof (induction bs q rule: add_chunks.induct)
  case (1 bs q)
  show ?case
  proof (cases "bs = []")
    case True
    with 1 show ?thesis by (simp add: add_chunks.simps)
  next
    case False
    let ?len = "min (length bs) OUTPUT_QUEUE_BUF_SIZE"
    obtain bf q1 where a: "output_queue_alloc_obuf q = (bf, q1)" by fastforce
    note al = alloc_obuf [OF 1(2) a]
    let ?bf = "bf\<lparr>ob_pos := 0, ob_data := take ?len bs\<rparr>"
    have ok: "ob_ok ?bf" using False by (simp add: ob_ok_def OUTPUT_QUEUE_BUF_SIZE_def)
    note add = add_last_obuf [OF al(1) ok]
    have "oq_bytes q1 = oq_bytes q" using al(2) by (simp add: oq_bytes_def)
    with 1(1) [OF False refl a [symmetric] refl] add al a False show ?thesis
      by (subst (1 2 3) add_chunks.simps) (simp add: Let_def)
  qed
qed

lemma output_queue_add_ok:
  assumes "oq_inv q" "oq_error q = 0"
  obtains q' where "output_queue_add bs q = Inr q'" "oq_inv q'" "oq_bytes q' = oq_bytes q @ bs" "oq_error q' = 0"
proof (cases "has_pending q")
  case True
  let ?len = "min (length bs) (OUTPUT_QUEUE_BUF_SIZE - length (ob_data (last (oq_queue q))))"
  note l = last_pos [OF assms(1) True]
  have "length (ob_data (last (oq_queue q))) + length (take ?len bs) \<le> OUTPUT_QUEUE_BUF_SIZE" using l(2) by simp
  note app = append_last [OF assms(1) True this]
  from add_chunks_ok [OF app(1), of "drop ?len bs"] app l that True assms show ?thesis
    by (simp add: output_queue_add_def Let_def)
next
  case False
  with add_chunks_ok [OF assms(1), of bs] that assms show ?thesis by (simp add: output_queue_add_def)
qed

lemma output_queue_add_obuf_ok:
  assumes "oq_inv q" "ob_data bf \<noteq> []" "length (ob_data bf) \<le> OUTPUT_QUEUE_BUF_SIZE"
  obtains q' where "output_queue_add_obuf bf q = Inr q'" "oq_inv q'" "oq_bytes q' = oq_bytes q @ ob_data bf"
    "oq_error q' = oq_error q"
proof (cases "has_pending q \<and> OUTPUT_QUEUE_BUF_SIZE - length (ob_data (last (oq_queue q))) \<ge> length (ob_data bf)")
  case True
  note l = last_pos [OF assms(1) conjunct1 [OF True]]
  have "length (ob_data (last (oq_queue q))) + length (ob_data bf) \<le> OUTPUT_QUEUE_BUF_SIZE" using l(2) True by linarith
  note app = append_last [OF assms(1) conjunct1 [OF True] this]
  from app l True that [of "output_queue_free_obuf bf (append_last (ob_data bf) q)"] show ?thesis
    by (simp add: output_queue_add_obuf_def oq_bytes_def)
next
  case False
  have "ob_ok (bf\<lparr>ob_pos := 0\<rparr>)" using assms by (simp add: ob_ok_def)
  note add = add_last_obuf [OF assms(1) this]
  with False that last_pos(1) [OF assms(1)] show ?thesis
    by (auto simp: output_queue_add_obuf_def)
qed

lemma output_queue_done_ok:
  assumes inv: "oq_inv q" "oq_error q = 0" and n: "oq_queue q = bf # bfs" "n \<le> length (ob_rest bf)"
  obtains q' where "output_queue_done 0 n q = Inr q'" "oq_inv q'" "oq_bytes q' = drop n (oq_bytes q)" "oq_error q' = 0"
proof (cases "ob_pos bf + n < length (ob_data bf)")
  case True
  with assms that show ?thesis
    by (auto simp: output_queue_done_def Let_def post_io_request_def oq_inv_def oq_bytes_def requested_def ob_rest_def ob_ok_def
        add.commute)
next
  case False
  then have "n = length (ob_rest bf)" using n by (simp add: ob_rest_def)
  with False assms that show ?thesis
    by (cases bfs)
      (auto simp: output_queue_done_def Let_def post_io_request_def oq_inv_def oq_bytes_def requested_def ob_rest_def ob_ok_def)
qed

lemma output_queue_done_error:
  assumes inv: "oq_inv q" "oq_error q = 0" and q: "oq_queue q \<noteq> []" and e: "error \<noteq> 0"
  obtains q' where "output_queue_done error n q = Inr q'" "oq_inv q'" "oq_queue q' = []" "oq_error q' = error"
  using assms that
  by (cases "oq_queue q")
    (auto simp: output_queue_done_def Let_def output_queue_clear_def oq_inv_def requested_def)

section \<open>A queue of bytes\<close>

text \<open>
  What the queue promises its clients: bytes that are put go behind the bytes that wait, and an answer of the
  transport takes bytes off the front, of which the outstanding request is a prefix.
\<close>

locale byte_fifo =
  fixes put :: "byte list \<Rightarrow> 'q \<Rightarrow> exn + 'q"
    and ack :: "nat \<Rightarrow> 'q \<Rightarrow> exn + 'q"
    and request :: "'q \<Rightarrow> byte list"
    and bytes :: "'q \<Rightarrow> byte list"
    and inv :: "'q \<Rightarrow> bool"
  assumes put_ok: "inv q \<Longrightarrow> \<exists>q'. put bs q = Inr q' \<and> inv q' \<and> bytes q' = bytes q @ bs"
    and ack_ok: "inv q \<Longrightarrow> bytes q \<noteq> [] \<Longrightarrow> n \<le> length (request q) \<Longrightarrow>
      \<exists>q'. ack n q = Inr q' \<and> inv q' \<and> bytes q' = drop n (bytes q)"
    and request_prefix: "inv q \<Longrightarrow> \<exists>rest. bytes q = request q @ rest"
    and request_nonempty: "inv q \<Longrightarrow> bytes q \<noteq> [] \<Longrightarrow> request q \<noteq> []"

text \<open>A run: bytes are put, and the transport answers with how many bytes of the request it wrote.\<close>

datatype fifo_op = Put "byte list" | Ack nat

fun fifo_run ::
    "(byte list \<Rightarrow> 'q \<Rightarrow> exn + 'q) \<Rightarrow> (nat \<Rightarrow> 'q \<Rightarrow> exn + 'q) \<Rightarrow> ('q \<Rightarrow> byte list) \<Rightarrow> fifo_op list \<Rightarrow> byte list \<Rightarrow> 'q \<Rightarrow> exn + byte list \<times> 'q" where
  "fifo_run put ack request [] sent q = Inr (sent, q)"
| "fifo_run put ack request (Put bs # ops) sent q =
     (case put bs q of Inl e \<Rightarrow> Inl e | Inr q1 \<Rightarrow> fifo_run put ack request ops sent q1)"
| "fifo_run put ack request (Ack n # ops) sent q =
     (if request q = [] then fifo_run put ack request ops sent q
      else case ack (min n (length (request q))) q of
        Inl e \<Rightarrow> Inl e
      | Inr q1 \<Rightarrow> fifo_run put ack request ops (sent @ take n (request q)) q1)"

primrec put_bytes :: "fifo_op list \<Rightarrow> byte list" where
  "put_bytes [] = []"
| "put_bytes (op # ops) = (case op of Put bs \<Rightarrow> bs @ put_bytes ops | Ack n \<Rightarrow> put_bytes ops)"

context byte_fifo begin

lemma run_order:
  assumes "inv q"
  shows "\<exists>sent' q'. fifo_run put ack request ops sent q = Inr (sent', q') \<and> inv q' \<and>
    sent' @ bytes q' = sent @ bytes q @ put_bytes ops"
  using assms
proof (induction ops arbitrary: sent q)
  case Nil
  then show ?case by simp
next
  case (Cons op ops)
  show ?case
  proof (cases op)
    case (Put bs)
    obtain q1 where "put bs q = Inr q1" "inv q1" "bytes q1 = bytes q @ bs" using put_ok [OF Cons.prems] by blast
    with Cons.IH [of q1 sent] Put show ?thesis by auto
  next
    case (Ack n)
    show ?thesis
    proof (cases "request q = []")
      case True
      with Cons Ack show ?thesis by auto
    next
      case False
      obtain rest where r: "bytes q = request q @ rest" using request_prefix [OF Cons.prems] by blast
      let ?n = "min n (length (request q))"
      obtain q1 where q1: "ack ?n q = Inr q1" "inv q1" "bytes q1 = drop ?n (bytes q)"
        using ack_ok [OF Cons.prems, of ?n] False r by auto
      have "take n (request q) @ bytes q1 = bytes q"
        unfolding q1(3) r by (simp add: min_def)
      with Cons.IH [of q1 "sent @ take n (request q)"] q1 False Ack show ?thesis by auto
    qed
  qed
qed

text \<open>A transport that answers every request in full empties the queue.\<close>

lemma drains:
  assumes "inv q"
  shows "\<exists>k sent' q'. fifo_run put ack request (replicate k (Ack (length (bytes q)))) sent q = Inr (sent', q') \<and> bytes q' = []"
proof -
  have "\<exists>k sent' q'. fifo_run put ack request (replicate k (Ack n)) sent q = Inr (sent', q') \<and> bytes q' = []"
    if "length (bytes q) \<le> n" "inv q" for n q sent
    using that
  proof (induction "length (bytes q)" arbitrary: q sent rule: less_induct)
    case less
    show ?case
    proof (cases "bytes q = []")
      case True
      then show ?thesis by (intro exI [of _ 0]) simp
    next
      case False
      obtain rest where r: "bytes q = request q @ rest" using request_prefix [OF less.prems(2)] by blast
      have ne: "request q \<noteq> []" by (rule request_nonempty [OF less.prems(2) False])
      have m: "min n (length (request q)) = length (request q)" using r less.prems(1) by simp
      obtain q1 where q1: "ack (length (request q)) q = Inr q1" "inv q1" "bytes q1 = drop (length (request q)) (bytes q)"
        using ack_ok [OF less.prems(2) False order_refl] by blast
      have l: "length (bytes q1) < length (bytes q)" using q1(3) r ne by simp
      obtain k sent' q' where "fifo_run put ack request (replicate k (Ack n)) (sent @ take n (request q)) q1 = Inr (sent', q')"
          "bytes q' = []"
        using less.hyps [OF l, of "sent @ take n (request q)"] l less.prems q1(2) by auto
      with ne m q1 show ?thesis by (intro exI [of _ "Suc k"]) auto
    qed
  qed
  from this [OF order_refl assms] show ?thesis .
qed

end

definition oq_request :: "OutputQueue \<Rightarrow> byte list" where
  "oq_request q = (case oq_requests q of [] \<Rightarrow> [] | r # _ \<Rightarrow> r)"

lemma oq_request_eq: "oq_inv q \<Longrightarrow> oq_request q = (case oq_queue q of [] \<Rightarrow> [] | bf # _ \<Rightarrow> ob_rest bf)"
  by (simp add: oq_request_def oq_inv_def requested_def split: list.splits)

interpretation oq: byte_fifo output_queue_add "output_queue_done 0" oq_request oq_bytes "\<lambda>q. oq_inv q \<and> oq_error q = 0"
proof (unfold_locales, goal_cases)
  case (1 q bs)
  then show ?case using output_queue_add_ok [of q bs] by blast
next
  case (2 q n)
  then obtain bf bfs where q: "oq_queue q = bf # bfs" by (cases "oq_queue q") (auto simp: oq_bytes_def)
  with 2 show ?case using output_queue_done_ok [of q bf bfs n] by (auto simp: oq_request_eq)
next
  case (3 q)
  then show ?case by (auto simp: oq_request_eq oq_bytes_def split: list.splits)
next
  case (4 q)
  then show ?case by (auto simp: oq_request_eq oq_bytes_def oq_inv_def ob_ok_def ob_rest_def split: list.splits)
qed

section \<open>Properties\<close>

text \<open>C30: the output queue is a FIFO of bytes: whatever is put into it and however the transport splits its answers, what was
  transmitted followed by what still waits is what was put, in order; no assertion fails; and the transport has exactly one
  request, for the rest of the first buffer, or none when nothing waits.\<close>

theorem output_queue_fifo:
  "\<exists>sent q. fifo_run output_queue_add (output_queue_done 0) oq_request ops [] (output_queue_ini []) = Inr (sent, q) \<and>
     sent @ oq_bytes q = put_bytes ops \<and> oq_requests q = requested (oq_queue q)"
  using oq.run_order [of "output_queue_ini []" ops "[]"] oq_inv_ini [of "[]"]
  by (auto simp: output_queue_ini_def oq_bytes_def oq_inv_def)

text \<open>a transport that answers every request in full empties the output queue in a bounded number of answers.\<close>

theorem output_queue_drains:
  assumes "oq_inv q" "oq_error q = 0"
  shows "\<exists>k sent q'. fifo_run output_queue_add (output_queue_done 0) oq_request
    (replicate k (Ack (length (oq_bytes q)))) [] q = Inr (sent, q') \<and> oq_bytes q' = []"
  using oq.drains [of q "[]"] assms by simp

theorem output_queue_drains_witness:
  "\<exists>k sent q'. fifo_run output_queue_add (output_queue_done 0) oq_request (replicate k (Ack (length [2 :: byte, 3]))) []
     \<lparr>oq_error = 0, oq_queue = [\<lparr>ob_data = [1, 2, 3], ob_pos = 1\<rparr>], oq_requests = [[2, 3]], oq_pool = [], oq_pool_size = 0\<rparr> =
     Inr (sent, q') \<and> oq_bytes q' = []"
proof -
  let ?q = "\<lparr>oq_error = 0, oq_queue = [\<lparr>ob_data = [1, 2, 3], ob_pos = 1\<rparr>], oq_requests = [[2, 3]], oq_pool = [], oq_pool_size = 0\<rparr>"
  have "oq_inv ?q"
    by (simp add: oq_inv_def ob_ok_def requested_def ob_rest_def pool_ok_def OUTPUT_QUEUE_BUF_SIZE_def)
  moreover have "oq_bytes ?q = [2, 3]" by (simp add: oq_bytes_def ob_rest_def)
  ultimately show ?thesis using output_queue_drains [of ?q] by (simp only: OutputQueue.select_convs simp_thms)
qed

text \<open>a write error empties the queue and is kept; nothing is requested from the transport any more.\<close>

theorem output_queue_write_error:
  assumes "oq_inv q" "oq_error q = 0" "oq_queue q \<noteq> []" "error \<noteq> 0"
  shows "\<exists>q'. output_queue_done error n q = Inr q' \<and> oq_queue q' = [] \<and> oq_requests q' = [] \<and> oq_error q' = error \<and>
    output_queue_add bs q' = Inr q'"
proof -
  obtain q' where "output_queue_done error n q = Inr q'" "oq_inv q'" "oq_queue q' = []" "oq_error q' = error"
    using output_queue_done_error [OF assms] by blast
  with assms(4) show ?thesis by (simp add: oq_inv_def requested_def output_queue_add_def)
qed

theorem output_queue_write_error_witness:
  "\<exists>q'. output_queue_done 32 0 \<lparr>oq_error = 0, oq_queue = [\<lparr>ob_data = [1, 2, 3], ob_pos = 1\<rparr>], oq_requests = [[2, 3]],
      oq_pool = [], oq_pool_size = 0\<rparr> = Inr q' \<and> oq_queue q' = [] \<and> oq_requests q' = [] \<and> oq_error q' = 32 \<and>
    output_queue_add [7] q' = Inr q'"
  by (rule output_queue_write_error)
    (simp_all add: oq_inv_def ob_ok_def requested_def ob_rest_def pool_ok_def OUTPUT_QUEUE_BUF_SIZE_def)

end
