(* ===== verification/Channel_Tcp.thy ===== *)
theory Channel_Tcp
  imports Wire Outputbuf
begin

text \<open>
  The output side of framework/channel_tcp.c: stream items are encoded into the output buffer of the channel,
  full buffers go to the output queue, and the transport writes the queue to the socket.

  A channel is the part of \<open>ChannelTCP\<close> its output uses. \<open>c_obuf\<close> holds the bytes between the start of the
  buffer and \<open>out.cur\<close>; \<open>c_bin_block\<close> is the offset \<open>out_bin_block\<close> points to; \<open>c_sent\<close> is what the
  transport has written to the socket so far, which the source does not keep; \<open>c_flush_events\<close> counts the posted
  \<open>tcp_flush_event\<close>s. The socket is not an SSL one.
\<close>

section \<open>State\<close>

record ChannelTCP =
  c_zero_copy :: bool
  c_obuf :: "byte list"
  c_bin_block :: "nat option"
  c_out_errno :: int
  c_disconnected :: bool
  c_queue :: OutputQueue
  c_sent :: "byte list"
  c_out_eom_cnt :: nat
  c_out_flush_cnt :: nat
  c_flush_events :: nat
  c_lock_cnt :: nat
  c_deleted :: bool

abbreviation BUF_SIZE :: nat where "BUF_SIZE \<equiv> OUTPUT_QUEUE_BUF_SIZE"

type_synonym channel = "exn + ChannelTCP"

definition create_channel_out :: ChannelTCP where
  "create_channel_out = \<lparr>c_zero_copy = False, c_obuf = [], c_bin_block = None, c_out_errno = 0, c_disconnected = False,
     c_queue = output_queue_ini [], c_sent = [], c_out_eom_cnt = 0, c_out_flush_cnt = 0, c_flush_events = 0,
     c_lock_cnt = 1, c_deleted = False\<rparr>"

definition bindC :: "channel \<Rightarrow> (ChannelTCP \<Rightarrow> channel) \<Rightarrow> channel" where
  "bindC c f = (case c of Inl e \<Rightarrow> Inl e | Inr c \<Rightarrow> f c)"

lemma bindC_simps [simp]: "bindC (Inl e) f = Inl e" "bindC (Inr c) f = f c"
  by (simp_all add: bindC_def)

section \<open>Locks\<close>

definition tcp_lock :: "ChannelTCP \<Rightarrow> ChannelTCP" where
  "tcp_lock c = c\<lparr>c_lock_cnt := Suc (c_lock_cnt c)\<rparr>"

text \<open>\<open>delete_channel\<close>, its output part: the queue is cleared.\<close>

definition delete_channel :: "ChannelTCP \<Rightarrow> channel" where
  "delete_channel c =
     (if c_out_flush_cnt c \<noteq> 0 then Inl Assertion
      else Inr (c\<lparr>c_deleted := True, c_queue := output_queue_clear (c_queue c)\<rparr>))"

definition tcp_unlock :: "ChannelTCP \<Rightarrow> channel" where
  "tcp_unlock c =
     (if c_lock_cnt c = 0 then Inl Assertion
      else
        let c1 = c\<lparr>c_lock_cnt := c_lock_cnt c - 1\<rparr>
        in if c_lock_cnt c1 = 0 then delete_channel c1 else Inr c1)"

section \<open>Flushing\<close>

text \<open>\<open>post_write_request\<close> locks the channel for each request it posts.\<close>

definition lock_requests :: "OutputQueue \<Rightarrow> OutputQueue \<Rightarrow> ChannelTCP \<Rightarrow> ChannelTCP" where
  "lock_requests q q' c = c\<lparr>c_queue := q', c_lock_cnt := c_lock_cnt c + (length (oq_requests q') - length (oq_requests q))\<rparr>"

definition tcp_flush_with_flags :: "ChannelTCP \<Rightarrow> channel" where
  "tcp_flush_with_flags c =
     (if c_bin_block c \<noteq> None then Inl Assertion
      else if length (c_obuf c) > BUF_SIZE then Inl Assertion
      else if c_obuf c = [] then Inr c
      else
        bindC
          (if \<not> c_disconnected c \<and> c_out_errno c = 0 then
             (case output_queue_add_obuf \<lparr>ob_data = c_obuf c, ob_pos = 0\<rparr> (c_queue c) of
                Inl e \<Rightarrow> Inl e
              | Inr q1 \<Rightarrow>
                  let c1 = lock_requests (c_queue c) q1 c
                  in Inr (c1\<lparr>c_queue := snd (output_queue_alloc_obuf q1)\<rparr>))
           else Inr c)
          (\<lambda>c1. Inr (c1\<lparr>c_obuf := [], c_out_eom_cnt := 0\<rparr>)))"

definition tcp_flush_event :: "ChannelTCP \<Rightarrow> channel" where
  "tcp_flush_event c =
     (let c1 = c\<lparr>c_flush_events := c_flush_events c - 1, c_out_flush_cnt := c_out_flush_cnt c - 1\<rparr>
      in if c_out_flush_cnt c1 = 0 then bindC (tcp_flush_with_flags c1) tcp_unlock
         else if c_out_eom_cnt c1 > 3 then tcp_flush_with_flags c1
         else Inr c1)"

text \<open>\<open>done_write_request\<close>: the transport wrote \<open>n\<close> bytes of its request, or failed.\<close>

definition done_write_request :: "int \<Rightarrow> nat \<Rightarrow> ChannelTCP \<Rightarrow> channel" where
  "done_write_request error n c =
     (case output_queue_done error n (c_queue c) of
        Inl e \<Rightarrow> Inl e
      | Inr q1 \<Rightarrow>
          let c1 = lock_requests ((c_queue c)\<lparr>oq_requests := []\<rparr>) q1 c;
              c2 = c1\<lparr>c_sent := c_sent c @ (if error = 0 then take n (oq_request (c_queue c)) else []),
                c_out_errno := (if error \<noteq> 0 then error else c_out_errno c)\<rparr>
          in tcp_unlock c2)"

section \<open>Writing\<close>

definition tcp_put :: "byte \<Rightarrow> ChannelTCP \<Rightarrow> ChannelTCP" where
  "tcp_put b c = c\<lparr>c_obuf := c_obuf c @ [b]\<rparr>"

definition tcp_bin_block_start :: "ChannelTCP \<Rightarrow> ChannelTCP" where
  "tcp_bin_block_start c =
     (let c1 = c\<lparr>c_obuf := c_obuf c @ [word_of_int ESC, 3, 0, 0]\<rparr> in c1\<lparr>c_bin_block := Some (length (c_obuf c1))\<rparr>)"

definition tcp_bin_block_end :: "nat \<Rightarrow> ChannelTCP \<Rightarrow> ChannelTCP" where
  "tcp_bin_block_end blk c =
     (let len = length (c_obuf c) - blk;
          obuf = (if len = 0 then take (length (c_obuf c) - 4) (c_obuf c)
                  else (c_obuf c)[blk - 2 := word_of_int ((int len AND 0x7f) OR 0x80),
                                  blk - 1 := word_of_int (drop_bit 7 (int len))])
      in c\<lparr>c_obuf := obuf, c_bin_block := None\<rparr>)"

definition end_block :: "ChannelTCP \<Rightarrow> ChannelTCP" where
  "end_block c = (case c_bin_block c of None \<Rightarrow> c | Some blk \<Rightarrow> tcp_bin_block_end blk c)"

definition flush_if_full :: "ChannelTCP \<Rightarrow> channel" where
  "flush_if_full c = (if length (c_obuf c) = BUF_SIZE then tcp_flush_with_flags c else Inr c)"

text \<open>A message ends: a flush is scheduled, at most two at a time; the first one locks the channel.\<close>

definition schedule_flush :: "ChannelTCP \<Rightarrow> ChannelTCP" where
  "schedule_flush c =
     (let c1 = c\<lparr>c_out_eom_cnt := Suc (c_out_eom_cnt c)\<rparr>
      in if c_out_flush_cnt c1 < 2 then
           (let c2 = (if c_out_flush_cnt c1 = 0 then tcp_lock c1 else c1)
            in c2\<lparr>c_out_flush_cnt := Suc (c_out_flush_cnt c1), c_flush_events := Suc (c_flush_events c1)\<rparr>)
         else c1)"

definition tcp_write_escape :: "int \<Rightarrow> ChannelTCP \<Rightarrow> channel" where
  "tcp_write_escape b c =
     (if b \<noteq> ESC \<and> b \<noteq> MARKER_EOM \<and> b \<noteq> MARKER_EOS then Inl Assertion
      else
        bindC (flush_if_full (tcp_put (word_of_int ESC) c)) (\<lambda>c1.
          let c2 = tcp_put (escape_code b) c1
          in Inr (if b = MARKER_EOM then schedule_flush c2 else c2)))"

definition tcp_write_stream :: "int \<Rightarrow> ChannelTCP \<Rightarrow> channel" where
  "tcp_write_stream b c =
     (if \<not> c_zero_copy c \<or> length (c_obuf c) \<ge> BUF_SIZE - 32 \<or> b < 0 then
        bindC (flush_if_full (end_block c)) (\<lambda>c1.
          if b < 0 \<or> b = ESC then tcp_write_escape b c1 else Inr (tcp_put (word_of_int b) c1))
      else
        let c1 = (if c_bin_block c = None then tcp_bin_block_start c else c)
        in Inr (tcp_put (word_of_int b) c1))"

function tcp_write_block_stream :: "byte list \<Rightarrow> ChannelTCP \<Rightarrow> channel" where
  "tcp_write_block_stream bs c =
     (if bs = [] then Inr c
      else
        let n = min (BUF_SIZE - length (c_obuf c)) (length bs)
        in if n = 0 then bindC (tcp_write_stream (uint (hd bs)) c) (tcp_write_block_stream (tl bs))
           else if c_bin_block c \<noteq> None then
             tcp_write_block_stream (drop n bs) (c\<lparr>c_obuf := c_obuf c @ take n bs\<rparr>)
           else if uint (hd bs) \<noteq> ESC then
             (let run = takeWhile (\<lambda>b. uint b \<noteq> ESC) (take n bs)
              in tcp_write_block_stream (drop (length run) bs) (c\<lparr>c_obuf := c_obuf c @ run\<rparr>))
           else bindC (tcp_write_stream (uint (hd bs)) c) (tcp_write_block_stream (tl bs)))"
  by pat_completeness auto
termination
proof (relation "measure (\<lambda>(bs, c). length bs)", goal_cases)
  case (4 bs c n run)
  then show ?case by (cases bs) (auto simp: take_Cons')
qed auto

declare tcp_write_block_stream.simps [simp del]

text \<open>The channel as an output stream: a failed assertion stays failed.\<close>

definition tcp_class :: "channel out_class" where
  "tcp_class = \<lparr>
     supports_zero_copy = (\<lambda>c. case c of Inl e \<Rightarrow> False | Inr c \<Rightarrow> c_zero_copy c),
     cur_null = (\<lambda>_. False),
     out_room = (\<lambda>c. case c of Inl e \<Rightarrow> 0 | Inr c \<Rightarrow> BUF_SIZE - length (c_obuf c)),
     out_store = (\<lambda>b c. bindC c (\<lambda>c. Inr (tcp_put b c))),
     out_write = (\<lambda>b c. bindC c (tcp_write_stream b)),
     out_write_block = (\<lambda>bs c. bindC c (tcp_write_block_stream bs))\<rparr>"

end
