(* ===== verification/Channel_Tcp_Proofs.thy ===== *)
theory Channel_Tcp_Proofs
  imports Channel_Tcp Json_Object
begin

text \<open>
  The output of a TCP channel is an encoding of the items written to it: the channel satisfies the contract of an
  output stream, so everything proved of the writers of json.c holds on the bytes of the socket.
\<close>

section \<open>What a channel has written\<close>

definition tcp_wire :: "ChannelTCP \<Rightarrow> byte list" where
  "tcp_wire c = c_sent c @ oq_bytes (c_queue c) @ c_obuf c"

text \<open>The items in the bytes so far; those of an open block behind its header count as data.\<close>

definition tcp_items :: "ChannelTCP \<Rightarrow> int list" where
  "tcp_items c =
     (case c_bin_block c of
        None \<Rightarrow> fst (decode Plain (tcp_wire c))
      | Some blk \<Rightarrow>
          fst (decode Plain (c_sent c @ oq_bytes (c_queue c) @ take (blk - 4) (c_obuf c))) @ items_of (drop blk (c_obuf c)))"

definition chan_ok :: "ChannelTCP \<Rightarrow> bool" where
  "chan_ok c \<longleftrightarrow> \<not> c_disconnected c \<and> c_out_errno c = 0 \<and> oq_inv (c_queue c) \<and> oq_error (c_queue c) = 0 \<and>
     length (c_obuf c) \<le> BUF_SIZE"

text \<open>Outside of a block the bytes are complete; an open block has its header and at least one byte.\<close>

definition block_ok :: "ChannelTCP \<Rightarrow> bool" where
  "block_ok c \<longleftrightarrow>
     (case c_bin_block c of
        None \<Rightarrow> snd (decode Plain (tcp_wire c)) = Plain
      | Some blk \<Rightarrow>
          (\<exists>pre x y data. c_obuf c = pre @ word_of_int ESC # 3 # x # y # data \<and> blk = length pre + 4 \<and> data \<noteq> [] \<and>
             snd (decode Plain (c_sent c @ oq_bytes (c_queue c) @ pre)) = Plain))"

definition tcp_inv :: "channel \<Rightarrow> bool" where
  "tcp_inv out \<longleftrightarrow> (case out of Inl e \<Rightarrow> False | Inr c \<Rightarrow> chan_ok c \<and> block_ok c)"

definition channel_items :: "channel \<Rightarrow> int list" where
  "channel_items out = (case out of Inl e \<Rightarrow> [] | Inr c \<Rightarrow> tcp_items c)"

section \<open>Flushing and blocks\<close>

lemma flush_ok:
  assumes "chan_ok c" "c_bin_block c = None"
  obtains c' where "tcp_flush_with_flags c = Inr c'" "chan_ok c'" "c_bin_block c' = None" "tcp_wire c' = tcp_wire c" "c_obuf c' = []"
proof (cases "c_obuf c = []")
  case True
  with assms that show ?thesis by (simp add: tcp_flush_with_flags_def)
next
  case False
  obtain q1 where q1: "output_queue_add_obuf \<lparr>ob_data = c_obuf c, ob_pos = 0\<rparr> (c_queue c) = Inr q1" "oq_inv q1"
      "oq_bytes q1 = oq_bytes (c_queue c) @ c_obuf c" "oq_error q1 = 0"
    using assms False output_queue_add_obuf_ok [of "c_queue c" "\<lparr>ob_data = c_obuf c, ob_pos = 0\<rparr>"] by (auto simp: chan_ok_def)
  obtain bf q2 where q2: "output_queue_alloc_obuf q1 = (bf, q2)" by fastforce
  note al = alloc_obuf [OF q1(2) q2]
  have "oq_bytes q2 = oq_bytes q1" using al(2) by (simp add: oq_bytes_def)
  with assms False q1 q2 al that show ?thesis
    by (auto simp: tcp_flush_with_flags_def chan_ok_def tcp_wire_def lock_requests_def Let_def not_less)
qed

lemma flush_if_full_ok:
  assumes "chan_ok c" "c_bin_block c = None"
  obtains c' where "flush_if_full c = Inr c'" "chan_ok c'" "c_bin_block c' = None" "tcp_wire c' = tcp_wire c"
    "length (c_obuf c') < BUF_SIZE"
proof (cases "length (c_obuf c) = BUF_SIZE")
  case True
  obtain c' where "tcp_flush_with_flags c = Inr c'" "chan_ok c'" "c_bin_block c' = None" "tcp_wire c' = tcp_wire c" "c_obuf c' = []"
    using flush_ok [OF assms] by blast
  with True that [of c'] show ?thesis by (simp add: flush_if_full_def OUTPUT_QUEUE_BUF_SIZE_def)
next
  case False
  with assms that show ?thesis by (auto simp: flush_if_full_def chan_ok_def)
qed

lemma size_bytes:
  "word_of_int ((int n AND 0x7f) OR 0x80) = (word_of_nat (n mod 128 + 128) :: byte)"
  "word_of_int (drop_bit 7 (int n)) = (word_of_nat (n div 128) :: byte)"
proof -
  have a: "int n AND 0x7f = int (n mod 128)"
    using take_bit_eq_mask [of 7 "int n"] by (simp add: take_bit_eq_mod mask_eq_exp_minus_1 zmod_int)
  have "0 \<le> int (n mod 128)" "int (n mod 128) < 2 ^ 7" by (simp_all add: zmod_int)
  from or_push_bit_add [OF this, of 1] have "int (n mod 128) OR 0x80 = int (n mod 128 + 128)"
    by (simp add: push_bit_eq_mult or.commute)
  with a show "word_of_int ((int n AND 0x7f) OR 0x80) = (word_of_nat (n mod 128 + 128) :: byte)"
    by (simp only: of_int_of_nat_eq)
  show "word_of_int (drop_bit 7 (int n)) = (word_of_nat (n div 128) :: byte)"
    by (subst drop_bit_of_nat) (simp only: of_int_of_nat_eq drop_bit_eq_div, simp)
qed

lemma tcp_items_block:
  assumes "c_obuf c = pre @ word_of_int ESC # 3 # x # y # data" "c_bin_block c = Some (length pre + 4)"
  shows "tcp_items c = fst (decode Plain (c_sent c @ oq_bytes (c_queue c) @ pre)) @ items_of data"
  using assms by (simp add: tcp_items_def)

lemma block_okE:
  assumes "block_ok c" "c_bin_block c = Some blk"
  obtains pre x y data where "c_obuf c = pre @ word_of_int ESC # 3 # x # y # data" "blk = length pre + 4" "data \<noteq> []"
    "snd (decode Plain (c_sent c @ oq_bytes (c_queue c) @ pre)) = Plain"
  using assms unfolding block_ok_def by (simp only: option.case) (elim exE conjE, rule that)

lemma end_block_ok:
  assumes ok: "chan_ok c" "block_ok c"
  shows "chan_ok (end_block c)" "block_ok (end_block c)" "c_bin_block (end_block c) = None" "tcp_items (end_block c) = tcp_items c"
proof -
  have "chan_ok (end_block c) \<and> block_ok (end_block c) \<and> c_bin_block (end_block c) = None \<and> tcp_items (end_block c) = tcp_items c"
  proof (cases "c_bin_block c")
    case None
    with ok show ?thesis by (simp add: end_block_def)
  next
    case (Some blk)
    obtain pre x y data where o: "c_obuf c = pre @ word_of_int ESC # 3 # x # y # data" "blk = length pre + 4" "data \<noteq> []"
        "snd (decode Plain (c_sent c @ oq_bytes (c_queue c) @ pre)) = Plain"
      using block_okE [OF ok(2) Some] .
    let ?n = "length data"
    let ?w = "c_sent c @ oq_bytes (c_queue c) @ pre"
    have n: "0 < ?n" "?n < 16384" using o ok(1) by (auto simp: chan_ok_def OUTPUT_QUEUE_BUF_SIZE_def)
    have e: "end_block c = c\<lparr>c_obuf := pre @ word_of_int ESC # 3 # word_of_nat (?n mod 128 + 128) # word_of_nat (?n div 128) # data,
        c_bin_block := None\<rparr>"
    proof -
      have l: "length (c_obuf c) - blk = ?n" "blk - 2 = length pre + 2" "blk - 1 = length pre + 3" using o(1,2) by simp_all
      have u: "(c_obuf c)[length pre + 2 := u, length pre + 3 := v] = pre @ word_of_int ESC # 3 # u # v # data" for u v
        unfolding o(1) by (simp add: list_update_append eval_nat_numeral)
      show ?thesis
        using n(1) unfolding end_block_def Some option.case tcp_bin_block_end_def l size_bytes u by (simp add: Let_def)
    qed
    have w: "decode Plain ?w = (fst (decode Plain ?w), Plain)" using o(4) by (metis prod.collapse)
    have "tcp_wire (end_block c) =
        ?w @ word_of_int ESC # 3 # word_of_nat (?n mod 128 + 128) # word_of_nat (?n div 128) # data"
      unfolding e tcp_wire_def by simp
    then have "decode Plain (tcp_wire (end_block c)) = (fst (decode Plain ?w) @ items_of data, Plain)"
      by (simp only: decode_append_eq [OF w] decode_block [OF refl n] fst_conv snd_conv)
    moreover have "tcp_items c = fst (decode Plain ?w) @ items_of data"
      using o Some by (intro tcp_items_block) auto
    moreover have "chan_ok (end_block c)" "c_bin_block (end_block c) = None"
      unfolding e using ok(1) o(1) by (simp_all add: chan_ok_def)
    ultimately show ?thesis by (simp add: block_ok_def tcp_items_def)
  qed
  then show "chan_ok (end_block c)" "block_ok (end_block c)" "c_bin_block (end_block c) = None" "tcp_items (end_block c) = tcp_items c"
    by simp_all
qed

section \<open>Writing\<close>

lemma wire_decoded:
  assumes "block_ok c" "c_bin_block c = None"
  shows "decode Plain (tcp_wire c) = (tcp_items c, Plain)"
  using assms by (simp add: block_ok_def tcp_items_def prod_eq_iff)

text \<open>Bytes stored behind the others: any bytes in a block, and no \<open>ESC\<close> outside of one.\<close>

lemma append_ok:
  assumes ok: "chan_ok c" "block_ok c" and room: "length (c_obuf c) + length bs \<le> BUF_SIZE"
    and plain: "c_bin_block c = None \<Longrightarrow> \<forall>b \<in> set bs. uint b \<noteq> ESC"
  defines "c' \<equiv> c\<lparr>c_obuf := c_obuf c @ bs\<rparr>"
  shows "chan_ok c'" "block_ok c'" "tcp_items c' = tcp_items c @ items_of bs"
proof -
  show "chan_ok c'" using ok room by (simp add: chan_ok_def c'_def)
  have "block_ok c' \<and> tcp_items c' = tcp_items c @ items_of bs"
  proof (cases "c_bin_block c")
    case None
    have "tcp_wire c' = tcp_wire c @ bs" by (simp add: tcp_wire_def c'_def)
    then have "decode Plain (tcp_wire c') = (tcp_items c @ items_of bs, Plain)"
      using decode_append_eq [OF wire_decoded [OF ok(2) None], of bs] decode_plain [OF plain [OF None]] by simp
    with None show ?thesis by (simp add: block_ok_def tcp_items_def c'_def)
  next
    case (Some blk)
    obtain pre x y data where o: "c_obuf c = pre @ word_of_int ESC # 3 # x # y # data" "blk = length pre + 4" "data \<noteq> []"
        "snd (decode Plain (c_sent c @ oq_bytes (c_queue c) @ pre)) = Plain"
      using block_okE [OF ok(2) Some] .
    have c': "c_obuf c' = pre @ word_of_int ESC # 3 # x # y # data @ bs" "c_bin_block c' = Some (length pre + 4)"
      using o Some by (simp_all add: c'_def)
    have "block_ok c'" using c' o by (auto simp: block_ok_def c'_def)
    moreover have "tcp_items c' = tcp_items c @ items_of bs"
      using tcp_items_block [OF c'] tcp_items_block [OF o(1)] Some o(2) by (simp add: c'_def)
    ultimately show ?thesis by simp
  qed
  then show "block_ok c'" "tcp_items c' = tcp_items c @ items_of bs" by simp_all
qed

lemma put_ok:
  assumes "chan_ok c" "block_ok c" "length (c_obuf c) < BUF_SIZE" "uint b \<noteq> ESC \<or> c_bin_block c \<noteq> None"
  shows "chan_ok (tcp_put b c)" "block_ok (tcp_put b c)" "tcp_items (tcp_put b c) = tcp_items c @ [uint b]"
  using append_ok [OF assms(1,2), of "[b]"] assms(3,4) by (auto simp: tcp_put_def)

lemma schedule_flush_simps [simp]:
  "chan_ok (schedule_flush c) = chan_ok c" "tcp_wire (schedule_flush c) = tcp_wire c"
  "c_bin_block (schedule_flush c) = c_bin_block c" "c_obuf (schedule_flush c) = c_obuf c"
  by (simp_all add: schedule_flush_def Let_def tcp_lock_def chan_ok_def tcp_wire_def)

lemma plain_ok:
  assumes "c_bin_block c = None" "decode Plain (tcp_wire c) = (xs, Plain)"
  shows "block_ok c" "tcp_items c = xs"
  using assms by (simp_all add: block_ok_def tcp_items_def)

lemma write_escape_ok:
  assumes ok: "chan_ok c" "block_ok c" "c_bin_block c = None" "length (c_obuf c) < BUF_SIZE"
    and b: "b = ESC \<or> b = MARKER_EOM \<or> b = MARKER_EOS"
  obtains c' where "tcp_write_escape b c = Inr c'" "chan_ok c'" "block_ok c'" "tcp_items c' = tcp_items c @ [b]" "c_bin_block c' = None"
proof -
  let ?c0 = "tcp_put (word_of_int ESC) c"
  have c0: "chan_ok ?c0" "c_bin_block ?c0 = None" "tcp_wire ?c0 = tcp_wire c @ [word_of_int ESC]"
    using ok by (simp_all add: tcp_put_def chan_ok_def tcp_wire_def)
  obtain c1 where c1: "flush_if_full ?c0 = Inr c1" "chan_ok c1" "c_bin_block c1 = None" "tcp_wire c1 = tcp_wire ?c0"
      "length (c_obuf c1) < BUF_SIZE"
    using flush_if_full_ok [OF c0(1,2)] by blast
  let ?c2 = "tcp_put (escape_code b) c1"
  let ?c3 = "if b = MARKER_EOM then schedule_flush ?c2 else ?c2"
  have "tcp_wire ?c2 = tcp_wire c @ [word_of_int ESC, escape_code b]"
    using c1(4) c0(3) by (simp add: tcp_put_def tcp_wire_def)
  then have "decode Plain (tcp_wire ?c2) = (tcp_items c @ [b], Plain)"
    using decode_append_eq [OF wire_decoded [OF ok(2,3)]] decode_escape [OF b] by simp
  moreover have "chan_ok ?c2" "c_bin_block ?c2 = None" using c1 by (simp_all add: tcp_put_def chan_ok_def)
  ultimately have "chan_ok ?c3" "block_ok ?c3" "tcp_items ?c3 = tcp_items c @ [b]" "c_bin_block ?c3 = None"
    using plain_ok [of ?c3 "tcp_items c @ [b]"] by auto
  moreover have "tcp_write_escape b c = Inr ?c3" using b c1(1) by (auto simp: tcp_write_escape_def Let_def)
  ultimately show ?thesis using that by blast
qed

lemma write_stream_ok:
  assumes ok: "chan_ok c" "block_ok c" and b: "-3 < b" "b < 256"
  obtains c' where "tcp_write_stream b c = Inr c'" "chan_ok c'" "block_ok c'" "tcp_items c' = tcp_items c @ [b]"
    "b < 0 \<longrightarrow> c_bin_block c' = None"
proof (cases "\<not> c_zero_copy c \<or> length (c_obuf c) \<ge> BUF_SIZE - 32 \<or> b < 0")
  case True
  note eb = end_block_ok [OF ok]
  obtain c1 where c1: "flush_if_full (end_block c) = Inr c1" "chan_ok c1" "c_bin_block c1 = None" "tcp_wire c1 = tcp_wire (end_block c)"
      "length (c_obuf c1) < BUF_SIZE"
    using flush_if_full_ok [OF eb(1,3)] by blast
  have "decode Plain (tcp_wire c1) = (tcp_items c, Plain)"
    using wire_decoded [OF eb(2,3)] eb(4) c1(4) by simp
  note p = plain_ok [OF c1(3) this]
  show ?thesis
  proof (cases "b < 0 \<or> b = ESC")
    case esc: True
    then have "b = ESC \<or> b = MARKER_EOM \<or> b = MARKER_EOS" using b by auto
    then obtain c' where "tcp_write_escape b c1 = Inr c'" "chan_ok c'" "block_ok c'" "tcp_items c' = tcp_items c1 @ [b]"
        "c_bin_block c' = None"
      using write_escape_ok [OF c1(2) p(1) c1(3,5)] by blast
    moreover have "tcp_write_stream b c = tcp_write_escape b c1"
      using True esc c1(1) by (simp add: tcp_write_stream_def)
    ultimately show ?thesis using p(2) that by simp
  next
    case False
    then have "uint (word_of_int b :: byte) = b" using b by simp
    moreover have "tcp_write_stream b c = Inr (tcp_put (word_of_int b) c1)"
      using True False c1(1) by (simp add: tcp_write_stream_def)
    ultimately show ?thesis using put_ok [OF c1(2) p(1) c1(5), of "word_of_int b"] p(2) False that by simp
  qed
next
  case False
  then have u: "uint (word_of_int b :: byte) = b" and room: "length (c_obuf c) < BUF_SIZE - 32" using b by simp_all
  show ?thesis
  proof (cases "c_bin_block c")
    case None
    let ?c' = "tcp_put (word_of_int b) (tcp_bin_block_start c)"
    let ?pre = "c_obuf c"
    have c': "c_obuf ?c' = ?pre @ word_of_int ESC # 3 # 0 # 0 # [word_of_int b]" "c_bin_block ?c' = Some (length ?pre + 4)"
        "c_sent ?c' = c_sent c" "c_queue ?c' = c_queue c"
      by (simp_all add: tcp_put_def tcp_bin_block_start_def Let_def)
    have w: "decode Plain (c_sent c @ oq_bytes (c_queue c) @ ?pre) = (tcp_items c, Plain)"
      using wire_decoded [OF ok(2) None] by (simp add: tcp_wire_def)
    have "block_ok ?c'"
      unfolding block_ok_def c'(2) option.case using c' w by (intro exI conjI) (assumption | simp)+
    moreover have "tcp_items ?c' = tcp_items c @ [b]"
      using tcp_items_block [OF c'(1,2)] c' w u by simp
    moreover have "chan_ok ?c'"
      using ok(1) room c' by (simp add: chan_ok_def tcp_put_def tcp_bin_block_start_def Let_def OUTPUT_QUEUE_BUF_SIZE_def)
    moreover have "tcp_write_stream b c = Inr ?c'" using False None by (simp add: tcp_write_stream_def Let_def)
    ultimately show ?thesis using False by (intro that [of ?c']) simp_all
  next
    case (Some blk)
    have "tcp_write_stream b c = Inr (tcp_put (word_of_int b) c)"
      using False Some by (simp add: tcp_write_stream_def Let_def)
    with put_ok [OF ok, of "word_of_int b"] u room False Some that show ?thesis by simp
  qed
qed

section \<open>Locks\<close>

text \<open>
  The locks: one of the reading side, one for the outstanding write request, one while flush events are posted, of
  which there are never more than two.
\<close>

definition locks_ok :: "ChannelTCP \<Rightarrow> bool" where
  "locks_ok c \<longleftrightarrow> \<not> c_deleted c \<and> c_flush_events c = c_out_flush_cnt c \<and> c_out_flush_cnt c \<le> 2 \<and>
     c_lock_cnt c = 1 + length (oq_requests (c_queue c)) + (if c_out_flush_cnt c > 0 then 1 else 0)"

lemma requests_length: "oq_inv q \<Longrightarrow> length (oq_requests q) = (if oq_queue q = [] then 0 else 1)"
  by (auto simp: oq_inv_def requested_def split: list.splits)

lemma add_obuf_nonempty: "oq_queue q \<noteq> [] \<Longrightarrow> output_queue_add_obuf bf q = Inr q' \<Longrightarrow> oq_queue q' \<noteq> []"
  by (auto simp: output_queue_add_obuf_def append_last_def list_add_last_obuf_def Let_def split: if_splits)

lemma flush_locks:
  assumes "chan_ok c" "c_bin_block c = None" "tcp_flush_with_flags c = Inr c'"
  obtains k where "c_lock_cnt c' = c_lock_cnt c + k" "length (oq_requests (c_queue c')) = length (oq_requests (c_queue c)) + k"
    "c_out_flush_cnt c' = c_out_flush_cnt c" "c_flush_events c' = c_flush_events c" "c_deleted c' = c_deleted c"
proof (cases "c_obuf c = []")
  case True
  with assms that [of 0] show ?thesis by (auto simp: tcp_flush_with_flags_def chan_ok_def split: if_splits)
next
  case False
  obtain q1 where q1: "output_queue_add_obuf \<lparr>ob_data = c_obuf c, ob_pos = 0\<rparr> (c_queue c) = Inr q1" "oq_inv q1"
    using assms False output_queue_add_obuf_ok [of "c_queue c" "\<lparr>ob_data = c_obuf c, ob_pos = 0\<rparr>"] by (auto simp: chan_ok_def)
  have "length (oq_requests (c_queue c)) \<le> length (oq_requests q1)"
    using requests_length [OF q1(2)] requests_length [of "c_queue c"] add_obuf_nonempty [OF _ q1(1)] assms(1)
    by (auto simp: chan_ok_def)
  then obtain k where k: "length (oq_requests q1) = length (oq_requests (c_queue c)) + k" by (metis le_iff_add)
  have "oq_requests (snd (output_queue_alloc_obuf q1)) = oq_requests q1"
    by (auto simp: output_queue_alloc_obuf_def split: list.splits)
  with assms False q1 k that [of k] show ?thesis
    by (auto simp: tcp_flush_with_flags_def chan_ok_def lock_requests_def Let_def split: if_splits)
qed

lemma flush_locks_ok:
  assumes "chan_ok c" "c_bin_block c = None" "tcp_flush_with_flags c = Inr c'" "locks_ok c"
  shows "locks_ok c'"
proof -
  obtain k where "c_lock_cnt c' = c_lock_cnt c + k" "length (oq_requests (c_queue c')) = length (oq_requests (c_queue c)) + k"
    "c_out_flush_cnt c' = c_out_flush_cnt c" "c_flush_events c' = c_flush_events c" "c_deleted c' = c_deleted c"
    using flush_locks [OF assms(1-3)] .
  with assms(4) show ?thesis by (simp add: locks_ok_def)
qed

lemma locks_ok_update [simp]:
  "locks_ok (c\<lparr>c_obuf := bs\<rparr>) = locks_ok c" "locks_ok (c\<lparr>c_bin_block := blk\<rparr>) = locks_ok c" "locks_ok (tcp_put b c) = locks_ok c"
  "locks_ok (c\<lparr>c_zero_copy := zc\<rparr>) = locks_ok c" "locks_ok (tcp_bin_block_start c) = locks_ok c"
  by (simp_all add: locks_ok_def tcp_put_def tcp_bin_block_start_def Let_def)

lemma end_block_locks [simp]: "locks_ok (end_block c) = locks_ok c"
  by (simp add: end_block_def tcp_bin_block_end_def Let_def locks_ok_def split: option.splits)

lemma schedule_flush_locks: "locks_ok c \<Longrightarrow> locks_ok (schedule_flush c)"
  by (auto simp: schedule_flush_def locks_ok_def tcp_lock_def Let_def)

lemma flush_if_full_locks:
  "chan_ok c \<Longrightarrow> c_bin_block c = None \<Longrightarrow> flush_if_full c = Inr c' \<Longrightarrow> locks_ok c \<Longrightarrow> locks_ok c'"
  by (auto simp: flush_if_full_def intro: flush_locks_ok split: if_splits)

lemma write_escape_locks:
  assumes "chan_ok c" "c_bin_block c = None" "length (c_obuf c) < BUF_SIZE" "tcp_write_escape b c = Inr c'" "locks_ok c"
  shows "locks_ok c'"
proof -
  have c0: "chan_ok (tcp_put (word_of_int ESC) c)" "c_bin_block (tcp_put (word_of_int ESC) c) = None"
    using assms(1-3) by (simp_all add: tcp_put_def chan_ok_def)
  from assms(4) obtain c1 where "flush_if_full (tcp_put (word_of_int ESC) c) = Inr c1"
      "c' = (if b = MARKER_EOM then schedule_flush (tcp_put (escape_code b) c1) else tcp_put (escape_code b) c1)"
    by (auto simp: tcp_write_escape_def bindC_def Let_def split: if_splits sum.splits)
  with flush_if_full_locks [OF c0] assms(5) show ?thesis by (auto intro: schedule_flush_locks)
qed

lemma write_stream_locks:
  assumes ok: "chan_ok c" "block_ok c" and run: "tcp_write_stream b c = Inr c'" and l: "locks_ok c"
  shows "locks_ok c'"
proof (cases "\<not> c_zero_copy c \<or> length (c_obuf c) \<ge> BUF_SIZE - 32 \<or> b < 0")
  case True
  note eb = end_block_ok [OF ok]
  obtain c1 where c1: "flush_if_full (end_block c) = Inr c1" "chan_ok c1" "c_bin_block c1 = None" "length (c_obuf c1) < BUF_SIZE"
    using flush_if_full_ok [OF eb(1,3)] by blast
  have l1: "locks_ok c1" using flush_if_full_locks [OF eb(1,3) c1(1)] l by simp
  show ?thesis
    using True run c1(1) l1 write_escape_locks [OF c1(2-4) _ l1] by (auto simp: tcp_write_stream_def split: if_splits)
next
  case False
  with run l show ?thesis by (auto simp: tcp_write_stream_def Let_def split: if_splits)
qed

lemma write_block_ok:
  assumes "chan_ok c" "block_ok c"
  shows "\<exists>c'. tcp_write_block_stream bs c = Inr c' \<and> chan_ok c' \<and> block_ok c' \<and> tcp_items c' = tcp_items c @ items_of bs \<and>
    (locks_ok c \<longrightarrow> locks_ok c')"
  using assms
proof (induction "length bs" arbitrary: bs c rule: less_induct)
  case less
  show ?case
  proof (cases bs)
    case Nil
    with less show ?thesis by (simp add: tcp_write_block_stream.simps)
  next
    case (Cons b bs')
    let ?n = "min (BUF_SIZE - length (c_obuf c)) (length bs)"
    have append: ?thesis
      if k: "0 < k" "k \<le> ?n" "c_bin_block c = None \<Longrightarrow> \<forall>b \<in> set (take k bs). uint b \<noteq> ESC"
        and eq: "tcp_write_block_stream bs c = tcp_write_block_stream (drop k bs) (c\<lparr>c_obuf := c_obuf c @ take k bs\<rparr>)" for k
    proof -
      have room: "length (c_obuf c) + length (take k bs) \<le> BUF_SIZE"
        using k(2) less.prems(1) by (simp add: chan_ok_def) linarith
      note a = append_ok [OF less.prems room k(3)]
      have "length (drop k bs) < length bs" using k Cons by simp
      from less.hyps [OF this a(1,2)] obtain c' where
        "tcp_write_block_stream (drop k bs) (c\<lparr>c_obuf := c_obuf c @ take k bs\<rparr>) = Inr c'" "chan_ok c'" "block_ok c'"
        "tcp_items c' = tcp_items c @ items_of (take k bs) @ items_of (drop k bs)" "locks_ok c \<longrightarrow> locks_ok c'"
        using a(3) by auto
      moreover have "items_of (take k bs) @ items_of (drop k bs) = items_of bs"
        by (metis append_take_drop_id items_of_simps(3))
      ultimately show ?thesis using eq by auto
    qed
    have single: ?thesis
      if eq: "tcp_write_block_stream bs c = bindC (tcp_write_stream (uint b) c) (tcp_write_block_stream bs')"
    proof -
      obtain c1 where "tcp_write_stream (uint b) c = Inr c1" "chan_ok c1" "block_ok c1" "tcp_items c1 = tcp_items c @ [uint b]"
        using write_stream_ok [OF less.prems, of "uint b"] uint_byte_range [of b] by force
      with less.hyps [of bs' c1] eq Cons write_stream_locks [OF less.prems] show ?thesis by auto
    qed
    consider "?n = 0" | "?n \<noteq> 0" "c_bin_block c \<noteq> None" | "?n \<noteq> 0" "c_bin_block c = None" "uint b \<noteq> ESC"
      | "?n \<noteq> 0" "c_bin_block c = None" "uint b = ESC" by blast
    then show ?thesis
    proof cases
      case 1
      then show ?thesis using Cons by (intro single) (subst tcp_write_block_stream.simps, simp)
    next
      case 2
      show ?thesis
      proof (rule append [of ?n])
        show "tcp_write_block_stream bs c = tcp_write_block_stream (drop ?n bs) (c\<lparr>c_obuf := c_obuf c @ take ?n bs\<rparr>)"
          using 2 Cons by (subst tcp_write_block_stream.simps) (simp only: Let_def if_False if_True list.distinct simp_thms)
      qed (use 2 in auto)
    next
      case 3
      let ?run = "takeWhile (\<lambda>b. uint b \<noteq> ESC) (take ?n bs)"
      have run: "take (length ?run) bs = ?run"
        using takeWhile_eq_take [of "\<lambda>b. uint b \<noteq> ESC" "take ?n bs"] length_takeWhile_le [of "\<lambda>b. uint b \<noteq> ESC" "take ?n bs"]
        by (simp add: min_def split: if_splits)
      show ?thesis
      proof (rule append [of "length ?run"])
        show "0 < length ?run" using 3 Cons by (cases ?n) simp_all
        show "length ?run \<le> ?n" using length_takeWhile_le [of _ "take ?n bs"] by (simp add: le_trans)
        show "\<forall>b \<in> set (take (length ?run) bs). uint b \<noteq> ESC" unfolding run by (auto dest: set_takeWhileD)
        show "tcp_write_block_stream bs c =
            tcp_write_block_stream (drop (length ?run) bs) (c\<lparr>c_obuf := c_obuf c @ take (length ?run) bs\<rparr>)"
          unfolding run using 3 Cons
          by (subst tcp_write_block_stream.simps) (simp only: Let_def if_False if_True list.distinct list.sel simp_thms)
      qed
    next
      case 4
      then show ?thesis using Cons by (intro single) (subst tcp_write_block_stream.simps, simp add: Let_def)
    qed
  qed
qed

section \<open>The channel is an output stream\<close>

interpretation tcp: output_stream tcp_class channel_items tcp_inv "\<lambda>c. -3 < c \<and> c < 256"
proof (unfold_locales, goal_cases)
  case (3 out b)
  then show ?case by (auto simp: tcp_inv_def channel_items_def tcp_class_def put_ok split: sum.splits)
next
  case (4 out b)
  then show ?case by (auto simp: tcp_inv_def tcp_class_def put_ok split: sum.splits)
next
  case (5 out b)
  then show ?case by (auto simp: tcp_inv_def tcp_class_def tcp_put_def split: sum.splits)
next
  case (6 out c)
  then obtain ch where ch: "out = Inr ch" "chan_ok ch" "block_ok ch" by (auto simp: tcp_inv_def split: sum.splits)
  obtain ch' where "tcp_write_stream c ch = Inr ch'" "tcp_items ch' = tcp_items ch @ [c]"
    using write_stream_ok [OF ch(2,3), of c] 6 by blast
  with ch show ?case by (simp add: channel_items_def tcp_class_def)
next
  case (7 out c)
  then obtain ch where ch: "out = Inr ch" "chan_ok ch" "block_ok ch" by (auto simp: tcp_inv_def split: sum.splits)
  obtain ch' where "tcp_write_stream c ch = Inr ch'" "chan_ok ch'" "block_ok ch'"
    using write_stream_ok [OF ch(2,3), of c] 7 by blast
  with ch show ?case by (simp add: tcp_inv_def tcp_class_def)
next
  case (8 out bs)
  then obtain ch where ch: "out = Inr ch" "chan_ok ch" "block_ok ch" by (auto simp: tcp_inv_def split: sum.splits)
  with write_block_ok [of ch bs] show ?case by (auto simp: channel_items_def tcp_class_def)
next
  case (9 out bs)
  then obtain ch where ch: "out = Inr ch" "chan_ok ch" "block_ok ch" by (auto simp: tcp_inv_def split: sum.splits)
  with write_block_ok [of ch bs] show ?case by (auto simp: tcp_inv_def tcp_class_def)
qed simp_all

section \<open>A channel at work\<close>

text \<open>
  Items are written in any mixture with the flush events the channel posts and the answers of the transport. The
  second argument collects the items written.
\<close>

inductive tcp_run :: "ChannelTCP \<Rightarrow> int list \<Rightarrow> bool" where
  run_create: "tcp_run create_channel_out []"
| run_zero_copy: "tcp_run c xs \<Longrightarrow> tcp_run (c\<lparr>c_zero_copy := zc\<rparr>) xs"
| run_write: "tcp_run c xs \<Longrightarrow> -3 < b \<Longrightarrow> b < 256 \<Longrightarrow> tcp_write_stream b c = Inr c' \<Longrightarrow> tcp_run c' (xs @ [b])"
| run_write_block: "tcp_run c xs \<Longrightarrow> tcp_write_block_stream bs c = Inr c' \<Longrightarrow> tcp_run c' (xs @ items_of bs)"
| run_flush_event: "tcp_run c xs \<Longrightarrow> 0 < c_flush_events c \<Longrightarrow> c_bin_block c = None \<Longrightarrow> tcp_flush_event c = Inr c' \<Longrightarrow> tcp_run c' xs"
| run_transport: "tcp_run c xs \<Longrightarrow> oq_requests (c_queue c) \<noteq> [] \<Longrightarrow> n \<le> length (oq_request (c_queue c)) \<Longrightarrow>
    done_write_request 0 n c = Inr c' \<Longrightarrow> tcp_run c' xs"

lemma same_bytes:
  assumes "c_sent c' @ oq_bytes (c_queue c') = c_sent c @ oq_bytes (c_queue c)" "c_obuf c' = c_obuf c" "c_bin_block c' = c_bin_block c"
  shows "block_ok c' = block_ok c" "tcp_items c' = tcp_items c"
proof -
  have w: "c_sent c' @ oq_bytes (c_queue c') @ bs = c_sent c @ oq_bytes (c_queue c) @ bs" for bs
    using assms(1) by (metis append.assoc)
  show "block_ok c' = block_ok c" "tcp_items c' = tcp_items c"
    unfolding block_ok_def tcp_items_def tcp_wire_def assms(2,3) w by simp_all
qed

definition tcp_good :: "ChannelTCP \<Rightarrow> int list \<Rightarrow> bool" where
  "tcp_good c xs \<longleftrightarrow> chan_ok c \<and> block_ok c \<and> locks_ok c \<and> tcp_items c = xs"

lemma good_create: "tcp_good create_channel_out []"
  by (simp add: tcp_good_def chan_ok_def block_ok_def locks_ok_def tcp_items_def create_channel_out_def tcp_wire_def
      output_queue_ini_def oq_bytes_def oq_inv_def requested_def pool_ok_def)

lemma good_flush_event:
  assumes good: "tcp_good c xs" and e: "0 < c_flush_events c" "c_bin_block c = None"
  obtains c' where "tcp_flush_event c = Inr c'" "tcp_good c' xs"
proof -
  let ?c1 = "c\<lparr>c_flush_events := c_flush_events c - 1, c_out_flush_cnt := c_out_flush_cnt c - 1\<rparr>"
  have ok: "chan_ok ?c1" "c_bin_block ?c1 = None" "tcp_wire ?c1 = tcp_wire c"
    using good e by (simp_all add: tcp_good_def chan_ok_def tcp_wire_def)
  obtain c2 where c2: "tcp_flush_with_flags ?c1 = Inr c2" "chan_ok c2" "c_bin_block c2 = None" "tcp_wire c2 = tcp_wire ?c1"
    using flush_ok [OF ok(1,2)] by blast
  obtain k where k: "c_lock_cnt c2 = c_lock_cnt ?c1 + k" "length (oq_requests (c_queue c2)) = length (oq_requests (c_queue ?c1)) + k"
    "c_out_flush_cnt c2 = c_out_flush_cnt ?c1" "c_flush_events c2 = c_flush_events ?c1" "c_deleted c2 = c_deleted ?c1"
    using flush_locks [OF ok(1,2) c2(1)] .
  have "decode Plain (tcp_wire c) = (xs, Plain)"
    using good wire_decoded [of c] e(2) by (simp add: tcp_good_def)
  note p1 = plain_ok [OF ok(2), of xs] and p2 = plain_ok [OF c2(3), of xs]
  have items: "block_ok ?c1" "tcp_items ?c1 = xs" "block_ok c2" "tcp_items c2 = xs"
    using \<open>decode Plain (tcp_wire c) = (xs, Plain)\<close> p1 p2 ok(3) c2(4) by simp_all
  have l: "c_flush_events c = c_out_flush_cnt c" "c_out_flush_cnt c \<le> 2" "\<not> c_deleted c"
      "c_lock_cnt c = 2 + length (oq_requests (c_queue c))"
    using good e by (simp_all add: tcp_good_def locks_ok_def)
  consider "c_out_flush_cnt c = 1" | "c_out_flush_cnt c = 2" using l e by linarith
  then show ?thesis
  proof cases
    case 1
    let ?c3 = "c2\<lparr>c_lock_cnt := c_lock_cnt c2 - 1\<rparr>"
    have "tcp_flush_event c = Inr ?c3"
      using 1 c2(1) k(1) l by (simp add: tcp_flush_event_def Let_def tcp_unlock_def)
    moreover have "locks_ok ?c3" using 1 k l by (simp add: locks_ok_def)
    moreover have "chan_ok ?c3" "block_ok ?c3" "tcp_items ?c3 = xs"
      using c2(2) items same_bytes [of ?c3 c2] by (simp_all add: chan_ok_def)
    ultimately show ?thesis using that by (simp add: tcp_good_def)
  next
    case 2
    have "locks_ok ?c1" "locks_ok c2" using 2 k l by (simp_all add: locks_ok_def)
    with 2 c2 items ok that show ?thesis
      by (cases "c_out_eom_cnt c > 3") (simp_all add: tcp_flush_event_def Let_def tcp_good_def)
  qed
qed

lemma good_transport:
  assumes good: "tcp_good c xs" and r: "oq_requests (c_queue c) \<noteq> []" and n: "n \<le> length (oq_request (c_queue c))"
  obtains c' where "done_write_request 0 n c = Inr c'" "tcp_good c' xs"
proof -
  let ?q = "c_queue c"
  have ok: "chan_ok c" "block_ok c" "locks_ok c" "tcp_items c = xs" and inv: "oq_inv ?q" "oq_error ?q = 0"
    using good by (simp_all add: tcp_good_def chan_ok_def)
  have ne: "oq_bytes ?q \<noteq> []"
    using r inv by (auto simp: oq_inv_def requested_def oq_bytes_def ob_ok_def ob_rest_def split: list.splits)
  obtain q1 where q1: "output_queue_done 0 n ?q = Inr q1" "oq_inv q1" "oq_error q1 = 0" "oq_bytes q1 = drop n (oq_bytes ?q)"
    using oq.ack_ok [OF conjI [OF inv] ne n] by blast
  obtain rest where rest: "oq_bytes ?q = oq_request ?q @ rest" using oq.request_prefix [OF conjI [OF inv]] by blast
  let ?c' = "c\<lparr>c_queue := q1, c_sent := c_sent c @ take n (oq_request ?q),
    c_lock_cnt := c_lock_cnt c + length (oq_requests q1) - 1\<rparr>"
  have one: "length (oq_requests ?q) = 1" using r requests_length [OF inv(1)] by (auto split: if_splits)
  have "c_sent ?c' @ oq_bytes (c_queue ?c') = c_sent c @ oq_bytes ?q"
    using q1(4) rest n by simp
  then have "block_ok ?c'" "tcp_items ?c' = xs" using same_bytes [of ?c' c] ok by simp_all
  moreover have "chan_ok ?c'" using ok(1) q1 by (simp add: chan_ok_def)
  moreover have "locks_ok ?c'" using ok(3) one by (simp add: locks_ok_def)
  moreover have "done_write_request 0 n c = Inr ?c'"
    using q1(1) ok(3) one by (simp add: done_write_request_def lock_requests_def tcp_unlock_def Let_def locks_ok_def)
  ultimately show ?thesis using that by (simp add: tcp_good_def)
qed

lemma good_write:
  assumes "tcp_good c xs" "-3 < b" "b < 256"
  obtains c' where "tcp_write_stream b c = Inr c'" "tcp_good c' (xs @ [b])" "b < 0 \<longrightarrow> c_bin_block c' = None"
proof -
  obtain c' where c': "tcp_write_stream b c = Inr c'" "chan_ok c'" "block_ok c'" "tcp_items c' = tcp_items c @ [b]"
      "b < 0 \<longrightarrow> c_bin_block c' = None"
    using write_stream_ok [of c b] assms by (auto simp: tcp_good_def)
  with write_stream_locks [OF _ _ c'(1)] assms(1) that show ?thesis by (simp add: tcp_good_def)
qed

lemma tcp_run_good: "tcp_run c xs \<Longrightarrow> tcp_good c xs"
proof (induction rule: tcp_run.induct)
  case run_create
  show ?case by (rule good_create)
next
  case (run_zero_copy c xs zc)
  then show ?case using same_bytes [of "c\<lparr>c_zero_copy := zc\<rparr>" c] by (simp add: tcp_good_def chan_ok_def)
next
  case (run_write c xs b c')
  then show ?case using good_write [of c xs b] by auto
next
  case (run_write_block c xs bs c')
  then show ?case using write_block_ok [of c bs] by (auto simp: tcp_good_def)
next
  case (run_flush_event c xs c')
  then show ?case using good_flush_event [of c xs] by auto
next
  case (run_transport c xs n c')
  then show ?case using good_transport [of c xs n] by auto
qed

section \<open>Properties\<close>

text \<open>C4: whatever is written to a TCP channel, in any mixture with flush events and answers of the transport, with or without
  zero copy, the bytes on their way to the socket decode to exactly the items written; at the end of a message the encoding
  is complete.\<close>

theorem tcp_channel_encodes:
  assumes "tcp_run c xs" "c_bin_block c = None"
  shows "decode Plain (c_sent c @ oq_bytes (c_queue c) @ c_obuf c) = (xs, Plain)"
  using tcp_run_good [OF assms(1)] wire_decoded [of c] assms(2) by (simp add: tcp_good_def tcp_wire_def)

theorem tcp_channel_encodes_witness:
  "\<exists>c. tcp_run c [MARKER_EOM] \<and> decode Plain (c_sent c @ oq_bytes (c_queue c) @ c_obuf c) = ([MARKER_EOM], Plain)"
proof -
  obtain c where c: "tcp_write_stream MARKER_EOM create_channel_out = Inr c" "c_bin_block c = None"
    by (rule good_write [OF good_create, of MARKER_EOM]) simp_all
  have r: "tcp_run c [MARKER_EOM]" using run_write [OF run_create _ _ c(1)] by simp
  with tcp_channel_encodes [OF r] c(2) show ?thesis by auto
qed



text \<open>C29: the lock counter of a channel counts its reasons to live: the reading side, an outstanding write request and the posted
  flush events, of which there are at most two; no write, flush or answer of the transport deletes the channel.\<close>

theorem tcp_channel_locks:
  assumes "tcp_run c xs"
  shows "\<not> c_deleted c \<and> c_out_flush_cnt c \<le> 2 \<and> c_flush_events c = c_out_flush_cnt c \<and>
    c_lock_cnt c = 1 + length (oq_requests (c_queue c)) + (if c_out_flush_cnt c > 0 then 1 else 0)"
  using tcp_run_good [OF assms] by (simp add: tcp_good_def locks_ok_def)

theorem tcp_channel_locks_witness: "\<not> c_deleted create_channel_out \<and> c_lock_cnt create_channel_out = 1"
  using tcp_channel_locks [OF run_create] by (simp add: create_channel_out_def output_queue_ini_def)

text \<open>a JSON string written to a TCP channel appends exactly its text to the items of the channel, so the bytes of the
  socket carry a string that json_read_alloc_string reads back.\<close>

theorem tcp_json_string:
  assumes "tcp_run c xs"
  shows "\<exists>c'. json_write_string tcp_class (Some s) (Inr c) = Inr c' \<and> tcp_items c' = xs @ json_string s \<and>
    json_read_alloc_string (drop (length xs) (tcp_items c') @ rest) = Inr (Some s, rest)"
proof -
  have "tcp_inv (Inr c)" "channel_items (Inr c) = xs"
    using tcp_run_good [OF assms] by (simp_all add: tcp_inv_def channel_items_def tcp_good_def)
  from tcp.writesD [OF tcp.writes_json_string this(1), of s] this(2) show ?thesis
    by (cases "json_write_string tcp_class (Some s) (Inr c)")
      (auto simp: tcp_inv_def channel_items_def json_read_alloc_string_text)
qed

theorem tcp_json_string_witness:
  "\<exists>c'. json_write_string tcp_class (Some [65, 3, 34]) (Inr create_channel_out) = Inr c' \<and>
    tcp_items c' = [] @ json_string [65, 3, 34] \<and>
    json_read_alloc_string (drop (length ([] :: int list)) (tcp_items c') @ [0]) = Inr (Some [65, 3, 34], [0])"
  by (rule tcp_json_string [OF run_create])

end
