(* ===== verification/Inputbuf.thy ===== *)
theory Inputbuf
  imports Wire
begin

text \<open>
  framework/inputbuf.c: the input buffer of a channel, a ring of bytes. \<open>ibuf_read_done\<close> takes what the transport
  has read and counts the messages in it; \<open>ibuf_get_more\<close> decodes the bytes for the reader of the stream. With it the
  callbacks of channel_tcp.c: \<open>post_read\<close>, \<open>trigger_message\<close> and the reading of an item.

  Pointers into the buffer are offsets. \<open>ib_pending\<close> is the read request the transport has (its place and
  size), \<open>ib_events\<close> the number of posted \<open>handle_channel_msg\<close> events. The callback \<open>wait_read\<close>, which blocks
  until the transport has read more, is a parameter of \<open>ibuf_get_more\<close>.
\<close>

section \<open>State\<close>

datatype handling = HandleMsgIdle | HandleMsgTriggered | HandleMsgActive

record InputBuf =
  ib_buf :: "byte list"
  ib_inp :: nat
  ib_cur :: nat
  ib_end :: nat
  ib_inp_esc :: bool
  ib_out_esc :: bool
  ib_eof :: bool
  ib_long_msg :: bool
  ib_message_count :: nat
  ib_handling_msg :: handling
  ib_out_size_mode :: nat
  ib_out_data_size :: nat
  ib_inp_size_mode :: nat
  ib_inp_data_size :: nat
  ib_pending :: "(nat \<times> nat) option"
  ib_events :: nat

abbreviation ib_size :: "InputBuf \<Rightarrow> nat" where "ib_size ib \<equiv> length (ib_buf ib)"

type_synonym 'a ibuf_op = "(InputBuf, 'a) comp"

definition modI :: "(InputBuf \<Rightarrow> InputBuf) \<Rightarrow> unit ibuf_op" where
  "modI f = (\<lambda>ib. Inr ((), f ib))"

definition assertI :: "(InputBuf \<Rightarrow> bool) \<Rightarrow> unit ibuf_op" where
  "assertI P = (\<lambda>ib. if P ib then Inr ((), ib) else Inl Assertion)"

definition getI :: "(InputBuf \<Rightarrow> 'a) \<Rightarrow> 'a ibuf_op" where
  "getI f = (\<lambda>ib. Inr (f ib, ib))"

text \<open>The allocated block is not initialised; the model puts zeros there.\<close>

definition ibuf_init :: InputBuf where
  "ibuf_init = \<lparr>ib_buf = replicate 4096 0, ib_inp = 0, ib_cur = 0, ib_end = 0, ib_inp_esc = False, ib_out_esc = False,
     ib_eof = False, ib_long_msg = False, ib_message_count = 0, ib_handling_msg = HandleMsgIdle, ib_out_size_mode = 0,
     ib_out_data_size = 0, ib_inp_size_mode = 0, ib_inp_data_size = 0, ib_pending = None, ib_events = 0\<rparr>"

section \<open>Callbacks and messages\<close>

definition tcp_post_read :: "nat \<Rightarrow> nat \<Rightarrow> unit ibuf_op" where
  "tcp_post_read pos n =
     modI (\<lambda>ib. if ib_pending ib \<noteq> None then ib else ib\<lparr>ib_pending := Some (pos, n)\<rparr>)"

definition tcp_trigger_message :: "unit ibuf_op" where
  "tcp_trigger_message =
     seqR (assertI (\<lambda>ib. ib_message_count ib > 0))
       (modI (\<lambda>ib. if ib_handling_msg ib = HandleMsgIdle
          then ib\<lparr>ib_events := Suc (ib_events ib), ib_handling_msg := HandleMsgTriggered\<rparr> else ib))"

definition ibuf_new_message :: "unit ibuf_op" where
  "ibuf_new_message =
     seqR (modI (\<lambda>ib. ib\<lparr>ib_message_count := Suc (ib_message_count ib)\<rparr>)) tcp_trigger_message"

definition ibuf_eof :: "unit ibuf_op" where
  "ibuf_eof = (\<lambda>ib. if \<not> ib_eof ib then seqR (modI (\<lambda>ib. ib\<lparr>ib_eof := True\<rparr>)) ibuf_new_message ib else Inr ((), ib))"

definition ibuf_free_size :: "nat ibuf_op" where
  "ibuf_free_size =
     (\<lambda>ib. if ib_eof ib then Inr (0, ib)
       else if ib_cur ib = ib_size ib \<and> ib_cur ib \<noteq> ib_end ib then Inl Assertion
       else
         let ib1 = (if ib_cur ib = ib_size ib then ib\<lparr>ib_cur := 0, ib_end := 0\<rparr> else ib)
         in if \<not> ib_inp ib1 < ib_size ib1 then Inl Assertion
            else if ib_cur ib1 \<le> ib_inp ib1 then
              Inr (ib_size ib1 - ib_inp ib1 - (if ib_cur ib1 = 0 then 1 else 0), ib1)
            else Inr (ib_cur ib1 - ib_inp ib1 - 1, ib1))"

definition ibuf_trigger_read :: "unit ibuf_op" where
  "ibuf_trigger_read =
     bindR ibuf_free_size (\<lambda>n.
       if n > 0 then
         seqR (assertI (\<lambda>ib. ib_inp ib + n \<le> ib_size ib)) (bindR (getI ib_inp) (\<lambda>pos. tcp_post_read pos n))
       else retR ())"

section \<open>Reading an item\<close>

text \<open>The bytes that can be taken without going round: up to \<open>inp\<close>, or to the end of the ring.\<close>

definition run_limit :: "nat \<Rightarrow> InputBuf \<Rightarrow> nat" where
  "run_limit out ib = (if out \<le> ib_inp ib then ib_inp ib else ib_size ib)"

text \<open>\<open>(ch & 0x7f) << (mode - 1) * 7\<close> in an \<open>int\<close>: the shift overflows from the fifth byte on, depending on its value.\<close>

definition size_bits :: "byte \<Rightarrow> nat \<Rightarrow> exn + nat" where
  "size_bits c md =
     (let n = (unat c mod 128) * 128 ^ (md - 1)
      in if (md - 1) * 7 \<ge> 32 \<or> n \<ge> 2 ^ 31 then Inl Undefined else Inr n)"

text \<open>The loop over plain data that stops at the next \<open>ESC\<close>.\<close>

definition plain_run :: "nat \<Rightarrow> nat \<Rightarrow> InputBuf \<Rightarrow> nat" where
  "plain_run out lim ib =
     out + length (takeWhile (\<lambda>b. uint b \<noteq> ESC) (take (lim - out) (drop out (ib_buf ib))))"

definition get_more_done :: "int \<Rightarrow> InputBuf \<Rightarrow> (exn + int \<times> InputBuf) option" where
  "get_more_done c ib = Some (seqR ibuf_trigger_read (retR c) ib)"

definition end_of_message :: "unit ibuf_op" where
  "end_of_message =
     seqR (modI (\<lambda>ib. ib\<lparr>ib_message_count := ib_message_count ib - 1, ib_handling_msg := HandleMsgIdle\<rparr>))
       (\<lambda>ib. if ib_message_count ib > 0 then tcp_trigger_message ib else Inr ((), ib))"

partial_function (option) get_more_loop ::
    "unit ibuf_op \<Rightarrow> bool \<Rightarrow> nat \<Rightarrow> InputBuf \<Rightarrow> (exn + int \<times> InputBuf) option" where
  "get_more_loop wait_read peeking out0 ib =
     (let out = (if out0 = ib_size ib then 0 else out0) in
      if out = ib_inp ib then
        (if \<not> (ib_long_msg ib \<or> ib_eof ib) then Some (Inl Assertion)
         else if ib_eof ib then Some (Inr (MARKER_EOS, ib\<lparr>ib_cur := out\<rparr>))
         else if ib_message_count ib \<noteq> 1 then Some (Inl Assertion)
         else
           (case seqR ibuf_trigger_read wait_read (ib\<lparr>ib_cur := out\<rparr>) of
              Inl e \<Rightarrow> Some (Inl e)
            | Inr (_, ib1) \<Rightarrow> get_more_loop wait_read peeking (ib_cur ib1) ib1))
      else
        let c = ib_buf ib ! out in
        if ib_out_size_mode ib \<noteq> 0 then
          (if ib_out_esc ib then Some (Inl Assertion)
           else
             (case size_bits c (ib_out_size_mode ib) of
                Inl e \<Rightarrow> Some (Inl e)
              | Inr n \<Rightarrow>
                  get_more_loop wait_read peeking (Suc out)
                    (ib\<lparr>ib_out_data_size := ib_out_data_size ib OR n,
                        ib_out_size_mode := (if c AND 0x80 = 0 then 0 else Suc (ib_out_size_mode ib))\<rparr>)))
        else if ib_out_data_size ib > 0 then
          (if ib_out_esc ib then Some (Inl Assertion)
           else
             let lim = run_limit (Suc out) ib;
                 out1 = (if lim - out < ib_out_data_size ib then lim else out + ib_out_data_size ib);
                 rest = (if lim - out < ib_out_data_size ib then ib_out_data_size ib - (lim - out) else 0)
             in get_more_done (uint c)
                  (ib\<lparr>ib_out_data_size := rest, ib_cur := (if peeking then out else Suc out), ib_end := out1\<rparr>))
        else if ib_out_esc ib then
          (if c = 3 then
             get_more_loop wait_read peeking (Suc out)
               (ib\<lparr>ib_out_size_mode := 1, ib_out_data_size := 0, ib_out_esc := False\<rparr>)
           else if c = 0 \<or> c = 1 \<or> c = 2 then
             (case (if c = 1 \<and> \<not> peeking then end_of_message ib else Inr ((), ib)) of
                Inl e \<Rightarrow> Some (Inl e)
              | Inr (_, ib1) \<Rightarrow>
                  let out1 = (if peeking then out else Suc out)
                  in get_more_done (if c = 0 then ESC else if c = 1 then MARKER_EOM else MARKER_EOS)
                       (ib1\<lparr>ib_out_esc := peeking, ib_cur := out1, ib_end := out1\<rparr>))
           else Some (Inl Assertion))
        else if uint c \<noteq> ESC then
          (let out1 = plain_run (Suc out) (run_limit (Suc out) ib) ib
           in get_more_done (uint c) (ib\<lparr>ib_cur := (if peeking then out else Suc out), ib_end := out1\<rparr>))
        else get_more_loop wait_read peeking (Suc out) (ib\<lparr>ib_out_esc := True\<rparr>))"

definition ibuf_get_more :: "unit ibuf_op \<Rightarrow> bool \<Rightarrow> InputBuf \<Rightarrow> (exn + int \<times> InputBuf) option" where
  "ibuf_get_more wait_read peeking ib =
     (if \<not> ib_message_count ib > 0 \<or> ib_handling_msg ib \<noteq> HandleMsgActive \<or> \<not> ib_cur ib \<le> ib_size ib \<or>
         ib_cur ib \<noteq> ib_end ib
      then Some (Inl Assertion)
      else get_more_loop wait_read peeking (ib_cur ib) ib)"

definition tcp_read_stream :: "unit ibuf_op \<Rightarrow> InputBuf \<Rightarrow> (exn + int \<times> InputBuf) option" where
  "tcp_read_stream wait_read ib =
     (if ib_cur ib < ib_end ib then Some (Inr (uint (ib_buf ib ! ib_cur ib), ib\<lparr>ib_cur := Suc (ib_cur ib)\<rparr>))
      else ibuf_get_more wait_read False ib)"

definition tcp_peek_stream :: "unit ibuf_op \<Rightarrow> InputBuf \<Rightarrow> (exn + int \<times> InputBuf) option" where
  "tcp_peek_stream wait_read ib =
     (if ib_cur ib < ib_end ib then Some (Inr (uint (ib_buf ib ! ib_cur ib), ib))
      else ibuf_get_more wait_read True ib)"

definition ibuf_flush :: "InputBuf \<Rightarrow> InputBuf" where
  "ibuf_flush ib = ib\<lparr>ib_cur := ib_inp ib, ib_end := ib_inp ib, ib_message_count := 0, ib_out_data_size := 0,
     ib_out_size_mode := 0, ib_inp_data_size := 0, ib_inp_size_mode := 0\<rparr>"

section \<open>Taking what was read\<close>

text \<open>An escape code of the input.\<close>

definition read_done_escape :: "byte \<Rightarrow> unit ibuf_op" where
  "read_done_escape c =
     seqR (modI (\<lambda>ib. ib\<lparr>ib_inp_esc := False\<rparr>))
      (if c = 0 then retR ()
       else if c = 1 then
         (\<lambda>ib. if ib_long_msg ib then
             seqR (modI (\<lambda>ib. ib\<lparr>ib_long_msg := False\<rparr>)) (assertI (\<lambda>ib. ib_message_count ib = 1)) ib
           else ibuf_new_message ib)
       else if c = 2 then ibuf_eof
       else if c = 3 then modI (\<lambda>ib. ib\<lparr>ib_inp_size_mode := 1, ib_inp_data_size := 0\<rparr>)
       else ibuf_eof)"

definition wrap :: "InputBuf \<Rightarrow> nat \<Rightarrow> nat" where
  "wrap ib p = (if p = ib_size ib then 0 else p)"

text \<open>One byte outside of a block of data.\<close>

definition read_done_byte :: "byte \<Rightarrow> unit ibuf_op" where
  "read_done_byte c =
     (\<lambda>ib. if ib_inp_size_mode ib \<noteq> 0 then
         (if ib_inp_esc ib then Inl Assertion
          else
            (case size_bits c (ib_inp_size_mode ib) of
               Inl e \<Rightarrow> Inl e
             | Inr n \<Rightarrow>
                 Inr ((), ib\<lparr>ib_inp_data_size := ib_inp_data_size ib OR n,
                   ib_inp_size_mode := (if c AND 0x80 = 0 then 0 else Suc (ib_inp_size_mode ib))\<rparr>)))
       else if ib_inp_esc ib then read_done_escape c ib
       else if uint c = ESC then Inr ((), ib\<lparr>ib_inp_esc := True\<rparr>)
       else Inr ((), ib))"

function read_done_loop :: "nat \<Rightarrow> nat \<Rightarrow> nat ibuf_op" where
  "read_done_loop len inp ib =
     (if len = 0 then Inr (inp, ib)
      else if ib_inp_size_mode ib = 0 \<and> ib_inp_data_size ib > 0 then
        (if ib_inp_esc ib then Inl Assertion
         else
           let n = min (ib_inp_data_size ib) len;
               p = inp + n
           in read_done_loop (len - n) (if p \<ge> ib_size ib then p - ib_size ib else p)
                (ib\<lparr>ib_inp_data_size := ib_inp_data_size ib - n\<rparr>))
      else
        (case read_done_byte (ib_buf ib ! inp) ib of
           Inl e \<Rightarrow> Inl e
         | Inr (_, ib1) \<Rightarrow> read_done_loop (len - 1) (wrap ib (Suc inp)) ib1))"
  by pat_completeness auto
termination
  by (relation "measure (\<lambda>(len, inp, ib). len)") auto

declare read_done_loop.simps [simp del]

text \<open>A full ring of fewer than 16 MB is moved into one of twice the size, the unread bytes first.\<close>

definition ibuf_grow :: "InputBuf \<Rightarrow> InputBuf" where
  "ibuf_grow ib = ib\<lparr>ib_buf := drop (ib_cur ib) (ib_buf ib) @ take (ib_cur ib) (ib_buf ib) @ replicate (ib_size ib) 0,
     ib_inp := ib_size ib - 1, ib_cur := 0, ib_end := ib_end ib - ib_cur ib\<rparr>"

definition ibuf_read_done :: "nat \<Rightarrow> unit ibuf_op" where
  "ibuf_read_done len =
     (if len = 0 then ibuf_eof
      else
        seqR (assertI (\<lambda>ib. \<not> ib_eof ib))
        (bindR (\<lambda>ib. read_done_loop len (ib_inp ib) ib) (\<lambda>inp.
         seqR (modI (\<lambda>ib. ib\<lparr>ib_inp := inp\<rparr>))
         (seqR
           (\<lambda>ib. if ib_eof ib then Inr ((), ib)
             else bindR ibuf_free_size (\<lambda>n.
               modI (\<lambda>ib. if n = 0 \<and> ib_size ib < 0x1000000 then ibuf_grow ib else ib)) ib)
           (bindR ibuf_free_size (\<lambda>n.
             if n > 0 then ibuf_trigger_read
             else (\<lambda>ib. if ib_message_count ib = 0
                 then seqR (modI (\<lambda>ib. ib\<lparr>ib_long_msg := True\<rparr>)) ibuf_new_message ib else Inr ((), ib))))))))"

text \<open>\<open>tcp_channel_read_done\<close> of a connected channel: the transport has read some bytes into the place of its request.\<close>

definition transport_read :: "byte list \<Rightarrow> unit ibuf_op" where
  "transport_read bs =
     seqR (assertI (\<lambda>ib. ib_pending ib \<noteq> None))
      (seqR (modI (\<lambda>ib. ib\<lparr>ib_pending := None,
         ib_buf := take (ib_inp ib) (ib_buf ib) @ bs @ drop (ib_inp ib + length bs) (ib_buf ib)\<rparr>))
       (ibuf_read_done (length bs)))"

definition ibuf_start_message :: "int ibuf_op" where
  "ibuf_start_message =
     seqR (assertI (\<lambda>ib. ib_handling_msg ib = HandleMsgTriggered))
      (\<lambda>ib. if ib_message_count ib = 0 then Inr (0, ib\<lparr>ib_handling_msg := HandleMsgIdle\<rparr>)
        else if ib_eof ib then Inr (-1, ib\<lparr>ib_handling_msg := HandleMsgIdle\<rparr>)
        else Inr (1, ib\<lparr>ib_handling_msg := HandleMsgActive\<rparr>))"

end
