(* ===== verification/Inputbuf_Proofs.thy ===== *)
theory Inputbuf_Proofs
  imports Inputbuf
begin

text \<open>
  The input buffer refines the decoding of the bytes it was given: reading from the ring yields the items the bytes
  encode, in order, while the transport adds bytes and the ring wraps round and grows.
\<close>

lemmas ibuf_ops = modI_def assertI_def getI_def

section \<open>The ring\<close>

text \<open>The bytes from an offset up to \<open>inp\<close>, going round at the end of the buffer.\<close>

definition ring_from :: "InputBuf \<Rightarrow> nat \<Rightarrow> byte list" where
  "ring_from ib p = (if p \<le> ib_inp ib then take (ib_inp ib - p) (drop p (ib_buf ib)) else drop p (ib_buf ib) @ take (ib_inp ib) (ib_buf ib))"

definition ptr_ok :: "InputBuf \<Rightarrow> bool" where
  "ptr_ok ib \<longleftrightarrow> ib_inp ib < ib_size ib \<and> ib_cur ib \<le> ib_end ib \<and> ib_end ib \<le> ib_size ib \<and>
     (ib_cur ib \<le> ib_inp ib \<longrightarrow> ib_end ib \<le> ib_inp ib)"

definition wrapped :: "InputBuf \<Rightarrow> nat \<Rightarrow> nat" where
  "wrapped ib p = (if p = ib_size ib then 0 else p)"

lemma ring_wrapped [simp]:
  "ib_inp ib < ib_size ib \<Longrightarrow> ring_from ib (wrapped ib p) = ring_from ib p"
  by (auto simp: ring_from_def wrapped_def)

lemma ring_end: "ib_inp ib < ib_size ib \<Longrightarrow> ring_from ib (ib_size ib) = ring_from ib 0"
  by (simp add: ring_from_def)

lemma ring_empty: "ib_inp ib < ib_size ib \<Longrightarrow> p < ib_size ib \<Longrightarrow> ring_from ib p = [] \<longleftrightarrow> p = ib_inp ib"
  by (auto simp: ring_from_def)

lemma ring_step:
  "ib_inp ib < ib_size ib \<Longrightarrow> p < ib_size ib \<Longrightarrow> p \<noteq> ib_inp ib \<Longrightarrow> ring_from ib p = ib_buf ib ! p # ring_from ib (Suc p)"
  by (auto simp: ring_from_def Cons_nth_drop_Suc [symmetric] take_Cons' Suc_diff_Suc split: if_splits)

definition region :: "InputBuf \<Rightarrow> nat \<Rightarrow> nat \<Rightarrow> byte list" where
  "region ib p q = take (q - p) (drop p (ib_buf ib))"

lemma region_nil [simp]: "region ib p p = []"
  by (simp add: region_def)

lemma region_step: "p < q \<Longrightarrow> q \<le> ib_size ib \<Longrightarrow> region ib p q = ib_buf ib ! p # region ib (Suc p) q"
  by (simp add: region_def Cons_nth_drop_Suc [symmetric] take_Cons' Suc_diff_Suc)

text \<open>A run that does not cross \<open>inp\<close> or the end of the buffer is the front of the ring.\<close>

lemma ring_region:
  assumes "p \<le> q" "q \<le> ib_size ib" "p \<le> ib_inp ib \<longrightarrow> q \<le> ib_inp ib" "ib_inp ib < ib_size ib"
  shows "ring_from ib p = region ib p q @ ring_from ib q"
proof -
  have "drop p (ib_buf ib) = region ib p q @ drop q (ib_buf ib)"
    using assms(1,2) unfolding region_def
    by (metis append_take_drop_id drop_drop le_add_diff_inverse2)
  moreover have "take (ib_inp ib - p) (drop p (ib_buf ib)) = region ib p q @ take (ib_inp ib - q) (drop q (ib_buf ib))"
    if "q \<le> ib_inp ib"
    using take_add [of "q - p" "ib_inp ib - q" "drop p (ib_buf ib)"] that assms(1) by (simp add: region_def)
  ultimately show ?thesis using assms by (auto simp: ring_from_def)
qed

lemma run_limit_ok:
  assumes "ib_inp ib < ib_size ib" "out < ib_size ib" "out \<noteq> ib_inp ib"
  shows "out < run_limit (Suc out) ib" "run_limit (Suc out) ib \<le> ib_size ib"
    "out \<le> ib_inp ib \<longrightarrow> run_limit (Suc out) ib \<le> ib_inp ib"
  using assms by (auto simp: run_limit_def)

section \<open>The decoder state of the output side\<close>

fun mode_state :: "nat \<Rightarrow> nat \<Rightarrow> bool \<Rightarrow> wire_state" where
  "mode_state (Suc k) n esc = Size k n"
| "mode_state 0 n esc = (if n > 0 then Data n else if esc then Escaped else Plain)"

definition out_state :: "InputBuf \<Rightarrow> wire_state" where
  "out_state ib = mode_state (ib_out_size_mode ib) (ib_out_data_size ib) (ib_out_esc ib)"

definition inp_state :: "InputBuf \<Rightarrow> wire_state" where
  "inp_state ib = mode_state (ib_inp_size_mode ib) (ib_inp_data_size ib) (ib_inp_esc ib)"

definition mode_ok :: "nat \<Rightarrow> nat \<Rightarrow> bool \<Rightarrow> bool" where
  "mode_ok md n esc \<longleftrightarrow> (md \<noteq> 0 \<or> n > 0 \<longrightarrow> \<not> esc) \<and> (md \<noteq> 0 \<longrightarrow> n < 128 ^ (md - 1))"

abbreviation out_ok :: "InputBuf \<Rightarrow> bool" where
  "out_ok ib \<equiv> mode_ok (ib_out_size_mode ib) (ib_out_data_size ib) (ib_out_esc ib)"

abbreviation inp_ok :: "InputBuf \<Rightarrow> bool" where
  "inp_ok ib \<equiv> mode_ok (ib_inp_size_mode ib) (ib_inp_data_size ib) (ib_inp_esc ib)"

text \<open>Sizes of at most four bytes: with more the source shifts an \<open>int\<close> too far.\<close>

fun small_sizes :: "wire_state \<Rightarrow> byte list \<Rightarrow> bool" where
  "small_sizes st [] = True"
| "small_sizes st (b # bs) = ((case st of Size k n \<Rightarrow> k < 4 | _ \<Rightarrow> True) \<and> small_sizes (snd (wire_step st b)) bs)"

lemma small_sizes_append: "small_sizes st (as @ bs) \<longleftrightarrow> small_sizes st as \<and> small_sizes (snd (decode st as)) bs"
  by (induction as arbitrary: st) (auto simp: Let_def split: prod.splits)

lemma small_sizes_valid: "snd (decode st bs) \<noteq> Invalid \<Longrightarrow> small_sizes st bs"
proof (induction bs arbitrary: st)
  case (Cons b bs)
  have "small_sizes (snd (wire_step st b)) bs" using Cons by (auto simp: Let_def split: prod.splits)
  moreover have "k < 4" if "st = Size k n" for k n using Cons.prems that by (auto simp: Let_def split: if_splits)
  ultimately show ?case by (simp split: wire_state.splits)
qed simp

lemma or_mult_add: "b < 2 ^ m \<Longrightarrow> b OR (a * 2 ^ m) = b + a * 2 ^ m" for a b :: nat
proof -
  assume b: "b < 2 ^ m"
  then have "push_bit m (int a) OR int b = int a * 2 ^ m + int b"
    by (intro or_push_bit_add) simp_all
  then have "int (a * 2 ^ m OR b) = int (b + a * 2 ^ m)"
    by (simp add: push_bit_eq_mult of_nat_or_eq)
  then show ?thesis by (metis of_nat_eq_iff or.commute)
qed

lemma pow128: "(128 :: nat) ^ k = 2 ^ (7 * k)"
  by (simp add: power_mult)

lemma size_bits_ok:
  assumes "k < 4"
  shows "size_bits c (Suc k) = Inr ((unat c mod 128) * 128 ^ k)"
proof -
  have "(128 :: nat) ^ k \<le> 128 ^ 3" using assms by (intro power_increasing) simp_all
  then have "(unat c mod 128) * 128 ^ k \<le> 127 * 128 ^ 3"
    using mod_less_divisor [of 128 "unat c"] by (intro mult_le_mono) simp_all
  with assms show ?thesis by (simp add: size_bits_def Let_def)
qed

lemma size_or:
  assumes "n < 128 ^ k"
  shows "n OR ((unat c mod 128) * 128 ^ k) = n + (unat c mod 128) * 128 ^ k"
    and "n + (unat (c :: byte) mod 128) * 128 ^ k < 128 ^ Suc k"
proof -
  show "n OR ((unat c mod 128) * 128 ^ k) = n + (unat c mod 128) * 128 ^ k"
    using assms unfolding pow128 by (rule or_mult_add)
  have "(unat c mod 128) * 128 ^ k \<le> 127 * 128 ^ k" by (intro mult_le_mono) simp_all
  with assms show "n + (unat c mod 128) * 128 ^ k < 128 ^ Suc k" unfolding power_Suc by linarith
qed

lemma high_bit: "c AND 0x80 = 0 \<longleftrightarrow> unat c < 128" for c :: byte
proof -
  have "uint c = int (unat c)" by simp
  then have l: "unat c < 256" using uint_byte_range(2) [of c] by linarith
  have "c AND 0x80 = 0 \<longleftrightarrow> \<not> bit c 7" using and_exp_eq_0_iff_not_bit [of c 7] by simp
  also have "\<dots> \<longleftrightarrow> \<not> bit (unat c) 7" by (simp add: bit_unsigned_iff)
  also have "\<dots> \<longleftrightarrow> even (unat c div 128)" by (simp add: bit_iff_odd)
  also have "\<dots> \<longleftrightarrow> unat c < 128"
  proof (cases "unat c < 128")
    case False
    with l have "unat c div 128 = 1" by (intro div_nat_eqI) simp_all
    with False show ?thesis by simp
  qed simp
  finally show ?thesis .
qed

section \<open>What is left to read\<close>

definition ib_items :: "InputBuf \<Rightarrow> int list" where
  "ib_items ib = items_of (region ib (ib_cur ib) (ib_end ib)) @ fst (decode (out_state ib) (ring_from ib (ib_end ib)))"

text \<open>A pending request of the transport is for free space: behind \<open>inp\<close>, and before \<open>cur\<close> comes round.\<close>

definition free_at :: "InputBuf \<Rightarrow> nat \<Rightarrow> nat" where
  "free_at ib p =
     (if p \<le> ib_inp ib then ib_size ib - ib_inp ib - (if p = 0 then 1 else 0) else p - ib_inp ib - 1)"

definition pend :: "InputBuf \<Rightarrow> nat \<Rightarrow> bool" where
  "pend ib u \<longleftrightarrow> (case ib_pending ib of
     None \<Rightarrow> True
   | Some (p, n) \<Rightarrow> p = ib_inp ib \<and> 0 < n \<and> n \<le> ib_size ib - ib_inp ib \<and> n + u < ib_size ib)"

abbreviation unread :: "InputBuf \<Rightarrow> byte list" where
  "unread ib \<equiv> ring_from ib (ib_cur ib)"

lemma pend_mono: "pend ib u \<Longrightarrow> v \<le> u \<Longrightarrow> pend ib v"
  by (auto simp: pend_def split: option.splits)

lemma pend_cong:
  "ib_pending ib' = ib_pending ib \<Longrightarrow> ib_inp ib' = ib_inp ib \<Longrightarrow> ib_size ib' = ib_size ib \<Longrightarrow> pend ib' u = pend ib u"
  by (simp only: pend_def)

lemma free_at_bound:
  assumes "ib_inp ib < ib_size ib" "p \<le> ib_size ib"
  shows "free_at ib p \<le> ib_size ib - ib_inp ib" "free_at ib p + length (ring_from ib p) < ib_size ib"
  using assms by (auto simp: free_at_def ring_from_def)

text \<open>What \<open>ibuf_trigger_read\<close> may change: the pointers when they are at the end of the buffer, and the request.\<close>

lemma ib_items_pending [simp]: "ib_items (ib\<lparr>ib_pending := v\<rparr>) = ib_items ib" "ptr_ok (ib\<lparr>ib_pending := v\<rparr>) = ptr_ok ib"
  by (simp_all add: ib_items_def out_state_def region_def ring_from_def ptr_ok_def)

lemma free_size_ok:
  assumes "ptr_ok ib" "\<not> ib_eof ib"
  defines "ib1 \<equiv> (if ib_cur ib = ib_size ib then ib\<lparr>ib_cur := 0, ib_end := 0\<rparr> else ib)"
  shows "ibuf_free_size ib = Inr (free_at ib1 (ib_cur ib1), ib1)" "ptr_ok ib1" "ib_items ib1 = ib_items ib"
    "ib_inp ib1 + free_at ib1 (ib_cur ib1) \<le> ib_size ib1"
  using assms by (auto simp: ptr_ok_def ibuf_free_size_def Let_def free_at_def ib_items_def out_state_def ring_end ring_from_def)

lemma free_at_0: "ib_inp ib < ib_size ib \<Longrightarrow> p \<le> ib_size ib \<Longrightarrow> free_at ib p = 0 \<Longrightarrow> ib_size ib - 1 \<le> length (ring_from ib p)"
  by (auto simp: free_at_def ring_from_def split: if_splits)

text \<open>The transport has a request unless there is no room, or no more input.\<close>

definition asked :: "InputBuf \<Rightarrow> bool" where
  "asked ib \<longleftrightarrow> ib_pending ib \<noteq> None \<or> ib_eof ib \<or> ib_size ib - 1 \<le> length (unread ib)"

definition same_but_ptr :: "InputBuf \<Rightarrow> InputBuf \<Rightarrow> bool" where
  "same_but_ptr ib ib' \<longleftrightarrow> (\<exists>c e p. ib' = ib\<lparr>ib_cur := c, ib_end := e, ib_pending := p\<rparr>)"

lemma same_but_ptrI: "ib' = ib\<lparr>ib_cur := ib_cur ib', ib_end := ib_end ib', ib_pending := ib_pending ib'\<rparr> \<Longrightarrow> same_but_ptr ib ib'"
  unfolding same_but_ptr_def by blast

lemma trigger_read_ok:
  assumes "ptr_ok ib"
  obtains ib' where "ibuf_trigger_read ib = Inr ((), ib')" "ptr_ok ib'" "ib_items ib' = ib_items ib" "same_but_ptr ib ib'"
    "ring_from ib' (ib_end ib') = ring_from ib (ib_end ib)" "pend ib (length (unread ib)) \<longrightarrow> pend ib' (length (unread ib'))" "asked ib'"
    "length (unread ib') = length (unread ib)"
proof (cases "ib_eof ib")
  case True
  with assms that [of ib] show ?thesis
    by (simp add: asked_def ibuf_trigger_read_def ibuf_free_size_def reader_simps same_but_ptrI)
next
  case False
  let ?ib1 = "if ib_cur ib = ib_size ib then ib\<lparr>ib_cur := 0, ib_end := 0\<rparr> else ib"
  let ?n = "free_at ?ib1 (ib_cur ?ib1)"
  note fs = free_size_ok [OF assms False]
  let ?ib2 = "if ?n > 0 \<and> ib_pending ?ib1 = None then ?ib1\<lparr>ib_pending := Some (ib_inp ?ib1, ?n)\<rparr> else ?ib1"
  have "ibuf_trigger_read ib = Inr ((), ?ib2)"
    unfolding ibuf_trigger_read_def bindR_apply fs(1) sum.case prod.case
    using fs(4) by (simp add: reader_simps ibuf_ops tcp_post_read_def)
  moreover have "ptr_ok ?ib2" "ib_items ?ib2 = ib_items ib"
    using fs(2,3) by (simp_all only: ib_items_pending split: if_split) simp_all
  moreover have "same_but_ptr ib ?ib2" by (rule same_but_ptrI) simp
  moreover have "ring_from ?ib2 (ib_end ?ib2) = ring_from ib (ib_end ib)"
    using assms by (auto simp: ring_from_def ptr_ok_def)
  moreover have l: "length (unread ?ib1) = length (unread ib)" using assms by (auto simp: ring_from_def ptr_ok_def)
  have b: "ib_inp ?ib1 < ib_size ?ib1" "ib_cur ?ib1 \<le> ib_size ?ib1" using fs(2) by (auto simp: ptr_ok_def)
  have u: "unread ?ib2 = unread ?ib1" by (simp add: ring_from_def)
  moreover have "asked ?ib2" using free_at_0 [OF b] unfolding asked_def u by auto
  moreover have "length (unread ?ib2) = length (unread ib)" unfolding u by (rule l)
  moreover have "pend ib (length (unread ib)) \<longrightarrow> pend ?ib2 (length (unread ?ib2))"
  proof -
    from free_at_bound [OF b] have "pend (?ib1\<lparr>ib_pending := Some (ib_inp ?ib1, ?n)\<rparr>) (length (unread ?ib1))" if "?n > 0"
      using that unfolding pend_def by simp
    moreover have "unread (?ib1\<lparr>ib_pending := v\<rparr>) = unread ?ib1" for v by (simp add: ring_from_def)
    moreover have "pend ?ib1 u = pend ib u" for u by (rule pend_cong) simp_all
    ultimately show ?thesis using l by (simp split del: if_split add: if_split [of "\<lambda>r. pend r (length (unread r))"])
  qed
  ultimately show ?thesis using that by blast
qed

lemma same_but_ptrD:
  assumes "same_but_ptr ib ib'"
  shows "ib_buf ib' = ib_buf ib" "ib_inp ib' = ib_inp ib" "ib_eof ib' = ib_eof ib" "ib_long_msg ib' = ib_long_msg ib"
    "ib_message_count ib' = ib_message_count ib" "ib_handling_msg ib' = ib_handling_msg ib" "ib_out_esc ib' = ib_out_esc ib"
    "ib_out_size_mode ib' = ib_out_size_mode ib" "ib_out_data_size ib' = ib_out_data_size ib" "ib_inp_esc ib' = ib_inp_esc ib"
    "ib_inp_size_mode ib' = ib_inp_size_mode ib" "ib_inp_data_size ib' = ib_inp_data_size ib"
  using assms by (auto simp: same_but_ptr_def)

text \<open>
  The reading side as a whole: the items left, the state of the decoding behind them, and that no size is too long.
\<close>

definition ib_rem :: "InputBuf \<Rightarrow> int list \<Rightarrow> wire_state \<Rightarrow> bool" where
  "ib_rem ib xs st \<longleftrightarrow> ptr_ok ib \<and> out_ok ib \<and> pend ib (length (unread ib)) \<and> ib_items ib = xs \<and>
     snd (decode (out_state ib) (ring_from ib (ib_end ib))) = st \<and> small_sizes (out_state ib) (ring_from ib (ib_end ib))"

lemma get_more_done_ok:
  assumes "ib_rem ib xs st"
  obtains ib' where "get_more_done c ib = Some (Inr (c, ib'))" "ib_rem ib' xs st" "same_but_ptr ib ib'" "asked ib'"
    "length (unread ib') = length (unread ib)"
proof -
  obtain ib' where ib': "ibuf_trigger_read ib = Inr ((), ib')" "ptr_ok ib'" "ib_items ib' = ib_items ib" "same_but_ptr ib ib'"
    "ring_from ib' (ib_end ib') = ring_from ib (ib_end ib)" "pend ib (length (unread ib)) \<longrightarrow> pend ib' (length (unread ib'))" "asked ib'"
    "length (unread ib') = length (unread ib)"
    using trigger_read_ok [of ib] assms unfolding ib_rem_def by metis
  have "get_more_done c ib = Some (Inr (c, ib'))" using ib'(1) by (simp add: get_more_done_def reader_simps)
  moreover have "ib_rem ib' xs st"
    using assms ib' by (simp add: ib_rem_def out_state_def same_but_ptrD [OF ib'(4)])
  ultimately show ?thesis using that ib'(4,7,8) by blast
qed

lemma decode_data_prefix:
  "length bs \<le> n \<Longrightarrow> 0 < n \<Longrightarrow> decode (Data n) bs = (items_of bs, data_state (n - length bs))"
proof (induction bs arbitrary: n)
  case (Cons b bs)
  then show ?case by (cases "n = 1") (auto simp: data_state_def)
qed (simp add: data_state_def)

lemma small_sizes_data: "length bs \<le> n \<Longrightarrow> 0 < n \<Longrightarrow> small_sizes (Data n) bs"
proof (induction bs arbitrary: n)
  case (Cons b bs)
  then show ?case by (cases "n = 1") (auto simp: data_state_def)
qed simp

lemma mode_state_data: "mode_state 0 n False = data_state n"
  by (simp add: data_state_def)

text \<open>A run of bytes that stand for themselves becomes the region the reader takes bytes from.\<close>

lemma rem_region:
  assumes ptr: "ib_inp ib < ib_size ib" "out < ib_size ib" "out \<noteq> ib_inp ib"
    and out1: "out < out1" "out1 \<le> run_limit (Suc out) ib"
    and dec: "decode st0 (region ib out out1) = (items_of (region ib out out1), out_state ib')"
    and rest: "decode st0 (ring_from ib out) = (x # xs, st)" "small_sizes st0 (ring_from ib out)"
    and pd: "pend ib (length (ring_from ib out))"
    and ib': "out_ok ib'" "ib_buf ib' = ib_buf ib" "ib_inp ib' = ib_inp ib" "ib_end ib' = out1"
      "ib_cur ib' = (if peeking then out else Suc out)" "ib_pending ib' = ib_pending ib"
  shows "ib_rem ib' (if peeking then x # xs else xs) st" "x = uint (ib_buf ib ! out)"
proof -
  note lim = run_limit_ok [OF ptr]
  have r: "ring_from ib out = region ib out out1 @ ring_from ib out1"
    by (rule ring_region) (use out1 lim ptr in auto)
  have reg: "region ib out out1 = ib_buf ib ! out # region ib (Suc out) out1"
    using region_step [of out out1 ib] out1 lim by simp
  have same: "region ib' p q = region ib p q" "ring_from ib' p = ring_from ib p" for p q
    using ib' by (simp_all add: region_def ring_from_def)
  have x: "x # xs = items_of (region ib out out1) @ fst (decode (out_state ib') (ring_from ib out1))"
    "st = snd (decode (out_state ib') (ring_from ib out1))"
    using rest(1) unfolding r decode_append_eq [OF dec] by simp_all
  show "x = uint (ib_buf ib ! out)" using x(1) reg by simp
  have "small_sizes (out_state ib') (ring_from ib out1)"
    using rest(2) dec unfolding r small_sizes_append by simp
  moreover have "ib_items ib' = (if peeking then x # xs else xs)"
    using x(1) reg ib'(4,5) by (auto simp: ib_items_def same)
  moreover have "ptr_ok ib'" using ptr out1 lim ib' by (auto simp: ptr_ok_def)
  moreover have "pend ib' (length (unread ib'))"
  proof -
    have "pend ib (length (ring_from ib (ib_cur ib')))"
      by (rule pend_mono [OF pd]) (use ib'(5) ring_step [OF ptr] in simp)
    then show ?thesis using ib' pend_cong [of ib' ib] by (simp add: same)
  qed
  ultimately show "ib_rem ib' (if peeking then x # xs else xs) st" using ib'(1,4) x(2) by (simp add: ib_rem_def same)
qed

section \<open>Reading an item\<close>

definition same_core :: "InputBuf \<Rightarrow> InputBuf \<Rightarrow> bool" where
  "same_core ib ib' \<longleftrightarrow> ib_buf ib' = ib_buf ib \<and> ib_inp ib' = ib_inp ib \<and> ib_eof ib' = ib_eof ib \<and> ib_long_msg ib' = ib_long_msg ib \<and>
     ib_inp_esc ib' = ib_inp_esc ib \<and> ib_inp_size_mode ib' = ib_inp_size_mode ib \<and> ib_inp_data_size ib' = ib_inp_data_size ib"

text \<open>Taking the end of a message ends its handling; nothing else does.\<close>

definition read_effect :: "int \<Rightarrow> bool \<Rightarrow> InputBuf \<Rightarrow> InputBuf \<Rightarrow> bool" where
  "read_effect x peeking ib ib' \<longleftrightarrow> same_core ib ib' \<and>
     (if x = MARKER_EOM \<and> \<not> peeking
      then ib_message_count ib' = ib_message_count ib - 1 \<and>
        ib_handling_msg ib' = (if ib_message_count ib - 1 > 0 then HandleMsgTriggered else HandleMsgIdle)
      else ib_message_count ib' = ib_message_count ib \<and> ib_handling_msg ib' = ib_handling_msg ib)"

lemma effect_ptr: "read_effect x p ib ib1 \<Longrightarrow> same_but_ptr ib1 ib' \<Longrightarrow> read_effect x p ib ib'"
  by (auto simp: read_effect_def same_core_def same_but_ptr_def)

lemma effect_byte:
  "same_core ib ib' \<Longrightarrow> ib_message_count ib' = ib_message_count ib \<Longrightarrow> ib_handling_msg ib' = ib_handling_msg ib \<Longrightarrow>
    read_effect (uint (b :: byte)) p ib ib'"
proof -
  have "uint b \<noteq> MARKER_EOM" using uint_byte_range(1) [of b] by linarith
  moreover assume "same_core ib ib'" "ib_message_count ib' = ib_message_count ib" "ib_handling_msg ib' = ib_handling_msg ib"
  ultimately show ?thesis by (simp add: read_effect_def)
qed

definition got :: "(exn + int \<times> InputBuf) option \<Rightarrow> bool \<Rightarrow> InputBuf \<Rightarrow> nat \<Rightarrow> int \<Rightarrow> int list \<Rightarrow> wire_state \<Rightarrow> bool" where
  "got r peeking ib u x xs st \<longleftrightarrow>
     (\<exists>ib'. r = Some (Inr (x, ib')) \<and> ib_rem ib' (if peeking then x # xs else xs) st \<and> read_effect x peeking ib ib' \<and>
        asked ib' \<and> (if peeking then length (unread ib') \<le> u else length (unread ib') < u))"

lemma got_done:
  assumes "ib_rem ib1 (if peeking then x # xs else xs) st" "read_effect x peeking ib ib1" "r = get_more_done x ib1"
    "if peeking then length (unread ib1) \<le> u else length (unread ib1) < u"
  shows "got r peeking ib u x xs st"
  using get_more_done_ok [OF assms(1), of x] effect_ptr [OF assms(2)] assms(3,4) unfolding got_def by metis

lemma got_core:
  assumes "got r peeking ib1 v x xs st" "v \<le> u" "same_core ib ib1" "ib_message_count ib1 = ib_message_count ib"
    "ib_handling_msg ib1 = ib_handling_msg ib"
  shows "got r peeking ib u x xs st"
  using assms unfolding got_def by (fastforce simp: read_effect_def same_core_def)

lemma end_of_message_ok:
  "\<exists>ib1. end_of_message ib = Inr ((), ib1) \<and> read_effect MARKER_EOM False ib ib1 \<and> ib_out_size_mode ib1 = ib_out_size_mode ib \<and>
     ib_out_data_size ib1 = ib_out_data_size ib \<and> ib_pending ib1 = ib_pending ib"
  by (auto simp: end_of_message_def reader_simps ibuf_ops tcp_trigger_message_def read_effect_def same_core_def)

text \<open>The three escape codes that are items.\<close>

definition code_item :: "byte \<Rightarrow> int" where
  "code_item c = (if c = 0 then ESC else if c = 1 then MARKER_EOM else MARKER_EOS)"

lemma unread_less:
  assumes "ib_inp ib < ib_size ib" "out < ib_size ib" "out \<noteq> ib_inp ib"
    and "ib_buf ib1 = ib_buf ib" "ib_inp ib1 = ib_inp ib" "ib_cur ib1 = (if peeking then out else Suc out)"
  shows "if peeking then length (unread ib1) \<le> length (ring_from ib out) else length (unread ib1) < length (ring_from ib out)"
proof -
  have "ring_from ib1 p = ring_from ib p" for p using assms by (simp add: ring_from_def)
  then show ?thesis using ring_step [OF assms(1-3)] assms(6) by simp
qed

lemma got_escape:
  assumes ptr: "ib_inp ib < ib_size ib" "out < ib_size ib" "out \<noteq> ib_inp ib"
    and st: "out_state ib = Escaped" "out_ok ib" and c: "ib_buf ib ! out = c" "c = 0 \<or> c = 1 \<or> c = 2"
    and rest: "decode Escaped (ring_from ib out) = (x # xs, st)" "small_sizes Escaped (ring_from ib out)"
    and pd: "pend ib (length (ring_from ib out))"
  shows "got (case (if c = 1 \<and> \<not> peeking then end_of_message ib else Inr ((), ib)) of
      Inl e \<Rightarrow> Some (Inl e)
    | Inr (_, ib1) \<Rightarrow>
        let out1 = (if peeking then out else Suc out)
        in get_more_done (if c = 0 then ESC else if c = 1 then MARKER_EOM else MARKER_EOS)
             (ib1\<lparr>ib_out_esc := peeking, ib_cur := out1, ib_end := out1\<rparr>)) peeking ib (length (ring_from ib out)) x xs st"
proof -
  have s: "ib_out_size_mode ib = 0" "ib_out_data_size ib = 0" "ib_out_esc ib"
    using st(1) by (cases "ib_out_size_mode ib"; auto simp: out_state_def split: if_splits)+
  have r: "ring_from ib out = c # ring_from ib (Suc out)" using ring_step [OF ptr] c(1) by simp
  have x: "x = code_item c" "decode Plain (ring_from ib (Suc out)) = (xs, st)" "small_sizes Plain (ring_from ib (Suc out))"
    using rest c(2) unfolding r by (auto simp: code_item_def Let_def split: prod.splits if_splits)
  define ib1 where "ib1 = (if c = 1 \<and> \<not> peeking then snd (projr (end_of_message ib)) else ib)"
  have ib1: "(if c = 1 \<and> \<not> peeking then end_of_message ib else Inr ((), ib)) = Inr ((), ib1)" "read_effect x peeking ib ib1"
      "ib_out_size_mode ib1 = 0" "ib_out_data_size ib1 = 0" "ib_pending ib1 = ib_pending ib"
    using end_of_message_ok [of ib] x(1) s c(2)
    by (auto simp: ib1_def code_item_def read_effect_def same_core_def)
  let ?out1 = "if peeking then out else Suc out"
  let ?ib2 = "ib1\<lparr>ib_out_esc := peeking, ib_cur := ?out1, ib_end := ?out1\<rparr>"
  have core: "ib_buf ib1 = ib_buf ib" "ib_inp ib1 = ib_inp ib" using ib1(2) by (auto simp: read_effect_def same_core_def)
  have same: "ring_from ?ib2 p = ring_from ib p" for p using core by (simp add: ring_from_def)
  have "pend ib (length (ring_from ib ?out1))" by (rule pend_mono [OF pd]) (simp add: r)
  then have "pend ?ib2 (length (ring_from ib ?out1))" using core ib1(5) pend_cong [of ?ib2 ib] by simp
  then have "ib_rem ?ib2 (if peeking then x # xs else xs) st"
    using ptr core ib1(3,4) rest x
    by (auto simp: ib_rem_def ptr_ok_def mode_ok_def ib_items_def same out_state_def)
  moreover have "read_effect x peeking ib ?ib2" using ib1(2) by (simp add: read_effect_def same_core_def)
  moreover have "if peeking then length (unread ?ib2) \<le> length (ring_from ib out) else length (unread ?ib2) < length (ring_from ib out)"
    by (rule unread_less [OF ptr]) (simp_all add: core)
  ultimately show ?thesis
    unfolding ib1(1) sum.case prod.case Let_def x(1) [unfolded code_item_def, symmetric] by (rule got_done [OF _ _ refl])
qed

lemma plain_run_ok:
  assumes "p \<le> lim" "lim \<le> ib_size ib"
  shows "p \<le> plain_run p lim ib" "plain_run p lim ib \<le> lim" "\<forall>b \<in> set (region ib p (plain_run p lim ib)). uint b \<noteq> ESC"
proof -
  let ?xs = "take (lim - p) (drop p (ib_buf ib))"
  let ?ys = "takeWhile (\<lambda>b. uint b \<noteq> ESC) ?xs"
  have l: "length ?ys \<le> lim - p" using length_takeWhile_le [of "\<lambda>b. uint b \<noteq> ESC" ?xs] assms by simp
  then show "p \<le> plain_run p lim ib" "plain_run p lim ib \<le> lim" using assms(1) by (simp_all add: plain_run_def)
  have "region ib p (plain_run p lim ib) = take (length ?ys) ?xs"
    using l by (simp add: region_def plain_run_def min_absorb1)
  also have "\<dots> = ?ys" by (rule takeWhile_eq_take [symmetric])
  finally show "\<forall>b \<in> set (region ib p (plain_run p lim ib)). uint b \<noteq> ESC" by (auto dest: set_takeWhileD)
qed

lemma got_data:
  fixes out :: nat and ib :: InputBuf
  defines "n \<equiv> ib_out_data_size ib" and "lim \<equiv> run_limit (Suc out) ib"
  assumes ptr: "ib_inp ib < ib_size ib" "out < ib_size ib" "out \<noteq> ib_inp ib"
    and st: "ib_out_size_mode ib = 0" "0 < ib_out_data_size ib" "out_ok ib"
    and rest: "decode (out_state ib) (ring_from ib out) = (x # xs, st)" "small_sizes (out_state ib) (ring_from ib out)"
      "pend ib (length (ring_from ib out))"
  shows "got (get_more_done (uint (ib_buf ib ! out)) (ib\<lparr>
      ib_out_data_size := (if lim - out < n then n - (lim - out) else 0),
      ib_cur := (if peeking then out else Suc out),
      ib_end := (if lim - out < n then lim else out + n)\<rparr>)) peeking ib (length (ring_from ib out)) x xs st"
proof -
  let ?out1 = "if lim - out < n then lim else out + n"
  let ?ib1 = "ib\<lparr>ib_out_data_size := (if lim - out < n then n - (lim - out) else 0),
      ib_cur := (if peeking then out else Suc out), ib_end := ?out1\<rparr>"
  have s: "out_state ib = Data n" "\<not> ib_out_esc ib" using st by (simp_all add: out_state_def mode_ok_def n_def)
  note lim = run_limit_ok [OF ptr, folded lim_def]
  have o1: "out < ?out1" "?out1 \<le> lim" using lim st(2) by (auto simp: n_def)
  have o2: "?out1 \<le> run_limit (Suc out) ib" using o1(2) by (simp only: lim_def)
  have len: "length (region ib out ?out1) = ?out1 - out" using lim o1 by (simp add: region_def)
  have "out_state ?ib1 = data_state (n - length (region ib out ?out1))"
    unfolding len using st s(2) lim by (simp add: out_state_def data_state_def)
  then have dec: "decode (out_state ib) (region ib out ?out1) = (items_of (region ib out ?out1), out_state ?ib1)"
    using decode_data_prefix [of "region ib out ?out1" n] s(1) len lim st(2) by (simp add: n_def)
  have "out_ok ?ib1" using st(1) s(2) by (simp add: mode_ok_def)
  then have rem: "ib_rem ?ib1 (if peeking then x # xs else xs) st" "x = uint (ib_buf ib ! out)"
    by (rule rem_region [OF ptr o1(1) o2 dec rest]; simp)+
  show ?thesis
    unfolding rem(2) [symmetric] by (rule got_done [OF rem(1) _ refl unread_less [OF ptr]], unfold rem(2), rule effect_byte) (simp_all add: same_core_def)
qed

lemma got_plain:
  fixes out :: nat and ib :: InputBuf
  defines "out1 \<equiv> plain_run (Suc out) (run_limit (Suc out) ib) ib"
  assumes ptr: "ib_inp ib < ib_size ib" "out < ib_size ib" "out \<noteq> ib_inp ib"
    and st: "out_state ib = Plain" "out_ok ib" "uint (ib_buf ib ! out) \<noteq> ESC"
    and rest: "decode (out_state ib) (ring_from ib out) = (x # xs, st)" "small_sizes (out_state ib) (ring_from ib out)"
      "pend ib (length (ring_from ib out))"
  shows "got (get_more_done (uint (ib_buf ib ! out)) (ib\<lparr>ib_cur := (if peeking then out else Suc out), ib_end := out1\<rparr>)) peeking ib (length (ring_from ib out)) x xs st"
proof -
  let ?ib1 = "ib\<lparr>ib_cur := (if peeking then out else Suc out), ib_end := out1\<rparr>"
  note lim = run_limit_ok [OF ptr]
  note run = plain_run_ok [OF Suc_leI [OF lim(1)] lim(2), folded out1_def]
  have "region ib out out1 = ib_buf ib ! out # region ib (Suc out) out1"
    by (rule region_step) (use run lim in linarith)+
  then have "decode Plain (region ib out out1) = (items_of (region ib out out1), Plain)"
    using run(3) st(3) by (intro decode_plain) simp
  then have dec: "decode (out_state ib) (region ib out out1) = (items_of (region ib out out1), out_state ?ib1)"
    using st(1) by (simp add: out_state_def)
  have o1: "out < out1" using run(1) by simp
  have "out_ok ?ib1" using st(2) by simp
  then have rem: "ib_rem ?ib1 (if peeking then x # xs else xs) st" "x = uint (ib_buf ib ! out)"
    by (rule rem_region [OF ptr o1 run(2) dec rest]; simp)+
  show ?thesis
    unfolding rem(2) [symmetric] by (rule got_done [OF rem(1) _ refl unread_less [OF ptr]], unfold rem(2), rule effect_byte) (simp_all add: same_core_def)
qed

lemma get_more_ok:
  assumes "ib_inp ib < ib_size ib" "out0 \<le> ib_size ib" "out_ok ib"
    and "decode (out_state ib) (ring_from ib out0) = (x # xs, st)" "small_sizes (out_state ib) (ring_from ib out0)"
    and "pend ib (length (ring_from ib out0))"
  shows "got (get_more_loop wait_read peeking out0 ib) peeking ib (length (ring_from ib out0)) x xs st"
  using assms
proof (induction "length (ring_from ib out0)" arbitrary: out0 ib rule: less_induct)
  case less
  define out where "out = (if out0 = ib_size ib then 0 else out0)"
  let ?c = "ib_buf ib ! out"
  have ring: "ring_from ib out = ring_from ib out0" using less.prems(1) by (simp add: ring_end out_def)
  have ne: "ring_from ib out0 \<noteq> []" using less.prems(4) by auto
  have o1: "out < ib_size ib" using less.prems(1,2) by (auto simp: out_def)
  have o: "out < ib_size ib" "out \<noteq> ib_inp ib"
    using o1 ring_empty [OF less.prems(1) o1] ne ring by auto
  have r: "ring_from ib out0 = ?c # ring_from ib (Suc out)" using ring_step [OF less.prems(1) o] ring by simp
  have step: "got (get_more_loop wait_read peeking (Suc out) ib1) peeking ib (length (ring_from ib out)) x xs st"
    if "same_core ib ib1" "ib_pending ib1 = ib_pending ib" "ib_message_count ib1 = ib_message_count ib" "ib_handling_msg ib1 = ib_handling_msg ib" "out_ok ib1"
      "wire_step (out_state ib) ?c = ([], out_state ib1)" for ib1
  proof (rule got_core [OF _ _ that(1,3,4)])
    show "length (ring_from ib (Suc out)) \<le> length (ring_from ib out)" unfolding ring r by simp
    have s: "ring_from ib1 p = ring_from ib p" "ib_size ib1 = ib_size ib" "ib_inp ib1 = ib_inp ib" for p
      using that(1) by (auto simp: same_core_def ring_from_def)
    have d: "decode (out_state ib1) (ring_from ib (Suc out)) = (x # xs, st)" "small_sizes (out_state ib1) (ring_from ib (Suc out))"
      using less.prems(4,5) that(6) unfolding r by (simp_all split: prod.splits)
    show "got (get_more_loop wait_read peeking (Suc out) ib1) peeking ib1 (length (ring_from ib (Suc out))) x xs st"
      unfolding s(1) [symmetric]
    proof (rule less.hyps)
      show "length (ring_from ib1 (Suc out)) < length (ring_from ib out0)" unfolding s r by simp
      show "ib_inp ib1 < ib_size ib1" unfolding s using less.prems(1) .
      show "Suc out \<le> ib_size ib1" unfolding s using o(1) by (rule Suc_leI)
      show "decode (out_state ib1) (ring_from ib1 (Suc out)) = (x # xs, st)" unfolding s using d(1) .
      show "small_sizes (out_state ib1) (ring_from ib1 (Suc out))" unfolding s using d(2) .
      have "pend ib (length (ring_from ib (Suc out)))" by (rule pend_mono [OF less.prems(6)]) (simp add: r)
      then show "pend ib1 (length (ring_from ib1 (Suc out)))" unfolding s using s(2,3) that(2) pend_cong [of ib1 ib] by simp
    qed (rule that(5))
  qed
  note loop = get_more_loop.simps [of wait_read peeking out0 ib, unfolded Let_def, folded out_def, unfolded if_not_P [OF o(2)]]
  have "got (get_more_loop wait_read peeking out0 ib) peeking ib (length (ring_from ib out)) x xs st"
  proof (cases "ib_out_size_mode ib")
    case (Suc k)
    let ?n = "ib_out_data_size ib"
    let ?ib1 = "ib\<lparr>ib_out_data_size := ?n OR (unat ?c mod 128) * 128 ^ k,
        ib_out_size_mode := (if ?c AND 0x80 = 0 then 0 else Suc (ib_out_size_mode ib))\<rparr>"
    have s: "out_state ib = Size k ?n" "\<not> ib_out_esc ib" "?n < 128 ^ k"
      using Suc less.prems(3) by (simp_all add: out_state_def mode_ok_def)
    have k: "k < 4" using less.prems(5) s(1) unfolding r by simp
    have "got (get_more_loop wait_read peeking (Suc out) ?ib1) peeking ib (length (ring_from ib out)) x xs st"
    proof (rule step)
      show "wire_step (out_state ib) ?c = ([], out_state ?ib1)"
        using Suc s k size_or(1) [OF s(3), of ?c] high_bit [of ?c] by (simp add: out_state_def data_state_def Let_def)
      show "out_ok ?ib1" using s size_or [OF s(3), of ?c] Suc by (simp add: mode_ok_def)
    qed (simp_all add: same_core_def)
    then show ?thesis unfolding loop using Suc s(2) size_bits_ok [OF k, of ?c] by (simp split del: if_split)
  next
    case 0
    show ?thesis
    proof (cases "ib_out_data_size ib > 0")
      case True
      have s: "\<not> ib_out_esc ib" using True less.prems(3) by (simp add: mode_ok_def)
      from got_data [OF less.prems(1) o 0 True less.prems(3) less.prems(4,5,6) [folded ring], of peeking]
      show ?thesis unfolding loop using 0 True s by (simp add: Let_def split del: if_split)
    next
      case n0: False
      show ?thesis
      proof (cases "ib_out_esc ib")
        case True
        have s: "out_state ib = Escaped" using 0 n0 True by (simp add: out_state_def)
        have e: "ring_from ib out = ?c # ring_from ib (Suc out)" using r ring by simp
        have cc: "?c = 3 \<or> ?c = 0 \<or> ?c = 1 \<or> ?c = 2"
        proof (rule ccontr)
          assume "\<not> ?thesis"
          then have "decode (out_state ib) (ring_from ib out0) = decode Invalid (ring_from ib (Suc out))"
            unfolding r s by (simp split: prod.splits)
          then show False using less.prems(4) by simp
        qed
        show ?thesis
        proof (cases "?c = 3")
          case three: True
          let ?ib1 = "ib\<lparr>ib_out_size_mode := 1, ib_out_data_size := 0, ib_out_esc := False\<rparr>"
          have "got (get_more_loop wait_read peeking (Suc out) ?ib1) peeking ib (length (ring_from ib out)) x xs st"
            by (rule step) (simp_all add: same_core_def mode_ok_def s three, simp add: out_state_def)
          then show ?thesis unfolding loop using 0 n0 True three by (simp split del: if_split)
        next
          case False
          then show ?thesis
            using got_escape [OF less.prems(1) o s less.prems(3) refl _ less.prems(4,5,6) [folded ring, unfolded s], of peeking, unfolded Let_def] cc
            unfolding loop using 0 n0 True by (simp add: Let_def split del: if_split)
        qed
      next
        case esc: False
        have s: "out_state ib = Plain" using 0 n0 esc by (simp add: out_state_def)
        show ?thesis
        proof (cases "uint ?c = ESC")
          case True
          have "got (get_more_loop wait_read peeking (Suc out) (ib\<lparr>ib_out_esc := True\<rparr>)) peeking ib (length (ring_from ib out)) x xs st"
            by (rule step) (use 0 n0 True in \<open>simp_all add: same_core_def mode_ok_def s\<close>, simp add: out_state_def)
          then show ?thesis unfolding loop using 0 n0 esc True by (simp split del: if_split)
        next
          case False
          from got_plain [OF less.prems(1) o s less.prems(3) False less.prems(4,5,6) [folded ring], of peeking]
          show ?thesis unfolding loop using 0 n0 esc False by (simp add: Let_def split del: if_split)
        qed
      qed
    qed
  qed
  then show ?case unfolding ring .
qed

end
