(* ===== verification/Inputbuf_Run.thy ===== *)
theory Inputbuf_Run
  imports Inputbuf_Proofs
begin

text \<open>
  The input buffer at work: the transport delivers bytes into the place of its request, the dispatcher starts a message
  and its reader takes items. Every reachable state keeps the bytes that were received and not read, counts the
  messages that are complete, and asks the transport for more or has a message to handle.
\<close>

section \<open>Reading an item\<close>

text \<open>The buffer never stalls: the transport has a request, or there is a message to handle, or the stream has ended.\<close>

definition busy :: "InputBuf \<Rightarrow> bool" where
  "busy ib \<longleftrightarrow> ib_pending ib \<noteq> None \<or> ib_eof ib \<or> 0 < ib_message_count ib"

lemma unread_bound: "ptr_ok ib \<Longrightarrow> length (unread ib) < ib_size ib"
  using free_at_bound(2) [of ib "ib_cur ib"] by (simp add: ptr_ok_def)

lemma got_busy:
  assumes "got r False ib (length (unread ib)) x xs st" "ptr_ok ib"
  shows "\<exists>ib'. r = Some (Inr (x, ib')) \<and> ib_rem ib' xs st \<and> read_effect x False ib ib' \<and> busy ib'"
proof -
  obtain ib' where ib': "r = Some (Inr (x, ib'))" "ib_rem ib' xs st" "read_effect x False ib ib'" "asked ib'"
      "length (unread ib') < length (unread ib)"
    using assms(1) by (auto simp: got_def)
  have "length (unread ib') < ib_size ib' - 1"
    using ib'(3,5) unread_bound [OF assms(2)] by (auto simp: read_effect_def same_core_def)
  with ib'(4) have "busy ib'" by (auto simp: asked_def busy_def)
  with ib' show ?thesis by blast
qed

text \<open>The first byte of the region is there without a call.\<close>

lemma region_item:
  assumes "ib_rem ib (x # xs) st" "ib_cur ib < ib_end ib"
  shows "x = uint (ib_buf ib ! ib_cur ib)" "ib_rem (ib\<lparr>ib_cur := Suc (ib_cur ib)\<rparr>) xs st"
proof -
  have ptr: "ib_inp ib < ib_size ib" "ib_cur ib < ib_size ib" "ib_cur ib \<noteq> ib_inp ib"
    using assms by (auto simp: ib_rem_def ptr_ok_def)
  let ?ib1 = "ib\<lparr>ib_cur := Suc (ib_cur ib)\<rparr>"
  have reg: "region ib (ib_cur ib) (ib_end ib) = ib_buf ib ! ib_cur ib # region ib (Suc (ib_cur ib)) (ib_end ib)"
    using assms by (intro region_step) (auto simp: ib_rem_def ptr_ok_def)
  have same: "region ?ib1 p q = region ib p q" "ring_from ?ib1 p = ring_from ib p" for p q
    by (simp_all add: region_def ring_from_def)
  have x: "x = uint (ib_buf ib ! ib_cur ib)" "ib_items ?ib1 = xs"
    using assms(1) by (auto simp: ib_rem_def ib_items_def same reg out_state_def)
  have "pend ib (length (ring_from ib (Suc (ib_cur ib))))"
    by (rule pend_mono [of _ "length (unread ib)"]) (use assms(1) ring_step [OF ptr] in \<open>simp_all add: ib_rem_def\<close>)
  then show "ib_rem ?ib1 xs st"
    using assms x(2) pend_cong [of ?ib1 ib] by (auto simp: ib_rem_def ptr_ok_def same out_state_def)
  show "x = uint (ib_buf ib ! ib_cur ib)" by (rule x(1))
qed

lemma get_more_item:
  assumes "ib_rem ib (x # xs) st" "\<not> ib_cur ib < ib_end ib" "0 < ib_message_count ib" "ib_handling_msg ib = HandleMsgActive"
  shows "got (ibuf_get_more wait_read peeking ib) peeking ib (length (unread ib)) x xs st"
proof -
  have e: "ib_cur ib = ib_end ib" "ib_cur ib \<le> ib_size ib" using assms(1,2) by (auto simp: ib_rem_def ptr_ok_def)
  have "got (get_more_loop wait_read peeking (ib_cur ib) ib) peeking ib (length (unread ib)) x xs st"
  proof (rule get_more_ok)
    show "decode (out_state ib) (ring_from ib (ib_cur ib)) = (x # xs, st)"
      using assms(1) by (auto simp: ib_rem_def ib_items_def e intro: prod_eqI)
  qed (use assms(1) in \<open>auto simp: ib_rem_def ptr_ok_def e\<close>)
  then show ?thesis using e assms by (simp add: ibuf_get_more_def)
qed

lemma read_stream_ok:
  assumes "ib_rem ib (x # xs) st" "0 < ib_message_count ib" "ib_handling_msg ib = HandleMsgActive"
  shows "\<exists>ib'. tcp_read_stream wait_read ib = Some (Inr (x, ib')) \<and> ib_rem ib' xs st \<and> read_effect x False ib ib' \<and> busy ib'"
proof (cases "ib_cur ib < ib_end ib")
  case True
  note r = region_item [OF assms(1) True]
  have "read_effect x False ib (ib\<lparr>ib_cur := Suc (ib_cur ib)\<rparr>)"
    unfolding r(1) by (rule effect_byte) (simp_all add: same_core_def)
  with r True assms(2) show ?thesis by (simp add: tcp_read_stream_def busy_def)
next
  case False
  from got_busy [OF get_more_item [OF assms(1) False assms(2,3)]] assms(1) False
  show ?thesis by (simp add: tcp_read_stream_def ib_rem_def)
qed

lemma peek_stream_ok:
  assumes "ib_rem ib (x # xs) st" "0 < ib_message_count ib" "ib_handling_msg ib = HandleMsgActive"
  shows "\<exists>ib'. tcp_peek_stream wait_read ib = Some (Inr (x, ib')) \<and> ib_rem ib' (x # xs) st \<and> read_effect x True ib ib'"
proof (cases "ib_cur ib < ib_end ib")
  case True
  then show ?thesis
    using assms region_item(1) [OF assms(1) True] by (simp add: tcp_peek_stream_def read_effect_def same_core_def)
next
  case False
  from get_more_item [OF assms(1) False assms(2,3), of wait_read True]
  show ?thesis using False by (auto simp: got_def tcp_peek_stream_def)
qed

section \<open>Counting messages\<close>

abbreviation eoms :: "int list \<Rightarrow> nat" where
  "eoms xs \<equiv> count_list xs MARKER_EOM"

lemma byte_no_marker [simp]: "uint (b :: byte) \<noteq> - 1"
  using uint_byte_range(1) [of b] by linarith

lemma eoms_items [simp]: "eoms (items_of bs) = 0"
  by (induction bs) simp_all

text \<open>
  With \<open>m\<close> complete messages unread, \<open>message_count\<close> is \<open>m\<close>, or one for a long message that is handled
  before its end has come. A counted message is handled or waits for its event.
\<close>

definition counted :: "nat \<Rightarrow> InputBuf \<Rightarrow> bool" where
  "counted m ib \<longleftrightarrow> \<not> ib_eof ib \<and> ib_message_count ib = m + (if ib_long_msg ib then 1 else 0) \<and> (ib_long_msg ib \<longrightarrow> m = 0) \<and>
     (ib_handling_msg ib = HandleMsgIdle \<longrightarrow> ib_message_count ib = 0) \<and> (ib_handling_msg ib = HandleMsgActive \<longrightarrow> 0 < ib_message_count ib)"

lemma counted_update [simp]:
  "counted m (ib\<lparr>ib_inp_esc := b\<rparr>) = counted m ib" "counted m (ib\<lparr>ib_inp_data_size := n\<rparr>) = counted m ib"
  "counted m (ib\<lparr>ib_inp_size_mode := n\<rparr>) = counted m ib" "counted m (ib\<lparr>ib_pending := p\<rparr>) = counted m ib"
  "counted m (ib\<lparr>ib_inp := n\<rparr>) = counted m ib" "counted m (ib\<lparr>ib_cur := n\<rparr>) = counted m ib"
  "counted m (ib\<lparr>ib_end := n\<rparr>) = counted m ib" "counted m (ib\<lparr>ib_buf := bs\<rparr>) = counted m ib"
  by (simp_all add: counted_def)

text \<open>What taking bytes leaves alone.\<close>

definition read_core :: "InputBuf \<Rightarrow> InputBuf \<Rightarrow> bool" where
  "read_core ib ib' \<longleftrightarrow> ib_buf ib' = ib_buf ib \<and> ib_inp ib' = ib_inp ib \<and> ib_cur ib' = ib_cur ib \<and> ib_end ib' = ib_end ib \<and>
     ib_out_esc ib' = ib_out_esc ib \<and> ib_out_size_mode ib' = ib_out_size_mode ib \<and> ib_out_data_size ib' = ib_out_data_size ib \<and>
     ib_pending ib' = ib_pending ib"

lemma read_core_trans: "read_core a b \<Longrightarrow> read_core b c \<Longrightarrow> read_core a c"
  by (simp add: read_core_def)

lemma read_core_refl [simp]: "read_core a a"
  by (simp add: read_core_def)

lemma new_message_ok:
  "\<exists>ib'. ibuf_new_message ib = Inr ((), ib') \<and> read_core ib ib' \<and> ib_message_count ib' = Suc (ib_message_count ib) \<and>
     ib_eof ib' = ib_eof ib \<and> ib_long_msg ib' = ib_long_msg ib \<and> ib_handling_msg ib' \<noteq> HandleMsgIdle \<and>
     (ib_handling_msg ib' = HandleMsgActive \<longrightarrow> ib_handling_msg ib = HandleMsgActive) \<and>
     ib_inp_esc ib' = ib_inp_esc ib \<and> ib_inp_size_mode ib' = ib_inp_size_mode ib \<and> ib_inp_data_size ib' = ib_inp_data_size ib"
  by (auto simp: ibuf_new_message_def tcp_trigger_message_def reader_simps ibuf_ops read_core_def)

lemma mode_state_cases:
  "mode_state md n esc = Plain \<longleftrightarrow> md = 0 \<and> n = 0 \<and> \<not> esc"
  "mode_state md n esc = Escaped \<longleftrightarrow> md = 0 \<and> n = 0 \<and> esc"
  "mode_state md n esc = Data k \<longleftrightarrow> md = 0 \<and> n = k \<and> 0 < n"
  "mode_state md n esc = Size k l \<longleftrightarrow> md = Suc k \<and> n = l"
  "mode_state md n esc \<noteq> Invalid"
  by (cases md; auto)+

text \<open>A byte outside of a block of data.\<close>

lemma read_done_byte_ok:
  assumes "inp_ok ib" "counted m ib" "\<not> (ib_inp_size_mode ib = 0 \<and> 0 < ib_inp_data_size ib)"
    and step: "wire_step (inp_state ib) c = (ys, st)" "st \<noteq> Invalid" "MARKER_EOS \<notin> set ys" "small_sizes (inp_state ib) [c]"
  shows "\<exists>ib'. read_done_byte c ib = Inr ((), ib') \<and> read_core ib ib' \<and> inp_ok ib' \<and> counted (m + eoms ys) ib' \<and> inp_state ib' = st"
proof (cases "ib_inp_size_mode ib")
  case (Suc k)
  let ?n = "ib_inp_data_size ib"
  let ?ib1 = "ib\<lparr>ib_inp_data_size := ?n OR (unat c mod 128) * 128 ^ k,
        ib_inp_size_mode := (if c AND 0x80 = 0 then 0 else Suc (ib_inp_size_mode ib))\<rparr>"
  have s: "inp_state ib = Size k ?n" "\<not> ib_inp_esc ib" "?n < 128 ^ k"
    using Suc assms(1) by (simp_all add: inp_state_def mode_ok_def)
  have k: "k < 4" using step(4) s(1) by simp
  have "read_done_byte c ib = Inr ((), ?ib1)" using Suc s(2) size_bits_ok [OF k, of c] by (simp add: read_done_byte_def)
  moreover have "ys = []" "inp_state ?ib1 = st"
    using Suc s k size_or(1) [OF s(3), of c] high_bit [of c] step(1) by (auto simp: inp_state_def data_state_def Let_def)
  moreover have "inp_ok ?ib1" using s size_or [OF s(3), of c] Suc by (simp add: mode_ok_def)
  ultimately show ?thesis using assms(2) by (simp add: read_core_def)
next
  case 0
  then have n0: "ib_inp_data_size ib = 0" using assms(3) by simp
  show ?thesis
  proof (cases "ib_inp_esc ib")
    case False
    then have "inp_state ib = Plain" using 0 n0 by (simp add: inp_state_def)
    then show ?thesis
      using False 0 n0 step(1) assms(1,2)
      by (auto simp: read_done_byte_def inp_state_def mode_ok_def counted_def read_core_def split: if_splits)
  next
    case True
    then have s: "inp_state ib = Escaped" using 0 n0 by (simp add: inp_state_def)
    let ?ib0 = "ib\<lparr>ib_inp_esc := False\<rparr>"
    have i0: "inp_ok ?ib0" "inp_state ?ib0 = Plain" using 0 n0 by (simp_all add: mode_ok_def inp_state_def)
    consider "c = 0" "ys = [ESC]" "st = Plain" | "c = 1" "ys = [MARKER_EOM]" "st = Plain" | "c = 3" "ys = []" "st = Size 0 0"
      using step s by (auto split: if_splits)
    then show ?thesis
    proof cases
      case 1
      then show ?thesis
        using 0 True i0 assms(2) by (simp add: read_done_byte_def read_done_escape_def reader_simps ibuf_ops read_core_def)
    next
      case 2
      obtain ib' where ib': "ibuf_new_message ?ib0 = Inr ((), ib')" "read_core ?ib0 ib'" "ib_message_count ib' = Suc (ib_message_count ib)"
          "ib_eof ib' = ib_eof ib" "ib_long_msg ib' = ib_long_msg ib" "ib_handling_msg ib' \<noteq> HandleMsgIdle"
          "\<not> ib_inp_esc ib'" "ib_inp_size_mode ib' = 0" "ib_inp_data_size ib' = 0"
        using new_message_ok [of ?ib0] 0 n0 by auto
      show ?thesis
      proof (cases "ib_long_msg ib")
        case long: True
        let ?ib1 = "?ib0\<lparr>ib_long_msg := False\<rparr>"
        have "read_done_byte c ib = Inr ((), ?ib1)"
          using 0 True 2 long assms(2) by (simp add: read_done_byte_def read_done_escape_def reader_simps ibuf_ops counted_def)
        moreover have "counted (Suc m) ?ib1" "inp_state ?ib1 = Plain"
          using assms(2) long i0 by (auto simp: counted_def inp_state_def)
        ultimately show ?thesis using 2 i0 by (simp add: read_core_def)
      next
        case short: False
        have "read_done_byte c ib = Inr ((), ib')"
          using 0 True 2 short ib'(1) by (simp add: read_done_byte_def read_done_escape_def reader_simps ibuf_ops)
        moreover have "counted (Suc m) ib'" "inp_state ib' = Plain" "read_core ib ib'"
          using ib' assms(2) short by (auto simp: counted_def inp_state_def read_core_def)
        ultimately show ?thesis using 2 ib' by (simp add: mode_ok_def)
      qed
    next
      case 3
      then show ?thesis
        using 0 True assms(2)
        by (simp add: read_done_byte_def read_done_escape_def reader_simps ibuf_ops read_core_def inp_state_def mode_ok_def)
    qed
  qed
qed

text \<open>The loop over what was read, which lies in the buffer without going round.\<close>

lemma region_split: "region ib p (p + n + k) = region ib p (p + n) @ region ib (p + n) (p + n + k)"
  using take_add [of n k "drop p (ib_buf ib)"] by (simp add: region_def add.commute)

lemma loop_advance:
  assumes "0 < n" "inp + n + k \<le> ib_size ib" "inp < ib_size ib"
  shows "region ib (wrapped ib (inp + n)) (wrapped ib (inp + n) + k) = region ib (inp + n) (inp + n + k)"
    "wrapped ib (wrapped ib (inp + n) + k) = wrapped ib (inp + n + k)"
    "wrapped ib (inp + n) + k \<le> ib_size ib" "wrapped ib (inp + n) < ib_size ib"
  using assms by (auto simp: wrapped_def region_def)

text \<open>One round of the loop takes a part of the bytes, and the rest is handled as the induction says.\<close>

lemma loop_combine:
  assumes split: "inp + n + k \<le> ib_size ib" "inp < ib_size ib" "0 < n" "len = n + k"
    and d: "decode (inp_state ib) (region ib inp (inp + len)) = (ys, st)" "st \<noteq> Invalid" "MARKER_EOS \<notin> set ys"
      "small_sizes (inp_state ib) (region ib inp (inp + len))"
    and one: "decode (inp_state ib) (region ib inp (inp + n)) = (xs, inp_state ib1)"
    and ib1: "read_core ib ib1" "inp_ok ib1" "counted (m + eoms xs) ib1"
    and IH: "\<And>zs. inp_ok ib1 \<Longrightarrow> counted (m + eoms xs) ib1 \<Longrightarrow> wrapped ib (inp + n) + k \<le> ib_size ib1 \<Longrightarrow> wrapped ib (inp + n) < ib_size ib1 \<Longrightarrow>
      decode (inp_state ib1) (region ib1 (wrapped ib (inp + n)) (wrapped ib (inp + n) + k)) = (zs, st) \<Longrightarrow> st \<noteq> Invalid \<Longrightarrow>
      MARKER_EOS \<notin> set zs \<Longrightarrow> small_sizes (inp_state ib1) (region ib1 (wrapped ib (inp + n)) (wrapped ib (inp + n) + k)) \<Longrightarrow>
      \<exists>ib'. r = Inr (wrapped ib1 (wrapped ib (inp + n) + k), ib') \<and> read_core ib1 ib' \<and> inp_ok ib' \<and>
        counted (m + eoms xs + eoms zs) ib' \<and> inp_state ib' = st"
  shows "\<exists>ib'. r = Inr (wrapped ib (inp + len), ib') \<and> read_core ib ib' \<and> inp_ok ib' \<and> counted (m + eoms ys) ib' \<and> inp_state ib' = st"
proof -
  note adv = loop_advance [OF split(3,1,2)]
  let ?R = "region ib (inp + n) (inp + n + k)"
  have same: "region ib1 p q = region ib p q" "ib_size ib1 = ib_size ib" "wrapped ib1 p = wrapped ib p" for p q
    using ib1(1) by (simp_all add: read_core_def region_def wrapped_def)
  have r: "region ib inp (inp + len) = region ib inp (inp + n) @ ?R" using region_split split(4) by (simp add: add.assoc)
  have z: "ys = xs @ fst (decode (inp_state ib1) ?R)" "decode (inp_state ib1) ?R = (fst (decode (inp_state ib1) ?R), st)"
    using d(1) unfolding r decode_append_eq [OF one] by (auto intro: prod_eqI)
  have "small_sizes (inp_state ib1) ?R" using d(4) unfolding r small_sizes_append one by simp
  then show ?thesis
    using IH [of "fst (decode (inp_state ib1) ?R)"] ib1 adv z d(2,3) split(4) read_core_trans [OF ib1(1)]
    by (auto simp: same add.assoc)
qed

lemma read_done_loop_ok:
  assumes "inp_ok ib" "counted m ib" "inp + len \<le> ib_size ib" "inp < ib_size ib"
    and "decode (inp_state ib) (region ib inp (inp + len)) = (ys, st)" "st \<noteq> Invalid" "MARKER_EOS \<notin> set ys"
    and "small_sizes (inp_state ib) (region ib inp (inp + len))"
  shows "\<exists>ib'. read_done_loop len inp ib = Inr (wrapped ib (inp + len), ib') \<and> read_core ib ib' \<and> inp_ok ib' \<and>
      counted (m + eoms ys) ib' \<and> inp_state ib' = st"
  using assms
proof (induction len arbitrary: ib inp m ys rule: less_induct)
  case (less len)
  note loop = read_done_loop.simps [of len inp ib]
  consider "len = 0" | "0 < len" "ib_inp_size_mode ib = 0 \<and> 0 < ib_inp_data_size ib"
    | "0 < len" "\<not> (ib_inp_size_mode ib = 0 \<and> 0 < ib_inp_data_size ib)" by blast
  then show ?case
  proof cases
    case 1
    then show ?thesis using less.prems loop by (auto simp: wrapped_def)
  next
    case 2
    let ?n = "min (ib_inp_data_size ib) len"
    let ?ib1 = "ib\<lparr>ib_inp_data_size := ib_inp_data_size ib - ?n\<rparr>"
    have s: "inp_state ib = Data (ib_inp_data_size ib)" "\<not> ib_inp_esc ib"
      using 2 less.prems(1) by (simp_all add: inp_state_def mode_ok_def)
    have l: "length (region ib inp (inp + ?n)) = ?n" using less.prems(3) by (simp add: region_def)
    have d: "decode (inp_state ib) (region ib inp (inp + ?n)) = (items_of (region ib inp (inp + ?n)), inp_state ?ib1)"
      unfolding s(1) using decode_data_prefix [of "region ib inp (inp + ?n)" "ib_inp_data_size ib"] 2 s(2) l
      by (simp add: inp_state_def data_state_def)
    have w: "(if ib_size ib \<le> inp + ?n then inp + ?n - ib_size ib else inp + ?n) = wrapped ib (inp + ?n)"
      using less.prems(3,4) by (auto simp: wrapped_def)
    have eq: "read_done_loop len inp ib = read_done_loop (len - ?n) (wrapped ib (inp + ?n)) ?ib1"
      using loop 2 s(2) by (simp only: w [symmetric] Let_def) simp
    have sp: "inp + ?n + (len - ?n) \<le> ib_size ib" "0 < ?n" "len = ?n + (len - ?n)" "len - ?n < len"
      using less.prems(3) 2 by auto
    have i: "read_core ib ?ib1" "inp_ok ?ib1" "counted (m + eoms (items_of (region ib inp (inp + ?n)))) ?ib1"
      using less.prems(1,2) 2(2) s(2) by (simp_all add: mode_ok_def read_core_def)
    show ?thesis unfolding eq
      by (rule loop_combine [OF sp(1) less.prems(4) sp(2,3) less.prems(5-8) d i]) (rule less.IH [OF sp(4)])
  next
    case 3
    let ?c = "ib_buf ib ! inp"
    have c: "region ib inp (inp + 1) = [?c]" using less.prems(4) by (simp add: region_step)
    have r: "region ib inp (inp + len) = ?c # region ib (Suc inp) (inp + len)"
      using 3(1) less.prems(3) by (simp add: region_step)
    obtain zs st1 where w: "wire_step (inp_state ib) ?c = (zs, st1)" by fastforce
    have z: "st1 \<noteq> Invalid" "MARKER_EOS \<notin> set zs" "small_sizes (inp_state ib) [?c]"
      using less.prems(5-8) w unfolding r by (auto split: prod.splits)
    obtain ib1 where ib1: "read_done_byte ?c ib = Inr ((), ib1)" "read_core ib ib1" "inp_ok ib1" "counted (m + eoms zs) ib1"
        "inp_state ib1 = st1"
      using read_done_byte_ok [OF less.prems(1,2) 3(2) w z] by blast
    have d: "decode (inp_state ib) (region ib inp (inp + 1)) = (zs, inp_state ib1)"
      unfolding c using w ib1(5) by simp
    have eq: "read_done_loop len inp ib = read_done_loop (len - 1) (wrapped ib (inp + 1)) ib1"
      using loop 3 ib1(1) by (simp add: wrap_def wrapped_def)
    have sp: "inp + 1 + (len - 1) \<le> ib_size ib" "0 < (1 :: nat)" "len = 1 + (len - 1)" "len - 1 < len"
      using less.prems(3) 3(1) by auto
    show ?thesis unfolding eq
      by (rule loop_combine [OF sp(1) less.prems(4) sp(2,3) less.prems(5-8) d ib1(2-4)]) (rule less.IH [OF sp(4)])
  qed
qed

section \<open>What the transport has read\<close>

definition written :: "byte list \<Rightarrow> InputBuf \<Rightarrow> byte list" where
  "written bs ib = take (ib_inp ib) (ib_buf ib) @ bs @ drop (ib_inp ib + length bs) (ib_buf ib)"

lemma ring_append:
  assumes "ib_inp ib < ib_size ib" "p \<le> ib_size ib" "length bs \<le> ib_size ib - ib_inp ib" "length bs + length (ring_from ib p) < ib_size ib"
    and "ib_buf ib' = written bs ib" "ib_inp ib' = wrapped ib (ib_inp ib + length bs)"
  shows "ring_from ib' p = ring_from ib p @ bs"
proof (cases "p \<le> ib_inp ib")
  case True
  let ?i = "ib_inp ib"
  have l: "length bs + (?i - p) < ib_size ib" using assms True by (simp add: ring_from_def)
  have d: "drop p (written bs ib) = take (?i - p) (drop p (ib_buf ib)) @ bs @ drop (?i + length bs) (ib_buf ib)"
    using True assms(1) by (simp add: written_def drop_take)
  show ?thesis
  proof (cases "?i + length bs = ib_size ib")
    case full: True
    then have "0 < p" using l True by (cases p) auto
    with full d True assms show ?thesis by (simp add: ring_from_def wrapped_def)
  next
    case False
    have t: "length (take (?i - p) (drop p (ib_buf ib))) = ?i - p" using assms(1) True by simp
    have "?i + length bs - p = (?i - p) + length bs" using True by simp
    with False d t True assms show ?thesis by (simp add: ring_from_def wrapped_def)
  qed
next
  case False
  let ?i = "ib_inp ib"
  have l: "?i + length bs < p" using False assms by (simp add: ring_from_def)
  have "drop p (written bs ib) = drop p (ib_buf ib)" using l assms(1) by (simp add: written_def)
  moreover have "take (?i + length bs) (written bs ib) = take ?i (ib_buf ib) @ bs" using assms(1) by (simp add: written_def)
  moreover have "?i + length bs < ib_size ib" using l assms(2) by simp
  ultimately show ?thesis using False l assms by (simp add: ring_from_def wrapped_def)
qed

lemma region_keep:
  assumes "ptr_ok ib" "length bs + length (unread ib) < ib_size ib" "ib_buf ib' = written bs ib"
  shows "region ib' (ib_cur ib) (ib_end ib) = region ib (ib_cur ib) (ib_end ib)"
proof (cases "ib_cur ib \<le> ib_inp ib")
  case True
  have "drop (ib_cur ib) (written bs ib) = take (ib_inp ib - ib_cur ib) (drop (ib_cur ib) (ib_buf ib)) @ bs @ drop (ib_inp ib + length bs) (ib_buf ib)"
    using True assms(1) by (simp add: written_def drop_take ptr_ok_def)
  moreover have "min (ib_end ib - ib_cur ib) (ib_inp ib - ib_cur ib) = ib_end ib - ib_cur ib"
      "min (ib_size ib - ib_cur ib) (ib_inp ib - ib_cur ib) = ib_inp ib - ib_cur ib" "ib_end ib \<le> ib_inp ib"
    using assms(1) True by (auto simp: ptr_ok_def min_def)
  ultimately show ?thesis using assms True by (simp add: region_def)
next
  case False
  then have "ib_inp ib + length bs < ib_cur ib" using assms(1,2) by (simp add: ring_from_def ptr_ok_def)
  then have "drop (ib_cur ib) (written bs ib) = drop (ib_cur ib) (ib_buf ib)"
    using assms(1) by (simp add: written_def ptr_ok_def)
  then show ?thesis by (simp add: region_def assms(3))
qed

lemma received_rem:
  assumes rem: "ib_rem ib xs (inp_state ib)" "length bs \<le> ib_size ib - ib_inp ib" "length bs + length (unread ib) < ib_size ib"
    and dec: "decode (inp_state ib) bs = (ys, st)" "small_sizes (inp_state ib) bs"
    and ib': "ib_buf ib' = written bs ib" "ib_inp ib' = wrapped ib (ib_inp ib + length bs)" "ib_cur ib' = ib_cur ib" "ib_end ib' = ib_end ib"
      "ib_out_esc ib' = ib_out_esc ib" "ib_out_size_mode ib' = ib_out_size_mode ib" "ib_out_data_size ib' = ib_out_data_size ib"
      "ib_pending ib' = None"
  shows "ib_rem ib' (xs @ ys) st"
proof -
  have ptr: "ptr_ok ib" "ib_inp ib < ib_size ib" using rem(1) by (auto simp: ib_rem_def ptr_ok_def)
  have u: "unread ib = region ib (ib_cur ib) (ib_end ib) @ ring_from ib (ib_end ib)"
    by (rule ring_region) (use ptr in \<open>auto simp: ptr_ok_def\<close>)
  have e: "ring_from ib' (ib_end ib) = ring_from ib (ib_end ib) @ bs"
    by (rule ring_append [OF ptr(2) _ rem(2) _ ib'(1,2)]) (use ptr(1) rem(3) u in \<open>auto simp: ptr_ok_def\<close>)
  have o: "out_state ib' = out_state ib" using ib' by (simp add: out_state_def)
  have size: "ib_size ib' = ib_size ib" using ib'(1) rem(2) ptr(2) by (simp add: written_def)
  have "ptr_ok ib'"
  proof (cases "ib_inp ib + length bs = ib_size ib")
    case True
    then have "0 < ib_cur ib" using rem(3) ptr(2) by (cases "ib_cur ib") (auto simp: ring_from_def)
    with True ptr ib' size show ?thesis by (auto simp: ptr_ok_def wrapped_def)
  next
    case False
    have "ib_inp ib + length bs < ib_cur ib" if "\<not> ib_cur ib \<le> ib_inp ib"
      using that rem(3) ptr(1) by (simp add: ring_from_def ptr_ok_def)
    with False ptr rem(2) ib' size show ?thesis by (auto simp: ptr_ok_def wrapped_def)
  qed
  moreover have "ib_items ib' = xs @ ys" "snd (decode (out_state ib') (ring_from ib' (ib_end ib'))) = st"
      "small_sizes (out_state ib') (ring_from ib' (ib_end ib'))"
    using rem(1) dec region_keep [OF ptr(1) rem(3) ib'(1)] ib'(3,4)
    by (auto simp: ib_rem_def ib_items_def e o decode_append small_sizes_append)
  ultimately show ?thesis using rem(1) ib' by (simp add: ib_rem_def pend_def)
qed

text \<open>A ring that grows keeps what is unread.\<close>

lemma grow_ok:
  assumes "ib_rem ib xs st" "ib_pending ib = None" "ib_size ib - 1 \<le> length (unread ib)"
  shows "ib_rem (ibuf_grow ib) xs st"
proof -
  let ?ib = "ibuf_grow ib"
  have ptr: "ptr_ok ib" using assms(1) by (simp add: ib_rem_def)
  have u: "unread ib = region ib (ib_cur ib) (ib_end ib) @ ring_from ib (ib_end ib)"
    by (rule ring_region) (use ptr in \<open>auto simp: ptr_ok_def\<close>)
  have full: "length (unread ib) = ib_size ib - 1" using unread_bound [OF ptr] assms(3) by simp
  have n: "unread ?ib = unread ib"
  proof (cases "ib_cur ib \<le> ib_inp ib")
    case True
    then have "ib_cur ib = 0" "ib_inp ib = ib_size ib - 1" using full ptr by (auto simp: ring_from_def ptr_ok_def)
    then show ?thesis by (simp add: ring_from_def ibuf_grow_def)
  next
    case False
    then have "ib_cur ib = Suc (ib_inp ib)" using full ptr by (auto simp: ring_from_def ptr_ok_def)
    with ptr show ?thesis by (simp add: ring_from_def ibuf_grow_def ptr_ok_def)
  qed
  have r: "region ?ib 0 (ib_end ib - ib_cur ib) = region ib (ib_cur ib) (ib_end ib)"
    using ptr by (simp add: region_def ibuf_grow_def ptr_ok_def)
  have le: "ib_end ib - ib_cur ib \<le> ib_size ib - 1"
  proof -
    have "length (region ib (ib_cur ib) (ib_end ib)) = ib_end ib - ib_cur ib"
      using ptr by (auto simp: region_def ptr_ok_def min_def)
    with full show ?thesis unfolding u by simp
  qed
  have "ptr_ok ?ib" using ptr le by (auto simp: ptr_ok_def ibuf_grow_def)
  moreover have "unread ?ib = region ?ib 0 (ib_end ib - ib_cur ib) @ ring_from ?ib (ib_end ib - ib_cur ib)"
    using ring_region [of "ib_cur ?ib" "ib_end ?ib" ?ib] \<open>ptr_ok ?ib\<close> by (simp add: ptr_ok_def) (simp add: ibuf_grow_def)
  then have "ring_from ?ib (ib_end ib - ib_cur ib) = ring_from ib (ib_end ib)" using n r u by simp
  ultimately show ?thesis
    using assms(1,2) r by (simp add: ib_rem_def ib_items_def out_state_def pend_def) (simp add: ibuf_grow_def)
qed

section \<open>The invariant\<close>

definition ibuf_inv :: "InputBuf \<Rightarrow> bool" where
  "ibuf_inv ib \<longleftrightarrow> ib_rem ib (ib_items ib) (inp_state ib) \<and> inp_ok ib \<and> counted (eoms (ib_items ib)) ib \<and> busy ib"

lemma ptr_keeps:
  assumes "same_but_ptr ib ib'"
  shows "counted m ib' = counted m ib" "inp_state ib' = inp_state ib" "inp_ok ib' = inp_ok ib" "ib_handling_msg ib' = ib_handling_msg ib"
  using same_but_ptrD [OF assms] by (simp_all add: counted_def inp_state_def)

lemma free_size_rem:
  assumes "ib_rem ib xs st" "\<not> ib_eof ib"
  obtains ib1 where "ibuf_free_size ib = Inr (free_at ib1 (ib_cur ib1), ib1)" "ib_rem ib1 xs st" "same_but_ptr ib ib1"
    "ib_pending ib1 = ib_pending ib"
proof -
  let ?ib1 = "if ib_cur ib = ib_size ib then ib\<lparr>ib_cur := 0, ib_end := 0\<rparr> else ib"
  have ptr: "ptr_ok ib" using assms(1) by (simp add: ib_rem_def)
  note fs = free_size_ok [OF ptr assms(2)]
  have u: "length (unread ?ib1) = length (unread ib)" "ring_from ?ib1 (ib_end ?ib1) = ring_from ib (ib_end ib)"
    using ptr by (auto simp: ring_from_def ptr_ok_def)
  have "pend ?ib1 k = pend ib k" for k by (rule pend_cong) simp_all
  then have "ib_rem ?ib1 xs st"
    using assms(1) fs(2,3) u unfolding ib_rem_def by (simp add: out_state_def split del: if_split) (simp split: if_split)
  moreover have "same_but_ptr ib ?ib1" by (rule same_but_ptrI) simp
  ultimately show ?thesis using that [of ?ib1] fs(1) by simp
qed

lemma grow_keeps:
  "counted m (ibuf_grow ib) = counted m ib" "inp_state (ibuf_grow ib) = inp_state ib" "inp_ok (ibuf_grow ib) = inp_ok ib"
  "ib_pending (ibuf_grow ib) = ib_pending ib" "ib_handling_msg (ibuf_grow ib) = ib_handling_msg ib" "ib_eof (ibuf_grow ib) = ib_eof ib"
  by (simp_all add: ibuf_grow_def inp_state_def)

text \<open>The last part of \<open>ibuf_read_done\<close>: more room, a new request, or the start of a long message.\<close>

definition read_done_tail :: "unit ibuf_op" where
  "read_done_tail =
     bindR ibuf_free_size (\<lambda>n.
       if n > 0 then ibuf_trigger_read
       else (\<lambda>ib. if ib_message_count ib = 0
           then seqR (modI (\<lambda>ib. ib\<lparr>ib_long_msg := True\<rparr>)) ibuf_new_message ib else Inr ((), ib)))"

lemma tail_ok:
  assumes rem: "ib_rem ib xs (inp_state ib)" "inp_ok ib" "counted (eoms xs) ib" "ib_pending ib = None"
  shows "\<exists>ib'. read_done_tail ib = Inr ((), ib') \<and> ibuf_inv ib' \<and> ib_items ib' = xs \<and> inp_state ib' = inp_state ib"
proof -
  have eof: "\<not> ib_eof ib" using rem(3) by (simp add: counted_def)
  obtain ib1 where ib1: "ibuf_free_size ib = Inr (free_at ib1 (ib_cur ib1), ib1)" "ib_rem ib1 xs (inp_state ib)" "same_but_ptr ib ib1"
      "ib_pending ib1 = None"
    using free_size_rem [OF rem(1) eof] rem(4) by metis
  note k = ptr_keeps [OF ib1(3)]
  have ptr: "ptr_ok ib1" "ib_items ib1 = xs" using ib1(2) by (simp_all add: ib_rem_def)
  let ?n = "free_at ib1 (ib_cur ib1)"
  show ?thesis
  proof (cases "0 < ?n")
    case True
    obtain ib2 where ib2: "ibuf_trigger_read ib1 = Inr ((), ib2)" "ptr_ok ib2" "ib_items ib2 = ib_items ib1" "same_but_ptr ib1 ib2"
        "ring_from ib2 (ib_end ib2) = ring_from ib1 (ib_end ib1)" "pend ib1 (length (unread ib1)) \<longrightarrow> pend ib2 (length (unread ib2))"
        "asked ib2" "length (unread ib2) = length (unread ib1)"
      using trigger_read_ok [OF ptr(1)] by metis
    note k2 = ptr_keeps [OF ib2(4)] and d = same_but_ptrD [OF ib2(4)]
    have "length (unread ib1) < ib_size ib1 - 1"
      using free_at_bound(2) [of ib1 "ib_cur ib1"] True ptr(1) by (simp add: ptr_ok_def)
    then have "busy ib2" using ib2(7,8) d by (auto simp: asked_def busy_def)
    moreover have "ib_rem ib2 xs (inp_state ib)" using ib1(2) ib2 d by (simp add: ib_rem_def out_state_def)
    ultimately have "ibuf_inv ib2" "ib_items ib2 = xs" using k k2 rem ib2(3) ptr(2) by (simp_all add: ibuf_inv_def)
    then show ?thesis using True ib1(1) ib2(1) k k2 by (simp add: read_done_tail_def reader_simps)
  next
    case False
    show ?thesis
    proof (cases "ib_message_count ib1 = 0")
      case True
      let ?ib2 = "ib1\<lparr>ib_long_msg := True\<rparr>"
      obtain ib2 where ib2: "ibuf_new_message ?ib2 = Inr ((), ib2)" "read_core ?ib2 ib2" "ib_message_count ib2 = Suc 0"
          "ib_eof ib2 = ib_eof ib1" "ib_long_msg ib2" "ib_handling_msg ib2 \<noteq> HandleMsgIdle"
          "ib_handling_msg ib2 = HandleMsgActive \<longrightarrow> ib_handling_msg ib1 = HandleMsgActive"
          "ib_inp_esc ib2 = ib_inp_esc ib1" "ib_inp_size_mode ib2 = ib_inp_size_mode ib1" "ib_inp_data_size ib2 = ib_inp_data_size ib1"
        using new_message_ok [of ?ib2] True by auto
      have c: "counted (eoms xs) ib1" using k(1) rem(3) by simp
      then have h: "ib_handling_msg ib1 \<noteq> HandleMsgActive" and m: "eoms xs = 0" using True by (auto simp: counted_def split: if_splits)
      have i: "ib_items ib2 = xs" "ib_rem ib2 xs (inp_state ib)"
        using ib1(2) ib2(2) ptr(2) pend_cong [of ib2 ib1]
        by (auto simp: ib_rem_def read_core_def ib_items_def out_state_def region_def ring_from_def ptr_ok_def pend_def ib1(4))
      have "inp_state ib2 = inp_state ib" "inp_ok ib2" using ib2 k rem(2) by (simp_all add: inp_state_def)
      moreover have "counted (eoms xs) ib2" using c m ib2 h by (auto simp: counted_def)
      ultimately have "ibuf_inv ib2" using i ib2(3) by (simp add: ibuf_inv_def busy_def)
      then show ?thesis
        using False True ib1(1) ib2(1,7) i h k \<open>inp_state ib2 = inp_state ib\<close> by (simp add: read_done_tail_def reader_simps ibuf_ops)
    next
      case m: False
      have "ibuf_inv ib1" using ib1(2) k rem m ptr(2) by (simp add: ibuf_inv_def busy_def)
      then show ?thesis using False m ib1(1) k ptr(2) by (simp add: read_done_tail_def reader_simps)
    qed
  qed
qed

definition read_done_room :: "unit ibuf_op" where
  "read_done_room =
     (\<lambda>ib. if ib_eof ib then Inr ((), ib)
       else bindR ibuf_free_size (\<lambda>n.
         modI (\<lambda>ib. if n = 0 \<and> ib_size ib < 0x1000000 then ibuf_grow ib else ib)) ib)"

lemma room_ok:
  assumes rem: "ib_rem ib xs (inp_state ib)" "inp_ok ib" "counted m ib" "ib_pending ib = None"
  shows "\<exists>ib'. read_done_room ib = Inr ((), ib') \<and> ib_rem ib' xs (inp_state ib') \<and> inp_ok ib' \<and> counted m ib' \<and>
    ib_pending ib' = None \<and> inp_state ib' = inp_state ib"
proof -
  have eof: "\<not> ib_eof ib" using rem(3) by (simp add: counted_def)
  obtain ib1 where ib1: "ibuf_free_size ib = Inr (free_at ib1 (ib_cur ib1), ib1)" "ib_rem ib1 xs (inp_state ib)" "same_but_ptr ib ib1"
      "ib_pending ib1 = None"
    using free_size_rem [OF rem(1) eof] rem(4) by metis
  note k = ptr_keeps [OF ib1(3)]
  have "ib_rem (ibuf_grow ib1) xs (inp_state ib)" if "free_at ib1 (ib_cur ib1) = 0"
    by (rule grow_ok [OF ib1(2,4)]) (rule free_at_0 [OF _ _ that], use ib1(2) in \<open>auto simp: ib_rem_def ptr_ok_def\<close>)
  then show ?thesis
    using eof ib1 k rem by (auto simp: read_done_room_def reader_simps ibuf_ops grow_keeps)
qed

lemma transport_read_ok:
  assumes inv: "ibuf_inv ib" and req: "ib_pending ib = Some (p, n)" "cs \<noteq> []" "length cs \<le> n"
    and dec: "decode (inp_state ib) cs = (ys, st)" "st \<noteq> Invalid" "MARKER_EOS \<notin> set ys" "small_sizes (inp_state ib) cs"
  shows "\<exists>ib'. transport_read cs ib = Inr ((), ib') \<and> ibuf_inv ib' \<and> ib_items ib' = ib_items ib @ ys \<and> inp_state ib' = st"
proof -
  let ?ib1 = "ib\<lparr>ib_pending := None, ib_buf := written cs ib\<rparr>"
  have rem: "ib_rem ib (ib_items ib) (inp_state ib)" "inp_ok ib" "counted (eoms (ib_items ib)) ib"
    using inv by (simp_all add: ibuf_inv_def)
  have bnd: "length cs \<le> ib_size ib - ib_inp ib" "length cs + length (unread ib) < ib_size ib" "ib_inp ib < ib_size ib"
    using rem(1) req by (auto simp: ib_rem_def pend_def ptr_ok_def)
  have reg: "region ?ib1 (ib_inp ib) (ib_inp ib + length cs) = cs" and size: "length (written cs ib) = ib_size ib"
    using bnd by (simp_all add: region_def written_def)
  have s1: "inp_state ?ib1 = inp_state ib" "wrapped ?ib1 q = wrapped ib q" for q by (simp_all add: inp_state_def wrapped_def size)
  obtain ib2 where ib2: "read_done_loop (length cs) (ib_inp ib) ?ib1 = Inr (wrapped ib (ib_inp ib + length cs), ib2)"
      "read_core ?ib1 ib2" "inp_ok ib2" "counted (eoms (ib_items ib) + eoms ys) ib2" "inp_state ib2 = st"
    using read_done_loop_ok [of ?ib1 "eoms (ib_items ib)" "ib_inp ib" "length cs" ys st] bnd rem dec by (force simp: reg s1 size)
  let ?ib3 = "ib2\<lparr>ib_inp := wrapped ib (ib_inp ib + length cs)\<rparr>"
  have "ib_rem ?ib3 (ib_items ib @ ys) st"
    by (rule received_rem [OF rem(1) bnd(1,2) dec(1,4)]) (use ib2(2) in \<open>simp_all add: read_core_def\<close>)
  moreover have "inp_state ?ib3 = st" "inp_ok ?ib3" "counted (eoms (ib_items ib @ ys)) ?ib3" "ib_pending ?ib3 = None"
    using ib2 by (simp_all add: inp_state_def read_core_def)
  ultimately obtain ib4 where ib4: "read_done_room ?ib3 = Inr ((), ib4)" "ib_rem ib4 (ib_items ib @ ys) (inp_state ib4)" "inp_ok ib4"
      "counted (eoms (ib_items ib @ ys)) ib4" "ib_pending ib4 = None" "inp_state ib4 = st"
    using room_ok [of ?ib3 "ib_items ib @ ys" "eoms (ib_items ib @ ys)"] by auto
  from tail_ok [OF ib4(2-5)] obtain ib5 where ib5: "read_done_tail ib4 = Inr ((), ib5)" "ibuf_inv ib5" "ib_items ib5 = ib_items ib @ ys" "inp_state ib5 = st"
    using ib4(6) by auto
  have "transport_read cs ib = ibuf_read_done (length cs) ?ib1"
    using req(1) by (simp add: transport_read_def reader_simps ibuf_ops written_def)
  also have "\<dots> = Inr ((), ib5)"
    using ib2(1) ib4(1) ib5(1) rem(3) req(2)
    by (simp add: ibuf_read_done_def reader_simps ibuf_ops counted_def flip: read_done_room_def read_done_tail_def)
  finally show ?thesis using ib5 by simp
qed

lemma read_item_inv:
  assumes inv: "ibuf_inv ib" and act: "ib_handling_msg ib = HandleMsgActive" "ib_long_msg ib \<longrightarrow> ib_items ib \<noteq> []"
  shows "\<exists>x xs ib'. ib_items ib = x # xs \<and> tcp_read_stream wait_read ib = Some (Inr (x, ib')) \<and> ibuf_inv ib' \<and> ib_items ib' = xs \<and>
    inp_state ib' = inp_state ib"
proof -
  have c: "counted (eoms (ib_items ib)) ib" "0 < ib_message_count ib" using inv act(1) by (auto simp: ibuf_inv_def counted_def)
  then have "ib_items ib \<noteq> []" using act(2) by (auto simp: counted_def split: if_splits)
  then obtain x xs where x: "ib_items ib = x # xs" by (cases "ib_items ib") auto
  obtain ib' where ib': "tcp_read_stream wait_read ib = Some (Inr (x, ib'))" "ib_rem ib' xs (inp_state ib)" "read_effect x False ib ib'" "busy ib'"
    using read_stream_ok [of ib x xs "inp_state ib" wait_read] inv x c(2) act(1) by (auto simp: ibuf_inv_def)
  have k: "inp_state ib' = inp_state ib" "inp_ok ib'" "ib_items ib' = xs"
    using ib'(2,3) inv by (auto simp: read_effect_def same_core_def inp_state_def ibuf_inv_def ib_rem_def)
  have "counted (eoms xs) ib'"
    using ib'(3) c act(1) x by (auto simp: read_effect_def same_core_def counted_def split: if_splits)
  with ib' k have "ibuf_inv ib'" by (simp add: ibuf_inv_def)
  with x ib'(1) k show ?thesis by blast
qed

lemma peek_item_inv:
  assumes inv: "ibuf_inv ib" and act: "ib_handling_msg ib = HandleMsgActive" "ib_long_msg ib \<longrightarrow> ib_items ib \<noteq> []"
  shows "\<exists>x xs ib'. ib_items ib = x # xs \<and> tcp_peek_stream wait_read ib = Some (Inr (x, ib')) \<and> ibuf_inv ib' \<and> ib_items ib' = x # xs \<and>
    inp_state ib' = inp_state ib"
proof -
  have c: "counted (eoms (ib_items ib)) ib" "0 < ib_message_count ib" using inv act(1) by (auto simp: ibuf_inv_def counted_def)
  then have "ib_items ib \<noteq> []" using act(2) by (auto simp: counted_def split: if_splits)
  then obtain x xs where x: "ib_items ib = x # xs" by (cases "ib_items ib") auto
  obtain ib' where ib': "tcp_peek_stream wait_read ib = Some (Inr (x, ib'))" "ib_rem ib' (x # xs) (inp_state ib)" "read_effect x True ib ib'"
    using peek_stream_ok [of ib x xs "inp_state ib" wait_read] inv x c(2) act(1) by (auto simp: ibuf_inv_def)
  have k: "inp_state ib' = inp_state ib" "inp_ok ib'" "ib_items ib' = x # xs" "ib_message_count ib' = ib_message_count ib"
    using ib'(2,3) inv by (auto simp: read_effect_def same_core_def inp_state_def ibuf_inv_def ib_rem_def)
  have "counted (eoms (x # xs)) ib'"
    using ib'(3) c(1) x by (auto simp: read_effect_def same_core_def counted_def)
  with ib' k c(2) have "ibuf_inv ib'" by (simp add: ibuf_inv_def busy_def)
  with x ib'(1) k show ?thesis by blast
qed

lemma start_message_inv:
  assumes "ibuf_inv ib" "ib_handling_msg ib = HandleMsgTriggered"
  shows "\<exists>r ib'. ibuf_start_message ib = Inr (r, ib') \<and> ibuf_inv ib' \<and> ib_items ib' = ib_items ib \<and> inp_state ib' = inp_state ib"
proof -
  have h: "ring_from (ib\<lparr>ib_handling_msg := h\<rparr>) p = ring_from ib p" "region (ib\<lparr>ib_handling_msg := h\<rparr>) p q = region ib p q"
    "pend (ib\<lparr>ib_handling_msg := h\<rparr>) p = pend ib p" for h p q
    by (simp add: ring_from_def, simp add: region_def, rule pend_cong, simp_all)
  have "ib_items (ib\<lparr>ib_handling_msg := h\<rparr>) = ib_items ib" "inp_state (ib\<lparr>ib_handling_msg := h\<rparr>) = inp_state ib"
    "ib_rem (ib\<lparr>ib_handling_msg := h\<rparr>) xs st = ib_rem ib xs st" for h xs st
    by (simp_all add: ib_rem_def ib_items_def out_state_def inp_state_def ptr_ok_def h)
  then show ?thesis
    using assms by (auto simp: ibuf_start_message_def reader_simps ibuf_ops ibuf_inv_def counted_def busy_def)
qed

section \<open>Runs\<close>

text \<open>
  The bytes received, the items read, and the buffer. The dispatcher starts a message whose event was posted; its reader
  takes or looks at the next item. A reader of a long message that has taken all there is waits for the transport.
\<close>

inductive ibuf_run :: "unit ibuf_op \<Rightarrow> byte list \<Rightarrow> int list \<Rightarrow> InputBuf \<Rightarrow> bool" for wait_read where
  start: "ibuf_trigger_read ibuf_init = Inr ((), ib) \<Longrightarrow> ibuf_run wait_read [] [] ib"
| receive: "ibuf_run wait_read bs xs ib \<Longrightarrow> ib_pending ib = Some (p, n) \<Longrightarrow> cs \<noteq> [] \<Longrightarrow> length cs \<le> n \<Longrightarrow>
    transport_read cs ib = Inr ((), ib') \<Longrightarrow> ibuf_run wait_read (bs @ cs) xs ib'"
| dispatch: "ibuf_run wait_read bs xs ib \<Longrightarrow> ib_handling_msg ib = HandleMsgTriggered \<Longrightarrow>
    ibuf_start_message ib = Inr (r, ib') \<Longrightarrow> ibuf_run wait_read bs xs ib'"
| read_item: "ibuf_run wait_read bs xs ib \<Longrightarrow> ib_handling_msg ib = HandleMsgActive \<Longrightarrow> (ib_long_msg ib \<longrightarrow> ib_items ib \<noteq> []) \<Longrightarrow>
    tcp_read_stream wait_read ib = Some (Inr (x, ib')) \<Longrightarrow> ibuf_run wait_read bs (xs @ [x]) ib'"
| peek_item: "ibuf_run wait_read bs xs ib \<Longrightarrow> ib_handling_msg ib = HandleMsgActive \<Longrightarrow> (ib_long_msg ib \<longrightarrow> ib_items ib \<noteq> []) \<Longrightarrow>
    tcp_peek_stream wait_read ib = Some (Inr (x, ib')) \<Longrightarrow> ibuf_run wait_read bs xs ib'"

text \<open>Bytes of a peer that keeps to the protocol and has not ended the stream.\<close>

definition well_formed :: "byte list \<Rightarrow> bool" where
  "well_formed bs \<longleftrightarrow> snd (decode Plain bs) \<noteq> Invalid \<and> MARKER_EOS \<notin> set (fst (decode Plain bs))"

lemma well_formed_append:
  "well_formed (bs @ cs) \<longleftrightarrow> well_formed bs \<and> snd (decode (snd (decode Plain bs)) cs) \<noteq> Invalid \<and>
     MARKER_EOS \<notin> set (fst (decode (snd (decode Plain bs)) cs))"
  by (cases "snd (decode Plain bs) = Invalid") (auto simp: well_formed_def decode_append)

lemma start_inv: "\<exists>ib. ibuf_trigger_read ibuf_init = Inr ((), ib) \<and> ibuf_inv ib \<and> ib_items ib = [] \<and> inp_state ib = Plain"
proof -
  have "ib_rem ibuf_init [] Plain" "counted 0 ibuf_init" "inp_ok ibuf_init" "inp_state ibuf_init = Plain"
    "ib_size ibuf_init = 4096" "unread ibuf_init = []" "\<not> ib_eof ibuf_init"
    by (simp_all add: ib_rem_def ibuf_init_def ptr_ok_def mode_ok_def pend_def ib_items_def out_state_def ring_from_def counted_def inp_state_def)
  moreover from this obtain ib where "ibuf_trigger_read ibuf_init = Inr ((), ib)" "ptr_ok ib" "ib_items ib = ib_items ibuf_init" "same_but_ptr ibuf_init ib"
    "ring_from ib (ib_end ib) = ring_from ibuf_init (ib_end ibuf_init)" "pend ibuf_init (length (unread ibuf_init)) \<longrightarrow> pend ib (length (unread ib))"
    "asked ib" "length (unread ib) = length (unread ibuf_init)"
    using trigger_read_ok [of ibuf_init] unfolding ib_rem_def by metis
  moreover note ptr_keeps [OF this(4)] same_but_ptrD [OF this(4)]
  ultimately show ?thesis
    by (auto simp: ib_rem_def ibuf_inv_def asked_def busy_def out_state_def)
qed

lemma run_inv:
  assumes "ibuf_run wait_read bs xs ib" "well_formed bs"
  shows "ibuf_inv ib \<and> decode Plain bs = (xs @ ib_items ib, inp_state ib)"
  using assms
proof (induction rule: ibuf_run.induct)
  case (start ib)
  then show ?case using start_inv by auto
next
  case (receive bs xs ib p n cs ib')
  then have wf: "well_formed bs" "snd (decode (inp_state ib) cs) \<noteq> Invalid" "MARKER_EOS \<notin> set (fst (decode (inp_state ib) cs))"
    by (auto simp: well_formed_append)
  show ?case
    using transport_read_ok [OF _ receive.hyps(2-4) prod.collapse [symmetric] wf(2,3) small_sizes_valid [OF wf(2)]] receive.IH [OF wf(1)] receive.hyps(5)
    by (auto simp: decode_append intro: prod_eqI)
next
  case (dispatch bs xs ib r ib')
  then show ?case using start_message_inv [of ib] by auto
next
  case (read_item bs xs ib x ib')
  then show ?case using read_item_inv [of ib wait_read] by auto
next
  case (peek_item bs xs ib x ib')
  then show ?case using peek_item_inv [of ib wait_read] by auto
qed

lemma start_state: "ibuf_trigger_read ibuf_init = Inr ((), ibuf_init\<lparr>ib_pending := Some (0, 4095)\<rparr>)"
  by (simp add: ibuf_trigger_read_def ibuf_free_size_def ibuf_init_def tcp_post_read_def reader_simps ibuf_ops)

lemma run_receives:
  assumes "ibuf_run wait_read bs xs ib" "well_formed (bs @ cs)" "ib_pending ib = Some (p, n)" "cs \<noteq> []" "length cs \<le> n"
  shows "\<exists>ib'. transport_read cs ib = Inr ((), ib') \<and> ibuf_run wait_read (bs @ cs) xs ib'"
proof -
  have wf: "well_formed bs" using assms(2) by (simp add: well_formed_append)
  note inv = run_inv [OF assms(1) wf]
  then have d: "snd (decode (inp_state ib) cs) \<noteq> Invalid" "MARKER_EOS \<notin> set (fst (decode (inp_state ib) cs))"
    using assms(2) by (auto simp: well_formed_append)
  obtain ib' where "transport_read cs ib = Inr ((), ib')"
    using transport_read_ok [OF _ assms(3-5) prod.collapse [symmetric] d small_sizes_valid [OF d(1)]] inv by blast
  with ibuf_run.receive [OF assms(1,3-5)] show ?thesis by blast
qed

text \<open>A run that exists: the byte 72 and the end of its message arrive together.\<close>

lemma example_run: "\<exists>ib. ibuf_run wait_read [72, 3, 1] [] ib"
  using run_receives [OF ibuf_run.start [OF start_state], of "[72, 3, 1]"] by (auto simp: well_formed_def)

section \<open>Properties\<close>







text \<open>a reader that runs into the end of the stream at the end of the ring leaves the region of plain bytes open: ibuf_get_more
  sets the current position to the start of the buffer and returns the end of the stream without closing the region, so the
  following reads deliver the stale bytes of the whole buffer instead of the end of the stream.\<close>

definition eos_at_end :: InputBuf where
  "eos_at_end = ibuf_init\<lparr>ib_buf := [65, 66, 67, 68], ib_cur := 4, ib_end := 4, ib_eof := True, ib_long_msg := True, ib_message_count := 2,
     ib_handling_msg := HandleMsgActive\<rparr>"

theorem ibuf_eos_then_stale_bytes:
  "\<exists>ib1 ib2. ib_items eos_at_end = [] \<and> tcp_read_stream wait_read eos_at_end = Some (Inr (MARKER_EOS, ib1)) \<and>
    tcp_read_stream wait_read ib1 = Some (Inr (65, ib2)) \<and> ib_end ib1 = ib_size ib1"
  by (simp add: eos_at_end_def ibuf_init_def tcp_read_stream_def ibuf_get_more_def get_more_loop.simps [of _ _ 4]
      ib_items_def ring_from_def Let_def)

text \<open>the size of a block of binary data is assembled in an int: a peer that sends a size of five bytes makes ibuf_read_done
  shift a value out of it, which is undefined behaviour, already for sizes the format allows.\<close>

theorem ibuf_size_shift_undefined:
  assumes "4 \<le> md - 1" "8 \<le> unat c mod 128"
  shows "size_bits c md = Inl Undefined"
proof -
  have "(2 :: nat) ^ 31 \<le> 8 * 128 ^ 4" by simp
  also have "\<dots> \<le> (unat c mod 128) * 128 ^ (md - 1)"
    using assms by (intro mult_le_mono power_increasing) simp_all
  finally show ?thesis by (simp add: size_bits_def Let_def)
qed

theorem ibuf_size_shift_undefined_witness: "size_bits 0x0f 5 = Inl Undefined"
  by (rule ibuf_size_shift_undefined) simp_all

end
