(* ===== verification/Channel_Io.thy ===== *)
theory Channel_Io
  imports Channel_Tcp_Proofs Inputbuf_Run
begin

text \<open>
  Two ends of a TCP connection: what one channel writes is what the input buffer of the other delivers. The socket is a
  sequence of bytes; the receiver may have got any part of what the sender's transport has written, in pieces of any size.
\<close>

lemma well_formed_prefix: "well_formed (as @ bs) \<Longrightarrow> well_formed as"
  by (simp add: well_formed_append)



end
