(* ===== verification/Hash_Table.thy ===== *)
theory Hash_Table
  imports Main
begin

text \<open>
  The hash tables of the agent: an array of chains, a new entry first in its chain, entries found by walking the chain of
  their key. The locale \<open>hash_table\<close> has the hash function and the key of an entry; it gives lookups and what
  the operations change, and counts the entries of a key. The handler tables of the protocol are its interpretations.
\<close>

definition chain_add :: "nat \<Rightarrow> 'e \<Rightarrow> 'e list list \<Rightarrow> 'e list list" where
  "chain_add h e t = t[h := e # t ! h]"

definition chain_find :: "nat \<Rightarrow> ('e \<Rightarrow> bool) \<Rightarrow> 'e list list \<Rightarrow> 'e option" where
  "chain_find h P t = List.find P (t ! h)"

text \<open>Unlink the first entry of a chain with a property.\<close>

fun unlink :: "('e \<Rightarrow> bool) \<Rightarrow> 'e list \<Rightarrow> 'e list" where
  "unlink P [] = []"
| "unlink P (e # es) = (if P e then es else e # unlink P es)"

definition chain_unlink :: "nat \<Rightarrow> ('e \<Rightarrow> bool) \<Rightarrow> 'e list list \<Rightarrow> 'e list list" where
  "chain_unlink h P t = t[h := unlink P (t ! h)]"

text \<open>Unlink all entries with a property, chain after chain.\<close>

definition chain_purge :: "('e \<Rightarrow> bool) \<Rightarrow> 'e list list \<Rightarrow> 'e list list" where
  "chain_purge P t = map (filter (\<lambda>e. \<not> P e)) t"

lemma find_filter: "(\<And>x. P x \<Longrightarrow> Q x) \<Longrightarrow> List.find P (filter Q xs) = List.find P xs"
  by (induction xs) auto

lemma find_filter_none: "(\<And>x. P x \<Longrightarrow> \<not> Q x) \<Longrightarrow> List.find P (filter Q xs) = None"
  by (auto simp: find_None_iff)

lemma filter_unlink_other: "(\<And>x. P x \<Longrightarrow> \<not> Q x) \<Longrightarrow> filter Q (unlink P xs) = filter Q xs"
  by (induction xs) auto

lemma filter_unlink: "filter P (unlink P xs) = tl (filter P xs)"
  by (induction xs) auto

lemma unlink_none: "\<forall>x \<in> set xs. \<not> P x \<Longrightarrow> unlink P xs = xs"
  by (induction xs) auto

lemma set_unlink: "set (unlink P xs) \<subseteq> set xs"
  by (induction xs) auto

lemma find_filter_hd: "List.find P xs = (case filter P xs of [] \<Rightarrow> None | x # _ \<Rightarrow> Some x)"
  by (induction xs) auto

lemma nth_update: "j < length xs \<Longrightarrow> xs[i := x] ! j = (if i = j then x else xs ! j)"
  by (cases "i = j") simp_all

lemma set_chain_add: "h < length t \<Longrightarrow> set (concat (chain_add h e t)) = insert e (set (concat t))"
  by (subst (2) id_take_nth_drop [of h t], assumption)
    (auto simp: chain_add_def upd_conv_take_nth_drop)

lemma set_chain_purge: "set (concat (chain_purge P t)) = {e \<in> set (concat t). \<not> P e}"
  by (auto simp: chain_purge_def)

locale hash_table =
  fixes key :: "'e \<Rightarrow> 'k" and hash :: "'k \<Rightarrow> nat" and size :: nat
  assumes hash_bound: "hash k < size"
begin

definition table_ok :: "'e list list \<Rightarrow> bool" where
  "table_ok t \<longleftrightarrow> length t = size \<and> (\<forall>h < size. \<forall>e \<in> set (t ! h). hash (key e) = h)"

definition entries :: "'k \<Rightarrow> 'e list list \<Rightarrow> 'e list" where
  "entries k t = filter (\<lambda>e. key e = k) (t ! hash k)"

text \<open>Every lookup of a key is a lookup among its entries, the newest first.\<close>

lemma find_entries: "chain_find (hash k) (\<lambda>e. key e = k) t = (case entries k t of [] \<Rightarrow> None | e # _ \<Rightarrow> Some e)"
  by (simp add: chain_find_def entries_def find_filter_hd)

lemma table_ok_empty: "table_ok (replicate size [])"
  by (simp add: table_ok_def)

lemma entries_empty: "entries k (replicate size []) = []"
  by (simp add: entries_def hash_bound)

lemma table_ok_add: "table_ok t \<Longrightarrow> table_ok (chain_add (hash (key e)) e t)"
  by (auto simp: table_ok_def chain_add_def nth_update split: if_splits)

lemma entries_add:
  "table_ok t \<Longrightarrow> entries k (chain_add (hash (key e)) e t) = (if key e = k then e # entries k t else entries k t)"
  using hash_bound by (auto simp: entries_def chain_add_def table_ok_def nth_list_update)

lemma table_ok_unlink: "table_ok t \<Longrightarrow> table_ok (chain_unlink h P t)"
  by (auto simp: table_ok_def chain_unlink_def nth_update split: if_splits dest: subsetD [OF set_unlink])

lemma entries_unlink:
  "table_ok t \<Longrightarrow>
    entries k (chain_unlink (hash k') (\<lambda>e. key e = k') t) = (if k = k' then tl (entries k t) else entries k t)"
proof -
  assume ok: "table_ok t"
  have o: "filter (\<lambda>e. key e = k) (unlink (\<lambda>e. key e = k') (t ! hash k')) = filter (\<lambda>e. key e = k) (t ! hash k')" if "k \<noteq> k'"
    by (rule filter_unlink_other) (use that in auto)
  show ?thesis
    using ok hash_bound [of k'] o by (cases "k = k'"; cases "hash k = hash k'")
      (auto simp: entries_def chain_unlink_def table_ok_def nth_list_update filter_unlink)
qed

lemma table_ok_purge: "table_ok t \<Longrightarrow> table_ok (chain_purge P t)"
  by (auto simp: table_ok_def chain_purge_def)

lemma entries_purge: "table_ok t \<Longrightarrow> entries k (chain_purge P t) = filter (\<lambda>e. \<not> P e) (entries k t)"
  using hash_bound by (auto simp: entries_def chain_purge_def table_ok_def intro!: filter_cong)

lemma table_ok_map: "(\<And>e. key (f e) = key e) \<Longrightarrow> table_ok t \<Longrightarrow> table_ok (map (map f) t)"
  by (auto simp: table_ok_def)

lemma entries_map:
  assumes "\<And>e. key (f e) = key e" "table_ok t"
  shows "entries k (map (map f) t) = map f (entries k t)"
  using assms hash_bound [of k] by (simp add: entries_def table_ok_def filter_map o_def)

text \<open>The entries of a key are in one chain.\<close>

lemma filter_concat_entries:
  assumes "table_ok t"
  shows "filter (\<lambda>e. key e = k) (concat t) = entries k t"
proof -
  have len: "hash k < length t" using assms hash_bound by (simp add: table_ok_def)
  have other: False if "j < length t" "j \<noteq> hash (key e)" "e \<in> set (t ! j)" for j e
    using assms that by (auto simp: table_ok_def)
  have "\<not> key e = k" if "e \<in> set (concat (take (hash k) t)) \<or> e \<in> set (concat (drop (Suc (hash k)) t))" for e
  proof -
    from that obtain chain where "e \<in> set chain" "chain \<in> set (take (hash k) t) \<or> chain \<in> set (drop (Suc (hash k)) t)" by auto
    then have "\<exists>j. j < length t \<and> j \<noteq> hash k \<and> e \<in> set (t ! j)"
    proof (elim disjE)
      assume "chain \<in> set (take (hash k) t)"
      then obtain j where "j < hash k" "t ! j = chain" by (auto simp: in_set_conv_nth)
      then show ?thesis using \<open>e \<in> set chain\<close> len by (intro exI [of _ j]) auto
    next
      assume "chain \<in> set (drop (Suc (hash k)) t)"
      then obtain j where "j < length t - Suc (hash k)" "t ! (Suc (hash k) + j) = chain" by (auto simp: in_set_conv_nth)
      then show ?thesis using \<open>e \<in> set chain\<close> by (intro exI [of _ "Suc (hash k) + j"]) auto
    qed
    then show ?thesis using other by blast
  qed
  then have "filter (\<lambda>e. key e = k) (concat (take (hash k) t)) = []" "filter (\<lambda>e. key e = k) (concat (drop (Suc (hash k)) t)) = []"
    by (auto simp: filter_empty_conv)
  then show ?thesis
    by (subst id_take_nth_drop [OF len]) (simp add: entries_def)
qed

lemma set_entries: "table_ok t \<Longrightarrow> e \<in> set (entries k t) \<longleftrightarrow> key e = k \<and> e \<in> set (concat t)"
  using hash_bound [of k] by (fastforce simp: entries_def table_ok_def in_set_conv_nth [of _ t])

end

end
