(* ===== verification/Protocol.thy ===== *)
theory Protocol
  imports Json_Object Hash_Table
begin

text \<open>
  framework/protocol.c: the tables of command, event and reply handlers, the dispatch of the messages of a channel, sending
  of commands, the handshake with which a channel is opened, and what is left to do when it is closed.

  Pointers to protocols and channels are their addresses (the hash functions use them). A handler together with its client
  data is a value of the type \<open>'h\<close>; what the handlers, and the listeners of a channel, do is a parameter, a record of the
  type \<open>proto_env\<close>. \<open>w_client\<close> is the state of the clients, which the source does not know; a reply handler that is told
  of a closed channel acts on it alone and an exception it raises is only logged.
\<close>

section \<open>State\<close>

type_synonym addr = u64

datatype channel_state =
    ChannelStateStartWait
  | ChannelStateStarted
  | ChannelStateHelloSent
  | ChannelStateHelloReceived
  | ChannelStateConnected
  | ChannelStateRedirectSent
  | ChannelStateRedirectReceived
  | ChannelStateDisconnected

record ServiceInfo =
  si_owner :: addr
  si_name :: "byte list"

record 'h MessageHandlerInfo =
  mh_p :: addr
  mh_service :: "byte list"
  mh_name :: "byte list"
  mh_handler :: 'h

record 'h EventHandlerInfo =
  eh_c :: addr
  eh_service :: "byte list"
  eh_name :: "byte list"
  eh_handler :: 'h

record 'h ReplyHandlerInfo =
  rh_tokenid :: u64
  rh_c :: addr
  rh_handler :: "'h option"
  rh_progress :: "'h option"

record 'h Protocol =
  p_id :: int
  p_lock_cnt :: nat
  p_tokenid :: u64
  p_default_handler :: "'h option"

record 'o Channel =
  ch_inp :: istream
  ch_out :: 'o
  ch_zero_copy :: bool
  ch_disable_zero_copy :: bool
  ch_protocol :: addr
  ch_peer_services :: "byte list list option"
  ch_congestion_level :: int
  ch_state :: channel_state

record ('o, 'h, 'x) world =
  w_messages :: "'h MessageHandlerInfo list list"
  w_events :: "'h EventHandlerInfo list list"
  w_replies :: "'h ReplyHandlerInfo list list"
  w_services :: "ServiceInfo list"
  w_ini_done :: bool
  w_proto_cnt :: int
  w_agent_id :: "byte list option"
  w_protocols :: "addr \<Rightarrow> 'h Protocol"
  w_channels :: "addr \<Rightarrow> 'o Channel"
  w_failed :: "'h ReplyHandlerInfo list"
  w_client :: 'x

type_synonym ('o, 'h, 'x, 'a) proto_op = "(('o, 'h, 'x) world, 'a) comp"

record ('o, 'h, 'x) proto_env =
  call_command :: "'h \<Rightarrow> byte list \<Rightarrow> addr \<Rightarrow> ('o, 'h, 'x, unit) proto_op"
  call_event :: "'h \<Rightarrow> addr \<Rightarrow> ('o, 'h, 'x, unit) proto_op"
  call_reply :: "'h \<Rightarrow> addr \<Rightarrow> error option \<Rightarrow> ('o, 'h, 'x, unit) proto_op"
  call_progress :: "'h \<Rightarrow> addr \<Rightarrow> ('o, 'h, 'x, unit) proto_op"
  call_default :: "'h \<Rightarrow> addr \<Rightarrow> byte list list \<Rightarrow> ('o, 'h, 'x, unit) proto_op"
  call_opened :: "addr \<Rightarrow> ('o, 'h, 'x, unit) proto_op"
  call_notify_closed :: "addr \<Rightarrow> ('o, 'h, 'x, unit) proto_op"
  call_closed :: "'h \<Rightarrow> addr \<Rightarrow> 'x \<Rightarrow> 'x"

definition MESSAGE_HASH_SIZE :: nat where "MESSAGE_HASH_SIZE = 159"
definition EVENT_HASH_SIZE :: nat where "EVENT_HASH_SIZE = 127"
definition REPLY_HASH_SIZE :: nat where "REPLY_HASH_SIZE = 127"

abbreviation LOCATOR :: "byte list" where "LOCATOR \<equiv> bytes_of ''Locator''"

definition getW :: "(('o, 'h, 'x) world \<Rightarrow> 'a) \<Rightarrow> ('o, 'h, 'x, 'a) proto_op" where
  "getW f = (\<lambda>w. Inr (f w, w))"

definition modW :: "(('o, 'h, 'x) world \<Rightarrow> ('o, 'h, 'x) world) \<Rightarrow> ('o, 'h, 'x, unit) proto_op" where
  "modW f = (\<lambda>w. Inr ((), f w))"

definition mod_channel :: "addr \<Rightarrow> ('o Channel \<Rightarrow> 'o Channel) \<Rightarrow> ('o, 'h, 'x) world \<Rightarrow> ('o, 'h, 'x) world" where
  "mod_channel c f w = w\<lparr>w_channels := (w_channels w)(c := f (w_channels w c))\<rparr>"

definition mod_protocol :: "addr \<Rightarrow> ('h Protocol \<Rightarrow> 'h Protocol) \<Rightarrow> ('o, 'h, 'x) world \<Rightarrow> ('o, 'h, 'x) world" where
  "mod_protocol p f w = w\<lparr>w_protocols := (w_protocols w)(p := f (w_protocols w p))\<rparr>"

text \<open>Reading from and writing to a channel.\<close>

definition inpW :: "addr \<Rightarrow> 'a reader \<Rightarrow> ('o, 'h, 'x, 'a) proto_op" where
  "inpW c m = (\<lambda>w. case m (ch_inp (w_channels w c)) of
     Inl e \<Rightarrow> Inl e | Inr (x, s) \<Rightarrow> Inr (x, mod_channel c (\<lambda>ch. ch\<lparr>ch_inp := s\<rparr>) w))"

definition outW :: "addr \<Rightarrow> ('o \<Rightarrow> 'o) \<Rightarrow> ('o, 'h, 'x, unit) proto_op" where
  "outW c f = modW (mod_channel c (\<lambda>ch. ch\<lparr>ch_out := f (ch_out ch)\<rparr>))"

text \<open>The static variables of the module as the program starts.\<close>

definition protocol_statics :: "('o, 'h, 'x) world \<Rightarrow> ('o, 'h, 'x) world" where
  "protocol_statics w = w\<lparr>w_messages := replicate MESSAGE_HASH_SIZE [], w_events := replicate EVENT_HASH_SIZE [],
     w_replies := replicate REPLY_HASH_SIZE [], w_services := [], w_ini_done := False, w_proto_cnt := 0, w_agent_id := None,
     w_failed := []\<rparr>"

text \<open>The identifier that \<open>create_uuid\<close> makes is the parameter \<open>uuid\<close>.\<close>

definition ini_protocol :: "byte list \<Rightarrow> ('o, 'h, 'x, unit) proto_op" where
  "ini_protocol uuid =
     (\<lambda>w. if w_ini_done w then Inl Assertion else Inr ((), w\<lparr>w_agent_id := Some uuid, w_ini_done := True\<rparr>))"

definition get_agent_id :: "byte list \<Rightarrow> ('o, 'h, 'x, byte list option) proto_op" where
  "get_agent_id uuid = (\<lambda>w. seqR (if w_ini_done w then retR () else ini_protocol uuid) (getW w_agent_id) w)"

section \<open>Services\<close>

definition protocol_get_service :: "addr \<Rightarrow> byte list \<Rightarrow> ServiceInfo list \<Rightarrow> exn + ServiceInfo list" where
  "protocol_get_service owner name services =
     (if List.find (\<lambda>s. si_owner s = owner \<and> si_name s = name) services \<noteq> None then Inr services
      else if name = bytes_of ''ZeroCopy'' then Inl Assertion
      else Inr (\<lparr>si_owner = owner, si_name = name\<rparr> # services))"

definition free_services :: "addr \<Rightarrow> ServiceInfo list \<Rightarrow> ServiceInfo list" where
  "free_services owner services = filter (\<lambda>s. si_owner s \<noteq> owner) services"

section \<open>Tables\<close>

text \<open>A \<open>char\<close> is added to an \<open>unsigned\<close> as a signed value.\<close>

definition hash_string :: "byte list \<Rightarrow> u32 \<Rightarrow> u32" where
  "hash_string s h = fold (\<lambda>b h. h + scast b) s h"

definition name_hash :: "nat \<Rightarrow> addr \<times> byte list \<times> byte list \<Rightarrow> nat" where
  "name_hash sz = (\<lambda>(p, service, name).
     let h = hash_string name (hash_string service (drop_bit 4 (ucast p :: u32)))
     in unat ((h + h div word_of_nat sz) mod word_of_nat sz))"

definition message_hash :: "addr \<times> byte list \<times> byte list \<Rightarrow> nat" where
  "message_hash = name_hash MESSAGE_HASH_SIZE"

definition event_hash :: "addr \<times> byte list \<times> byte list \<Rightarrow> nat" where
  "event_hash = name_hash EVENT_HASH_SIZE"

definition reply_hash :: "addr \<times> u64 \<Rightarrow> nat" where
  "reply_hash = (\<lambda>(c, tokenid).
     unat ((drop_bit 4 (ucast c :: u32) + ucast tokenid) mod word_of_nat REPLY_HASH_SIZE))"

definition mh_key :: "'h MessageHandlerInfo \<Rightarrow> addr \<times> byte list \<times> byte list" where
  "mh_key mh = (mh_p mh, mh_service mh, mh_name mh)"

definition eh_key :: "'h EventHandlerInfo \<Rightarrow> addr \<times> byte list \<times> byte list" where
  "eh_key eh = (eh_c eh, eh_service eh, eh_name eh)"

definition rh_key :: "'h ReplyHandlerInfo \<Rightarrow> addr \<times> u64" where
  "rh_key rh = (rh_c rh, rh_tokenid rh)"

definition find_message_handler ::
    "addr \<Rightarrow> byte list \<Rightarrow> byte list \<Rightarrow> ('o, 'h, 'x) world \<Rightarrow> 'h MessageHandlerInfo option" where
  "find_message_handler p service name w =
     chain_find (message_hash (p, service, name)) (\<lambda>mh. mh_key mh = (p, service, name)) (w_messages w)"

definition find_event_handler ::
    "addr \<Rightarrow> byte list \<Rightarrow> byte list \<Rightarrow> ('o, 'h, 'x) world \<Rightarrow> 'h EventHandlerInfo option" where
  "find_event_handler c service name w =
     chain_find (event_hash (c, service, name)) (\<lambda>eh. eh_key eh = (c, service, name)) (w_events w)"

definition find_reply_handler ::
    "addr \<Rightarrow> u64 \<Rightarrow> bool \<Rightarrow> ('o, 'h, 'x) world \<Rightarrow> 'h ReplyHandlerInfo option \<times> ('o, 'h, 'x) world" where
  "find_reply_handler c tokenid tk w =
     (let h = reply_hash (c, tokenid); P = (\<lambda>rh. rh_key rh = (c, tokenid)) in
      (chain_find h P (w_replies w), if tk then w\<lparr>w_replies := chain_unlink h P (w_replies w)\<rparr> else w))"

definition add_command_handler2 :: "addr \<Rightarrow> byte list \<Rightarrow> byte list \<Rightarrow> 'h \<Rightarrow> ('o, 'h, 'x, unit) proto_op" where
  "add_command_handler2 p service name handler =
     (\<lambda>w. case protocol_get_service p service (w_services w) of
        Inl e \<Rightarrow> Inl e
      | Inr ss \<Rightarrow>
          Inr ((), w\<lparr>w_services := ss,
            w_messages := chain_add (message_hash (p, service, name))
              \<lparr>mh_p = p, mh_service = service, mh_name = name, mh_handler = handler\<rparr> (w_messages w)\<rparr>))"

definition add_event_handler2 :: "addr \<Rightarrow> byte list \<Rightarrow> byte list \<Rightarrow> 'h \<Rightarrow> ('o, 'h, 'x, unit) proto_op" where
  "add_event_handler2 c service name handler =
     (\<lambda>w. case protocol_get_service c service (w_services w) of
        Inl e \<Rightarrow> Inl e
      | Inr ss \<Rightarrow>
          Inr ((), w\<lparr>w_services := ss,
            w_events := chain_add (event_hash (c, service, name))
              \<lparr>eh_c = c, eh_service = service, eh_name = name, eh_handler = handler\<rparr> (w_events w)\<rparr>))"

definition set_default_message_handler2 :: "addr \<Rightarrow> 'h \<Rightarrow> ('o, 'h, 'x) world \<Rightarrow> ('o, 'h, 'x) world" where
  "set_default_message_handler2 p handler = mod_protocol p (\<lambda>pr. pr\<lparr>p_default_handler := Some handler\<rparr>)"

definition protocol_alloc :: "byte list \<Rightarrow> addr \<Rightarrow> ('o, 'h, 'x, unit) proto_op" where
  "protocol_alloc uuid p =
     (\<lambda>w. seqR (if w_ini_done w then retR () else ini_protocol uuid)
       (modW (\<lambda>w. mod_protocol p (\<lambda>_. \<lparr>p_id = w_proto_cnt w, p_lock_cnt = 1, p_tokenid = 1, p_default_handler = None\<rparr>)
         (w\<lparr>w_proto_cnt := w_proto_cnt w + 1\<rparr>))) w)"

definition protocol_reference :: "addr \<Rightarrow> ('o, 'h, 'x, unit) proto_op" where
  "protocol_reference p =
     (\<lambda>w. if p_lock_cnt (w_protocols w p) = 0 then Inl Assertion
       else Inr ((), mod_protocol p (\<lambda>pr. pr\<lparr>p_lock_cnt := Suc (p_lock_cnt pr)\<rparr>) w))"

definition protocol_release :: "addr \<Rightarrow> ('o, 'h, 'x, unit) proto_op" where
  "protocol_release p =
     (\<lambda>w. if p_lock_cnt (w_protocols w p) = 0 then Inl Assertion
       else
         let w1 = mod_protocol p (\<lambda>pr. pr\<lparr>p_lock_cnt := p_lock_cnt pr - 1\<rparr>) w
         in Inr ((), if p_lock_cnt (w_protocols w1 p) \<noteq> 0 then w1
                     else w1\<lparr>w_messages := chain_purge (\<lambda>mh. mh_p mh = p) (w_messages w1),
                             w_services := free_services p (w_services w1)\<rparr>))"

section \<open>Reading a message\<close>

fun read_stringz_loop :: "nat \<Rightarrow> byte list \<Rightarrow> byte list reader" where
  "read_stringz_loop sz acc [] = Inl (Exception ERR_PROTOCOL)"
| "read_stringz_loop sz acc (ch # s) =
     (if ch \<le> 0 then (if ch = 0 then Inr (acc, s) else Inl (Exception ERR_PROTOCOL))
      else read_stringz_loop sz (if length acc < sz - 1 then acc @ [word_of_int ch] else acc) s)"

definition read_stringz :: "nat \<Rightarrow> byte list reader" where
  "read_stringz sz = read_stringz_loop sz []"

fun skip_until_EOM :: "unit reader" where
  "skip_until_EOM [] = Inr ((), [])"
| "skip_until_EOM (ch # s) = (if ch = MARKER_EOM \<or> ch = MARKER_EOS then Inr ((), s) else skip_until_EOM s)"

text \<open>\<open>strtoul\<close> of the C library, base 10: the value, whether it is in range, and what is left of the string.\<close>

definition dec_byte :: "byte \<Rightarrow> bool" where
  "dec_byte b \<longleftrightarrow> 48 \<le> uint b \<and> uint b \<le> 57"

definition dec_value :: "byte list \<Rightarrow> nat" where
  "dec_value ds = foldl (\<lambda>n b. n * 10 + nat (uint b - 48)) 0 ds"

definition strtoul :: "byte list \<Rightarrow> u64 \<times> bool \<times> byte list" where
  "strtoul s =
     (let s1 = dropWhile (\<lambda>b. isspace (uint b)) s;
          neg = (s1 \<noteq> [] \<and> hd s1 = 45);
          s2 = (if s1 \<noteq> [] \<and> (hd s1 = 45 \<or> hd s1 = 43) then tl s1 else s1);
          ds = takeWhile dec_byte s2
      in if ds = [] then (0, True, s)
         else if dec_value ds \<ge> 2 ^ 64 then (- 1, False, dropWhile dec_byte s2)
         else (if neg then - word_of_nat (dec_value ds) else word_of_nat (dec_value ds), True, dropWhile dec_byte s2))"

text \<open>The number of a message \<open>F\<close>: an \<open>int\<close> that must not overflow; the character behind it.\<close>

fun read_level :: "int \<Rightarrow> (int \<times> int) reader" where
  "read_level n [] = Inr ((n, MARKER_EOS), [])"
| "read_level n (ch # s) =
     (if 48 \<le> ch \<and> ch \<le> 57 then
        (if n * 10 + (ch - 48) \<ge> 2 ^ 31 then Inl Undefined else read_level (n * 10 + (ch - 48)) s)
      else Inr ((n, ch), s))"

section \<open>The handshake\<close>

definition connect_done :: "('o, 'h, 'x) proto_env \<Rightarrow> addr \<Rightarrow> ('o, 'h, 'x, unit) proto_op" where
  "connect_done env c =
     (\<lambda>w. if ch_state (w_channels w c) \<noteq> ChannelStateConnected then Inl Assertion else call_opened env c w)"

fun write_service_names :: "'o out_class \<Rightarrow> nat \<Rightarrow> byte list list \<Rightarrow> 'o \<Rightarrow> 'o" where
  "write_service_names cl cnt [] out = out"
| "write_service_names cl cnt (s # ss) out =
     write_service_names cl (Suc cnt) ss
       (json_write_string cl (Some s) (if cnt \<noteq> 0 then write_stream cl 44 out else out))"

definition own_services :: "addr \<Rightarrow> ServiceInfo list \<Rightarrow> byte list list" where
  "own_services p services = map si_name (filter (\<lambda>s. si_owner s = p) services)"

definition write_hello :: "'o out_class \<Rightarrow> bool \<Rightarrow> byte list list \<Rightarrow> 'o \<Rightarrow> 'o" where
  "write_hello cl zero_copy names =
     seqW [write_stringz cl (bytes_of ''E''), write_stringz cl LOCATOR, write_stringz cl (bytes_of ''Hello''),
       write_stream cl 91,
       (\<lambda>out. if zero_copy then json_write_string cl (Some (bytes_of ''ZeroCopy'')) out else out),
       write_service_names cl (if zero_copy then 1 else 0) names,
       write_stream cl 93, write_stream cl 0, write_stream cl MARKER_EOM]"

definition send_hello_message :: "'o out_class \<Rightarrow> ('o, 'h, 'x) proto_env \<Rightarrow> addr \<Rightarrow> ('o, 'h, 'x, unit) proto_op" where
  "send_hello_message cl env c =
     (\<lambda>w. let ch = w_channels w c;
            names = own_services (ch_protocol ch) (w_services w)
       in if ch_state ch \<noteq> ChannelStateStarted \<and> ch_state ch \<noteq> ChannelStateHelloReceived then Inl Assertion
          else
            seqR (outW c (write_hello cl (\<not> ch_disable_zero_copy ch) names))
            (if ch_state ch = ChannelStateStarted
             then modW (mod_channel c (\<lambda>ch. ch\<lparr>ch_state := ChannelStateHelloSent\<rparr>))
             else seqR (modW (mod_channel c (\<lambda>ch. ch\<lparr>ch_state := ChannelStateConnected\<rparr>))) (connect_done env c)) w)"

text \<open>The list of services of a peer. A \<open>null\<close> in the list is a null pointer, which \<open>strcmp\<close> follows.\<close>

fun hello_loop :: "nat \<Rightarrow> byte list list \<Rightarrow> byte list list reader" where
  "hello_loop 0 ss = raiseR Out_of_fuel"
| "hello_loop (Suc n) ss =
     bindR json_read_alloc_string (\<lambda>v.
       case v of
         None \<Rightarrow> raiseR Undefined
       | Some service \<Rightarrow>
           bindR read_token (\<lambda>ch.
             if ch = 44 then hello_loop n (ss @ [service])
             else if ch = 93 then retR (ss @ [service])
             else raiseR (Exception ERR_JSON_SYNTAX)))"

definition read_hello :: "byte list list reader" where
  "read_hello =
     bindR read_token (\<lambda>ch.
     if ch \<noteq> 91 then raiseR (Exception ERR_PROTOCOL)
     else
       bindR peek_stream (\<lambda>ch.
       bindR (if ch = 93 then seqR read_stream (retR []) else (\<lambda>s. hello_loop (Suc (length s)) [] s)) (\<lambda>ss.
       bindR read_stream (\<lambda>ch.
       if ch \<noteq> 0 then raiseR (Exception ERR_JSON_SYNTAX)
       else bindR read_stream (\<lambda>ch. if ch \<noteq> MARKER_EOM then raiseR (Exception ERR_JSON_SYNTAX) else retR ss)))))"

text \<open>The strings of the list end at their first zero; an empty list is the null pointer.\<close>

definition event_locator_hello :: "('o, 'h, 'x) proto_env \<Rightarrow> addr \<Rightarrow> ('o, 'h, 'x, unit) proto_op" where
  "event_locator_hello env c =
     bindR (inpW c read_hello) (\<lambda>list.
       (\<lambda>w. let ch = w_channels w c;
              names = map cstr list;
              w1 = mod_channel c (\<lambda>ch. ch\<lparr>ch_zero_copy := bytes_of ''ZeroCopy'' \<in> set names\<rparr>) w
         in if ch_state ch \<noteq> ChannelStateStarted \<and> ch_state ch \<noteq> ChannelStateHelloSent then Inr ((), w1)
            else
              let w2 = mod_channel c (\<lambda>ch. ch\<lparr>ch_peer_services := (if list = [] then None else Some names)\<rparr>) w1
              in if ch_state ch = ChannelStateStarted
                 then Inr ((), mod_channel c (\<lambda>ch. ch\<lparr>ch_state := ChannelStateHelloReceived\<rparr>) w2)
                 else connect_done env c (mod_channel c (\<lambda>ch. ch\<lparr>ch_state := ChannelStateConnected\<rparr>) w2)))"

section \<open>Commands\<close>

text \<open>The first token from \<open>tok\<close> on that no reply handler of the channel waits for; at most \<open>n\<close> are tried.\<close>

fun free_token :: "nat \<Rightarrow> addr \<Rightarrow> u64 \<Rightarrow> ('o, 'h, 'x) world \<Rightarrow> u64 option" where
  "free_token 0 c tok w = None"
| "free_token (Suc n) c tok w =
     (if fst (find_reply_handler c tok False w) \<noteq> None then free_token n c (tok + 1) w else Some tok)"

definition is_channel_closed :: "addr \<Rightarrow> ('o, 'h, 'x) world \<Rightarrow> bool" where
  "is_channel_closed c w \<longleftrightarrow> ch_state (w_channels w c) = ChannelStateDisconnected"

definition write_command :: "'o out_class \<Rightarrow> u64 \<Rightarrow> byte list \<Rightarrow> byte list \<Rightarrow> 'o \<Rightarrow> 'o" where
  "write_command cl tokenid service name =
     seqW [write_stringz cl (bytes_of ''C''), json_write_ulong cl tokenid, write_stream cl 0,
       write_stringz cl service, write_stringz cl name]"

text \<open>There are fewer reply handlers than tokens to try.\<close>

definition protocol_send_command_with_progress ::
    "'o out_class \<Rightarrow> addr \<Rightarrow> byte list \<Rightarrow> byte list \<Rightarrow> 'h option \<Rightarrow> 'h option \<Rightarrow> ('o, 'h, 'x, unit) proto_op" where
  "protocol_send_command_with_progress cl c service name handler progress =
     (\<lambda>w. let p = ch_protocol (w_channels w c) in
       if is_channel_closed c w \<or> ch_peer_services (w_channels w c) = None then
         Inr ((), w\<lparr>w_failed := w_failed w @ [\<lparr>rh_tokenid = 0, rh_c = c, rh_handler = handler, rh_progress = progress\<rparr>]\<rparr>)
       else
         (case free_token (Suc (length (concat (w_replies w)))) c (p_tokenid (w_protocols w p)) w of
            None \<Rightarrow> Inl Out_of_fuel
          | Some tokenid \<Rightarrow>
              seqR (modW (mod_protocol p (\<lambda>pr. pr\<lparr>p_tokenid := tokenid + 1\<rparr>)))
              (seqR (outW c (write_command cl tokenid service name))
              (modW (\<lambda>w. w\<lparr>w_replies := chain_add (reply_hash (c, tokenid))
                 \<lparr>rh_tokenid = tokenid, rh_c = c, rh_handler = handler, rh_progress = progress\<rparr> (w_replies w)\<rparr>))) w))"

definition protocol_send_command ::
    "'o out_class \<Rightarrow> addr \<Rightarrow> byte list \<Rightarrow> byte list \<Rightarrow> 'h option \<Rightarrow> ('o, 'h, 'x, unit) proto_op" where
  "protocol_send_command cl c service name handler =
     protocol_send_command_with_progress cl c service name handler None"

text \<open>The event of a command that could not be sent.\<close>

definition send_command_failed :: "('o, 'h, 'x) proto_env \<Rightarrow> ('o, 'h, 'x, unit) proto_op" where
  "send_command_failed env =
     (\<lambda>w. case w_failed w of
        [] \<Rightarrow> Inr ((), w)
      | rh # rhs \<Rightarrow>
          (case rh_handler rh of
             None \<Rightarrow> Inr ((), w\<lparr>w_failed := rhs\<rparr>)
           | Some h \<Rightarrow> call_reply env h (rh_c rh) (Some ERR_CHANNEL_CLOSED) (w\<lparr>w_failed := rhs\<rparr>)))"

section \<open>Redirection\<close>

text \<open>\<open>redirect\<close> is the reply handler \<open>redirect_done\<close> with the client's handler in its data.\<close>

definition send_redirect :: "'o out_class \<Rightarrow> addr \<Rightarrow> ('o \<Rightarrow> 'o) \<Rightarrow> 'h \<Rightarrow> ('o, 'h, 'x, unit) proto_op" where
  "send_redirect cl c args redirect =
     (\<lambda>w. if ch_state (w_channels w c) \<noteq> ChannelStateConnected then Inl Assertion
       else
         seqR (modW (mod_channel c (\<lambda>ch. ch\<lparr>ch_state := ChannelStateRedirectSent\<rparr>)))
         (seqR (protocol_send_command cl c LOCATOR (bytes_of ''redirect'') (Some redirect))
         (outW c (seqW [args, write_stream cl 0, write_stream cl MARKER_EOM]))) w)"

definition send_redirect_command_by_id :: "'o out_class \<Rightarrow> addr \<Rightarrow> byte list \<Rightarrow> 'h \<Rightarrow> ('o, 'h, 'x, unit) proto_op" where
  "send_redirect_command_by_id cl c peer_id redirect = send_redirect cl c (json_write_string cl (Some peer_id)) redirect"

fun write_peer_props :: "'o out_class \<Rightarrow> nat \<Rightarrow> (byte list \<times> byte list) list \<Rightarrow> 'o \<Rightarrow> 'o" where
  "write_peer_props cl i [] out = out"
| "write_peer_props cl i ((name, v) # ps) out =
     write_peer_props cl (Suc i) ps
       (seqW [(\<lambda>out. if i > 0 then write_stream cl 44 out else out), json_write_string cl (Some name),
          write_stream cl 58, json_write_string cl (Some v)] out)"

definition send_redirect_command_by_props ::
    "'o out_class \<Rightarrow> addr \<Rightarrow> (byte list \<times> byte list) list \<Rightarrow> 'h \<Rightarrow> ('o, 'h, 'x, unit) proto_op" where
  "send_redirect_command_by_props cl c props redirect =
     send_redirect cl c (seqW [write_stream cl 123, write_peer_props cl 0 props, write_stream cl 125]) redirect"

definition redirect_done ::
    "('o, 'h, 'x) proto_env \<Rightarrow> (ErrorReport \<Rightarrow> int) \<Rightarrow> 'h \<Rightarrow> addr \<Rightarrow> error option \<Rightarrow> ('o, 'h, 'x, unit) proto_op" where
  "redirect_done env set_error_report_errno handler c error =
     (\<lambda>w. let st = ch_state (w_channels w c); set_state = (\<lambda>st. modW (mod_channel c (\<lambda>ch. ch\<lparr>ch_state := st\<rparr>))) in
       (case error of
          None \<Rightarrow>
            if st \<noteq> ChannelStateRedirectSent then Inl Assertion
            else
              bindR (inpW c (read_errno set_error_report_errno)) (\<lambda>no.
              seqR (inpW c (json_test_char MARKER_EOM))
              (if no = 0 then seqR (set_state ChannelStateHelloSent)
                 (seqR (call_notify_closed env c) (call_reply env handler c None))
               else seqR (set_state ChannelStateConnected) (call_reply env handler c (Some (ERRNO no))))) w
        | Some e \<Rightarrow>
            if st = ChannelStateRedirectSent
            then seqR (set_state ChannelStateConnected) (call_reply env handler c (Some e)) w
            else if st \<noteq> ChannelStateDisconnected then Inl Assertion
            else call_reply env handler c (Some e) w))"

section \<open>Dispatch\<close>

definition write_rejection :: "'o out_class \<Rightarrow> byte list \<Rightarrow> 'o \<Rightarrow> 'o" where
  "write_rejection cl token =
     seqW [write_stringz cl (bytes_of ''N''), write_stringz cl token, write_stream cl MARKER_EOM]"

definition reject_command :: "'o out_class \<Rightarrow> addr \<Rightarrow> byte list \<Rightarrow> ('o, 'h, 'x, unit) proto_op" where
  "reject_command cl c token =
     seqR (inpW c skip_until_EOM) (outW c (write_rejection cl token))"

definition default_handler :: "('o, 'h, 'x) world \<Rightarrow> addr \<Rightarrow> 'h option" where
  "default_handler w c = p_default_handler (w_protocols w (ch_protocol (w_channels w c)))"

definition handle_command :: "'o out_class \<Rightarrow> ('o, 'h, 'x) proto_env \<Rightarrow> addr \<Rightarrow> byte list \<Rightarrow> ('o, 'h, 'x, unit) proto_op" where
  "handle_command cl env c typ =
     bindR (inpW c (read_stringz 256)) (\<lambda>token.
     bindR (inpW c (read_stringz 256)) (\<lambda>service.
     bindR (inpW c (read_stringz 256)) (\<lambda>name.
     (\<lambda>w. if ch_state (w_channels w c) \<noteq> ChannelStateConnected then reject_command cl c token w
       else
         (case find_message_handler (ch_protocol (w_channels w c)) service name w of
            Some mh \<Rightarrow> call_command env (mh_handler mh) token c w
          | None \<Rightarrow>
              (case default_handler w c of
                 Some h \<Rightarrow> call_default env h c [typ, token, service, name] w
               | None \<Rightarrow> reject_command cl c token w))))))"

definition dispatch_reply ::
    "('o, 'h, 'x) proto_env \<Rightarrow> addr \<Rightarrow> byte list \<Rightarrow> byte list \<Rightarrow> 'h ReplyHandlerInfo option \<Rightarrow> ('o, 'h, 'x, unit) proto_op" where
  "dispatch_reply env c typ token rh =
     (case rh of
        None \<Rightarrow>
          (\<lambda>w. case default_handler w c of
             Some h \<Rightarrow> call_default env h c [typ, token] w
           | None \<Rightarrow> Inl (Exception ERR_PROTOCOL))
      | Some rh \<Rightarrow>
          if typ = bytes_of ''P'' then
            (case rh_progress rh of
               Some h \<Rightarrow> call_progress env h c
             | None \<Rightarrow> inpW c skip_until_EOM)
          else
            seqR (if typ = bytes_of ''N'' then inpW c skip_until_EOM else retR ())
              (case rh_handler rh of
                 Some h \<Rightarrow> call_reply env h c (if typ = bytes_of ''N'' then Some ERR_INV_COMMAND else None)
               | None \<Rightarrow> inpW c skip_until_EOM))"

definition handle_reply :: "('o, 'h, 'x) proto_env \<Rightarrow> addr \<Rightarrow> byte list \<Rightarrow> ('o, 'h, 'x, unit) proto_op" where
  "handle_reply env c typ =
     bindR (inpW c (read_stringz 256)) (\<lambda>token.
     (\<lambda>w. let (tokenid, in_range, rest) = strtoul token;
            (rh, w1) = (if \<not> in_range \<or> rest \<noteq> [] then (None, w)
                        else find_reply_handler c tokenid (typ \<noteq> bytes_of ''P'') w)
       in dispatch_reply env c typ token rh w1))"

definition handle_event :: "('o, 'h, 'x) proto_env \<Rightarrow> addr \<Rightarrow> byte list \<Rightarrow> ('o, 'h, 'x, unit) proto_op" where
  "handle_event env c typ =
     bindR (inpW c (read_stringz 256)) (\<lambda>service.
     bindR (inpW c (read_stringz 256)) (\<lambda>name.
     (\<lambda>w. let st = ch_state (w_channels w c) in
       if (st = ChannelStateStarted \<or> st = ChannelStateHelloSent) \<and> service = LOCATOR \<and> name = bytes_of ''Hello''
       then event_locator_hello env c w
       else
         (case find_event_handler c service name w of
            Some eh \<Rightarrow> call_event env (eh_handler eh) c w
          | None \<Rightarrow>
              (case default_handler w c of
                 Some h \<Rightarrow> call_default env h c [typ, service, name] w
               | None \<Rightarrow> inpW c skip_until_EOM w)))))"

definition handle_congestion :: "addr \<Rightarrow> ('o, 'h, 'x, unit) proto_op" where
  "handle_congestion c =
     bindR (inpW c peek_stream) (\<lambda>ch.
     bindR (inpW c (if ch = 45 then seqR read_stream (read_level 0) else read_level 0)) (\<lambda>(n, ch1).
     bindR (if ch1 = 0 then inpW c read_stream else retR ch1) (\<lambda>ch2.
     if ch2 \<noteq> MARKER_EOM then raiseR (Exception ERR_PROTOCOL)
     else modW (mod_channel c (\<lambda>chn. chn\<lparr>ch_congestion_level := (if ch = 45 then - n else n)\<rparr>)))))"

definition handle_protocol_message :: "'o out_class \<Rightarrow> ('o, 'h, 'x) proto_env \<Rightarrow> addr \<Rightarrow> ('o, 'h, 'x, unit) proto_op" where
  "handle_protocol_message cl env c =
     bindR (inpW c (read_stringz 8)) (\<lambda>typ.
       if length typ \<noteq> 1 then raiseR (Exception ERR_PROTOCOL)
       else if typ = bytes_of ''C'' then handle_command cl env c typ
       else if typ = bytes_of ''R'' \<or> typ = bytes_of ''P'' \<or> typ = bytes_of ''N'' then handle_reply env c typ
       else if typ = bytes_of ''E'' then handle_event env c typ
       else if typ = bytes_of ''F'' then handle_congestion c
       else (\<lambda>w. case default_handler w c of
               Some h \<Rightarrow> call_default env h c [typ] w
             | None \<Rightarrow> Inl (Exception ERR_PROTOCOL)))"

section \<open>Closing a channel\<close>

text \<open>The chain of reply handlers of a bucket: those of the channel are told, and dropped or made blank.\<close>

definition blank_reply :: "'h ReplyHandlerInfo \<Rightarrow> 'h ReplyHandlerInfo" where
  "blank_reply rh = rh\<lparr>rh_handler := None, rh_progress := None\<rparr>"

fun close_chain ::
    "('o, 'h, 'x) proto_env \<Rightarrow> addr \<Rightarrow> bool \<Rightarrow> 'h ReplyHandlerInfo list \<Rightarrow> 'x \<Rightarrow> 'h ReplyHandlerInfo list \<times> 'x" where
  "close_chain env c disconnected [] x = ([], x)"
| "close_chain env c disconnected (rh # rhs) x =
     (if rh_c rh = c then
        (let x1 = (case rh_handler rh of None \<Rightarrow> x | Some h \<Rightarrow> call_closed env h c x);
             (rhs1, x2) = close_chain env c disconnected rhs x1
         in (if disconnected then rhs1 else blank_reply rh # rhs1, x2))
      else
        (let (rhs1, x2) = close_chain env c disconnected rhs x in (rh # rhs1, x2)))"

fun close_chains ::
    "('o, 'h, 'x) proto_env \<Rightarrow> addr \<Rightarrow> bool \<Rightarrow> 'h ReplyHandlerInfo list list \<Rightarrow> 'x \<Rightarrow> 'h ReplyHandlerInfo list list \<times> 'x" where
  "close_chains env c disconnected [] x = ([], x)"
| "close_chains env c disconnected (rhs # t) x =
     (let (rhs1, x1) = close_chain env c disconnected rhs x;
          (t1, x2) = close_chains env c disconnected t x1
      in (rhs1 # t1, x2))"

definition channel_closed :: "('o, 'h, 'x) proto_env \<Rightarrow> addr \<Rightarrow> ('o, 'h, 'x) world \<Rightarrow> ('o, 'h, 'x) world" where
  "channel_closed env c w =
     (let w1 = w\<lparr>w_events := chain_purge (\<lambda>eh. eh_c eh = c) (w_events w), w_services := free_services c (w_services w)\<rparr>;
          (t, x) = close_chains env c (ch_state (w_channels w c) = ChannelStateDisconnected) (w_replies w) (w_client w)
      in mod_channel c (\<lambda>ch. ch\<lparr>ch_peer_services := None\<rparr>) (w1\<lparr>w_replies := t, w_client := x\<rparr>))"

end
