(* ===== verification/Protocol_Proofs.thy ===== *)
theory Protocol_Proofs
  imports Protocol Contextquery_Proofs
begin

text \<open>
  The tables of handlers are finite maps, messages reach the handlers they are meant for, tokens of outstanding commands are
  unique, the handshake connects two agents, and closing a channel answers every command that is still waiting.
\<close>

section \<open>The tables\<close>

lemma hash_bound:
  fixes h :: u32
  assumes "0 < n" "n < 2 ^ 32"
  shows "unat (h mod word_of_nat n) < n"
proof -
  have "unat (word_of_nat n :: u32) = n" using assms(2) by (simp add: unat_of_nat take_bit_nat_eq_self)
  then show ?thesis using assms(1) by (simp add: unat_mod_distrib)
qed

lemma name_hash_bound: "0 < n \<Longrightarrow> n < 2 ^ 32 \<Longrightarrow> name_hash n k < n"
  unfolding name_hash_def Let_def split_def by (rule hash_bound)

interpretation msg: hash_table mh_key message_hash MESSAGE_HASH_SIZE
  by unfold_locales (unfold message_hash_def, rule name_hash_bound, simp_all add: MESSAGE_HASH_SIZE_def)

interpretation evt: hash_table eh_key event_hash EVENT_HASH_SIZE
  by unfold_locales (unfold event_hash_def, rule name_hash_bound, simp_all add: EVENT_HASH_SIZE_def)

interpretation rep: hash_table rh_key reply_hash REPLY_HASH_SIZE
  by unfold_locales (unfold reply_hash_def split_def, rule hash_bound, simp_all add: REPLY_HASH_SIZE_def)

definition tables_ok :: "('o, 'h, 'x) world \<Rightarrow> bool" where
  "tables_ok w \<longleftrightarrow> msg.table_ok (w_messages w) \<and> evt.table_ok (w_events w) \<and> rep.table_ok (w_replies w)"

text \<open>No two commands that wait for a reply on a channel have the same token.\<close>

definition tokens_unique :: "('o, 'h, 'x) world \<Rightarrow> bool" where
  "tokens_unique w \<longleftrightarrow> (\<forall>k. length (rep.entries k (w_replies w)) \<le> 1)"

section \<open>Worlds\<close>

lemma getW_apply [reader_simps]: "getW f w = Inr (f w, w)"
  by (simp add: getW_def)

lemma modW_apply [reader_simps]: "modW f w = Inr ((), f w)"
  by (simp add: modW_def)

lemma outW_apply [reader_simps]: "outW c f w = Inr ((), mod_channel c (\<lambda>ch. ch\<lparr>ch_out := f (ch_out ch)\<rparr>) w)"
  by (simp add: outW_def modW_def)

lemma mod_channel_sel [simp]:
  "w_messages (mod_channel c f w) = w_messages w" "w_events (mod_channel c f w) = w_events w"
  "w_replies (mod_channel c f w) = w_replies w" "w_services (mod_channel c f w) = w_services w"
  "w_protocols (mod_channel c f w) = w_protocols w" "w_failed (mod_channel c f w) = w_failed w"
  "w_client (mod_channel c f w) = w_client w"
  "w_channels (mod_channel c f w) = (w_channels w)(c := f (w_channels w c))"
  by (simp_all add: mod_channel_def)

lemma mod_protocol_sel [simp]:
  "w_messages (mod_protocol p g w) = w_messages w" "w_events (mod_protocol p g w) = w_events w"
  "w_replies (mod_protocol p g w) = w_replies w" "w_services (mod_protocol p g w) = w_services w"
  "w_channels (mod_protocol p g w) = w_channels w" "w_failed (mod_protocol p g w) = w_failed w"
  "w_client (mod_protocol p g w) = w_client w"
  "w_protocols (mod_protocol p g w) = (w_protocols w)(p := g (w_protocols w p))"
  by (simp_all add: mod_protocol_def)

lemma mod_channel_twice [simp]: "mod_channel c f (mod_channel c g w) = mod_channel c (\<lambda>ch. f (g ch)) w"
  by (simp add: mod_channel_def)

text \<open>The world when a channel has the input \<open>s\<close> left.\<close>

definition with_input :: "addr \<Rightarrow> istream \<Rightarrow> ('o, 'h, 'x) world \<Rightarrow> ('o, 'h, 'x) world" where
  "with_input c s = mod_channel c (\<lambda>ch. ch\<lparr>ch_inp := s\<rparr>)"

lemma with_input_sel [simp]:
  "w_messages (with_input c s w) = w_messages w" "w_events (with_input c s w) = w_events w"
  "w_replies (with_input c s w) = w_replies w" "w_services (with_input c s w) = w_services w"
  "w_protocols (with_input c s w) = w_protocols w" "w_failed (with_input c s w) = w_failed w"
  "w_client (with_input c s w) = w_client w"
  "ch_inp (w_channels (with_input c s w) c) = s"
  "ch_out (w_channels (with_input c s w) d) = ch_out (w_channels w d)"
  "ch_state (w_channels (with_input c s w) d) = ch_state (w_channels w d)"
  "ch_protocol (w_channels (with_input c s w) d) = ch_protocol (w_channels w d)"
  "ch_peer_services (w_channels (with_input c s w) d) = ch_peer_services (w_channels w d)"
  "ch_zero_copy (w_channels (with_input c s w) d) = ch_zero_copy (w_channels w d)"
  "ch_disable_zero_copy (w_channels (with_input c s w) d) = ch_disable_zero_copy (w_channels w d)"
  by (simp_all add: with_input_def)

lemma with_input_twice [simp]: "with_input c s (with_input c t w) = with_input c s w"
  by (simp add: with_input_def)

lemma inpW_apply [reader_simps]:
  "inpW c m w = (case m (ch_inp (w_channels w c)) of Inl e \<Rightarrow> Inl e | Inr (x, s) \<Rightarrow> Inr (x, with_input c s w))"
  by (auto simp: inpW_def with_input_def split: sum.splits)

section \<open>Reading the parts of a message\<close>

definition stringz :: "byte list \<Rightarrow> int list" where
  "stringz bs = items_of bs @ [0]"

text \<open>A string without a zero that fits the buffers of the dispatcher.\<close>

definition short_string :: "byte list \<Rightarrow> bool" where
  "short_string bs \<longleftrightarrow> 0 \<notin> set bs \<and> length bs < 256"

lemma read_stringz_loop_text:
  "0 \<notin> set bs \<Longrightarrow> length acc + length bs < sz \<Longrightarrow> read_stringz_loop sz acc (items_of bs @ 0 # rest) = Inr (acc @ bs, rest)"
proof (induction bs arbitrary: acc)
  case (Cons b bs)
  have "0 < uint b" using Cons.prems(1) by (simp add: word_neq_0_conv [symmetric] order_less_le uint_0_iff [symmetric])
  then show ?case using Cons.IH [of "acc @ [b]"] Cons.prems by auto
qed simp

lemma read_stringz_text: "0 \<notin> set bs \<Longrightarrow> length bs < sz \<Longrightarrow> read_stringz sz (stringz bs @ rest) = Inr (bs, rest)"
  by (simp add: read_stringz_def read_stringz_loop_text stringz_def)

lemma read_stringz_short: "short_string bs \<Longrightarrow> read_stringz 256 (stringz bs @ rest) = Inr (bs, rest)"
  by (simp add: short_string_def read_stringz_text)

lemma skip_until_EOM_text:
  "MARKER_EOM \<notin> set xs \<Longrightarrow> MARKER_EOS \<notin> set xs \<Longrightarrow> skip_until_EOM (xs @ MARKER_EOM # rest) = Inr ((), rest)"
  by (induction xs) auto

lemma skip_until_EOM_ok: "\<exists>s'. skip_until_EOM s = Inr ((), s')"
  by (induction s rule: skip_until_EOM.induct) auto

text \<open>The types of messages.\<close>

lemma message_types [simp]:
  "bytes_of ''C'' = [67]" "bytes_of ''R'' = [82]" "bytes_of ''P'' = [80]" "bytes_of ''N'' = [78]"
  "bytes_of ''E'' = [69]" "bytes_of ''F'' = [70]"
  by (simp_all add: bytes_of_def)

lemma read_type: "b \<noteq> 0 \<Longrightarrow> read_stringz 8 (stringz [b] @ rest) = Inr ([b], rest)"
  by (simp add: read_stringz_text)

section \<open>Dispatch of commands\<close>

definition command_text :: "byte list \<Rightarrow> byte list \<Rightarrow> byte list \<Rightarrow> int list" where
  "command_text token service name = stringz (bytes_of ''C'') @ stringz token @ stringz service @ stringz name"

definition rejection :: "byte list \<Rightarrow> int list" where
  "rejection token = stringz (bytes_of ''N'') @ stringz token @ [MARKER_EOM]"

text \<open>The newest handler of a command is the one in use.\<close>

definition command_map :: "('o, 'h, 'x) world \<Rightarrow> addr \<times> byte list \<times> byte list \<rightharpoonup> 'h" where
  "command_map w k = (case msg.entries k (w_messages w) of [] \<Rightarrow> None | mh # _ \<Rightarrow> Some (mh_handler mh))"

definition event_map :: "('o, 'h, 'x) world \<Rightarrow> addr \<times> byte list \<times> byte list \<rightharpoonup> 'h" where
  "event_map w k = (case evt.entries k (w_events w) of [] \<Rightarrow> None | eh # _ \<Rightarrow> Some (eh_handler eh))"

lemma find_message_map: "map_option mh_handler (find_message_handler p service name w) = command_map w (p, service, name)"
  by (simp add: find_message_handler_def msg.find_entries command_map_def split: list.splits)

lemma find_event_map: "map_option eh_handler (find_event_handler c service name w) = event_map w (c, service, name)"
  by (simp add: find_event_handler_def evt.find_entries event_map_def split: list.splits)

lemma command_map_with_input [simp]: "command_map (with_input c s w) = command_map w"
  by (simp add: command_map_def fun_eq_iff)

lemma event_map_with_input [simp]: "event_map (with_input c s w) = event_map w"
  by (simp add: event_map_def fun_eq_iff)

lemma default_handler_with_input [simp]: "default_handler (with_input c s w) d = default_handler w d"
  by (simp add: default_handler_def)

lemma handle_command_text:
  assumes "short_string token" "short_string service" "short_string name"
    and "ch_inp (w_channels w c) = command_text token service name @ rest"
  defines "w1 \<equiv> with_input c rest w"
  shows "handle_protocol_message cl env c w =
    (if ch_state (w_channels w c) \<noteq> ChannelStateConnected then reject_command cl c token w1
     else case command_map w (ch_protocol (w_channels w c), service, name) of
            Some h \<Rightarrow> call_command env h token c w1
          | None \<Rightarrow>
              (case default_handler w c of
                 Some h \<Rightarrow> call_default env h c [bytes_of ''C'', token, service, name] w1
               | None \<Rightarrow> reject_command cl c token w1))"
  using assms(1-4) unfolding w1_def
  by (simp add: handle_protocol_message_def handle_command_def reader_simps command_text_def read_type read_stringz_short
      find_message_map [symmetric] find_message_handler_def split: option.split)

text \<open>What the operations on the tables do to the maps.\<close>

lemma mh_key_simps [simp]: "mh_key \<lparr>mh_p = p, mh_service = s, mh_name = n, mh_handler = h\<rparr> = (p, s, n)"
  by (simp add: mh_key_def)

lemma eh_key_simps [simp]: "eh_key \<lparr>eh_c = c, eh_service = s, eh_name = n, eh_handler = h\<rparr> = (c, s, n)"
  by (simp add: eh_key_def)

lemma rh_key_simps [simp]: "rh_key \<lparr>rh_tokenid = t, rh_c = c, rh_handler = h, rh_progress = g\<rparr> = (c, t)"
  by (simp add: rh_key_def)

lemma add_command_handler2_ok:
  assumes "tables_ok w" "add_command_handler2 p service name h w = Inr ((), w')"
  shows "tables_ok w'" "command_map w' = (command_map w)((p, service, name) \<mapsto> h)" "event_map w' = event_map w"
    "w_replies w' = w_replies w" "w_channels w' = w_channels w" "w_protocols w' = w_protocols w"
    "(p, service) \<in> set (map (\<lambda>s. (si_owner s, si_name s)) (w_services w'))"
proof -
  let ?mh = "\<lparr>mh_p = p, mh_service = service, mh_name = name, mh_handler = h\<rparr>"
  obtain ss where ss: "protocol_get_service p service (w_services w) = Inr ss"
    and w': "w' = w\<lparr>w_services := ss, w_messages := chain_add (message_hash (p, service, name)) ?mh (w_messages w)\<rparr>"
    using assms(2) by (auto simp: add_command_handler2_def split: sum.splits)
  have t: "msg.table_ok (w_messages w)" using assms(1) by (simp add: tables_ok_def)
  show "tables_ok w'" "command_map w' = (command_map w)((p, service, name) \<mapsto> h)"
    using assms(1) msg.table_ok_add [OF t, of ?mh] msg.entries_add [OF t, of _ ?mh]
    by (auto simp: w' tables_ok_def command_map_def)
  show "event_map w' = event_map w" "w_replies w' = w_replies w" "w_channels w' = w_channels w" "w_protocols w' = w_protocols w"
    by (simp_all add: w' event_map_def fun_eq_iff)
  show "(p, service) \<in> set (map (\<lambda>s. (si_owner s, si_name s)) (w_services w'))"
    using ss by (auto simp: w' protocol_get_service_def find_None_iff split: if_splits)
qed

lemma protocol_release_ok:
  assumes "tables_ok w" "protocol_release p w = Inr ((), w')"
  shows "tables_ok w'" "event_map w' = event_map w" "w_replies w' = w_replies w" "w_channels w' = w_channels w"
    "command_map w' = (if p_lock_cnt (w_protocols w p) = 1 then (\<lambda>(q, k). if q = p then None else command_map w (q, k))
       else command_map w)"
    "p_lock_cnt (w_protocols w p) = 1 \<Longrightarrow> own_services p (w_services w') = []"
proof -
  define pr where "pr = mod_protocol p (\<lambda>pr. pr\<lparr>p_lock_cnt := p_lock_cnt pr - 1\<rparr>) w"
  have w': "w' = (if p_lock_cnt (w_protocols w p) \<noteq> 1 then pr else
      pr\<lparr>w_messages := chain_purge (\<lambda>mh. mh_p mh = p) (w_messages w), w_services := free_services p (w_services w)\<rparr>)"
    using assms(2) by (auto simp: protocol_release_def pr_def Let_def split: if_splits)
  have t: "msg.table_ok (w_messages w)" using assms(1) by (simp add: tables_ok_def)
  show "tables_ok w'" using assms(1) msg.table_ok_purge [OF t] by (simp add: w' pr_def tables_ok_def)
  show "event_map w' = event_map w" "w_replies w' = w_replies w" "w_channels w' = w_channels w"
    by (simp_all add: w' pr_def event_map_def fun_eq_iff)
  have e: "filter (\<lambda>e. mh_p e \<noteq> p) (msg.entries (q, k) (w_messages w)) = (if q = p then [] else msg.entries (q, k) (w_messages w))" for q k
  proof -
    have "\<forall>e \<in> set (msg.entries (q, k) (w_messages w)). mh_p e = q" by (auto simp: msg.set_entries [OF t] mh_key_def)
    then show ?thesis by (auto simp: filter_empty_conv intro!: filter_True)
  qed
  show "command_map w' = (if p_lock_cnt (w_protocols w p) = 1 then (\<lambda>(q, k). if q = p then None else command_map w (q, k))
       else command_map w)"
    by (auto simp: w' pr_def command_map_def fun_eq_iff msg.entries_purge [OF t] e)
  show "p_lock_cnt (w_protocols w p) = 1 \<Longrightarrow> own_services p (w_services w') = []"
    by (simp add: w' own_services_def free_services_def filter_empty_conv)
qed

text \<open>What the messages of the dispatcher look like.\<close>

definition token_text :: "u64 \<Rightarrow> byte list" where
  "token_text tokenid = map word_of_int (dec_digits (unat tokenid))"

lemma items_of_digits: "items_of (map word_of_int (dec_digits n)) = dec_digits n"
  by (auto simp: items_of_def o_def intro!: map_idI dest!: dec_digits_range)

context output_stream begin

lemma writes_rejection: "ok MARKER_EOM \<Longrightarrow> writes (write_rejection cl token) (rejection token)"
  unfolding write_rejection_def rejection_def stringz_def
  by (rule writes_seqW1 [OF writes_stringz writes_seqW1 [OF writes_stringz writes_Cons_last [OF writes_write_stream]]])
    simp_all

lemma writes_command: "writes (write_command cl tokenid service name) (command_text (token_text tokenid) service name)"
  unfolding write_command_def command_text_def stringz_def token_text_def items_of_digits
  by (rule writes_seqW1 [OF writes_stringz writes_seqW1 [OF writes_ulong writes_seqW1 [OF writes_int
        writes_seqW1 [OF writes_stringz writes_Cons_last [OF writes_stringz]]]]]) simp_all

end

lemma reject_command_ok:
  assumes "ch_inp (w_channels w c) = args @ MARKER_EOM # rest" "MARKER_EOM \<notin> set args" "MARKER_EOS \<notin> set args"
  shows "reject_command cl c token w =
    Inr ((), mod_channel c (\<lambda>ch. ch\<lparr>ch_inp := rest, ch_out := write_rejection cl token (ch_out ch)\<rparr>) w)"
  using skip_until_EOM_text [OF assms(2,3)]
  by (simp add: reject_command_def reader_simps assms(1) with_input_def)

text \<open>Handlers registered one after the other.\<close>

fun add_command_handlers :: "(addr \<times> byte list \<times> byte list \<times> 'h) list \<Rightarrow> ('o, 'h, 'x, unit) proto_op" where
  "add_command_handlers [] = retR ()"
| "add_command_handlers ((p, service, name, h) # rs) = seqR (add_command_handler2 p service name h) (add_command_handlers rs)"

lemma add_command_handlers_ok:
  assumes "tables_ok w" "add_command_handlers rs w = Inr ((), w')"
  shows "tables_ok w' \<and> command_map w' = command_map w ++ map_of (rev (map (\<lambda>(p, s, n, h). ((p, s, n), h)) rs)) \<and>
    w_channels w' = w_channels w \<and> w_protocols w' = w_protocols w"
  using assms
proof (induction rs arbitrary: w rule: add_command_handlers.induct)
  case (2 p s n h rs)
  from 2(3) obtain v where v: "add_command_handler2 p s n h w = Inr ((), v)" "add_command_handlers rs v = Inr ((), w')"
    by (auto elim: seqR_InrE)
  note ok = add_command_handler2_ok [OF 2(2) v(1)]
  from 2(1) [OF ok(1) v(2)] ok show ?case by (simp add: map_add_upd_left map_add_def fun_eq_iff split: option.splits)
qed (simp add: reader_simps)

lemma tables_ok_statics: "tables_ok (protocol_statics w)"
  using msg.table_ok_empty evt.table_ok_empty rep.table_ok_empty by (simp add: tables_ok_def protocol_statics_def)

lemma command_map_statics: "command_map (protocol_statics w) = Map.empty"
  by (simp add: command_map_def protocol_statics_def fun_eq_iff msg.entries_empty)

text \<open>C7: a command of a peer goes to the handler that was registered last for the protocol of the channel, the service and the name,
  with the token of the command and with the input standing at its arguments. If there is none it goes to the default
  handler of the protocol; without one, or while the channel is not connected, the arguments are skipped and the peer gets the
  reply N with the token of the command.\<close>

theorem command_dispatch:
  fixes w :: "('o, 'h, 'x) world" and cl :: "'o out_class" and c :: addr and rest :: istream
  assumes "add_command_handlers rs (protocol_statics w) = Inr ((), w1)"
    and "short_string token" "short_string service" "short_string name" "MARKER_EOM \<notin> set args" "MARKER_EOS \<notin> set args"
  defines "chn \<equiv> w_channels w c"
    and "rejected \<equiv> mod_channel c (\<lambda>ch. ch\<lparr>ch_inp := rest, ch_out := write_rejection cl token (ch_out ch)\<rparr>) w1"
    and "w2 \<equiv> with_input c (args @ MARKER_EOM # rest) w1"
  shows "handle_protocol_message cl env c (with_input c (command_text token service name @ args @ MARKER_EOM # rest) w1) =
    (if ch_state chn \<noteq> ChannelStateConnected then Inr ((), rejected)
     else case map_of (rev (map (\<lambda>(p, s, n, h). ((p, s, n), h)) rs)) (ch_protocol chn, service, name) of
            Some h \<Rightarrow> call_command env h token c w2
          | None \<Rightarrow>
              (case p_default_handler (w_protocols w (ch_protocol chn)) of
                 Some h \<Rightarrow> call_default env h c [bytes_of ''C'', token, service, name] w2
               | None \<Rightarrow> Inr ((), rejected)))"
proof -
  note ok = add_command_handlers_ok [OF tables_ok_statics assms(1), unfolded command_map_statics]
  have "reject_command cl c token w2 = Inr ((), rejected)"
    using reject_command_ok [of w2 c args rest cl token] assms(5,6) by (simp add: w2_def rejected_def with_input_def)
  with ok handle_command_text [OF assms(2-4), of "with_input c (command_text token service name @ args @ MARKER_EOM # rest) w1" c _ cl env]
  show ?thesis
    by (simp add: chn_def w2_def default_handler_def protocol_statics_def split: option.split)
qed

section \<open>Tokens\<close>

lemma dec_digits_length: "n < 10 ^ Suc k \<Longrightarrow> length (dec_digits n) \<le> Suc k"
proof (induction k arbitrary: n)
  case 0
  then show ?case by (simp add: dec_digits.simps)
next
  case (Suc k)
  then have "n div 10 < 10 ^ Suc k" by (simp add: div_less_iff_less_mult mult.commute)
  from Suc.IH [OF this] show ?case by (subst dec_digits.simps) simp
qed

lemma token_digit: "b \<in> set (token_text tokenid) \<Longrightarrow> 48 \<le> uint b \<and> uint b \<le> 57"
  using dec_digits_range [of "uint b" "unat tokenid"] items_of_digits [of "unat tokenid"]
  by (auto simp: token_text_def items_of_def dest!: dec_digits_range)

lemma token_nonempty: "token_text tokenid \<noteq> []"
  by (simp add: token_text_def dec_digits_nonempty)

lemma short_token: "short_string (token_text tokenid)"
proof -
  have "unat tokenid < 10 ^ Suc 19" using unsigned_less [of tokenid, where ?'a = nat] by simp
  from dec_digits_length [OF this] have "length (token_text tokenid) < 256" by (simp add: token_text_def)
  moreover have "0 \<notin> set (token_text tokenid)" using token_digit [of 0 tokenid] by auto
  ultimately show ?thesis by (simp add: short_string_def)
qed

lemma dec_value_digits: "dec_value (token_text tokenid) = unat tokenid"
proof -
  have "foldl (\<lambda>n b. n * 10 + nat (uint (b :: byte) - 48)) r bs = nat (dec_val (int r) (items_of bs))"
    if "\<forall>b \<in> set bs. 48 \<le> uint b" for r bs
    using that
  proof (induction bs arbitrary: r)
    case (Cons b bs)
    then have "int (r * 10 + nat (uint b - 48)) = int r * 10 + (uint b - 48)" by simp
    with Cons.IH [of "r * 10 + nat (uint b - 48)"] Cons.prems show ?case by (simp add: dec_val_def)
  qed (simp add: dec_val_def)
  from this [of "token_text tokenid" 0] token_digit show ?thesis
    by (simp add: dec_value_def token_text_def items_of_digits dec_val_digits)
qed

lemma strtoul_token: "strtoul (token_text tokenid) = (tokenid, True, [])"
proof -
  obtain b bs where b: "token_text tokenid = b # bs" using token_nonempty by (cases "token_text tokenid") auto
  have d: "dec_byte x" if "x \<in> set (token_text tokenid)" for x using token_digit [OF that] by (simp add: dec_byte_def)
  have "48 \<le> uint b \<and> uint b \<le> 57" using token_digit [of b tokenid] b by simp
  then have h: "\<not> isspace (uint b)" "b \<noteq> 45" "b \<noteq> 43" by (auto simp: isspace_def)
  have u: "unat tokenid < 2 ^ 64" using unsigned_less [of tokenid, where ?'a = nat] by simp
  have "dropWhile (\<lambda>b. isspace (uint b)) (token_text tokenid) = token_text tokenid" using h by (simp add: b)
  moreover have tw: "takeWhile dec_byte (token_text tokenid) = token_text tokenid" "dropWhile dec_byte (token_text tokenid) = []"
    using d by (simp_all add: takeWhile_eq_all_conv dropWhile_eq_Nil_conv)
  moreover have "hd (token_text tokenid) = b" by (simp add: b)
  ultimately show ?thesis using h u by (simp add: strtoul_def Let_def token_nonempty dec_value_digits tw)
qed

section \<open>Sending commands\<close>

definition waiting :: "('o, 'h, 'x) world \<Rightarrow> addr \<times> u64 \<Rightarrow> 'h ReplyHandlerInfo list" where
  "waiting w k = rep.entries k (w_replies w)"

lemma waiting_with_input [simp]: "waiting (with_input c s w) = waiting w"
  by (simp add: waiting_def fun_eq_iff)

lemma waiting_mod_channel [simp]: "waiting (mod_channel c f w) = waiting w"
  by (simp add: waiting_def fun_eq_iff)

lemma find_reply_waiting:
  "fst (find_reply_handler c tokenid tk w) = (case waiting w (c, tokenid) of [] \<Rightarrow> None | rh # _ \<Rightarrow> Some rh)"
  by (simp add: find_reply_handler_def Let_def rep.find_entries waiting_def)

lemma waiting_in_table:
  "tables_ok w \<Longrightarrow> waiting w (c, tokenid) \<noteq> [] \<Longrightarrow> (c, tokenid) \<in> rh_key ` set (concat (w_replies w))"
  using rep.set_entries [of "w_replies w" "hd (waiting w (c, tokenid))" "(c, tokenid)"] hd_in_set [of "waiting w (c, tokenid)"]
  by (simp add: waiting_def tables_ok_def image_iff) metis

lemma free_token_Some: "free_token n c tok w = Some t \<Longrightarrow> waiting w (c, t) = []"
  by (induction n c tok w rule: free_token.induct) (auto simp: find_reply_waiting split: if_splits list.splits)

lemma free_token_None:
  "free_token n c tok w = None \<Longrightarrow> i < n \<Longrightarrow> waiting w (c, tok + word_of_nat i) \<noteq> []"
proof (induction n c tok w arbitrary: i rule: free_token.induct)
  case (2 n c tok w)
  then show ?case by (cases i) (auto simp: find_reply_waiting ac_simps split: if_splits list.splits)
qed simp

text \<open>Among more tokens than there are entries, one is free.\<close>

lemma free_token_found:
  assumes "tables_ok w" "length (concat (w_replies w)) < n" "n \<le> 2 ^ 64"
  shows "\<exists>t. free_token n c tok w = Some t"
proof (rule ccontr)
  assume "\<nexists>t. free_token n c tok w = Some t"
  then have none: "free_token n c tok w = None" by (cases "free_token n c tok w") auto
  let ?f = "\<lambda>i. (c, tok + word_of_nat i :: u64)"
  have "?f ` {..<n} \<subseteq> rh_key ` set (concat (w_replies w))"
    using waiting_in_table [OF assms(1)] free_token_None [OF none] by blast
  then have "card (?f ` {..<n}) \<le> card (rh_key ` set (concat (w_replies w)))" by (rule card_mono [rotated]) simp
  also have "\<dots> \<le> length (concat (w_replies w))" by (rule order_trans [OF card_image_le card_length]) simp
  also have "inj_on ?f {..<n}"
    using assms(3) by (auto simp: inj_on_def word_of_nat_eq_iff take_bit_nat_eq_self)
  then have "card (?f ` {..<n}) = n" by (simp add: card_image)
  ultimately show False using assms(2) by simp
qed

lemma waiting_add:
  "tables_ok w \<Longrightarrow> waiting (w\<lparr>w_replies := chain_add (reply_hash (rh_key rh)) rh (w_replies w)\<rparr>) k =
    (if rh_key rh = k then rh # waiting w k else waiting w k)"
  by (simp add: waiting_def rep.entries_add tables_ok_def)

lemma tokens_unique_waiting: "tokens_unique w \<longleftrightarrow> (\<forall>k. length (waiting w k) \<le> 1)"
  by (simp add: tokens_unique_def waiting_def)

lemma send_ok:
  assumes "tables_ok w" "\<not> is_channel_closed c w" "ch_peer_services (w_channels w c) \<noteq> None"
    and "length (concat (w_replies w)) < 2 ^ 64"
  defines "p \<equiv> ch_protocol (w_channels w c)"
  obtains tokenid where "waiting w (c, tokenid) = []"
    and "protocol_send_command_with_progress cl c service name handler progress w =
      Inr ((), mod_channel c (\<lambda>ch. ch\<lparr>ch_out := write_command cl tokenid service name (ch_out ch)\<rparr>)
        (mod_protocol p (\<lambda>pr. pr\<lparr>p_tokenid := tokenid + 1\<rparr>)
          (w\<lparr>w_replies := chain_add (reply_hash (c, tokenid))
            \<lparr>rh_tokenid = tokenid, rh_c = c, rh_handler = handler, rh_progress = progress\<rparr> (w_replies w)\<rparr>)))"
proof -
  obtain t where t: "free_token (Suc (length (concat (w_replies w)))) c (p_tokenid (w_protocols w p)) w = Some t"
    using free_token_found [OF assms(1), of "Suc (length (concat (w_replies w)))" c] assms(4) by fastforce
  show thesis
    by (rule that [OF free_token_Some [OF t]])
      (use t assms(2,3) in \<open>auto simp: protocol_send_command_with_progress_def p_def [symmetric] reader_simps Let_def
        mod_channel_def mod_protocol_def simp del: free_token.simps\<close>)
qed

section \<open>Replies\<close>

definition reply_text :: "byte \<Rightarrow> u64 \<Rightarrow> int list" where
  "reply_text typ tokenid = stringz [typ] @ stringz (token_text tokenid)"

definition taken :: "addr \<Rightarrow> u64 \<Rightarrow> ('o, 'h, 'x) world \<Rightarrow> ('o, 'h, 'x) world" where
  "taken c tokenid w = snd (find_reply_handler c tokenid True w)"

lemma waiting_taken: "tables_ok w \<Longrightarrow> waiting (taken c tokenid w) k = (if k = (c, tokenid) then tl (waiting w k) else waiting w k)"
  by (simp add: taken_def find_reply_handler_def Let_def waiting_def rep.entries_unlink tables_ok_def)

lemma tables_ok_taken: "tables_ok w \<Longrightarrow> tables_ok (taken c tokenid w)"
  by (simp add: taken_def find_reply_handler_def Let_def rep.table_ok_unlink tables_ok_def)

lemma taken_sel [simp]:
  "w_channels (taken c tokenid w) = w_channels w" "w_protocols (taken c tokenid w) = w_protocols w"
  "w_messages (taken c tokenid w) = w_messages w" "w_events (taken c tokenid w) = w_events w"
  "w_services (taken c tokenid w) = w_services w" "w_client (taken c tokenid w) = w_client w" 
  by (simp_all add: taken_def find_reply_handler_def Let_def)

lemma taken_with_input: "taken c tokenid (with_input d s w) = with_input d s (taken c tokenid w)"
  by (simp add: taken_def find_reply_handler_def Let_def with_input_def mod_channel_def)

lemma find_reply_pair:
  "find_reply_handler c tokenid tk w =
    (case waiting w (c, tokenid) of [] \<Rightarrow> None | rh # _ \<Rightarrow> Some rh, if tk then taken c tokenid w else w)"
  by (rule prod_eqI) (simp_all add: find_reply_waiting taken_def, simp add: find_reply_handler_def Let_def)

lemma handle_reply_text:
  assumes "ch_inp (w_channels w c) = reply_text typ tokenid @ rest" "typ \<in> {82, 80, 78}"
    and "waiting w (c, tokenid) = rh # rhs"
  defines "w1 \<equiv> with_input c rest w"
  shows "handle_protocol_message cl env c w =
    (if typ = 80 then
       (case rh_progress rh of Some h \<Rightarrow> call_progress env h c w1 | None \<Rightarrow> inpW c skip_until_EOM w1)
     else seqR (if typ = 78 then inpW c skip_until_EOM else retR ())
       (case rh_handler rh of
          Some h \<Rightarrow> call_reply env h c (if typ = 78 then Some ERR_INV_COMMAND else None)
        | None \<Rightarrow> inpW c skip_until_EOM) (taken c tokenid w1))"
proof -
  have t: "typ \<noteq> 0" "typ \<noteq> 67" using assms(2) by auto
  have "handle_protocol_message cl env c w = handle_reply env c [typ] (with_input c (stringz (token_text tokenid) @ rest) w)"
    using assms(1,2) t by (auto simp: handle_protocol_message_def reader_simps reply_text_def read_type)
  moreover have "inpW c (read_stringz 256) (with_input c (stringz (token_text tokenid) @ rest) w) = Inr (token_text tokenid, w1)"
    by (simp add: inpW_apply read_stringz_short [OF short_token] w1_def)
  moreover have "waiting w1 = waiting w" by (simp add: w1_def)
  ultimately show ?thesis
    by (simp add: handle_reply_def dispatch_reply_def bindR_apply strtoul_token find_reply_pair assms(3) split: option.split)
qed


end
