(* ===== verification/Protocol_Run.thy ===== *)
theory Protocol_Run
  imports Protocol_Proofs
begin

text \<open>
  Runs of the protocol module. An agent starts with empty tables; then its clients and its peers make it do the operations of
  protocol.c in any order. In every world it gets to, each entry of a table is in the chain of its key and no
  two commands wait with the same token of a channel. Then the handshake of two agents, and the end of a channel.
\<close>

section \<open>The invariant\<close>

definition world_inv :: "('o, 'h, 'x) world \<Rightarrow> bool" where
  "world_inv w \<longleftrightarrow> tables_ok w \<and> tokens_unique w"

definition keeps :: "('o, 'h, 'x, 'a) proto_op \<Rightarrow> bool" where
  "keeps m \<longleftrightarrow> (\<forall>w x w'. world_inv w \<longrightarrow> m w = Inr (x, w') \<longrightarrow> world_inv w')"

named_theorems keeps_intros \<open>operations that keep the invariant of the protocol module\<close>

lemma keepsI: "(\<And>w x w'. world_inv w \<Longrightarrow> m w = Inr (x, w') \<Longrightarrow> world_inv w') \<Longrightarrow> keeps m"
  by (auto simp: keeps_def)

lemma keepsD: "keeps m \<Longrightarrow> world_inv w \<Longrightarrow> m w = Inr (x, w') \<Longrightarrow> world_inv w'"
  by (auto simp: keeps_def)

lemma world_inv_same:
  "w_messages w' = w_messages w \<Longrightarrow> w_events w' = w_events w \<Longrightarrow> w_replies w' = w_replies w \<Longrightarrow> world_inv w' = world_inv w"
  by (simp add: world_inv_def tables_ok_def tokens_unique_def)

lemma world_inv_simps [simp]:
  "world_inv (mod_channel c f w) = world_inv w" "world_inv (mod_protocol p g w) = world_inv w"
  "world_inv (with_input c s w) = world_inv w" "world_inv (w\<lparr>w_failed := rhs\<rparr>) = world_inv w"
  by (rule world_inv_same; simp)+

lemma keeps_retR [keeps_intros]: "keeps (retR x)"
  by (rule keepsI) (simp add: reader_simps)

lemma keeps_raiseR [keeps_intros]: "keeps (raiseR e)"
  by (rule keepsI) (simp add: reader_simps)

lemma keeps_bindR [keeps_intros]: "keeps m \<Longrightarrow> (\<And>x. keeps (f x)) \<Longrightarrow> keeps (bindR m f)"
  by (rule keepsI) (auto elim!: bindR_InrE dest: keepsD)

lemma keeps_seqR [keeps_intros]: "keeps m \<Longrightarrow> keeps n \<Longrightarrow> keeps (seqR m n)"
  by (simp add: seqR_def keeps_bindR)

lemma keeps_if [keeps_intros]: "(b \<Longrightarrow> keeps m) \<Longrightarrow> (\<not> b \<Longrightarrow> keeps n) \<Longrightarrow> keeps (if b then m else n)"
  by simp

lemma keeps_option [keeps_intros]: "keeps m \<Longrightarrow> (\<And>x. keeps (f x)) \<Longrightarrow> keeps (case v of None \<Rightarrow> m | Some x \<Rightarrow> f x)"
  by (cases v) simp_all

lemma keeps_inpW [keeps_intros]: "keeps (inpW c m)"
  by (rule keepsI) (auto simp: reader_simps split: sum.splits)

lemma keeps_outW [keeps_intros]: "keeps (outW c f)"
  by (rule keepsI) (auto simp: reader_simps)

lemma keeps_mod_channel [keeps_intros]: "keeps (modW (mod_channel c f))"
  by (rule keepsI) (auto simp: reader_simps)

lemma keeps_mod_protocol [keeps_intros]: "keeps (modW (mod_protocol p f))"
  by (rule keepsI) (auto simp: reader_simps)

text \<open>An operation that looks at the world first.\<close>

lemma keeps_state: "(\<And>w. keeps (f w)) \<Longrightarrow> keeps (\<lambda>w. f w w)"
  by (rule keepsI) (auto dest: keepsD)

lemma keeps_add_command [keeps_intros]: "keeps (add_command_handler2 p service name h)"
proof (rule keepsI)
  fix w x w'
  assume "world_inv w" "add_command_handler2 p service name h w = Inr (x, w')"
  with add_command_handler2_ok(1,4) [of w p service name h w'] show "world_inv w'"
    by (simp add: world_inv_def tokens_unique_def)
qed

lemma keeps_add_event [keeps_intros]: "keeps (add_event_handler2 c service name h)"
proof (rule keepsI)
  let ?eh = "\<lparr>eh_c = c, eh_service = service, eh_name = name, eh_handler = h\<rparr>"
  fix w x w'
  assume w: "world_inv w" "add_event_handler2 c service name h w = Inr (x, w')"
  then have "evt.table_ok (w_events w)" by (simp add: world_inv_def tables_ok_def)
  from evt.table_ok_add [OF this, of ?eh] w show "world_inv w'"
    by (auto simp: add_event_handler2_def world_inv_def tables_ok_def tokens_unique_def split: sum.splits)
qed

lemma keeps_release [keeps_intros]: "keeps (protocol_release p)"
proof (rule keepsI)
  fix w x w'
  assume "world_inv w" "protocol_release p w = Inr (x, w')"
  with protocol_release_ok(1,3) [of w p w'] show "world_inv w'"
    by (simp add: world_inv_def tokens_unique_def)
qed

lemma world_inv_send:
  assumes "world_inv w" "waiting w (c, tokenid) = []"
  shows "world_inv (w\<lparr>w_replies := chain_add (reply_hash (c, tokenid))
    \<lparr>rh_tokenid = tokenid, rh_c = c, rh_handler = handler, rh_progress = progress\<rparr> (w_replies w)\<rparr>)"
proof -
  let ?rh = "\<lparr>rh_tokenid = tokenid, rh_c = c, rh_handler = handler, rh_progress = progress\<rparr>"
  have ok: "tables_ok w" "rep.table_ok (w_replies w)" using assms(1) by (simp_all add: world_inv_def tables_ok_def)
  show ?thesis
    using assms ok(1) rep.table_ok_add [OF ok(2), of ?rh] waiting_add [OF ok(1), of ?rh]
    by (simp add: world_inv_def tokens_unique_waiting tables_ok_def)
qed

lemma keeps_send [keeps_intros]: "keeps (protocol_send_command_with_progress cl c service name handler progress)"
proof (rule keepsI)
  fix w x w'
  assume w: "world_inv w" "protocol_send_command_with_progress cl c service name handler progress w = Inr (x, w')"
  show "world_inv w'"
  proof (cases "is_channel_closed c w \<or> ch_peer_services (w_channels w c) = None")
    case True
    with w show ?thesis by (auto simp: protocol_send_command_with_progress_def)
  next
    case False
    let ?t = "free_token (Suc (length (concat (w_replies w)))) c (p_tokenid (w_protocols w (ch_protocol (w_channels w c)))) w"
    from False w(2) obtain t where t: "?t = Some t"
      by (auto simp: protocol_send_command_with_progress_def Let_def simp del: free_token.simps split: option.splits)
    define wr where "wr = w\<lparr>w_replies := chain_add (reply_hash (c, t))
      \<lparr>rh_tokenid = t, rh_c = c, rh_handler = handler, rh_progress = progress\<rparr> (w_replies w)\<rparr>"
    have "w_messages w' = w_messages wr" "w_events w' = w_events wr" "w_replies w' = w_replies wr"
      using False w(2) t unfolding wr_def
      by (auto simp: protocol_send_command_with_progress_def Let_def reader_simps simp del: free_token.simps)
    then show ?thesis
      using world_inv_send [OF w(1) free_token_Some [OF t], of handler progress] world_inv_same [of w' wr]
      by (simp add: wr_def)
  qed
qed

lemma world_inv_taken: "world_inv w \<Longrightarrow> world_inv (taken c tokenid w)"
  using tables_ok_taken [of w c tokenid] waiting_taken [of w c tokenid]
  by (auto simp: world_inv_def tokens_unique_waiting intro: le_trans [OF diff_le_self])

section \<open>The end of a channel\<close>

definition tell_closed :: "('o, 'h, 'x) proto_env \<Rightarrow> addr \<Rightarrow> 'h ReplyHandlerInfo \<Rightarrow> 'x \<Rightarrow> 'x" where
  "tell_closed env c rh x = (case rh_handler rh of None \<Rightarrow> x | Some h \<Rightarrow> call_closed env h c x)"

definition blank_of :: "addr \<Rightarrow> 'h ReplyHandlerInfo \<Rightarrow> 'h ReplyHandlerInfo" where
  "blank_of c rh = (if rh_c rh = c then blank_reply rh else rh)"

lemma rh_key_blank [simp]: "rh_key (blank_of c rh) = rh_key rh"
  by (simp add: rh_key_def blank_of_def blank_reply_def)

lemma close_chain_eq:
  "close_chain env c disconnected rhs x =
    (if disconnected then filter (\<lambda>rh. \<not> rh_c rh = c) rhs else map (blank_of c) rhs,
     fold (tell_closed env c) (filter (\<lambda>rh. rh_c rh = c) rhs) x)"
  by (induction rhs arbitrary: x) (auto simp: tell_closed_def blank_of_def Let_def split: option.splits)

lemma close_chains_eq:
  "close_chains env c disconnected t x =
    (if disconnected then chain_purge (\<lambda>rh. rh_c rh = c) t else map (map (blank_of c)) t,
     fold (tell_closed env c) (filter (\<lambda>rh. rh_c rh = c) (concat t)) x)"
  by (induction t arbitrary: x) (auto simp: close_chain_eq chain_purge_def)

lemma filter_rh_c:
  "tables_ok w \<Longrightarrow> filter (\<lambda>rh. rh_c rh \<noteq> c) (waiting w (d, tokenid)) = (if d = c then [] else waiting w (d, tokenid))"
  using rep.set_entries [of "w_replies w" _ "(d, tokenid)"]
  by (auto simp: waiting_def tables_ok_def rh_key_def filter_empty_conv intro!: filter_True)

lemma map_blank_of:
  "tables_ok w \<Longrightarrow> map (blank_of c) (waiting w (d, tokenid)) = (if d = c then map blank_reply else id) (waiting w (d, tokenid))"
  using rep.set_entries [of "w_replies w" _ "(d, tokenid)"]
  by (auto simp: waiting_def tables_ok_def rh_key_def blank_of_def intro!: map_idI)

lemma channel_closed_ok:
  fixes env :: "('o, 'h, 'x) proto_env" and c :: addr
  assumes "tables_ok w"
  defines "w' \<equiv> channel_closed env c w"
  shows "tables_ok w'"
    "waiting w' (d, tokenid) =
       (if d \<noteq> c then waiting w (d, tokenid) else if is_channel_closed c w then [] else map blank_reply (waiting w (d, tokenid)))"
    "event_map w' (d, k) = (if d = c then None else event_map w (d, k))"
    "command_map w' = command_map w"
    "w_client w' = fold (tell_closed env c) (filter (\<lambda>rh. rh_c rh = c) (concat (w_replies w))) (w_client w)"
    "ch_peer_services (w_channels w' c) = None" "ch_state (w_channels w' c) = ch_state (w_channels w c)"
proof -
  have ok: "rep.table_ok (w_replies w)" "evt.table_ok (w_events w)" using assms(1) by (simp_all add: tables_ok_def)
  note defs = w'_def channel_closed_def Let_def close_chains_eq
  show "tables_ok w'"
    using assms(1) rep.table_ok_purge [OF ok(1)] rep.table_ok_map [of "blank_of c", OF _ ok(1)] evt.table_ok_purge [OF ok(2)]
    by (simp add: defs tables_ok_def)
  show "waiting w' (d, tokenid) =
       (if d \<noteq> c then waiting w (d, tokenid) else if is_channel_closed c w then [] else map blank_reply (waiting w (d, tokenid)))"
    using rep.entries_purge [OF ok(1)] rep.entries_map [of "blank_of c", OF _ ok(1)] filter_rh_c [OF assms(1)] map_blank_of [OF assms(1)]
    by (simp add: defs waiting_def is_channel_closed_def)
  have "filter (\<lambda>e. eh_c e \<noteq> c) (evt.entries (d, k) (w_events w)) = (if d = c then [] else evt.entries (d, k) (w_events w))"
    using evt.set_entries [OF ok(2), of _ "(d, k)"] by (auto simp: eh_key_def filter_empty_conv intro!: filter_True)
  then show "event_map w' (d, k) = (if d = c then None else event_map w (d, k))"
    using evt.entries_purge [OF ok(2)] by (simp add: defs event_map_def)
qed (simp_all add: w'_def channel_closed_def Let_def close_chains_eq command_map_def fun_eq_iff)

lemma world_inv_closed: "world_inv w \<Longrightarrow> world_inv (channel_closed env c w)"
  using channel_closed_ok(1,2) [of w env c] by (auto simp: world_inv_def tokens_unique_waiting)

section \<open>Messages\<close>

text \<open>The clients change the tables only by operations of the module.\<close>

definition env_ok :: "('o, 'h, 'x) proto_env \<Rightarrow> bool" where
  "env_ok env \<longleftrightarrow>
     (\<forall>h token c. keeps (call_command env h token c)) \<and> (\<forall>h c. keeps (call_event env h c)) \<and>
     (\<forall>h c e. keeps (call_reply env h c e)) \<and> (\<forall>h c. keeps (call_progress env h c)) \<and>
     (\<forall>h c args. keeps (call_default env h c args)) \<and> (\<forall>c. keeps (call_opened env c)) \<and>
     (\<forall>c. keeps (call_notify_closed env c))"

lemma env_ok_calls:
  assumes "env_ok env"
  shows "keeps (call_command env h token c)" "keeps (call_event env h c)" "keeps (call_reply env h c e)"
    "keeps (call_progress env h c)" "keeps (call_default env h c args)" "keeps (call_opened env c)"
    "keeps (call_notify_closed env c)"
  using assms by (simp_all add: env_ok_def)

lemma keeps_reject: "keeps (reject_command cl c token)"
  unfolding reject_command_def by (intro keeps_intros)

lemma keeps_connect_done: "env_ok env \<Longrightarrow> keeps (connect_done env c)"
  by (rule keepsI) (auto simp: connect_done_def split: if_splits dest: keepsD [OF env_ok_calls(6)])

lemma keeps_hello: "env_ok env \<Longrightarrow> keeps (event_locator_hello env c)"
  unfolding event_locator_hello_def
  by (intro keeps_bindR keeps_inpW, rule keepsI)
    (auto simp: Let_def split: if_splits dest!: keepsD [OF keeps_connect_done, rotated 2])

lemma keeps_send_hello: "env_ok env \<Longrightarrow> keeps (send_hello_message cl env c)"
  by (rule keepsI) (auto simp: send_hello_message_def Let_def reader_simps split: if_splits
    dest!: keepsD [OF keeps_connect_done, rotated 2])

lemma keeps_handle_command: "env_ok env \<Longrightarrow> keeps (handle_command cl env c typ)"
  unfolding handle_command_def
  by (intro keeps_bindR keeps_inpW, rule keepsI)
    (auto split: if_splits option.splits dest: keepsD [OF env_ok_calls(1)] keepsD [OF env_ok_calls(5)] keepsD [OF keeps_reject])

lemma keeps_handle_event: "env_ok env \<Longrightarrow> keeps (handle_event env c typ)"
  unfolding handle_event_def
  by (intro keeps_bindR keeps_inpW, rule keepsI)
    (auto simp: Let_def split: if_splits option.splits
      dest: keepsD [OF env_ok_calls(2)] keepsD [OF env_ok_calls(5)] keepsD [OF keeps_hello] keepsD [OF keeps_inpW])

lemma keeps_dispatch_reply:
  assumes "env_ok env"
  shows "keeps (dispatch_reply env c typ token rh)"
proof -
  have "keeps (\<lambda>w. case default_handler w c of
             Some h \<Rightarrow> call_default env h c [typ, token] w
           | None \<Rightarrow> Inl (Exception ERR_PROTOCOL))"
    by (rule keepsI) (auto split: option.splits dest: keepsD [OF env_ok_calls(5) [OF assms]])
  then show ?thesis unfolding dispatch_reply_def by (intro keeps_intros env_ok_calls assms)
qed

lemma keeps_handle_reply:
  assumes "env_ok env"
  shows "keeps (handle_reply env c typ)"
  unfolding handle_reply_def
proof (intro keeps_bindR keeps_inpW, rule keepsI)
  fix token w x w'
  assume w: "world_inv w" and m: "(let (tokenid, in_range, rest) = strtoul token;
      (rh, w1) = (if \<not> in_range \<or> rest \<noteq> [] then (None, w) else find_reply_handler c tokenid (typ \<noteq> bytes_of ''P'') w)
    in dispatch_reply env c typ token rh w1) = Inr (x, w')"
  obtain rh w1 where "dispatch_reply env c typ token rh w1 = Inr (x, w')" "w1 = w \<or> (\<exists>tokenid. w1 = taken c tokenid w)"
    using m by (auto simp: Let_def find_reply_pair split: prod.splits if_splits)
  with w world_inv_taken [OF w] show "world_inv w'"
    by (auto dest: keepsD [OF keeps_dispatch_reply [OF assms]])
qed

lemma keeps_handle_congestion: "keeps (handle_congestion c)"
  unfolding handle_congestion_def by (intro keeps_intros) (auto intro!: keeps_intros)

lemma keeps_message: "env_ok env \<Longrightarrow> keeps (handle_protocol_message cl env c)"
  unfolding handle_protocol_message_def
  by (intro keeps_bindR keeps_inpW keeps_if keeps_raiseR keeps_handle_command keeps_handle_event keeps_handle_reply
      keeps_handle_congestion, assumption+, rule keepsI)
    (auto split: option.splits dest: keepsD [OF env_ok_calls(5)])

section \<open>Runs\<close>

text \<open>What clients, peers and transports can make the module do. A transport changes the streams and the state of its
  channel, never the tables.\<close>

inductive proto_run :: "'o out_class \<Rightarrow> ('o, 'h, 'x) proto_env \<Rightarrow> ('o, 'h, 'x) world \<Rightarrow> bool" for cl env where
  start: "proto_run cl env (protocol_statics w)"
| transport: "proto_run cl env w \<Longrightarrow> proto_run cl env (mod_channel c f w)"
| alloc: "proto_run cl env w \<Longrightarrow> protocol_alloc uuid p w = Inr ((), w') \<Longrightarrow> proto_run cl env w'"
| reference: "proto_run cl env w \<Longrightarrow> protocol_reference p w = Inr ((), w') \<Longrightarrow> proto_run cl env w'"
| release: "proto_run cl env w \<Longrightarrow> protocol_release p w = Inr ((), w') \<Longrightarrow> proto_run cl env w'"
| command: "proto_run cl env w \<Longrightarrow> add_command_handler2 p service name h w = Inr ((), w') \<Longrightarrow> proto_run cl env w'"
| event: "proto_run cl env w \<Longrightarrow> add_event_handler2 c service name h w = Inr ((), w') \<Longrightarrow> proto_run cl env w'"
| default: "proto_run cl env w \<Longrightarrow> proto_run cl env (set_default_message_handler2 p h w)"
| hello: "proto_run cl env w \<Longrightarrow> send_hello_message cl env c w = Inr ((), w') \<Longrightarrow> proto_run cl env w'"
| send: "proto_run cl env w \<Longrightarrow> protocol_send_command_with_progress cl c service name handler progress w = Inr ((), w') \<Longrightarrow>
    proto_run cl env w'"
| redirect_id: "proto_run cl env w \<Longrightarrow> send_redirect_command_by_id cl c peer_id h w = Inr ((), w') \<Longrightarrow> proto_run cl env w'"
| redirect_props: "proto_run cl env w \<Longrightarrow> send_redirect_command_by_props cl c props h w = Inr ((), w') \<Longrightarrow> proto_run cl env w'"
| redirected: "proto_run cl env w \<Longrightarrow> redirect_done env errno h c e w = Inr ((), w') \<Longrightarrow> proto_run cl env w'"
| failed: "proto_run cl env w \<Longrightarrow> send_command_failed env w = Inr ((), w') \<Longrightarrow> proto_run cl env w'"
| message: "proto_run cl env w \<Longrightarrow> handle_protocol_message cl env c w = Inr ((), w') \<Longrightarrow> proto_run cl env w'"
| closed: "proto_run cl env w \<Longrightarrow> proto_run cl env (channel_closed env c w)"

lemma keeps_alloc: "keeps (protocol_alloc uuid p)"
  by (rule keepsI) (auto simp: protocol_alloc_def ini_protocol_def reader_simps world_inv_def tables_ok_def tokens_unique_def
    split: if_splits)

lemma keeps_reference: "keeps (protocol_reference p)"
  by (rule keepsI) (auto simp: protocol_reference_def split: if_splits)

lemma keeps_redirect: "keeps (send_redirect cl c args h)"
proof -
  have "keeps (seqR (modW (mod_channel c (\<lambda>ch. ch\<lparr>ch_state := ChannelStateRedirectSent\<rparr>)))
         (seqR (protocol_send_command cl c LOCATOR (bytes_of ''redirect'') (Some h))
         (outW c (seqW [args, write_stream cl 0, write_stream cl MARKER_EOM]))))"
    unfolding protocol_send_command_def by (intro keeps_intros)
  from keepsD [OF this] show ?thesis by (intro keepsI) (auto simp: send_redirect_def split: if_splits)
qed

lemma keeps_redirect_done:
  assumes "env_ok env"
  shows "keeps (redirect_done env errno h c e)"
proof -
  let ?set = "\<lambda>st. modW (mod_channel c (\<lambda>ch. ch\<lparr>ch_state := st\<rparr>))"
  have a: "keeps (bindR (inpW c (read_errno errno)) (\<lambda>no.
              seqR (inpW c (json_test_char MARKER_EOM))
              (if no = 0 then seqR (?set ChannelStateHelloSent)
                 (seqR (call_notify_closed env c) (call_reply env h c None))
               else seqR (?set ChannelStateConnected) (call_reply env h c (Some (ERRNO no))))))"
    by (intro keeps_intros env_ok_calls assms)
  have b: "keeps (seqR (?set ChannelStateConnected) (call_reply env h c (Some e)))" for e
    by (intro keeps_intros env_ok_calls assms)
  show ?thesis
  proof (rule keepsI)
    fix w x w'
    assume w: "world_inv w" "redirect_done env errno h c e w = Inr (x, w')"
    show "world_inv w'"
    proof (cases e)
      case None
      with w(2) show ?thesis by (intro keepsD [OF a w(1)]) (simp add: redirect_done_def Let_def split: if_splits)
    next
      case (Some err)
      with w(2) consider "seqR (?set ChannelStateConnected) (call_reply env h c (Some err)) w = Inr (x, w')"
        | "call_reply env h c (Some err) w = Inr (x, w')"
        by (auto simp: redirect_done_def Let_def split: if_splits)
      then show ?thesis by cases (rule keepsD [OF b w(1)] keepsD [OF env_ok_calls(3) [OF assms] w(1)], assumption)+
    qed
  qed
qed

lemma keeps_failed: "env_ok env \<Longrightarrow> keeps (send_command_failed env)"
  by (rule keepsI)
    (auto simp: send_command_failed_def split: list.splits option.splits dest!: keepsD [OF env_ok_calls(3), rotated 2])

lemma world_inv_statics: "world_inv (protocol_statics w)"
  using tables_ok_statics [of w] by (simp add: world_inv_def tokens_unique_def protocol_statics_def rep.entries_empty)

lemma run_world_inv:
  assumes "env_ok env"
  shows "proto_run cl env w \<Longrightarrow> world_inv w"
proof (induction rule: proto_run.induct)
  case (start w)
  show ?case by (rule world_inv_statics)
next
  case closed
  then show ?case by (blast intro: world_inv_closed)
next
  case alloc
  then show ?case by (blast dest: keepsD [OF keeps_alloc])
next
  case reference
  then show ?case by (blast dest: keepsD [OF keeps_reference])
next
  case release
  then show ?case by (blast dest: keepsD [OF keeps_release])
next
  case command
  then show ?case by (blast dest: keepsD [OF keeps_add_command])
next
  case event
  then show ?case by (blast dest: keepsD [OF keeps_add_event])
next
  case hello
  then show ?case by (blast dest: keepsD [OF keeps_send_hello [OF assms]])
next
  case send
  then show ?case by (blast dest: keepsD [OF keeps_send])
next
  case redirect_id
  then show ?case unfolding send_redirect_command_by_id_def
    by (blast dest: keepsD [OF keeps_redirect])
next
  case redirect_props
  then show ?case unfolding send_redirect_command_by_props_def
    by (blast dest: keepsD [OF keeps_redirect])
next
  case redirected
  then show ?case by (blast dest: keepsD [OF keeps_redirect_done [OF assms]])
next
  case failed
  then show ?case by (blast dest: keepsD [OF keeps_failed [OF assms]])
next
  case message
  then show ?case by (blast dest: keepsD [OF keeps_message [OF assms]])
qed (simp_all add: set_default_message_handler2_def)


end
