(* ===== verification/Protocol_Hello.thy ===== *)
theory Protocol_Hello
  imports Protocol_Run
begin

text \<open>
  The handshake that opens a channel: the message Hello of one agent read by the other, and the two state machines that
  exchange it. Then what a closed channel leaves behind.
\<close>

section \<open>The message Hello\<close>

definition hello_names :: "addr \<Rightarrow> ('o, 'h, 'x) world \<Rightarrow> byte list list" where
  "hello_names c w =
     (if ch_disable_zero_copy (w_channels w c) then [] else [bytes_of ''ZeroCopy'']) @
     own_services (ch_protocol (w_channels w c)) (w_services w)"

definition hello_text :: "byte list list \<Rightarrow> int list" where
  "hello_text names =
     stringz (bytes_of ''E'') @ stringz LOCATOR @ stringz (bytes_of ''Hello'') @ string_array names @ [0, MARKER_EOM]"

context output_stream begin

lemma writes_service_names: "writes (write_service_names cl cnt ss) (separated cnt (map json_string ss))"
proof (induction ss arbitrary: cnt)
  case Nil
  show ?case by (simp add: writes_def)
next
  case (Cons s ss)
  from writes_then [OF writes_separated [of s cnt] Cons.IH [of "Suc cnt"]] show ?case
    by (simp add: separated_Cons)
qed

lemma writes_hello:
  assumes "ok MARKER_EOM"
  shows "writes (write_hello cl zc names) (hello_text ((if zc then [bytes_of ''ZeroCopy''] else []) @ names))"
proof -
  have zc: "writes (\<lambda>out. if zc then json_write_string cl (Some (bytes_of ''ZeroCopy'')) out else out)
      (if zc then json_string (bytes_of ''ZeroCopy'') else [])"
    using writes_json_string [of "bytes_of ''ZeroCopy''"] by (cases zc) (simp_all add: writes_def)
  have eq: "hello_text ((if zc then [bytes_of ''ZeroCopy''] else []) @ names) =
      stringz (bytes_of ''E'') @ stringz LOCATOR @ stringz (bytes_of ''Hello'') @ [91] @
      (if zc then json_string (bytes_of ''ZeroCopy'') else []) @
      separated (if zc then 1 else 0) (map json_string names) @ [93] @ [0] @ [MARKER_EOM]"
    by (simp add: hello_text_def string_array_def separated_def join_Cons)
  show ?thesis
    unfolding write_hello_def eq stringz_def
    by (rule writes_Cons [OF writes_stringz writes_Cons [OF writes_stringz writes_Cons [OF writes_stringz
          writes_Cons [OF writes_int writes_Cons [OF zc writes_Cons [OF writes_service_names writes_Cons [OF writes_int
          writes_Cons [OF writes_int writes_Cons_last [OF writes_write_stream [OF assms]]]]]]]]]]) simp_all
qed

end

lemma hello_loop_names:
  "length names < n \<Longrightarrow> names \<noteq> [] \<Longrightarrow> hello_loop n ss (join (map json_string names) @ 93 # rest) = Inr (ss @ names, rest)"
proof (induction names arbitrary: n ss)
  case (Cons s names)
  note IH = Cons.IH and prems = Cons.prems
  obtain m where n: "n = Suc m" using prems by (cases n) auto
  show ?case
  proof (cases names)
    case Nil
    then show ?thesis by (simp add: n reader_simps json_read_alloc_string_text read_token_plain isspace_def)
  next
    case (Cons t ts)
    then have "join (map json_string (s # names)) @ 93 # rest = json_string s @ 44 # join (map json_string names) @ 93 # rest"
      by (simp add: join_Cons)
    with Cons prems IH [of m "ss @ [s]"] show ?thesis
      by (simp add: n reader_simps json_read_alloc_string_text read_token_plain isspace_def)
  qed
qed simp

lemma json_string_34: "\<exists>xs. json_string s = 34 # xs"
  by (simp add: json_string_def)

lemma join_names_34: "names \<noteq> [] \<Longrightarrow> \<exists>xs. join (map json_string names) @ rest = 34 # xs"
  using json_string_34 [of "hd names"] by (cases names) (auto simp: join_Cons)

lemma read_hello_text: "read_hello (string_array names @ 0 # MARKER_EOM # rest) = Inr (names, rest)"
proof (cases "names = []")
  case True
  then show ?thesis
    by (simp add: read_hello_def string_array_def reader_simps read_token_plain isspace_def)
next
  case False
  obtain xs where xs: "join (map json_string names) @ 93 # 0 # MARKER_EOM # rest = 34 # xs"
    using join_names_34 [OF False] by blast
  have "length names \<le> length (join (map json_string names))"
    by (induction names rule: induct_list012) (simp_all add: json_string_def)
  then have "length names < Suc (length (join (map json_string names) @ 93 # 0 # MARKER_EOM # rest))" by simp
  from hello_loop_names [OF this False, of "[]" "0 # MARKER_EOM # rest"] show ?thesis
    by (simp add: read_hello_def string_array_def reader_simps read_token_plain isspace_def xs del: hello_loop.simps)
qed

section \<open>The two state machines\<close>

lemma send_hello_ok:
  fixes cl :: "'o out_class"
  assumes "ch_state (w_channels w c) \<in> {ChannelStateStarted, ChannelStateHelloReceived}"
  defines "said \<equiv> mod_channel c (\<lambda>ch. ch\<lparr>ch_out := write_hello cl (\<not> ch_disable_zero_copy (w_channels w c))
      (own_services (ch_protocol (w_channels w c)) (w_services w)) (ch_out ch)\<rparr>) w"
  shows "send_hello_message cl env c w =
    (if ch_state (w_channels w c) = ChannelStateStarted
     then Inr ((), mod_channel c (\<lambda>ch. ch\<lparr>ch_state := ChannelStateHelloSent\<rparr>) said)
     else call_opened env c (mod_channel c (\<lambda>ch. ch\<lparr>ch_state := ChannelStateConnected\<rparr>) said))"
  using assms(1) by (auto simp: send_hello_message_def said_def Let_def reader_simps connect_done_def)

lemma cstr_id: "0 \<notin> set s \<Longrightarrow> cstr s = s"
  by (auto simp: cstr_def takeWhile_eq_all_conv)

lemma event_map_Hello: "bytes_of ''Hello'' = [72, 101, 108, 108, 111]" "LOCATOR = [76, 111, 99, 97, 116, 111, 114]"
  by (simp_all add: bytes_of_def)

lemma short_hello: "short_string LOCATOR" "short_string (bytes_of ''Hello'')"
  by (simp_all add: short_string_def event_map_Hello)

lemma receive_hello_ok:
  assumes "ch_state (w_channels w c) \<in> {ChannelStateStarted, ChannelStateHelloSent}"
    and "ch_inp (w_channels w c) = hello_text names @ rest" "\<forall>s \<in> set names. 0 \<notin> set s"
  defines "heard \<equiv> mod_channel c (\<lambda>ch. ch\<lparr>ch_inp := rest, ch_zero_copy := bytes_of ''ZeroCopy'' \<in> set names,
      ch_peer_services := (if names = [] then None else Some names)\<rparr>) w"
  shows "handle_protocol_message cl env c w =
    (if ch_state (w_channels w c) = ChannelStateStarted
     then Inr ((), mod_channel c (\<lambda>ch. ch\<lparr>ch_state := ChannelStateHelloReceived\<rparr>) heard)
     else call_opened env c (mod_channel c (\<lambda>ch. ch\<lparr>ch_state := ChannelStateConnected\<rparr>) heard))"
proof -
  have "map cstr names = names" using assms(3) by (simp add: map_idI cstr_id)
  moreover have "handle_protocol_message cl env c w = event_locator_hello env c
      (with_input c (string_array names @ 0 # MARKER_EOM # rest) w)"
    using assms(1,2) by (auto simp: handle_protocol_message_def handle_event_def hello_text_def reader_simps read_type
        read_stringz_short short_hello)
  ultimately show ?thesis
    using assms(1) by (auto simp: event_locator_hello_def reader_simps read_hello_text heard_def Let_def connect_done_def
        with_input_def)
qed

lemma hello_out:
  "is_items (write_hello item_class (\<not> ch_disable_zero_copy (w_channels w c))
     (own_services (ch_protocol (w_channels w c)) (w_services w)) out) = is_items out @ hello_text (hello_names c w)"
  using writes_item [OF item.writes_hello, of "\<not> ch_disable_zero_copy (w_channels w c)"] by (simp add: hello_names_def if_distrib)

text \<open>C10: two agents that have started their ends of a channel agree after one message Hello in each direction: both ends are connected and
  their listeners are told so, each end has the list of the services the other one offers, and knows whether the
  other one takes binary data without escapes. The names of the services are strings of C.\<close>

theorem handshake:
  fixes wa :: "(item_stream, 'ha, 'xa) world" and wb :: "(item_stream, 'hb, 'xb) world"
  assumes "ch_state (w_channels wa a) = ChannelStateStarted" "ch_state (w_channels wb b) = ChannelStateStarted"
    and "\<forall>s \<in> set (w_services wa). 0 \<notin> set (si_name s)" "\<forall>s \<in> set (w_services wb). 0 \<notin> set (si_name s)"
  shows "\<exists>wa1 wb1 wb2 wa2.
    send_hello_message item_class ea a wa = Inr ((), wa1) \<and>
    is_items (ch_out (w_channels wa1 a)) = is_items (ch_out (w_channels wa a)) @ hello_text (hello_names a wa) \<and>
    handle_protocol_message item_class eb b (with_input b (hello_text (hello_names a wa) @ inb) wb) = Inr ((), wb1) \<and>
    send_hello_message item_class eb b wb1 = call_opened eb b wb2 \<and>
    is_items (ch_out (w_channels wb2 b)) = is_items (ch_out (w_channels wb b)) @ hello_text (hello_names b wb) \<and>
    handle_protocol_message item_class ea a (with_input a (hello_text (hello_names b wb) @ ina) wa1) = call_opened ea a wa2 \<and>
    ch_state (w_channels wa2 a) = ChannelStateConnected \<and> ch_state (w_channels wb2 b) = ChannelStateConnected \<and>
    ch_inp (w_channels wa2 a) = ina \<and> ch_inp (w_channels wb2 b) = inb \<and>
    ch_peer_services (w_channels wa2 a) = (if hello_names b wb = [] then None else Some (hello_names b wb)) \<and>
    ch_peer_services (w_channels wb2 b) = (if hello_names a wa = [] then None else Some (hello_names a wa)) \<and>
    ch_zero_copy (w_channels wa2 a) = (bytes_of ''ZeroCopy'' \<in> set (hello_names b wb)) \<and>
    ch_zero_copy (w_channels wb2 b) = (bytes_of ''ZeroCopy'' \<in> set (hello_names a wa))"
proof -
  have zc: "0 \<notin> set (bytes_of ''ZeroCopy'')" by (simp add: bytes_of_def)
  have names: "\<forall>s \<in> set (hello_names a wa). 0 \<notin> set s" "\<forall>s \<in> set (hello_names b wb). 0 \<notin> set s"
    using assms(3,4) zc by (auto simp: hello_names_def own_services_def)
  define wa1 where "wa1 = mod_channel a (\<lambda>ch. ch\<lparr>ch_state := ChannelStateHelloSent\<rparr>) (mod_channel a (\<lambda>ch. ch\<lparr>ch_out :=
      write_hello item_class (\<not> ch_disable_zero_copy (w_channels wa a))
        (own_services (ch_protocol (w_channels wa a)) (w_services wa)) (ch_out ch)\<rparr>) wa)"
  define wb1 where "wb1 = mod_channel b (\<lambda>ch. ch\<lparr>ch_inp := inb, ch_zero_copy := bytes_of ''ZeroCopy'' \<in> set (hello_names a wa),
      ch_peer_services := (if hello_names a wa = [] then None else Some (hello_names a wa)),
      ch_state := ChannelStateHelloReceived\<rparr>) wb"
  define wb2 where "wb2 = mod_channel b (\<lambda>ch. ch\<lparr>ch_state := ChannelStateConnected\<rparr>) (mod_channel b (\<lambda>ch. ch\<lparr>ch_out :=
      write_hello item_class (\<not> ch_disable_zero_copy (w_channels wb b))
        (own_services (ch_protocol (w_channels wb b)) (w_services wb)) (ch_out ch)\<rparr>) wb1)"
  define wa2 where "wa2 = mod_channel a (\<lambda>ch. ch\<lparr>ch_inp := ina, ch_zero_copy := bytes_of ''ZeroCopy'' \<in> set (hello_names b wb),
      ch_peer_services := (if hello_names b wb = [] then None else Some (hello_names b wb)),
      ch_state := ChannelStateConnected\<rparr>) wa1"
  have a1: "send_hello_message item_class ea a wa = Inr ((), wa1)"
    using send_hello_ok [of wa a item_class ea] assms(1) by (simp add: wa1_def)
  have b1: "handle_protocol_message item_class eb b (with_input b (hello_text (hello_names a wa) @ inb) wb) = Inr ((), wb1)"
    using receive_hello_ok [of "with_input b (hello_text (hello_names a wa) @ inb) wb" b "hello_names a wa" inb item_class eb]
      assms(2) names(1) by (simp add: wb1_def with_input_def)
  have b2: "send_hello_message item_class eb b wb1 = call_opened eb b wb2"
    using send_hello_ok [of wb1 b item_class eb] by (simp add: wb1_def wb2_def)
  have a2: "handle_protocol_message item_class ea a (with_input a (hello_text (hello_names b wb) @ ina) wa1) = call_opened ea a wa2"
    using receive_hello_ok [of "with_input a (hello_text (hello_names b wb) @ ina) wa1" a "hello_names b wb" ina item_class ea]
      names(2) by (simp add: wa1_def wa2_def with_input_def)
  show ?thesis
    by (intro exI [of _ wa1] exI [of _ wb1] exI [of _ wb2] exI [of _ wa2] conjI a1 b1 a2 b2)
      (simp_all add: wa1_def wb1_def wa2_def wb2_def hello_out)
qed

section \<open>Closed channels\<close>



text \<open>A Hello with a null among the names of the services makes \<open>strcmp\<close> follow a null pointer.\<close>

theorem hello_null_service:
  assumes "ch_state (w_channels w c) \<in> {ChannelStateStarted, ChannelStateHelloSent}"
  shows "handle_protocol_message cl env c (with_input c (stringz (bytes_of ''E'') @ stringz LOCATOR @ stringz (bytes_of ''Hello'') @
    str ''[null]'' @ [0, MARKER_EOM]) w) = Inl Undefined"
  using assms
  by (auto simp: handle_protocol_message_def handle_event_def reader_simps read_type read_stringz_short short_hello
      event_locator_hello_def read_hello_def read_token_plain isspace_def json_read_alloc_string_def json_test_chars_def check_char_def)

text \<open>A peer without any service, and without zero copy, is taken for one that is not connected.\<close>

theorem empty_hello_fails_commands:
  assumes "ch_state (w_channels w c) = ChannelStateStarted"
  shows "\<exists>w1. handle_protocol_message cl env c (with_input c (hello_text [] @ rest) w) = Inr ((), w1) \<and>
    protocol_send_command_with_progress cl c service name handler progress w1 =
      Inr ((), w1\<lparr>w_failed := w_failed w1 @ [\<lparr>rh_tokenid = 0, rh_c = c, rh_handler = handler, rh_progress = progress\<rparr>]\<rparr>)"
  using receive_hello_ok [of "with_input c (hello_text [] @ rest) w" c "[]" rest cl env] assms
  by (simp add: protocol_send_command_with_progress_def)

section \<open>An example\<close>

text \<open>A connected channel at the address 16 of the protocol at 32, and clients that do nothing; a closed channel is counted.\<close>

definition idle_env :: "(item_stream, nat, nat) proto_env" where
  "idle_env = \<lparr>call_command = (\<lambda>_ _ _. retR ()), call_event = (\<lambda>_ _. retR ()), call_reply = (\<lambda>_ _ _. retR ()),
     call_progress = (\<lambda>_ _. retR ()), call_default = (\<lambda>_ _ _. retR ()), call_opened = (\<lambda>_. retR ()),
     call_notify_closed = (\<lambda>_. retR ()), call_closed = (\<lambda>_ _ n. Suc n)\<rparr>"

definition connected_channel :: "item_stream Channel" where
  "connected_channel = \<lparr>ch_inp = [], ch_out = \<lparr>is_zero_copy = False, is_items = []\<rparr>, ch_zero_copy = False,
     ch_disable_zero_copy = False, ch_protocol = 32, ch_peer_services = Some [bytes_of ''RunControl''],
     ch_congestion_level = 0, ch_state = ChannelStateConnected\<rparr>"

definition example_world :: "channel_state \<Rightarrow> (item_stream, nat, nat) world" where
  "example_world st = protocol_statics \<lparr>w_messages = [], w_events = [], w_replies = [], w_services = [], w_ini_done = False,
     w_proto_cnt = 0, w_agent_id = None,
     w_protocols = (\<lambda>_. \<lparr>p_id = 0, p_lock_cnt = 1, p_tokenid = 1, p_default_handler = None\<rparr>),
     w_channels = (\<lambda>_. connected_channel\<lparr>ch_state := st\<rparr>), w_failed = [], w_client = 0\<rparr>"

lemma env_ok_idle: "env_ok idle_env"
  by (simp add: env_ok_def idle_env_def keeps_retR)

lemma example_world_sel:
  "w_channels (example_world st) c = connected_channel\<lparr>ch_state := st\<rparr>"
  "p_default_handler (w_protocols (example_world st) p) = None"
  "w_services (example_world st) = []" "concat (w_replies (example_world st)) = []" "w_client (example_world st) = 0"
  by (simp_all add: example_world_def protocol_statics_def)

lemma tables_ok_example: "tables_ok (example_world st)"
  unfolding example_world_def by (rule tables_ok_statics)

lemma statics_idem: "protocol_statics (example_world st) = example_world st"
  by (simp add: example_world_def protocol_statics_def)

theorem command_dispatch_witness:
  "\<exists>w1. add_command_handlers [(32, bytes_of ''RunControl'', bytes_of ''resume'', 7)]
      (protocol_statics (example_world ChannelStateConnected)) = Inr ((), w1) \<and>
    handle_protocol_message item_class idle_env 16 (with_input 16 (command_text (bytes_of ''1'') (bytes_of ''RunControl'')
      (bytes_of ''resume'') @ [65, 0] @ MARKER_EOM # []) w1) =
    call_command idle_env 7 (bytes_of ''1'') 16 (with_input 16 ([65, 0] @ MARKER_EOM # []) w1)"
proof -
  obtain w1 where w1: "add_command_handlers [(32, bytes_of ''RunControl'', bytes_of ''resume'', 7)]
      (protocol_statics (example_world ChannelStateConnected)) = Inr ((), w1)"
    by (simp add: reader_simps add_command_handler2_def protocol_get_service_def statics_idem example_world_sel bytes_of_def)
  show ?thesis
    by (intro exI [of _ w1] conjI w1, subst command_dispatch [OF w1])
      (simp_all add: short_string_def example_world_sel connected_channel_def bytes_of_def)
qed

lemma example_send:
  obtains tokenid w1 where
    "protocol_send_command_with_progress item_class 16 service name handler progress (example_world ChannelStateConnected) = Inr ((), w1)"
    "waiting w1 (16, tokenid) = [\<lparr>rh_tokenid = tokenid, rh_c = 16, rh_handler = handler, rh_progress = progress\<rparr>]"
proof -
  let ?w = "example_world ChannelStateConnected"
  note w = tables_ok_example [of ChannelStateConnected]
  obtain tokenid where "waiting ?w (16, tokenid) = []" and
    "protocol_send_command_with_progress item_class 16 service name handler progress ?w =
      Inr ((), mod_channel 16 (\<lambda>ch. ch\<lparr>ch_out := write_command item_class tokenid service name (ch_out ch)\<rparr>)
        (mod_protocol 32 (\<lambda>pr. pr\<lparr>p_tokenid := tokenid + 1\<rparr>)
          (?w\<lparr>w_replies := chain_add (reply_hash (16, tokenid))
            \<lparr>rh_tokenid = tokenid, rh_c = 16, rh_handler = handler, rh_progress = progress\<rparr> (w_replies ?w)\<rparr>)))"
    by (rule send_ok [OF w, of 16 item_class service name handler progress])
      (simp_all add: is_channel_closed_def example_world_sel connected_channel_def)
  then show thesis
    using waiting_add [OF w, of "\<lparr>rh_tokenid = tokenid, rh_c = 16, rh_handler = handler, rh_progress = progress\<rparr>"]
    by (intro that [of _ tokenid]) (auto simp: waiting_def)
qed



theorem handshake_witness:
  "\<exists>wa1 wa2. send_hello_message item_class idle_env 16 (example_world ChannelStateStarted) = Inr ((), wa1) \<and>
    handle_protocol_message item_class idle_env 16 (with_input 16 (hello_text (hello_names 48 (example_world ChannelStateStarted)) @ []) wa1) =
      call_opened idle_env 16 wa2 \<and>
    ch_peer_services (w_channels wa2 16) = Some [bytes_of ''ZeroCopy'']"
proof -
  have "hello_names 48 (example_world ChannelStateStarted) = [bytes_of ''ZeroCopy'']"
    by (simp add: hello_names_def example_world_sel connected_channel_def own_services_def)
  with handshake [of "example_world ChannelStateStarted" 16 "example_world ChannelStateStarted" 48 idle_env idle_env "[]" "[]"]
  show ?thesis by (simp add: example_world_sel connected_channel_def) metis
qed



end
