(* ===== verification/Events.thy ===== *)
theory Events
  imports Prelude Hash_Table
begin

text \<open>
  framework/events.c: the queue of events, the queue of timed events, the pools of their nodes, cancelling, and the event loop.

  Nodes have addresses: those below \<open>EVENT_BUF_SIZE\<close> are the array \<open>event_buf\<close>, the others come from the heap, each
  allocation giving a new one. A linked list of nodes is the list of their addresses. The time that
  \<open>clock_gettime\<close> gives is an argument. What is done under \<open>event_lock\<close> is one step, and a wait on a condition
  variable is a state in which other threads go on.
\<close>

section \<open>State\<close>

type_synonym timespec = "int \<times> int"

record ('h, 'a) event_node =
  runtime :: timespec
  handler :: 'h
  arg :: 'a

text \<open>Where the dispatch thread is: at the head of its loop, in the loop that waits for events, behind it, or in the handler
  of a node.\<close>

datatype phase = Stopped | Looping | Refilling | Taking | Handling nat

record ('h, 'a) events =
  ev_node :: "nat \<Rightarrow> ('h, 'a) event_node"
  ev_heap :: nat
  free_queue :: "nat list"
  free_bg_queue :: "nat list"
  event_queue :: "nat list"
  event_last :: "nat option"
  timer_queue :: "nat list"
  cancel_handler :: "('h \<times> 'a) option"
  process_events :: bool
  events_timer_ms :: u32
  event_cnt :: nat
  last_tick_count_ms :: u32
  ev_phase :: phase

type_synonym ('h, 'a, 'r) event_op = "(('h, 'a) events, 'r) comp"

definition EVENT_BUF_SIZE :: nat where "EVENT_BUF_SIZE = 512"

definition modE :: "(('h, 'a) events \<Rightarrow> ('h, 'a) events) \<Rightarrow> ('h, 'a, unit) event_op" where
  "modE f = (\<lambda>st. Inr ((), f st))"

section \<open>Nodes\<close>

definition alloc_event_node :: "('h, 'a, nat) event_op" where
  "alloc_event_node st =
     (case free_queue st of
        ev # evs \<Rightarrow> Inr (ev, st\<lparr>free_queue := evs\<rparr>)
      | [] \<Rightarrow> Inr (ev_heap st, st\<lparr>ev_heap := Suc (ev_heap st)\<rparr>))"

definition alloc_event_node_bg :: "('h, 'a, nat) event_op" where
  "alloc_event_node_bg st =
     (case free_bg_queue st of
        ev # evs \<Rightarrow> Inr (ev, st\<lparr>free_bg_queue := evs\<rparr>)
      | [] \<Rightarrow> Inr (ev_heap st, st\<lparr>ev_heap := Suc (ev_heap st)\<rparr>))"

definition free_event_node :: "nat \<Rightarrow> ('h, 'a) events \<Rightarrow> ('h, 'a) events" where
  "free_event_node ev st = (if ev < EVENT_BUF_SIZE then st\<lparr>free_queue := ev # free_queue st\<rparr> else st)"

definition set_node :: "nat \<Rightarrow> timespec \<Rightarrow> 'h \<Rightarrow> 'a \<Rightarrow> ('h, 'a) events \<Rightarrow> ('h, 'a) events" where
  "set_node ev t h a st = st\<lparr>ev_node := (ev_node st)(ev := \<lparr>runtime = t, handler = h, arg = a\<rparr>)\<rparr>"

section \<open>Time\<close>

definition time_cmp :: "timespec \<Rightarrow> timespec \<Rightarrow> exn + int" where
  "time_cmp tv1 tv2 =
     (if \<not> snd tv1 < 1000000000 then Inl Assertion
      else if \<not> snd tv2 < 1000000000 then Inl Assertion
      else if fst tv1 < fst tv2 then Inr (- 1)
      else if fst tv1 > fst tv2 then Inr 1
      else if snd tv1 < snd tv2 then Inr (- 1)
      else if snd tv1 > snd tv2 then Inr 1
      else Inr 0)"

definition time_add_usec :: "timespec \<Rightarrow> nat \<Rightarrow> timespec" where
  "time_add_usec tv usec =
     (let sec = fst tv + int (usec div 1000000); nsec = snd tv + int (usec mod 1000000) * 1000
      in if nsec \<ge> 1000000000 then (sec + 1, nsec - 1000000000) else (sec, nsec))"

section \<open>Posting\<close>

text \<open>A timed event goes behind all that are not later than it.\<close>

fun insert_timer :: "(nat \<Rightarrow> timespec) \<Rightarrow> nat \<Rightarrow> nat list \<Rightarrow> exn + nat list" where
  "insert_timer rt ev [] = Inr [ev]"
| "insert_timer rt ev (n # ns) =
     (case time_cmp (rt ev) (rt n) of
        Inl e \<Rightarrow> Inl e
      | Inr d \<Rightarrow>
          if d \<ge> 0 then (case insert_timer rt ev ns of Inl e \<Rightarrow> Inl e | Inr q \<Rightarrow> Inr (n # q)) else Inr (ev # n # ns))"

definition insert_event :: "nat \<Rightarrow> ('h, 'a, unit) event_op" where
  "insert_event ev st =
     (case insert_timer (\<lambda>n. runtime (ev_node st n)) ev (timer_queue st) of
        Inl e \<Rightarrow> Inl e
      | Inr q \<Rightarrow> Inr ((), st\<lparr>timer_queue := q\<rparr>))"

definition post_from_bg_thread :: "timespec \<Rightarrow> 'h \<Rightarrow> 'a \<Rightarrow> nat \<Rightarrow> ('h, 'a, unit) event_op" where
  "post_from_bg_thread now h a delay =
     (\<lambda>st. if cancel_handler st = Some (h, a) then Inr ((), st\<lparr>cancel_handler := None\<rparr>)
       else
         bindR alloc_event_node_bg (\<lambda>ev.
         seqR (modE (set_node ev (time_add_usec now delay) h a)) (insert_event ev)) st)"

definition post_event_with_delay :: "bool \<Rightarrow> timespec \<Rightarrow> 'h \<Rightarrow> 'a \<Rightarrow> nat \<Rightarrow> ('h, 'a, unit) event_op" where
  "post_event_with_delay is_event_thread now h a delay =
     (if is_event_thread then
        bindR alloc_event_node (\<lambda>ev.
        seqR (modE (set_node ev (time_add_usec now delay) h a)) (insert_event ev))
      else post_from_bg_thread now h a delay)"

text \<open>An event without a time has the second 0; the nanoseconds of the node are what they were.\<close>

definition add_last :: "nat \<Rightarrow> ('h, 'a, unit) event_op" where
  "add_last ev st =
     (if event_queue st = [] then
        (if event_last st \<noteq> None then Inl Assertion else Inr ((), st\<lparr>event_last := Some ev, event_queue := [ev]\<rparr>))
      else Inr ((), st\<lparr>event_queue := event_queue st @ [ev], event_last := Some ev\<rparr>))"

definition post_event :: "bool \<Rightarrow> timespec \<Rightarrow> 'h \<Rightarrow> 'a \<Rightarrow> ('h, 'a, unit) event_op" where
  "post_event is_event_thread now h a =
     (if is_event_thread then
        bindR alloc_event_node (\<lambda>ev.
        seqR (modE (\<lambda>st. set_node ev (0, snd (runtime (ev_node st ev))) h a st)) (add_last ev))
      else post_from_bg_thread now h a 0)"

section \<open>Cancelling\<close>

definition is_event :: "('h, 'a) events \<Rightarrow> 'h \<Rightarrow> 'a \<Rightarrow> nat \<Rightarrow> bool" where
  "is_event st h a ev \<longleftrightarrow> handler (ev_node st ev) = h \<and> arg (ev_node st ev) = a"

text \<open>The first node of a list with a property, the node before it, and whether it is the end of the list.\<close>

fun find_node :: "(nat \<Rightarrow> bool) \<Rightarrow> nat option \<Rightarrow> nat list \<Rightarrow> (nat option \<times> nat \<times> bool) option" where
  "find_node P prev [] = None"
| "find_node P prev (ev # evs) = (if P ev then Some (prev, ev, evs = []) else find_node P (Some ev) evs)"

definition cancel_queued :: "('h \<Rightarrow> 'a \<Rightarrow> ('h, 'a, bool) event_op)" where
  "cancel_queued h a st =
     (case find_node (is_event st h a) None (event_queue st) of
        None \<Rightarrow> Inr (False, st)
      | Some (prev, ev, at_end) \<Rightarrow>
          if at_end \<and> event_last st \<noteq> Some ev then Inl Assertion
          else Inr (True, free_event_node ev (st\<lparr>event_last := (if at_end then prev else event_last st),
                 event_queue := unlink (is_event st h a) (event_queue st)\<rparr>)))"

definition cancel_timed :: "('h \<Rightarrow> 'a \<Rightarrow> ('h, 'a, bool) event_op)" where
  "cancel_timed h a st =
     (case find_node (is_event st h a) None (timer_queue st) of
        None \<Rightarrow> Inr (False, st)
      | Some (prev, ev, at_end) \<Rightarrow>
          Inr (True, free_event_node ev (st\<lparr>timer_queue := unlink (is_event st h a) (timer_queue st)\<rparr>)))"

text \<open>The answer, or none while the caller waits for the event to be posted by another thread.\<close>

definition cancel_event :: "'h \<Rightarrow> 'a \<Rightarrow> bool \<Rightarrow> ('h, 'a, int option) event_op" where
  "cancel_event h a wait =
     (\<lambda>st. if cancel_handler st \<noteq> None then Inl Assertion
       else
         bindR (cancel_queued h a) (\<lambda>found.
         if found then retR (Some 1)
         else
           bindR (cancel_timed h a) (\<lambda>found.
           if found then retR (Some 1)
           else if \<not> wait then retR (Some 0)
           else seqR (modE (\<lambda>st. st\<lparr>cancel_handler := Some (h, a)\<rparr>)) (retR None))) st)"

section \<open>The event loop\<close>

definition ini_events_queue :: "('h, 'a) event_node \<Rightarrow> ('h, 'a) events" where
  "ini_events_queue blank =
     \<lparr>ev_node = (\<lambda>_. blank), ev_heap = EVENT_BUF_SIZE, free_queue = fold (#) [0..<EVENT_BUF_SIZE] [], free_bg_queue = [],
      event_queue = [], event_last = None, timer_queue = [], cancel_handler = None, process_events = False,
      events_timer_ms = 0, event_cnt = 0, last_tick_count_ms = 0, ev_phase = Stopped\<rparr>"

definition cancel_event_loop :: "('h, 'a) events \<Rightarrow> ('h, 'a) events" where
  "cancel_event_loop st = st\<lparr>process_events := False\<rparr>"

definition start_event_loop :: "('h, 'a) events \<Rightarrow> ('h, 'a) events" where
  "start_event_loop st =
     st\<lparr>event_cnt := 0, last_tick_count_ms := events_timer_ms st, process_events := True, ev_phase := Looping\<rparr>"

definition needs_refill :: "('h, 'a) events \<Rightarrow> bool" where
  "needs_refill st \<longleftrightarrow> event_queue st = [] \<or> event_cnt st \<ge> 100 \<or>
     event_cnt st \<ge> 1 \<and> events_timer_ms st - last_tick_count_ms st \<ge> 100"

text \<open>Free nodes are given to the background threads until they have two.\<close>

fun give_nodes :: "nat list \<Rightarrow> nat list \<Rightarrow> nat list \<times> nat list" where
  "give_nodes [] bg = ([], bg)"
| "give_nodes (x # xs) bg = (if bg = [] \<or> tl bg = [] then give_nodes xs (x # bg) else (x # xs, bg))"

definition start_refill :: "('h, 'a) events \<Rightarrow> ('h, 'a) events" where
  "start_refill st =
     (let (fq, bg) = give_nodes (free_queue st) (free_bg_queue st)
      in st\<lparr>event_cnt := 0, free_queue := fq, free_bg_queue := bg, ev_phase := Refilling\<rparr>)"

text \<open>The timed events whose time has come, and the others.\<close>

fun split_ready :: "(nat \<Rightarrow> timespec) \<Rightarrow> timespec \<Rightarrow> nat list \<Rightarrow> exn + nat list \<times> nat list" where
  "split_ready rt now [] = Inr ([], [])"
| "split_ready rt now (ev # evs) =
     (case time_cmp (rt ev) now of
        Inl e \<Rightarrow> Inl e
      | Inr d \<Rightarrow>
          if d \<le> 0 then (case split_ready rt now evs of Inl e \<Rightarrow> Inl e | Inr (r, q) \<Rightarrow> Inr (ev # r, q))
          else Inr ([], ev # evs))"

text \<open>One turn of the inner loop: it is left, or the thread waits and turns again.\<close>

definition poll_events :: "timespec \<Rightarrow> ('h, 'a, bool) event_op" where
  "poll_events now st0 =
     (let st = st0\<lparr>last_tick_count_ms := events_timer_ms st0\<rparr> in
      if timer_queue st \<noteq> [] then
        (case split_ready (\<lambda>n. runtime (ev_node st n)) now (timer_queue st) of
           Inl e \<Rightarrow> Inl e
         | Inr (ready, later) \<Rightarrow>
             if ready \<noteq> [] then
               (if event_queue st = [] \<and> event_last st \<noteq> None then Inl Assertion
                else Inr (True, st\<lparr>timer_queue := later, event_queue := ready @ event_queue st,
                  event_last := (if event_queue st = [] then Some (last ready) else event_last st)\<rparr>))
             else Inr (event_queue st \<noteq> [], st))
      else Inr (event_queue st \<noteq> [], st))"

text \<open>The first event is taken; its handler runs until \<open>end_event\<close>.\<close>

definition take_event :: "('h, 'a, nat) event_op" where
  "take_event st =
     (case event_queue st of
        [] \<Rightarrow> Inl Undefined
      | ev # evs \<Rightarrow>
          if evs = [] \<and> event_last st \<noteq> Some ev then Inl Assertion
          else Inr (ev, st\<lparr>event_queue := evs, event_last := (if evs = [] then None else event_last st),
            event_cnt := (if fst (runtime (ev_node st ev)) = 0 then Suc (event_cnt st) else event_cnt st),
            ev_phase := Handling ev\<rparr>))"

definition end_event :: "nat \<Rightarrow> ('h, 'a) events \<Rightarrow> ('h, 'a) events" where
  "end_event ev st = (free_event_node ev st)\<lparr>ev_phase := Looping\<rparr>"

end
