(* ===== verification/Events_Proofs.thy ===== *)
theory Events_Proofs
  imports Events "HOL-Library.Multiset"
begin

text \<open>
  The threads of the agent as a labelled transition system over the operations of \<open>Events\<close>, its invariant, and its
  refinement: the untimed events are a FIFO queue, the timed ones a multiset from which an event is taken only
  when its time has come, no node is used twice, and timed events do not keep the untimed ones waiting for ever.
\<close>

section \<open>Time\<close>

definition tle :: "timespec \<Rightarrow> timespec \<Rightarrow> bool" where
  "tle a b \<longleftrightarrow> fst a < fst b \<or> fst a = fst b \<and> snd a \<le> snd b"

definition time_ok :: "timespec \<Rightarrow> bool" where
  "time_ok t \<longleftrightarrow> 0 < fst t \<and> 0 \<le> snd t \<and> snd t < 1000000000"

lemma tle_refl [simp]: "tle a a"
  by (simp add: tle_def)

lemma tle_trans: "tle a b \<Longrightarrow> tle b c \<Longrightarrow> tle a c"
  by (auto simp: tle_def)

lemma tle_linear: "tle a b \<or> tle b a"
  by (auto simp: tle_def)

lemma time_cmp_ok:
  assumes "time_ok a" "time_ok b"
  obtains d where "time_cmp a b = Inr d" "0 \<le> d \<longleftrightarrow> tle b a" "d \<le> 0 \<longleftrightarrow> tle a b"
  using assms by (intro that [of "if tle a b then (if tle b a then 0 else - 1) else 1"])
    (auto simp: time_cmp_def time_ok_def tle_def)

lemma time_ok_add: "time_ok t \<Longrightarrow> time_ok (time_add_usec t usec)"
proof -
  assume t: "time_ok t"
  have "int (usec mod 1000000) * 1000 < 1000000000" by (simp add: zmod_int)
  then show "time_ok (time_add_usec t usec)" using t by (auto simp: time_ok_def time_add_usec_def Let_def)
qed

lemma tle_add: "time_ok t \<Longrightarrow> tle t (time_add_usec t usec)"
  by (auto simp: time_ok_def time_add_usec_def Let_def tle_def)

section \<open>Lists of nodes\<close>

lemma insert_timer_ok:
  assumes "time_ok (rt ev)" "\<forall>n \<in> set q. time_ok (rt n)"
  shows "insert_timer rt ev q =
    Inr (takeWhile (\<lambda>n. tle (rt n) (rt ev)) q @ ev # dropWhile (\<lambda>n. tle (rt n) (rt ev)) q)"
  using assms(2)
proof (induction q)
  case (Cons n q)
  obtain d where "time_cmp (rt ev) (rt n) = Inr d" "0 \<le> d \<longleftrightarrow> tle (rt n) (rt ev)"
    using time_cmp_ok [OF assms(1), of "rt n"] Cons.prems by auto
  with Cons show ?case by simp
qed simp

lemma split_ready_ok:
  assumes "time_ok now" "\<forall>n \<in> set q. time_ok (rt n)"
  shows "split_ready rt now q = Inr (takeWhile (\<lambda>n. tle (rt n) now) q, dropWhile (\<lambda>n. tle (rt n) now) q)"
  using assms(2)
proof (induction q)
  case (Cons n q)
  obtain d where "time_cmp (rt n) now = Inr d" "d \<le> 0 \<longleftrightarrow> tle (rt n) now"
    using time_cmp_ok [OF _ assms(1), of "rt n"] Cons.prems by auto
  with Cons show ?case by simp
qed simp

lemma sorted_insert:
  assumes "sorted_wrt (\<lambda>m n. tle (rt m) (rt n)) q"
  shows "sorted_wrt (\<lambda>m n. tle (rt m) (rt n)) (takeWhile (\<lambda>n. tle (rt n) (rt ev)) q @ ev # dropWhile (\<lambda>n. tle (rt n) (rt ev)) q)"
  using assms
proof (induction q)
  case (Cons n q)
  show ?case
  proof (cases "tle (rt n) (rt ev)")
    case True
    have "set (takeWhile (\<lambda>n. tle (rt n) (rt ev)) q) \<union> set (dropWhile (\<lambda>n. tle (rt n) (rt ev)) q) = set q"
      by (metis set_append takeWhile_dropWhile_id)
    with True Cons show ?thesis by auto
  next
    case False
    then have "tle (rt ev) (rt n)" using tle_linear by blast
    with Cons.prems False show ?thesis by (auto intro: tle_trans)
  qed
qed simp

lemma find_node_None: "find_node P prev xs = None \<longleftrightarrow> (\<forall>x \<in> set xs. \<not> P x)"
  by (induction xs arbitrary: prev) auto

lemma find_node_Some:
  "find_node P prev xs = Some (p, ev, at_end) \<Longrightarrow>
    \<exists>ys zs. xs = ys @ ev # zs \<and> P ev \<and> (\<forall>y \<in> set ys. \<not> P y) \<and> at_end = (zs = []) \<and> p = (if ys = [] then prev else Some (last ys)) \<and>
      unlink P xs = ys @ zs"
proof (induction xs arbitrary: prev)
  case (Cons x xs)
  show ?case
  proof (cases "P x")
    case True
    with Cons.prems show ?thesis by (intro exI [of _ "[]"] exI [of _ xs]) auto
  next
    case False
    with Cons obtain ys zs where "xs = ys @ ev # zs \<and> P ev \<and> (\<forall>y \<in> set ys. \<not> P y) \<and> at_end = (zs = []) \<and>
        p = (if ys = [] then Some x else Some (last ys)) \<and> unlink P xs = ys @ zs" by fastforce
    with False show ?thesis by (intro exI [of _ "x # ys"] exI [of _ zs]) auto
  qed
qed simp

lemma give_nodes_mset: "give_nodes fq bg = (fq', bg') \<Longrightarrow> mset fq' + mset bg' = mset fq + mset bg"
  by (induction fq bg rule: give_nodes.induct) (auto split: if_splits)

section \<open>The threads\<close>

text \<open>The dispatch thread runs code of the agent: before the loop is started, or in a handler, and is not waiting in
  \<open>cancel_event\<close>.\<close>

definition dispatching :: "('h, 'a) events \<Rightarrow> bool" where
  "dispatching st \<longleftrightarrow> (ev_phase st = Stopped \<or> (\<exists>ev. ev_phase st = Handling ev)) \<and> cancel_handler st = None"

text \<open>What a step does: an event is posted (without or with a time), cancelled (with the answer), caught by a waiting
  \<open>cancel_event\<close>, or its handler is called; the clock is read, or
  new events are looked for (while others are waiting, or not).\<close>

datatype ('h, 'a) ev_label =
    Post 'h 'a
  | Post_timed timespec 'h 'a
  | Cancel 'h 'a "int option"
  | Caught 'h 'a
  | Clock timespec
  | Refill bool
  | Run timespec 'h 'a
  | Tau

inductive ev_step :: "('h, 'a) events \<Rightarrow> ('h, 'a) ev_label \<Rightarrow> ('h, 'a) events \<Rightarrow> bool" where
  post: "dispatching st \<Longrightarrow> post_event True now h a st = Inr ((), st') \<Longrightarrow> ev_step st (Post h a) st'"
| post_delayed: "dispatching st \<Longrightarrow> time_ok now \<Longrightarrow> post_event_with_delay True now h a delay st = Inr ((), st') \<Longrightarrow>
    ev_step st (Post_timed (time_add_usec now delay) h a) st'"
| post_bg: "time_ok now \<Longrightarrow> cancel_handler st \<noteq> Some (h, a) \<Longrightarrow> post_event False now h a st = Inr ((), st') \<Longrightarrow>
    ev_step st (Post_timed (time_add_usec now 0) h a) st'"
| post_bg_delayed: "time_ok now \<Longrightarrow> cancel_handler st \<noteq> Some (h, a) \<Longrightarrow>
    post_event_with_delay False now h a delay st = Inr ((), st') \<Longrightarrow>
    ev_step st (Post_timed (time_add_usec now delay) h a) st'"
| caught: "cancel_handler st = Some (h, a) \<Longrightarrow> post_event_with_delay False now h a delay st = Inr ((), st') \<Longrightarrow>
    ev_step st (Caught h a) st'"
| cancel: "dispatching st \<Longrightarrow> cancel_event h a wait st = Inr (r, st') \<Longrightarrow> ev_step st (Cancel h a r) st'"
| tick: "ev_step st Tau (st\<lparr>events_timer_ms := ms\<rparr>)"
| stop: "dispatching st \<Longrightarrow> ev_step st Tau (cancel_event_loop st)"
| start: "ev_phase st = Stopped \<Longrightarrow> cancel_handler st = None \<Longrightarrow> ev_step st Tau (start_event_loop st)"
| leave: "ev_phase st = Looping \<Longrightarrow> \<not> process_events st \<Longrightarrow> ev_step st Tau (st\<lparr>ev_phase := Stopped\<rparr>)"
| proceed: "ev_phase st = Looping \<Longrightarrow> process_events st \<Longrightarrow> \<not> needs_refill st \<Longrightarrow> ev_step st Tau (st\<lparr>ev_phase := Taking\<rparr>)"
| refill: "ev_phase st = Looping \<Longrightarrow> process_events st \<Longrightarrow> needs_refill st \<Longrightarrow>
    ev_step st (Refill (event_queue st \<noteq> [])) (start_refill st)"
| poll_wait: "ev_phase st = Refilling \<Longrightarrow> time_ok now \<Longrightarrow> poll_events now st = Inr (False, st') \<Longrightarrow> ev_step st (Clock now) st'"
| poll_done: "ev_phase st = Refilling \<Longrightarrow> time_ok now \<Longrightarrow> poll_events now st = Inr (True, st') \<Longrightarrow>
    ev_step st (Clock now) (st'\<lparr>ev_phase := Taking\<rparr>)"
| run: "ev_phase st = Taking \<Longrightarrow> take_event st = Inr (ev, st') \<Longrightarrow>
    ev_step st (Run (runtime (ev_node st ev)) (handler (ev_node st ev)) (arg (ev_node st ev))) st'"
| ended: "ev_phase st = Handling ev \<Longrightarrow> cancel_handler st = None \<Longrightarrow> ev_step st Tau (end_event ev st)"

text \<open>Runs, with what was done so far, the latest last.\<close>

inductive ev_run :: "('h, 'a) ev_label list \<Rightarrow> ('h, 'a) events \<Rightarrow> bool" where
  init: "ev_run [] (ini_events_queue blank)"
| step: "ev_run tr st \<Longrightarrow> ev_step st l st' \<Longrightarrow> ev_run (tr @ [l]) st'"

section \<open>The invariant\<close>

definition running :: "('h, 'a) events \<Rightarrow> nat multiset" where
  "running st = (case ev_phase st of Handling ev \<Rightarrow> {#ev#} | _ \<Rightarrow> {#})"

definition nodes :: "('h, 'a) events \<Rightarrow> nat multiset" where
  "nodes st = mset (event_queue st) + mset (timer_queue st) + mset (free_queue st) + mset (free_bg_queue st) + running st"

text \<open>Every node of the array is in exactly one place, and so is every node of the heap that is in use.\<close>

definition owns :: "nat \<Rightarrow> nat multiset \<Rightarrow> bool" where
  "owns hp M \<longleftrightarrow> EVENT_BUF_SIZE \<le> hp \<and>
     (\<forall>n. count M n \<le> 1 \<and> (n < EVENT_BUF_SIZE \<longrightarrow> count M n = 1) \<and> (hp \<le> n \<longrightarrow> count M n = 0))"

definition pools_ok :: "('h, 'a) events \<Rightarrow> bool" where
  "pools_ok st \<longleftrightarrow> set (free_queue st) \<union> set (free_bg_queue st) \<subseteq> {..<EVENT_BUF_SIZE}"

definition nodes_ok :: "('h, 'a) events \<Rightarrow> bool" where
  "nodes_ok st \<longleftrightarrow> owns (ev_heap st) (nodes st) \<and> pools_ok st"

definition last_ok :: "('h, 'a) events \<Rightarrow> bool" where
  "last_ok st \<longleftrightarrow> event_last st = (if event_queue st = [] then None else Some (last (event_queue st)))"

abbreviation rt :: "('h, 'a) events \<Rightarrow> nat \<Rightarrow> timespec" where
  "rt st n \<equiv> runtime (ev_node st n)"

definition timers_ok :: "('h, 'a) events \<Rightarrow> bool" where
  "timers_ok st \<longleftrightarrow> (\<forall>n \<in> set (timer_queue st). time_ok (rt st n)) \<and>
     sorted_wrt (\<lambda>m n. tle (rt st m) (rt st n)) (timer_queue st)"

definition is_timed :: "('h, 'a) events \<Rightarrow> nat \<Rightarrow> bool" where
  "is_timed st n \<longleftrightarrow> fst (rt st n) \<noteq> 0"

definition timed_part :: "('h, 'a) events \<Rightarrow> nat list" where
  "timed_part st = filter (is_timed st) (event_queue st)"

definition untimed_part :: "('h, 'a) events \<Rightarrow> nat list" where
  "untimed_part st = filter (\<lambda>n. \<not> is_timed st n) (event_queue st)"

text \<open>The timed events that are ready come before all untimed ones, and there are none left when new ones are looked for.\<close>

definition order_ok :: "('h, 'a) events \<Rightarrow> bool" where
  "order_ok st \<longleftrightarrow> event_queue st = timed_part st @ untimed_part st \<and>
     (event_cnt st > 0 \<or> ev_phase st = Refilling \<longrightarrow> timed_part st = [])"

definition phase_ok :: "('h, 'a) events \<Rightarrow> bool" where
  "phase_ok st \<longleftrightarrow> (ev_phase st = Taking \<longrightarrow> event_queue st \<noteq> []) \<and> (ev_phase st = Refilling \<longrightarrow> event_cnt st = 0) \<and>
     (cancel_handler st \<noteq> None \<longrightarrow> ev_phase st = Stopped \<or> (\<exists>ev. ev_phase st = Handling ev))"

definition ev_inv :: "('h, 'a) events \<Rightarrow> bool" where
  "ev_inv st \<longleftrightarrow> nodes_ok st \<and> last_ok st \<and> timers_ok st \<and> order_ok st \<and> phase_ok st"

lemmas ev_inv_defs = ev_inv_def last_ok_def timers_ok_def order_ok_def phase_ok_def

lemma owns_new: "owns hp M \<Longrightarrow> owns (Suc hp) (add_mset hp M)"
  by (auto simp: owns_def)

lemma owns_drop:
  assumes "owns hp (add_mset ev M)" "EVENT_BUF_SIZE \<le> ev"
  shows "owns hp M"
proof -
  have "count M n \<le> 1 \<and> (n < EVENT_BUF_SIZE \<longrightarrow> count M n = 1) \<and> (hp \<le> n \<longrightarrow> count M n = 0)" for n
    using assms by (cases "n = ev") (auto simp: owns_def dest: spec [of _ n])
  then show ?thesis using assms(1) by (simp add: owns_def)
qed

lemma owns_notin:
  assumes "owns hp (add_mset ev M)"
  shows "ev \<notin># M"
proof -
  have "count (add_mset ev M) ev \<le> 1" using assms unfolding owns_def by blast
  then show ?thesis by (simp add: count_eq_zero_iff [symmetric])
qed

text \<open>A node that was just allocated is in no list yet.\<close>

definition with_node :: "nat \<Rightarrow> ('h, 'a) events \<Rightarrow> bool" where
  "with_node ev st \<longleftrightarrow> owns (ev_heap st) (add_mset ev (nodes st)) \<and> pools_ok st"

lemma nodes_pool:
  "nodes (st\<lparr>free_queue := fq\<rparr>) = mset (event_queue st) + mset (timer_queue st) + mset fq + mset (free_bg_queue st) + running st"
  "nodes (st\<lparr>free_bg_queue := bg\<rparr>) = mset (event_queue st) + mset (timer_queue st) + mset (free_queue st) + mset bg + running st"
  "nodes (st\<lparr>ev_heap := hp\<rparr>) = nodes st"
  by (simp_all add: nodes_def running_def)

lemma alloc_ok:
  assumes "nodes_ok st" "alloc_event_node st = Inr (ev, st') \<or> alloc_event_node_bg st = Inr (ev, st')"
  shows "with_node ev st'" "\<exists>hp fq bg. st' = st\<lparr>ev_heap := hp, free_queue := fq, free_bg_queue := bg\<rparr>"
proof -
  note ok = assms(1) [unfolded nodes_ok_def]
  from assms(2) consider fq where "free_queue st = ev # fq" "st' = st\<lparr>free_queue := fq\<rparr>"
    | bg where "free_bg_queue st = ev # bg" "st' = st\<lparr>free_bg_queue := bg\<rparr>"
    | "ev = ev_heap st" "st' = st\<lparr>ev_heap := Suc (ev_heap st)\<rparr>"
    by (auto simp: alloc_event_node_def alloc_event_node_bg_def split: list.splits)
  then show "with_node ev st'"
  proof cases
    case (1 fq)
    then have "add_mset ev (nodes st') = nodes st" by (simp add: nodes_pool) (simp add: nodes_def)
    with 1 ok show ?thesis by (simp add: with_node_def pools_ok_def)
  next
    case (2 bg)
    then have "add_mset ev (nodes st') = nodes st" by (simp add: nodes_pool) (simp add: nodes_def)
    with 2 ok show ?thesis by (simp add: with_node_def pools_ok_def)
  next
    case 3
    with ok owns_new [of "ev_heap st" "nodes st"] show ?thesis by (simp add: with_node_def pools_ok_def nodes_pool)
  qed
  show "\<exists>hp fq bg. st' = st\<lparr>ev_heap := hp, free_queue := fq, free_bg_queue := bg\<rparr>"
  proof (intro exI)
    show "st' = st\<lparr>ev_heap := ev_heap st', free_queue := free_queue st', free_bg_queue := free_bg_queue st'\<rparr>"
      using assms(2) by (auto simp: alloc_event_node_def alloc_event_node_bg_def split: list.splits)
  qed
qed

lemma free_ok:
  assumes "with_node ev st"
  shows "nodes_ok (free_event_node ev st)"
proof (cases "ev < EVENT_BUF_SIZE")
  case True
  then have "nodes (free_event_node ev st) = add_mset ev (nodes st)" by (simp add: free_event_node_def nodes_pool) (simp add: nodes_def)
  with True assms show ?thesis by (simp add: free_event_node_def with_node_def nodes_ok_def pools_ok_def)
next
  case False
  with assms owns_drop [of "ev_heap st" ev "nodes st"] show ?thesis
    by (simp add: free_event_node_def with_node_def nodes_ok_def)
qed

section \<open>The specification\<close>

text \<open>A queue of untimed events and a multiset of timed ones.\<close>

type_synonym ('h, 'a) ev_spec = "('h \<times> 'a) list \<times> (timespec \<times> 'h \<times> 'a) multiset"

inductive spec_step :: "('h, 'a) ev_spec \<Rightarrow> ('h, 'a) ev_label \<Rightarrow> ('h, 'a) ev_spec \<Rightarrow> bool" where
  spec_post: "spec_step (q, T) (Post h a) (q @ [(h, a)], T)"
| spec_post_timed: "spec_step (q, T) (Post_timed t h a) (q, add_mset (t, h, a) T)"
| spec_cancel: "(h, a) \<notin> set xs \<Longrightarrow> spec_step (xs @ (h, a) # ys, T) (Cancel h a (Some 1)) (xs @ ys, T)"
| spec_cancel_timed: "spec_step (q, add_mset (t, h, a) T) (Cancel h a (Some 1)) (q, T)"
| spec_cancel_none: "(h, a) \<notin> set q \<Longrightarrow> (\<And>t. (t, h, a) \<notin># T) \<Longrightarrow> r = Some 0 \<or> r = None \<Longrightarrow> spec_step (q, T) (Cancel h a r) (q, T)"
| spec_caught: "spec_step s (Caught h a) s"
| spec_run: "fst t = 0 \<Longrightarrow> spec_step ((h, a) # q, T) (Run t h a) (q, T)"
| spec_run_timed: "fst t \<noteq> 0 \<Longrightarrow> spec_step (q, add_mset (t, h, a) T) (Run t h a) (q, T)"
| spec_clock: "spec_step s (Clock now) s"
| spec_refill: "spec_step s (Refill b) s"
| spec_tau: "spec_step s Tau s"

definition ev_of :: "('h, 'a) events \<Rightarrow> nat \<Rightarrow> 'h \<times> 'a" where
  "ev_of st n = (handler (ev_node st n), arg (ev_node st n))"

definition timed_ev :: "('h, 'a) events \<Rightarrow> nat \<Rightarrow> timespec \<times> 'h \<times> 'a" where
  "timed_ev st n = (rt st n, ev_of st n)"

definition abs_events :: "('h, 'a) events \<Rightarrow> ('h, 'a) ev_spec" where
  "abs_events st =
     (map (ev_of st) (untimed_part st), image_mset (timed_ev st) (mset (timer_queue st) + mset (timed_part st)))"

section \<open>Every step keeps the invariant and is one of the specification\<close>

text \<open>A timed event becomes ready only when the clock is read, and shows its time.\<close>

definition ready_from :: "('h, 'a) events \<Rightarrow> ('h, 'a) ev_label \<Rightarrow> ('h, 'a) events \<Rightarrow> bool" where
  "ready_from st l st' \<longleftrightarrow> (\<forall>n \<in> set (timed_part st').
     n \<in> set (timed_part st) \<and> rt st' n = rt st n \<or> (\<exists>now. l = Clock now \<and> tle (rt st' n) now))"

definition simulates :: "('h, 'a) events \<Rightarrow> ('h, 'a) ev_label \<Rightarrow> ('h, 'a) events \<Rightarrow> bool" where
  "simulates st l st' \<longleftrightarrow> ev_inv st' \<and> spec_step (abs_events st) l (abs_events st') \<and> ready_from st l st'"

text \<open>States with the same lists and the same contents of the nodes in them.\<close>

lemma parts_cong:
  assumes "event_queue st' = event_queue st" "timer_queue st' = timer_queue st"
    "\<And>n. n \<in> set (event_queue st) \<union> set (timer_queue st) \<Longrightarrow> ev_node st' n = ev_node st n"
  shows "timed_part st' = timed_part st" "untimed_part st' = untimed_part st" "abs_events st' = abs_events st"
    "timers_ok st' = timers_ok st"
proof -
  show t: "timed_part st' = timed_part st" and u: "untimed_part st' = untimed_part st"
    using assms by (auto simp: timed_part_def untimed_part_def is_timed_def intro!: filter_cong)
  have "set (timed_part st) \<union> set (untimed_part st) \<subseteq> set (event_queue st)" by (auto simp: timed_part_def untimed_part_def)
  then show "abs_events st' = abs_events st"
    using assms t u by (auto simp: abs_events_def timed_ev_def ev_of_def subset_iff intro!: image_mset_cong arg_cong2 [of _ _ _ _ "(+)"])
  have "sorted_wrt (\<lambda>m n. tle (rt st' m) (rt st' n)) (timer_queue st) = sorted_wrt (\<lambda>m n. tle (rt st m) (rt st n)) (timer_queue st)"
    using assms(3) by (intro iffI; elim sorted_wrt_mono_rel [rotated]) auto
  then show "timers_ok st' = timers_ok st" using assms by (simp add: timers_ok_def)
qed

lemma node_funs:
  assumes "ev_node st' = ev_node st"
  shows "is_timed st' = is_timed st" "ev_of st' = ev_of st" "timed_ev st' = timed_ev st"
  using assms by (simp_all add: is_timed_def ev_of_def timed_ev_def fun_eq_iff)

lemma ready_same:
  "timed_part st' = timed_part st \<Longrightarrow> (\<And>n. n \<in> set (timed_part st) \<Longrightarrow> ev_node st' n = ev_node st n) \<Longrightarrow> ready_from st l st'"
  by (simp add: ready_from_def)

lemma timed_part_subset: "set (timed_part st) \<subseteq> set (event_queue st)"
  by (auto simp: timed_part_def)

lemma nodes_mem:
  "n \<in> set (event_queue st) \<Longrightarrow> n \<in># nodes st" "n \<in> set (timer_queue st) \<Longrightarrow> n \<in># nodes st"
  by (simp_all add: nodes_def)

lemma new_node_cong:
  fixes t :: timespec and h :: 'h and a :: 'a
  assumes "with_node ev st"
  defines "st' \<equiv> set_node ev t h a st"
  shows "event_queue st' = event_queue st" "timer_queue st' = timer_queue st"
    "n \<in> set (event_queue st) \<union> set (timer_queue st) \<Longrightarrow> ev_node st' n = ev_node st n"
    "nodes st' = nodes st" "ev_node st' ev = \<lparr>runtime = t, handler = h, arg = a\<rparr>" "with_node ev st'"
    "event_last st' = event_last st" "event_cnt st' = event_cnt st" "ev_phase st' = ev_phase st"
    "cancel_handler st' = cancel_handler st" "ev_heap st' = ev_heap st" "pools_ok st' = pools_ok st"
  using assms(1) owns_notin [of "ev_heap st" ev "nodes st"]
  by (auto simp: st'_def set_node_def with_node_def nodes_def running_def pools_ok_def)

lemma alloc_keeps:
  assumes "ev_inv st" "alloc_event_node st = Inr (ev, st1) \<or> alloc_event_node_bg st = Inr (ev, st1)"
  shows "with_node ev st1" "last_ok st1" "timers_ok st1" "order_ok st1" "phase_ok st1" "abs_events st1 = abs_events st"
    "cancel_handler st1 = cancel_handler st" "ev_phase st1 = ev_phase st" "timed_part st1 = timed_part st" "ev_node st1 = ev_node st"
proof -
  have inv: "nodes_ok st" "last_ok st" "timers_ok st" "order_ok st" "phase_ok st" using assms(1) by (simp_all add: ev_inv_def)
  show "with_node ev st1" by (rule alloc_ok(1) [OF inv(1) assms(2)])
  obtain hp fq bg where st1: "st1 = st\<lparr>ev_heap := hp, free_queue := fq, free_bg_queue := bg\<rparr>"
    using alloc_ok(2) [OF inv(1) assms(2)] by blast
  have same: "timed_part st1 = timed_part st" "untimed_part st1 = untimed_part st" "abs_events st1 = abs_events st" "timers_ok st1 = timers_ok st"
    by (rule parts_cong; simp add: st1)+
  show "last_ok st1" "timers_ok st1" "order_ok st1" "phase_ok st1" "abs_events st1 = abs_events st"
    "cancel_handler st1 = cancel_handler st" "ev_phase st1 = ev_phase st" "timed_part st1 = timed_part st" "ev_node st1 = ev_node st"
    using inv same by (simp_all add: last_ok_def order_ok_def phase_ok_def st1)
qed

lemma post_untimed_ok:
  assumes "ev_inv st" "ev_phase st \<noteq> Refilling" "post_event True now h a st = Inr ((), st')"
  shows "simulates st (Post h a) st'"
proof -
  obtain ev st1 where al: "alloc_event_node st = Inr (ev, st1)"
    and add: "add_last ev (set_node ev (0, snd (rt st1 ev)) h a st1) = Inr ((), st')"
    using assms(3) by (auto simp: post_event_def modE_def elim!: bindR_InrE seqR_InrE)
  note k = alloc_keeps [OF assms(1) disjI1 [OF al]]
  define st2 where "st2 = set_node ev (0, snd (rt st1 ev)) h a st1"
  note n = new_node_cong [OF k(1), where t = "(0, snd (rt st1 ev))" and h = h and a = a, folded st2_def]
  note same = parts_cong [OF n(1,2) n(3)]
  have st': "st' = st2\<lparr>event_queue := event_queue st2 @ [ev], event_last := Some ev\<rparr>"
    using add by (auto simp: add_last_def st2_def [symmetric] split: if_splits)
  have nodes': "nodes st' = add_mset ev (nodes st2)" by (simp add: st' nodes_def running_def)
  have nd: "ev_node st' = ev_node st2" by (simp add: st')
  have q: "event_queue st' = event_queue st2 @ [ev]" "timer_queue st' = timer_queue st2" by (simp_all add: st')
  have u: "\<not> is_timed st2 ev" using n(5) by (simp add: is_timed_def)
  have parts: "timed_part st' = timed_part st1" "untimed_part st' = untimed_part st1 @ [ev]"
    using same(1,2) u by (simp_all add: timed_part_def untimed_part_def node_funs [OF nd] q)
  have "nodes_ok st'" using n(6) nodes' by (simp add: with_node_def nodes_ok_def st' pools_ok_def)
  moreover have "last_ok st'" "phase_ok st'" using k(5) n by (simp_all add: last_ok_def phase_ok_def st')
  moreover have "timers_ok st'"
    using k(3) same(4) by (simp add: timers_ok_def st')
  moreover have "order_ok st'"
    using k(4) n parts by (simp add: order_ok_def st')
  moreover have "abs_events st' = (fst (abs_events st) @ [(h, a)], snd (abs_events st))"
  proof -
    have "abs_events st2 = abs_events st" using same(3) k(6) by simp
    moreover have "ev_of st2 ev = (h, a)" using n(5) by (simp add: ev_of_def)
    ultimately show ?thesis using parts same(1,2) q(2) by (auto simp: abs_events_def node_funs [OF nd])
  qed
  moreover have "ready_from st (Post h a) st'"
    using parts(1) k(9,10) n(3) nd timed_part_subset [of st1] by (intro ready_same) auto
  ultimately show ?thesis
    by (cases "abs_events st") (auto simp: simulates_def ev_inv_def intro: spec_post)
qed

text \<open>A timed event posted by any thread.\<close>

lemma insert_timed_ok:
  assumes "ev_inv st" "alloc_event_node st = Inr (ev, st1) \<or> alloc_event_node_bg st = Inr (ev, st1)" "time_ok t"
  shows "\<exists>st'. insert_event ev (set_node ev t h a st1) = Inr ((), st') \<and> simulates st (Post_timed t h a) st'"
proof -
  note k = alloc_keeps [OF assms(1,2)]
  define st2 where "st2 = set_node ev t h a st1"
  note n = new_node_cong [OF k(1), where t = t and h = h and a = a, folded st2_def]
  note same = parts_cong [OF n(1,2) n(3)]
  let ?Q = "\<lambda>m. tle (rt st2 m) t"
  define q where "q = takeWhile ?Q (timer_queue st2) @ ev # dropWhile ?Q (timer_queue st2)"
  define st' where "st' = st2\<lparr>timer_queue := q\<rparr>"
  have timers: "\<forall>m \<in> set (timer_queue st2). time_ok (rt st2 m)" "sorted_wrt (\<lambda>m n. tle (rt st2 m) (rt st2 n)) (timer_queue st2)"
    using k(3) same(4) by (simp_all add: timers_ok_def)
  have ins: "insert_event ev st2 = Inr ((), st')"
    using insert_timer_ok [of "rt st2" ev "timer_queue st2"] timers(1) assms(3) n(5)
    by (simp add: insert_event_def st'_def q_def)
  have tq: "mset q = add_mset ev (mset (timer_queue st2))"
    using takeWhile_dropWhile_id [of ?Q "timer_queue st2"] unfolding q_def by (metis mset_append mset.simps(2) union_mset_add_mset_right)
  have nd: "ev_node st' = ev_node st2" by (simp add: st'_def)
  have nodes': "nodes st' = add_mset ev (nodes st2)" by (simp add: st'_def nodes_def running_def tq)
  have parts: "timed_part st' = timed_part st1" "untimed_part st' = untimed_part st1"
    using same(1,2) by (simp_all add: timed_part_def untimed_part_def node_funs [OF nd], simp_all add: st'_def)
  have "nodes_ok st'" using n(6) nodes' by (simp add: with_node_def nodes_ok_def st'_def pools_ok_def)
  moreover have "last_ok st'" "phase_ok st'" "order_ok st'" using k n parts
    by (simp_all add: last_ok_def phase_ok_def order_ok_def st'_def)
  moreover have "timers_ok st'"
  proof -
    have "set q = insert ev (set (timer_queue st2))" using arg_cong [OF tq, of set_mset] by simp
    moreover have "sorted_wrt (\<lambda>m n. tle (rt st2 m) (rt st2 n)) q"
      using sorted_insert [OF timers(2), of ev] n(5) by (simp add: q_def)
    ultimately show ?thesis using timers(1) assms(3) n(5) by (simp add: timers_ok_def st'_def)
  qed
  moreover have "abs_events st' = (fst (abs_events st), add_mset (t, h, a) (snd (abs_events st)))"
  proof -
    have "abs_events st2 = abs_events st" using same(3) k(6) by simp
    moreover have "timed_ev st2 ev = (t, h, a)" using n(5) by (simp add: timed_ev_def ev_of_def)
    moreover have "timer_queue st' = q" by (simp add: st'_def)
    ultimately show ?thesis using parts same(1,2) tq by (auto simp: abs_events_def node_funs [OF nd])
  qed
  moreover have "ready_from st (Post_timed t h a) st'"
    using parts(1) k(9,10) n(3) nd timed_part_subset [of st1] by (intro ready_same) auto
  ultimately have "simulates st (Post_timed t h a) st'"
    by (cases "abs_events st") (auto simp: simulates_def ev_inv_def intro: spec_post_timed)
  with ins show ?thesis by (auto simp: st2_def)
qed

lemma alloc_succeeds: "\<exists>ev st'. alloc_event_node st = Inr (ev, st')" "\<exists>ev st'. alloc_event_node_bg st = Inr (ev, st')"
  by (simp_all add: alloc_event_node_def alloc_event_node_bg_def split: list.splits)

lemma post_timed_ok:
  assumes "ev_inv st" "time_ok now" "is_event_thread \<or> cancel_handler st \<noteq> Some (h, a)"
  shows "\<exists>st'. post_event_with_delay is_event_thread now h a delay st = Inr ((), st') \<and>
    simulates st (Post_timed (time_add_usec now delay) h a) st'"
proof -
  note t = time_ok_add [OF assms(2), of delay]
  show ?thesis
  proof (cases is_event_thread)
    case True
    obtain ev st1 where "alloc_event_node st = Inr (ev, st1)" using alloc_succeeds(1) by blast
    with insert_timed_ok [OF assms(1) disjI1 t, of ev st1 h a] True show ?thesis
      by (auto simp: post_event_with_delay_def modE_def bindR_apply seqR_apply)
  next
    case False
    obtain ev st1 where "alloc_event_node_bg st = Inr (ev, st1)" using alloc_succeeds(2) by blast
    with insert_timed_ok [OF assms(1) disjI2 t, of ev st1 h a] False assms(3) show ?thesis
      by (auto simp: post_event_with_delay_def post_from_bg_thread_def modE_def bindR_apply seqR_apply)
  qed
qed

text \<open>A step that changes neither the lists nor the nodes.\<close>

lemma quiet_ok:
  assumes "ev_inv st" "event_queue st' = event_queue st" "timer_queue st' = timer_queue st" "ev_node st' = ev_node st"
    "nodes st' = nodes st" "ev_heap st' = ev_heap st" "pools_ok st'" "event_last st' = event_last st"
    "event_cnt st' > 0 \<or> ev_phase st' = Refilling \<Longrightarrow> timed_part st = []" "phase_ok st'" "spec_step (abs_events st) l (abs_events st)"
  shows "simulates st l st'"
proof -
  have same: "timed_part st' = timed_part st" "untimed_part st' = untimed_part st" "abs_events st' = abs_events st" "timers_ok st' = timers_ok st"
    by (rule parts_cong; simp add: assms)+
  with assms show ?thesis by (auto simp: simulates_def ready_from_def ev_inv_def nodes_ok_def last_ok_def order_ok_def)
qed

lemma partition_sorted: "q = filter P q @ filter (\<lambda>n. \<not> P n) q \<longleftrightarrow> sorted_wrt (\<lambda>m n. P n \<longrightarrow> P m) q"
proof (induction q)
  case (Cons x q)
  show ?case
  proof (cases "P x")
    case True
    with Cons show ?thesis by simp
  next
    case False
    have "x # q = filter P q @ x # filter (\<lambda>n. \<not> P n) q \<longleftrightarrow> (\<forall>n \<in> set q. \<not> P n)"
    proof
      assume eq: "x # q = filter P q @ x # filter (\<lambda>n. \<not> P n) q"
      have "filter P q = []"
      proof (rule ccontr)
        assume "filter P q \<noteq> []"
        then obtain y ys where y: "filter P q = y # ys" by (cases "filter P q") auto
        have "y \<in> set (filter P q)" unfolding y by simp
        then have "P y" by auto
        with eq y False show False by simp
      qed
      then show "\<forall>n \<in> set q. \<not> P n" by (simp add: filter_empty_conv)
    next
      assume "\<forall>n \<in> set q. \<not> P n"
      then show "x # q = filter P q @ x # filter (\<lambda>n. \<not> P n) q" by (simp add: filter_id_conv)
    qed
    moreover have "sorted_wrt (\<lambda>m n. P n \<longrightarrow> P m) q" if "\<forall>n \<in> set q. \<not> P n"
      using that by (induction q) auto
    ultimately show ?thesis using False by auto
  qed
qed simp

lemma order_iff:
  "order_ok st \<longleftrightarrow> sorted_wrt (\<lambda>m n. is_timed st n \<longrightarrow> is_timed st m) (event_queue st) \<and>
    (event_cnt st > 0 \<or> ev_phase st = Refilling \<longrightarrow> timed_part st = [])"
  unfolding order_ok_def timed_part_def untimed_part_def partition_sorted [of "event_queue st" "is_timed st"] ..

lemma free_sel [simp]:
  "event_queue (free_event_node ev st) = event_queue st" "timer_queue (free_event_node ev st) = timer_queue st"
  "event_last (free_event_node ev st) = event_last st" "ev_node (free_event_node ev st) = ev_node st"
  "event_cnt (free_event_node ev st) = event_cnt st" "ev_phase (free_event_node ev st) = ev_phase st"
  "cancel_handler (free_event_node ev st) = cancel_handler st"
  by (simp_all add: free_event_node_def)

lemma spec_cancel_timed_eq: "s = (fst s', add_mset (t, h, a) (snd s')) \<Longrightarrow> spec_step s (Cancel h a (Some 1)) s'"
  by (cases s') (auto intro: spec_cancel_timed)

text \<open>An event is taken out of a list and its node freed.\<close>

lemma remove_ok:
  assumes "ev_inv st" "with_node ev st1" "ev_node st1 = ev_node st" "last_ok st1"
    "sorted_wrt (\<lambda>m n. tle (rt st m) (rt st n)) (timer_queue st1)" "set (timer_queue st1) \<subseteq> set (timer_queue st)"
    "sorted_wrt (\<lambda>m n. is_timed st n \<longrightarrow> is_timed st m) (event_queue st1)" "set (event_queue st1) \<subseteq> set (event_queue st)"
    "event_cnt st1 = event_cnt st" "ev_phase st1 = ev_phase st" "phase_ok st1"
  shows "ev_inv (free_event_node ev st1)"
proof -
  have f: "is_timed (free_event_node ev st1) = is_timed st" by (rule node_funs) (simp add: assms(3))
  have "set (timed_part (free_event_node ev st1)) \<subseteq> set (timed_part st)"
    using assms(8) by (auto simp: timed_part_def f)
  then have "order_ok (free_event_node ev st1)"
    using assms(1,7,9,10) by (auto simp: order_iff f ev_inv_def)
  moreover have "timers_ok (free_event_node ev st1)" using assms(1,3,5,6) by (auto simp: ev_inv_def timers_ok_def)
  moreover have "last_ok (free_event_node ev st1)" using assms(4) by (simp add: last_ok_def)
  moreover have "phase_ok (free_event_node ev st1)" using assms(11) by (simp add: phase_ok_def)
  ultimately show ?thesis using free_ok [OF assms(2)] by (simp add: ev_inv_def)
qed

lemma cancel_queued_ok:
  assumes inv: "ev_inv st" and ph: "ev_phase st \<noteq> Taking"
  shows "(\<forall>n \<in> set (event_queue st). ev_of st n \<noteq> (h, a)) \<and> cancel_queued h a st = Inr (False, st) \<or>
    (\<exists>st'. cancel_queued h a st = Inr (True, st') \<and> simulates st (Cancel h a (Some 1)) st' \<and> ev_phase st' = ev_phase st)"
proof (cases "find_node (is_event st h a) None (event_queue st)")
  case None
  then have "cancel_queued h a st = Inr (False, st)" by (simp add: cancel_queued_def)
  moreover have "\<forall>n \<in> set (event_queue st). ev_of st n \<noteq> (h, a)" using None by (auto simp: find_node_None is_event_def ev_of_def)
  ultimately show ?thesis by blast
next
  case (Some r)
  then obtain p ev at_end where f: "find_node (is_event st h a) None (event_queue st) = Some (p, ev, at_end)" by (cases r) auto
  then obtain ys zs where q: "event_queue st = ys @ ev # zs" and P: "is_event st h a ev" and Q: "\<forall>y \<in> set ys. \<not> is_event st h a y"
    and e: "at_end = (zs = [])" "p = (if ys = [] then None else Some (last ys))" "unlink (is_event st h a) (event_queue st) = ys @ zs"
    using find_node_Some [OF f] by blast
  have lst: "event_last st = Some (last (ev # zs))" using inv q by (simp add: ev_inv_def last_ok_def)
  define st1 where "st1 = st\<lparr>event_last := (if at_end then p else event_last st), event_queue := ys @ zs\<rparr>"
  have res: "cancel_queued h a st = Inr (True, free_event_node ev st1)"
    using f e lst by (simp add: cancel_queued_def st1_def)
  have nodes: "nodes st = add_mset ev (nodes st1)" by (simp add: nodes_def q st1_def running_def)
  have w: "with_node ev st1" using inv nodes by (simp add: with_node_def ev_inv_def nodes_ok_def st1_def pools_ok_def)
  have i: "ev_inv (free_event_node ev st1)"
  proof (rule remove_ok [OF inv w])
    show "last_ok st1" using lst e by (auto simp: last_ok_def st1_def)
    show "sorted_wrt (\<lambda>m n. is_timed st n \<longrightarrow> is_timed st m) (event_queue st1)"
      using inv q by (auto simp: ev_inv_def order_iff st1_def sorted_wrt_append)
  qed (use inv q ph in \<open>auto simp: st1_def ev_inv_def timers_ok_def phase_ok_def\<close>)
  have eh: "ev_of st ev = (h, a)" using P by (simp add: is_event_def ev_of_def)
  have nd: "ev_node (free_event_node ev st1) = ev_node st" by (simp add: st1_def)
  have "spec_step (abs_events st) (Cancel h a (Some 1)) (abs_events (free_event_node ev st1))"
  proof (cases "is_timed st ev")
    case True
    have "abs_events st = (fst (abs_events (free_event_node ev st1)), add_mset (rt st ev, h, a) (snd (abs_events (free_event_node ev st1))))"
      using True eh by (simp add: abs_events_def timed_part_def untimed_part_def node_funs [OF nd] q, simp add: timed_ev_def st1_def)
    then show ?thesis by (rule spec_cancel_timed_eq)
  next
    case False
    let ?u = "\<lambda>xs. map (ev_of st) (filter (\<lambda>n. \<not> is_timed st n) xs)"
    have "abs_events st = (?u ys @ (h, a) # ?u zs, snd (abs_events st))"
      "abs_events (free_event_node ev st1) = (?u ys @ ?u zs, snd (abs_events st))"
      using False eh by (simp_all add: abs_events_def timed_part_def untimed_part_def node_funs [OF nd] q, simp_all add: st1_def)
    moreover have "(h, a) \<notin> set (?u ys)" using Q by (auto simp: is_event_def ev_of_def)
    ultimately show ?thesis using spec_cancel by metis
  qed
  moreover have "ready_from st (Cancel h a (Some 1)) (free_event_node ev st1)"
    by (simp add: ready_from_def timed_part_def node_funs [OF nd] nd q) (auto simp: st1_def)
  ultimately show ?thesis using i res by (auto simp: simulates_def st1_def)
qed

lemma cancel_timed_ok:
  assumes inv: "ev_inv st"
  shows "(\<forall>n \<in> set (timer_queue st). ev_of st n \<noteq> (h, a)) \<and> cancel_timed h a st = Inr (False, st) \<or>
    (\<exists>st'. cancel_timed h a st = Inr (True, st') \<and> simulates st (Cancel h a (Some 1)) st')"
proof (cases "find_node (is_event st h a) None (timer_queue st)")
  case None
  then have "cancel_timed h a st = Inr (False, st)" by (simp add: cancel_timed_def)
  moreover have "\<forall>n \<in> set (timer_queue st). ev_of st n \<noteq> (h, a)" using None by (auto simp: find_node_None is_event_def ev_of_def)
  ultimately show ?thesis by blast
next
  case (Some r)
  then obtain p ev at_end where f: "find_node (is_event st h a) None (timer_queue st) = Some (p, ev, at_end)" by (cases r) auto
  then obtain ys zs where q: "timer_queue st = ys @ ev # zs" and P: "is_event st h a ev"
    and e: "unlink (is_event st h a) (timer_queue st) = ys @ zs"
    using find_node_Some [OF f] by blast
  define st1 where "st1 = st\<lparr>timer_queue := ys @ zs\<rparr>"
  have res: "cancel_timed h a st = Inr (True, free_event_node ev st1)"
    using f e by (simp add: cancel_timed_def st1_def)
  have nodes: "nodes st = add_mset ev (nodes st1)" by (simp add: nodes_def q st1_def running_def)
  have w: "with_node ev st1" using inv nodes by (simp add: with_node_def ev_inv_def nodes_ok_def st1_def pools_ok_def)
  have i: "ev_inv (free_event_node ev st1)"
  proof (rule remove_ok [OF inv w])
    show "sorted_wrt (\<lambda>m n. tle (rt st m) (rt st n)) (timer_queue st1)"
      using inv q by (auto simp: ev_inv_def timers_ok_def st1_def sorted_wrt_append)
  qed (use inv q in \<open>auto simp: st1_def ev_inv_def order_iff phase_ok_def last_ok_def\<close>)
  have nd: "ev_node (free_event_node ev st1) = ev_node st" by (simp add: st1_def)
  have "abs_events st = (fst (abs_events (free_event_node ev st1)), add_mset (rt st ev, h, a) (snd (abs_events (free_event_node ev st1))))"
    using P by (simp add: abs_events_def timed_part_def untimed_part_def node_funs [OF nd] q, simp add: timed_ev_def ev_of_def is_event_def st1_def)
  then have "spec_step (abs_events st) (Cancel h a (Some 1)) (abs_events (free_event_node ev st1))"
    by (rule spec_cancel_timed_eq)
  moreover have "ready_from st (Cancel h a (Some 1)) (free_event_node ev st1)"
    by (simp add: ready_from_def timed_part_def node_funs [OF nd] nd) (simp add: st1_def)
  ultimately show ?thesis using i res by (auto simp: simulates_def)
qed

lemma simulates_waiting:
  assumes "simulates st (Cancel h a r) st" "ev_phase st = Stopped \<or> (\<exists>ev. ev_phase st = Handling ev)"
  shows "simulates st (Cancel h a r) (st\<lparr>cancel_handler := x\<rparr>)"
proof -
  let ?st = "st\<lparr>cancel_handler := x\<rparr>"
  have same: "timed_part ?st = timed_part st" "untimed_part ?st = untimed_part st" "abs_events ?st = abs_events st" "timers_ok ?st = timers_ok st"
    by (rule parts_cong; simp)+
  have "nodes ?st = nodes st" by (simp add: nodes_def running_def)
  with assms same show ?thesis
    by (auto simp: simulates_def ready_from_def ev_inv_def nodes_ok_def pools_ok_def last_ok_def order_ok_def phase_ok_def)
qed

lemma cancel_event_ok:
  assumes inv: "ev_inv st" and d: "dispatching st"
  shows "\<exists>r st'. cancel_event h a wait st = Inr (r, st') \<and> simulates st (Cancel h a r) st'"
proof -
  have c: "cancel_handler st = None" and ph: "ev_phase st = Stopped \<or> (\<exists>ev. ev_phase st = Handling ev)"
    using d by (auto simp: dispatching_def)
  note step = cancel_event_def bindR_apply seqR_apply retR_apply modE_def
  from cancel_queued_ok [OF inv, of h a] ph
  consider (none) "\<forall>n \<in> set (event_queue st). ev_of st n \<noteq> (h, a)" "cancel_queued h a st = Inr (False, st)"
    | (found) st' where "cancel_queued h a st = Inr (True, st')" "simulates st (Cancel h a (Some 1)) st'" by auto
  then show ?thesis
  proof cases
    case found
    then show ?thesis by (simp add: step c)
  next
    case none
    from cancel_timed_ok [OF inv, of h a]
    consider (none2) "\<forall>n \<in> set (timer_queue st). ev_of st n \<noteq> (h, a)" "cancel_timed h a st = Inr (False, st)"
      | (found2) st' where "cancel_timed h a st = Inr (True, st')" "simulates st (Cancel h a (Some 1)) st'" by blast
    then show ?thesis
    proof cases
      case found2
      with none show ?thesis by (simp add: step c)
    next
      case none2
      have "spec_step (abs_events st) (Cancel h a r) (abs_events st)" if "r = Some 0 \<or> r = None" for r
        unfolding abs_events_def
        by (rule spec_cancel_none [OF _ _ that])
          (use none(1) none2(1) in \<open>auto simp: untimed_part_def timed_part_def timed_ev_def ev_of_def\<close>)
      then have "simulates st (Cancel h a r) st" if "r = Some 0 \<or> r = None" for r using inv that by (simp add: simulates_def ready_from_def)
      with simulates_waiting [OF _ ph, of h a None "Some (h, a)"] none none2 show ?thesis
        by (cases wait) (auto simp: step c)
    qed
  qed
qed

lemma poll_ok:
  assumes inv: "ev_inv st" and ph: "ev_phase st = Refilling" and now: "time_ok now"
  shows "\<exists>b st'. poll_events now st = Inr (b, st') \<and> simulates st (Clock now) (if b then st'\<lparr>ev_phase := Taking\<rparr> else st') \<and>
    (\<forall>n \<in> set (timed_part st'). tle (rt st' n) now)"
proof -
  define ready where "ready = takeWhile (\<lambda>n. tle (rt st n) now) (timer_queue st)"
  define later where "later = dropWhile (\<lambda>n. tle (rt st n) now) (timer_queue st)"
  have tq: "timer_queue st = ready @ later" by (simp add: ready_def later_def)
  have no: "timed_part st = []" using inv ph by (simp add: ev_inv_def order_ok_def)
  have untimed: "\<forall>n \<in> set (event_queue st). \<not> is_timed st n" using no by (simp add: timed_part_def filter_empty_conv)
  have tm: "\<forall>n \<in> set (timer_queue st). time_ok (rt st n)" using inv by (simp add: ev_inv_def timers_ok_def)
  have split: "split_ready (\<lambda>n. rt (st\<lparr>last_tick_count_ms := events_timer_ms st\<rparr>) n) now (timer_queue st) = Inr (ready, later)"
    using split_ready_ok [OF now tm] by (simp add: ready_def later_def)
  have ch: "cancel_handler st = None" using inv ph by (cases "cancel_handler st") (auto simp: ev_inv_def phase_ok_def)
  have cnt: "event_cnt st = 0" using inv ph by (simp add: ev_inv_def phase_ok_def)
  let ?st1 = "st\<lparr>last_tick_count_ms := events_timer_ms st\<rparr>"
  show ?thesis
  proof (cases "ready = []")
    case True
    have res: "poll_events now st = Inr (event_queue st \<noteq> [], ?st1)"
      using split True by (simp add: poll_events_def Let_def)
    have "simulates st (Clock now) (if event_queue st \<noteq> [] then ?st1\<lparr>ev_phase := Taking\<rparr> else ?st1)"
      using inv no ph ch
      by (intro quiet_ok [OF inv]) (auto simp: nodes_def running_def ev_inv_def nodes_ok_def pools_ok_def phase_ok_def intro: spec_clock)
    moreover have "is_timed ?st1 = is_timed st" by (rule node_funs) simp
    then have "timed_part ?st1 = []" using no by (simp add: timed_part_def)
    ultimately show ?thesis using res by auto
  next
    case False
    define st2 where "st2 = ?st1\<lparr>timer_queue := later, event_queue := ready @ event_queue st,
        event_last := (if event_queue st = [] then Some (last ready) else event_last st)\<rparr>"
    define st3 where "st3 = st2\<lparr>ev_phase := Taking\<rparr>"
    have "event_queue st = [] \<Longrightarrow> event_last st = None" using inv by (simp add: ev_inv_def last_ok_def)
    then have res: "poll_events now st = Inr (True, st2)"
      using split False tq by (auto simp: poll_events_def Let_def st2_def)
    have nd: "ev_node st3 = ev_node st" by (simp add: st3_def st2_def)
    have timed: "\<forall>n \<in> set ready. is_timed st n"
    proof
      fix n
      assume "n \<in> set ready"
      then have "n \<in> set (timer_queue st)" using tq by simp
      with tm have "time_ok (rt st n)" by blast
      then show "is_timed st n" by (simp add: is_timed_def time_ok_def)
    qed
    have q: "event_queue st3 = ready @ event_queue st" "timer_queue st3 = later" by (simp_all add: st3_def st2_def)
    have parts: "timed_part st3 = ready" "untimed_part st3 = event_queue st"
      using timed untimed by (simp_all add: timed_part_def untimed_part_def node_funs [OF nd] q filter_id_conv filter_empty_conv)
    have srt: "sorted_wrt (\<lambda>m n. is_timed st n \<longrightarrow> is_timed st m) (ready @ event_queue st)"
    proof -
      have "sorted_wrt (\<lambda>m n. is_timed st n \<longrightarrow> is_timed st m) ready"
        using timed by (induction ready) auto
      then show ?thesis using untimed inv by (simp add: sorted_wrt_append ev_inv_def order_iff)
    qed
    have "nodes st3 = nodes st" using ph tq by (simp add: nodes_def running_def st3_def st2_def)
    then have "nodes_ok st3" using inv by (simp add: ev_inv_def nodes_ok_def pools_ok_def st3_def st2_def)
    moreover have "last_ok st3" using inv False by (auto simp: ev_inv_def last_ok_def st3_def st2_def)
    moreover have "timers_ok st3" using inv tq by (auto simp: ev_inv_def timers_ok_def st3_def st2_def sorted_wrt_append)
    moreover have "order_ok st3" using srt cnt by (simp add: order_iff node_funs [OF nd] q(1)) (simp add: st3_def st2_def)
    moreover have "phase_ok st3" using False ch by (simp add: phase_ok_def st3_def st2_def)
    ultimately have i: "ev_inv st3" by (simp add: ev_inv_def)
    have "abs_events st3 = abs_events st"
    proof -
      have "untimed_part st = event_queue st" using untimed by (simp add: untimed_part_def filter_id_conv)
      then show ?thesis using no tq by (simp add: abs_events_def parts q node_funs [OF nd] ac_simps)
    qed
    moreover have "ready_from st (Clock now) st3"
      by (auto simp: ready_from_def parts) (auto simp: ready_def st3_def st2_def dest: set_takeWhileD)
    ultimately have sim: "simulates st (Clock now) st3" using i by (simp add: simulates_def spec_clock)
    have "\<forall>n \<in> set (timed_part st2). tle (rt st2 n) now"
    proof -
      have "is_timed st3 = is_timed st2" "event_queue st3 = event_queue st2" by (rule node_funs, simp add: st3_def) (simp add: st3_def)
      then have "timed_part st2 = ready" using parts(1) by (simp add: timed_part_def)
      then show ?thesis by (auto simp: ready_def st2_def dest: set_takeWhileD)
    qed
    with res sim show ?thesis by (auto simp: st3_def)
  qed
qed

lemma take_ok:
  assumes inv: "ev_inv st" and ph: "ev_phase st = Taking"
  shows "\<exists>ev st'. take_event st = Inr (ev, st') \<and>
    simulates st (Run (rt st ev) (handler (ev_node st ev)) (arg (ev_node st ev))) st' \<and>
    (fst (rt st ev) = 0 \<longrightarrow> event_cnt st' = Suc (event_cnt st)) \<and> (fst (rt st ev) \<noteq> 0 \<longrightarrow> event_cnt st' = event_cnt st \<and> ev \<in> set (timed_part st))"
proof -
  obtain ev evs where q: "event_queue st = ev # evs" using inv ph by (cases "event_queue st") (auto simp: ev_inv_def phase_ok_def)
  define st' where "st' = st\<lparr>event_queue := evs, event_last := (if evs = [] then None else event_last st),
            event_cnt := (if fst (rt st ev) = 0 then Suc (event_cnt st) else event_cnt st), ev_phase := Handling ev\<rparr>"
  have lst: "event_last st = Some (last (ev # evs))" using inv q by (simp add: ev_inv_def last_ok_def)
  have res: "take_event st = Inr (ev, st')" using q lst by (simp add: take_event_def st'_def)
  have nd: "ev_node st' = ev_node st" by (simp add: st'_def)
  have srt: "sorted_wrt (\<lambda>m n. is_timed st n \<longrightarrow> is_timed st m) (ev # evs)"
    using inv by (simp add: ev_inv_def order_iff q)
  have none: "timed_part st' = []" if "\<not> is_timed st ev" using srt that by (auto simp: timed_part_def node_funs [OF nd]) (simp add: st'_def filter_empty_conv)
  have cntp: "timed_part st = []" if "event_cnt st > 0" using inv that by (simp add: ev_inv_def order_ok_def)
  have "nodes st' = nodes st" using ph by (simp add: nodes_def running_def st'_def q)
  then have "nodes_ok st'" using inv by (simp add: ev_inv_def nodes_ok_def pools_ok_def st'_def)
  moreover have "last_ok st'" using lst by (auto simp: last_ok_def st'_def)
  moreover have "timers_ok st'" using inv by (simp add: ev_inv_def timers_ok_def st'_def)
  moreover have "phase_ok st'" by (simp add: phase_ok_def st'_def)
  moreover have "order_ok st'"
  proof (cases "is_timed st ev")
    case True
    then have "event_cnt st = 0" using cntp by (cases "event_cnt st") (auto simp: timed_part_def q)
    with True srt show ?thesis by (simp add: order_iff node_funs [OF nd]) (simp add: st'_def is_timed_def)
  next
    case False
    with none srt show ?thesis by (simp add: order_iff node_funs [OF nd]) (simp add: st'_def)
  qed
  ultimately have i: "ev_inv st'" by (simp add: ev_inv_def)
  have "spec_step (abs_events st) (Run (rt st ev) (handler (ev_node st ev)) (arg (ev_node st ev))) (abs_events st')"
  proof (cases "is_timed st ev")
    case True
    then have "abs_events st = (fst (abs_events st'), add_mset (rt st ev, ev_of st ev) (snd (abs_events st')))"
      by (simp add: abs_events_def timed_part_def untimed_part_def node_funs [OF nd] q) (simp add: st'_def timed_ev_def)
    with True show ?thesis by (cases "abs_events st'") (simp add: ev_of_def is_timed_def spec_run_timed)
  next
    case False
    then have "abs_events st = (ev_of st ev # fst (abs_events st'), snd (abs_events st'))"
      by (simp add: abs_events_def timed_part_def untimed_part_def node_funs [OF nd] q) (simp add: st'_def)
    with False show ?thesis by (cases "abs_events st'") (simp add: ev_of_def is_timed_def spec_run)
  qed
  moreover have "ready_from st (Run (rt st ev) (handler (ev_node st ev)) (arg (ev_node st ev))) st'"
    by (simp add: ready_from_def timed_part_def node_funs [OF nd] nd q) (simp add: st'_def)
  ultimately have "simulates st (Run (rt st ev) (handler (ev_node st ev)) (arg (ev_node st ev))) st'" using i by (simp add: simulates_def)
  with res show ?thesis
    by (intro exI [of _ ev] exI [of _ st']) (simp add: st'_def timed_part_def q is_timed_def)
qed

lemma end_ok:
  assumes inv: "ev_inv st" and ph: "ev_phase st = Handling ev" and ch: "cancel_handler st = None"
  shows "simulates st Tau (end_event ev st)"
proof -
  define st1 where "st1 = st\<lparr>ev_phase := Looping\<rparr>"
  have e: "end_event ev st = free_event_node ev st1" by (simp add: end_event_def free_event_node_def st1_def)
  have nodes: "nodes st = add_mset ev (nodes st1)" using ph by (simp add: nodes_def st1_def running_def)
  have w: "with_node ev st1" using inv nodes by (simp add: with_node_def ev_inv_def nodes_ok_def st1_def pools_ok_def)
  have same: "timed_part (free_event_node ev st1) = timed_part st" "untimed_part (free_event_node ev st1) = untimed_part st"
    "abs_events (free_event_node ev st1) = abs_events st" "timers_ok (free_event_node ev st1) = timers_ok st"
    by (rule parts_cong; simp add: st1_def)+
  have "ev_inv (free_event_node ev st1)"
    using inv same free_ok [OF w] ph ch by (auto simp: ev_inv_def last_ok_def order_ok_def phase_ok_def) (simp_all add: st1_def)
  moreover have "ready_from st Tau (free_event_node ev st1)" using same(1) by (rule ready_same) (simp add: st1_def)
  ultimately show ?thesis by (simp add: simulates_def e same(3) spec_tau)
qed

lemma refill_ok:
  assumes inv: "ev_inv st" and ph: "ev_phase st = Looping" and need: "needs_refill st"
  shows "simulates st (Refill b) (start_refill st)" "event_queue st \<noteq> [] \<Longrightarrow> event_cnt st > 0"
proof -
  show cnt: "event_queue st \<noteq> [] \<Longrightarrow> event_cnt st > 0" using need by (auto simp: needs_refill_def)
  obtain fq bg where g: "give_nodes (free_queue st) (free_bg_queue st) = (fq, bg)" by (cases "give_nodes (free_queue st) (free_bg_queue st)")
  note m = give_nodes_mset [OF g]
  have st': "start_refill st = st\<lparr>event_cnt := 0, free_queue := fq, free_bg_queue := bg, ev_phase := Refilling\<rparr>"
    by (simp add: start_refill_def g)
  have "set fq \<union> set bg = set (free_queue st) \<union> set (free_bg_queue st)"
    using arg_cong [OF m, of set_mset] by simp
  then have "pools_ok (start_refill st)" using inv by (simp add: st' pools_ok_def ev_inv_def nodes_ok_def)
  moreover have "nodes (start_refill st) = nodes st"
    using m ph by (simp add: nodes_def running_def st')
  moreover have "timed_part st = []" using cnt inv by (cases "event_queue st = []") (auto simp: ev_inv_def order_ok_def timed_part_def)
  moreover have "cancel_handler st = None" using inv ph by (cases "cancel_handler st") (auto simp: ev_inv_def phase_ok_def)
  ultimately show "simulates st (Refill b) (start_refill st)"
    by (intro quiet_ok [OF inv]) (simp_all add: st' phase_ok_def spec_refill)
qed

lemma tau_ok:
  assumes inv: "ev_inv st"
  shows "simulates st Tau (st\<lparr>events_timer_ms := ms\<rparr>)" "simulates st Tau (cancel_event_loop st)"
    "ev_phase st = Stopped \<Longrightarrow> cancel_handler st = None \<Longrightarrow> simulates st Tau (start_event_loop st)"
    "ev_phase st = Looping \<Longrightarrow> simulates st Tau (st\<lparr>ev_phase := Stopped\<rparr>)"
    "ev_phase st = Looping \<Longrightarrow> \<not> needs_refill st \<Longrightarrow> simulates st Tau (st\<lparr>ev_phase := Taking\<rparr>)"
proof -
  have k: "nodes_ok st" "phase_ok st" and o: "event_cnt st > 0 \<or> ev_phase st = Refilling \<Longrightarrow> timed_part st = []"
    using inv by (simp_all add: ev_inv_def order_ok_def)
  have ch: "ev_phase st = Looping \<Longrightarrow> cancel_handler st = None" using k(2) by (cases "cancel_handler st") (auto simp: phase_ok_def)
  note defs = nodes_def running_def pools_ok_def nodes_ok_def phase_ok_def spec_tau
  show "simulates st Tau (st\<lparr>events_timer_ms := ms\<rparr>)" "simulates st Tau (cancel_event_loop st)"
    using k o by (intro quiet_ok [OF inv]; simp add: defs cancel_event_loop_def)+
  show "ev_phase st = Stopped \<Longrightarrow> cancel_handler st = None \<Longrightarrow> simulates st Tau (start_event_loop st)"
    using k by (intro quiet_ok [OF inv]) (simp_all add: defs start_event_loop_def)
  show "ev_phase st = Looping \<Longrightarrow> simulates st Tau (st\<lparr>ev_phase := Stopped\<rparr>)"
    using k o by (intro quiet_ok [OF inv]) (simp_all add: defs)
  show "ev_phase st = Looping \<Longrightarrow> \<not> needs_refill st \<Longrightarrow> simulates st Tau (st\<lparr>ev_phase := Taking\<rparr>)"
    using k o ch by (intro quiet_ok [OF inv]) (simp_all add: defs needs_refill_def)
qed

lemma caught_ok:
  assumes inv: "ev_inv st" and c: "cancel_handler st = Some (h, a)"
  shows "post_event_with_delay False now h a delay st = Inr ((), st\<lparr>cancel_handler := None\<rparr>)"
    "simulates st (Caught h a) (st\<lparr>cancel_handler := None\<rparr>)"
proof -
  show "post_event_with_delay False now h a delay st = Inr ((), st\<lparr>cancel_handler := None\<rparr>)"
    by (simp add: post_event_with_delay_def post_from_bg_thread_def c)
  show "simulates st (Caught h a) (st\<lparr>cancel_handler := None\<rparr>)"
    using inv by (intro quiet_ok [OF inv])
      (auto simp: nodes_def running_def ev_inv_def nodes_ok_def pools_ok_def phase_ok_def order_ok_def intro: spec_caught)
qed

lemma step_simulates:
  assumes "ev_step st l st'" "ev_inv st"
  shows "simulates st l st'"
  using assms
proof (induction rule: ev_step.induct)
  case (post st now h a st')
  then show ?case by (intro post_untimed_ok [OF post(3) _ post(2)]) (auto simp: dispatching_def)
next
  case (post_delayed st now h a delay st')
  with post_timed_ok [OF post_delayed(4,2), of True h a delay] show ?case by auto
next
  case (post_bg now st h a st')
  have "post_event False now h a = post_event_with_delay False now h a 0" by (simp add: post_event_def post_event_with_delay_def)
  with post_bg post_timed_ok [OF post_bg(4,1), of False h a 0] show ?case by auto
next
  case (post_bg_delayed now st h a delay st')
  with post_timed_ok [OF post_bg_delayed(4,1), of False h a delay] show ?case by auto
next
  case (caught st h a now delay st')
  with caught_ok(1) [OF caught(3,1), of now delay] caught_ok(2) [OF caught(3,1)] show ?case by auto
next
  case (cancel st h a wait r st')
  with cancel_event_ok [OF cancel(3,1), of h a wait] show ?case by auto
next
  case (poll_wait st now st')
  with poll_ok [OF poll_wait(4,1,2)] show ?case by auto
next
  case (poll_done st now st')
  with poll_ok [OF poll_done(4,1,2)] show ?case by auto
next
  case (run st ev st')
  with take_ok [OF run(3,1)] show ?case by auto
qed (simp_all add: tau_ok refill_ok end_ok)

section \<open>Runs\<close>

lemma init_inv: "ev_inv (ini_events_queue blank)"
proof -
  have f: "fold (#) [0..<EVENT_BUF_SIZE] [] = rev [0..<EVENT_BUF_SIZE]" by (simp add: fold_Cons_rev)
  have "count (mset [0..<EVENT_BUF_SIZE]) n = (if n < EVENT_BUF_SIZE then 1 else 0)" for n
    by (simp add: distinct_count_atmost_1 [THEN iffD1, rule_format])
  then show ?thesis
    by (simp add: ini_events_queue_def f ev_inv_def nodes_ok_def owns_def nodes_def running_def pools_ok_def last_ok_def timers_ok_def
        order_ok_def timed_part_def untimed_part_def phase_ok_def) auto
qed

lemma ev_run_inv: "ev_run tr st \<Longrightarrow> ev_inv st"
  by (induction rule: ev_run.induct) (auto simp: init_inv simulates_def dest: step_simulates)


lemma post_succeeds:
  assumes "ev_inv st"
  shows "\<exists>st'. post_event True now h a st = Inr ((), st')"
proof -
  obtain ev st1 where al: "alloc_event_node st = Inr (ev, st1)" using alloc_succeeds(1) by blast
  have "last_ok (set_node ev (0, snd (rt st1 ev)) h a st1)"
    using alloc_keeps(2) [OF assms disjI1 [OF al]] by (simp add: last_ok_def set_node_def)
  with al show ?thesis by (auto simp: post_event_def bindR_apply seqR_apply modE_def add_last_def last_ok_def)
qed

text \<open>C14: no assertion of events.c fails, and no list runs out of nodes, in any state that an interleaving of the threads reaches: posting with or
  without delay from any thread, cancelling, looking for events whose time has come, and taking the next event
  all succeed. The clock gives a time after the first second of 1970.\<close>

theorem events_safe:
  assumes "ev_run tr st" "time_ok now"
  shows "(dispatching st \<longrightarrow> (\<exists>st'. post_event True now h a st = Inr ((), st')) \<and> (\<exists>r st'. cancel_event h a wait st = Inr (r, st'))) \<and>
    (\<exists>st'. post_event_with_delay th now h a delay st = Inr ((), st')) \<and> (\<exists>st'. post_event False now h a st = Inr ((), st')) \<and>
    (ev_phase st = Refilling \<longrightarrow> (\<exists>b st'. poll_events now st = Inr (b, st'))) \<and>
    (ev_phase st = Taking \<longrightarrow> (\<exists>ev st'. take_event st = Inr (ev, st')))"
proof -
  note inv = ev_run_inv [OF assms(1)]
  have timed: "\<exists>st'. post_event_with_delay th now h a delay st = Inr ((), st')" for th delay
  proof (cases "th \<or> cancel_handler st \<noteq> Some (h, a)")
    case True
    with post_timed_ok [OF inv assms(2), of th h a delay] show ?thesis by blast
  next
    case False
    with caught_ok(1) [OF inv, of h a now delay] show ?thesis by auto
  qed
  have bg: "post_event False now h a = post_event_with_delay False now h a 0" by (simp add: post_event_def post_event_with_delay_def)
  from timed bg post_succeeds [OF inv, of now h a] cancel_event_ok [OF inv, of h a wait] poll_ok [OF inv _ assms(2)] take_ok [OF inv] show ?thesis by metis
qed

text \<open>Whose time has come.\<close>

lemma run_ready:
  "ev_run tr st \<Longrightarrow> \<forall>n \<in> set (timed_part st). \<exists>now. Clock now \<in> set tr \<and> tle (rt st n) now"
proof (induction rule: ev_run.induct)
  case (init blank)
  show ?case by (simp add: ini_events_queue_def timed_part_def)
next
  case (step tr st l st')
  then have "ready_from st l st'" using step_simulates [OF step.hyps(2) ev_run_inv [OF step.hyps(1)]] by (simp add: simulates_def)
  with step.IH show ?case by (fastforce simp: ready_from_def)
qed

lemma run_label:
  assumes "ev_run tr st" "ev_step st (Run t h a) st'" "fst t \<noteq> 0"
  shows "\<exists>now. Clock now \<in> set tr \<and> tle t now"
  using assms(2)
proof (cases rule: ev_step.cases)
  case (run ev)
  from take_ok [OF ev_run_inv [OF assms(1)] run(4)] run(5) have "fst (rt st ev) \<noteq> 0 \<longrightarrow> ev \<in> set (timed_part st)" by auto
  with run run_ready [OF assms(1)] assms(3) show ?thesis by auto
qed

text \<open>a timed event is not run before its time: when its handler is called, the clock has been read, and showed its time or a later one.\<close>

theorem timed_events_wait:
  assumes "ev_run tr st" "tr = xs @ Run t h a # ys" "fst t \<noteq> 0"
  shows "\<exists>now. Clock now \<in> set xs \<and> tle t now"
  using assms(1,2)
proof (induction arbitrary: ys rule: ev_run.induct)
  case (step tr st l st')
  show ?case
  proof (cases ys rule: rev_cases)
    case Nil
    with step.prems have "tr = xs" "l = Run t h a" by auto
    with run_label [OF step.hyps(1)] step.hyps(2) assms(3) show ?thesis by blast
  next
    case (snoc zs z)
    with step.prems have "tr = xs @ Run t h a # zs" by simp
    with step.IH show ?thesis by blast
  qed
qed simp

text \<open>Refills while untimed events wait, and untimed events that were run.\<close>

definition busy_refills :: "('h, 'a) ev_label list \<Rightarrow> nat" where
  "busy_refills tr = length (filter (\<lambda>l. l = Refill True) tr)"

definition untimed_runs :: "('h, 'a) ev_label list \<Rightarrow> nat" where
  "untimed_runs tr = length (filter (\<lambda>l. case l of Run t h a \<Rightarrow> fst t = 0 | _ \<Rightarrow> False) tr)"

lemma alloc_cnt:
  "alloc_event_node st = Inr (ev, st1) \<Longrightarrow> event_cnt st1 = event_cnt st"
  "alloc_event_node_bg st = Inr (ev, st1) \<Longrightarrow> event_cnt st1 = event_cnt st"
  by (auto simp: alloc_event_node_def alloc_event_node_bg_def split: list.splits)

lemma insert_cnt: "insert_event ev st = Inr (x, st') \<Longrightarrow> event_cnt st' = event_cnt st"
  by (auto simp: insert_event_def split: sum.splits)

lemma set_node_cnt [simp]: "event_cnt (set_node ev t h a st) = event_cnt st"
  by (simp add: set_node_def)

lemma op_cnt:
  "post_event th now h a st = Inr (x, st') \<Longrightarrow> event_cnt st' = event_cnt st"
  "post_event_with_delay th now h a delay st = Inr (x, st') \<Longrightarrow> event_cnt st' = event_cnt st"
  "cancel_event h a wait st = Inr (y, st') \<Longrightarrow> event_cnt st' = event_cnt st"
  "poll_events now st = Inr (z, st') \<Longrightarrow> event_cnt st' = event_cnt st"
proof -
  have bg: "post_from_bg_thread now h a d st = Inr (x, st') \<Longrightarrow> event_cnt st' = event_cnt st" for d
    by (auto simp: post_from_bg_thread_def modE_def split: if_splits elim!: bindR_InrE seqR_InrE dest!: insert_cnt alloc_cnt)
  show "post_event th now h a st = Inr (x, st') \<Longrightarrow> event_cnt st' = event_cnt st"
    using bg by (auto simp: post_event_def modE_def add_last_def split: if_splits elim!: bindR_InrE seqR_InrE dest!: alloc_cnt)
  show "post_event_with_delay th now h a delay st = Inr (x, st') \<Longrightarrow> event_cnt st' = event_cnt st"
    using bg by (auto simp: post_event_with_delay_def modE_def split: if_splits elim!: bindR_InrE seqR_InrE dest!: insert_cnt alloc_cnt)
  have "cancel_queued h a st = Inr (b, st1) \<Longrightarrow> event_cnt st1 = event_cnt st" for b st st1
    by (auto simp: cancel_queued_def split: option.splits if_splits)
  moreover have "cancel_timed h a st = Inr (b, st1) \<Longrightarrow> event_cnt st1 = event_cnt st" for b st st1
    by (auto simp: cancel_timed_def split: option.splits)
  ultimately show "cancel_event h a wait st = Inr (y, st') \<Longrightarrow> event_cnt st' = event_cnt st"
    by (auto simp: cancel_event_def modE_def retR_apply split: if_splits elim!: bindR_InrE seqR_InrE)
  show "poll_events now st = Inr (z, st') \<Longrightarrow> event_cnt st' = event_cnt st"
    by (auto simp: poll_events_def Let_def split: if_splits sum.splits)
qed

lemma step_cnt:
  assumes "ev_step st l st'" "ev_inv st"
  shows "case l of
      Run t h a \<Rightarrow> event_cnt st' = (if fst t = 0 then Suc (event_cnt st) else event_cnt st)
    | Refill b \<Rightarrow> event_cnt st' = 0 \<and> (b \<longrightarrow> event_cnt st > 0)
    | _ \<Rightarrow> event_cnt st' \<le> event_cnt st"
  using assms
proof (cases rule: ev_step.cases)
  case (run ev)
  with take_ok [OF assms(2) run(2)] show ?thesis by auto
next
  case refill
  with refill_ok(2) [OF assms(2)] show ?thesis by (auto simp: start_refill_def split: prod.splits)
qed (auto dest!: op_cnt simp: cancel_event_loop_def start_event_loop_def end_event_def)

lemma run_cnt: "ev_run tr st \<Longrightarrow> busy_refills tr + (if event_cnt st > 0 then 1 else 0) \<le> untimed_runs tr"
proof (induction rule: ev_run.induct)
  case (init blank)
  show ?case by (simp add: busy_refills_def ini_events_queue_def)
next
  case (step tr st l st')
  from step_cnt [OF step.hyps(2) ev_run_inv [OF step.hyps(1)]] step.IH show ?case
    by (cases l) (auto simp: busy_refills_def untimed_runs_def split: if_splits)
qed


text \<open>C13: in every state that an interleaving of the threads reaches, every node of the array of nodes is in exactly one place (the
  queue, the queue of timed events, a list of free nodes, or the running event), and no node of the heap is in two; the pointer to the
  last event is right; timed events are in the order of their time; in the queue, the timed events that are
  ready come before the untimed ones, and when further timed events are looked for there are none left.\<close>

theorem event_nodes_partition:
  assumes "ev_run tr st"
  shows "(\<forall>n. count (nodes st) n \<le> 1) \<and> (\<forall>n < EVENT_BUF_SIZE. count (nodes st) n = 1) \<and>
    event_last st = (if event_queue st = [] then None else Some (last (event_queue st))) \<and>
    sorted_wrt (\<lambda>m n. tle (rt st m) (rt st n)) (timer_queue st) \<and>
    event_queue st = timed_part st @ untimed_part st \<and> (ev_phase st = Refilling \<longrightarrow> timed_part st = [])"
  using ev_run_inv [OF assms] by (auto simp: ev_inv_def nodes_ok_def owns_def last_ok_def timers_ok_def order_ok_def)

section \<open>An example\<close>

text \<open>Another thread posts an event, the loop is started, and the event is run.\<close>

definition example_posted :: "(nat, nat) events" where
  "example_posted = (set_node EVENT_BUF_SIZE (5, 0) 1 2 (ini_events_queue \<lparr>runtime = (0, 0), handler = 0, arg = 0\<rparr>))
     \<lparr>ev_heap := Suc EVENT_BUF_SIZE, timer_queue := [EVENT_BUF_SIZE]\<rparr>"

lemma example_posted_run: "ev_run [Post_timed (5, 0) 1 2] example_posted"
proof -
  let ?st = "ini_events_queue \<lparr>runtime = (0, 0), handler = (0 :: nat), arg = (0 :: nat)\<rparr>"
  have "post_event False (5, 0) 1 2 ?st = Inr ((), example_posted)"
    by (simp add: post_event_def post_from_bg_thread_def bindR_apply seqR_apply modE_def alloc_event_node_bg_def insert_event_def
        example_posted_def ini_events_queue_def time_add_usec_def set_node_def)
  from ev_step.post_bg [OF _ _ this] have "ev_step ?st (Post_timed (5, 0) 1 2) example_posted"
    by (simp add: time_ok_def ini_events_queue_def time_add_usec_def)
  from ev_run.step [OF ev_run.init this] show ?thesis by simp
qed

lemma ev_example_run:
  obtains st :: "(nat, nat) events"
  where "ev_run ([Post_timed (5, 0) 1 2, Tau, Refill False, Clock (6, 0)] @ Run (5, 0) 1 2 # []) st"
proof -
  define st1 where "st1 = start_event_loop example_posted"
  define st2 where "st2 = start_refill st1"
  define st3 where "st3 = (st2\<lparr>last_tick_count_ms := events_timer_ms st2, timer_queue := [], event_queue := [EVENT_BUF_SIZE],
      event_last := Some EVENT_BUF_SIZE\<rparr>)"
  define st4 where "st4 = st3\<lparr>ev_phase := Taking\<rparr>"
  define st5 where "st5 = st4\<lparr>event_queue := [], event_last := None, ev_phase := Handling EVENT_BUF_SIZE\<rparr>"
  have sel2: "timer_queue st2 = [EVENT_BUF_SIZE]" "event_queue st2 = []" "event_last st2 = None" "ev_phase st2 = Refilling"
    "ev_node st2 EVENT_BUF_SIZE = \<lparr>runtime = (5, 0), handler = 1, arg = 2\<rparr>" "event_queue st1 = []"
    by (simp_all add: st2_def st1_def start_refill_def start_event_loop_def example_posted_def ini_events_queue_def set_node_def
        split: prod.split)
  have "ev_step example_posted Tau st1"
    unfolding st1_def by (rule ev_step.start) (simp_all add: example_posted_def ini_events_queue_def set_node_def)
  moreover have "ev_step st1 (Refill (event_queue st1 \<noteq> [])) st2"
    unfolding st2_def by (rule ev_step.refill) (simp_all add: st1_def start_event_loop_def needs_refill_def example_posted_def
        ini_events_queue_def set_node_def)
  moreover have "poll_events (6, 0) st2 = Inr (True, st3)"
    by (simp add: poll_events_def Let_def sel2 time_cmp_def st3_def)
  then have "ev_step st2 (Clock (6, 0)) st4"
    unfolding st4_def by (intro ev_step.poll_done) (simp_all add: sel2 time_ok_def)
  moreover have "take_event st4 = Inr (EVENT_BUF_SIZE, st5)"
    by (simp add: take_event_def st5_def st4_def st3_def sel2)
  then have "ev_step st4 (Run (5, 0) 1 2) st5"
    using ev_step.run [of st4 EVENT_BUF_SIZE st5] by (simp add: st4_def st3_def sel2)
  ultimately have "ev_run (((([Post_timed (5, 0) 1 2] @ [Tau]) @ [Refill False]) @ [Clock (6, 0)]) @ [Run (5, 0) 1 2]) st5"
    using sel2(6) by (intro ev_run.step [OF ev_run.step [OF ev_run.step [OF ev_run.step [OF example_posted_run]]]]) simp_all
  then show thesis by (intro that [of st5]) simp
qed


theorem events_safe_witness:
  "\<exists>st'. post_event_with_delay True (5, 0) 3 4 7 example_posted = Inr ((), st')"
  using events_safe [OF example_posted_run, of "(5, 0)" 3 4 False True 7] by (simp add: time_ok_def)

theorem timed_events_wait_witness:
  "\<exists>now. (Clock now :: (nat, nat) ev_label) \<in> set [Post_timed (5, 0) 1 2, Tau, Refill False, Clock (6, 0)] \<and> tle (5, 0) now"
proof -
  obtain st where "ev_run ([Post_timed (5, 0) 1 2, Tau, Refill False, Clock (6, 0)] @ Run (5, 0) 1 (2 :: nat) # []) (st :: (nat, nat) events)"
    by (rule ev_example_run)
  from timed_events_wait [OF this refl] show ?thesis by simp
qed


theorem event_nodes_partition_witness:
  "count (nodes example_posted) 7 = 1 \<and> count (nodes example_posted) EVENT_BUF_SIZE \<le> 1"
  using event_nodes_partition [OF example_posted_run] by (simp add: EVENT_BUF_SIZE_def)

end
