(* ===== verification/Stream_Service.thy ===== *)
theory Stream_Service
  imports Protocol Json_Binary
begin

text \<open>
  services/streamsservice.c: virtual streams, each with a ring buffer that its owner in the agent and the clients of channels
  fill and empty; requests to read that wait for data, requests to write that wait for space; the commands of the service.

  Streams and clients are shared: they have addresses in a store, and a pointer to freed memory is \<open>Undefined\<close>. A request or a
  subscription is in one list only and is a value. Memory that was allocated and not written holds \<open>None\<close>, and so do its copies;
  to send it is \<open>Undefined\<close>. \<open>sv_trace\<close> records what the module does: the messages it sends, the bytes a stream accepts, the
  callbacks it makes. The module does not read it. \<open>uint64_t\<close> positions are natural numbers: a stream carries less than
  \<open>2 ^ 64 - 1\<close> bytes, and sizes of buffers are below \<open>2 ^ 63\<close>, since memory has been allocated for them. Casts to
  \<open>unsigned\<close> are written out.
\<close>

section \<open>State\<close>

text \<open>An error number, by itself or registered with a message (\<open>set_errno\<close>, \<open>set_fmt_errno\<close>).\<close>

datatype sv_error = Err error | Err_msg error "byte list"

datatype stream_msg =
    Stream_created "byte list" "byte list" "byte list option"
  | Stream_disposed "byte list" "byte list"
  | Read_reply "byte list" "byte list" "byte list" "sv_error option" nat bool
  | Result_reply "byte list" "sv_error option"

datatype 'cb stream_action =
    Sent addr "nat option" stream_msg
  | Accepted nat "byte option list"
  | Called 'cb nat nat

datatype stream_event = Delete_stream | Notify_data_available | Notify_space_available

record 'cb VirtualStream =
  vs_magic :: u32
  vs_type :: "byte list"
  vs_id :: u32
  vs_access :: u32
  vs_callback :: 'cb
  vs_ref_cnt :: int
  vs_deleted :: bool
  vs_clients :: "nat list"
  vs_pos :: nat
  vs_buf :: "byte option list"
  vs_buf_len :: nat
  vs_buf_inp :: nat
  vs_buf_out :: nat
  vs_eos_inp :: bool
  vs_eos_out :: bool
  vs_data_available_posted :: bool
  vs_space_available_posted :: bool

record ReadRequest =
  rr_token :: "byte list"
  rr_size :: nat

record WriteRequest =
  wr_token :: "byte list"
  wr_data :: "byte option list"
  wr_offs :: nat
  wr_size :: nat
  wr_eos :: bool

record StreamClient =
  sc_stream :: nat
  sc_channel :: addr
  sc_pos :: nat
  sc_read_requests :: "ReadRequest list"
  sc_write_requests :: "WriteRequest list"

record Subscription =
  sb_type :: "byte list"
  sb_channel :: addr

record 'cb streams =
  sv_handle_hash :: "nat list list"
  sv_clients :: "nat list"
  sv_streams :: "nat list"
  sv_subscriptions :: "Subscription list"
  sv_id_cnt :: u32
  sv_stream :: "nat \<Rightarrow> 'cb VirtualStream option"
  sv_client :: "nat \<Rightarrow> StreamClient option"
  sv_next :: nat
  sv_events :: "(stream_event \<times> nat) list"
  sv_trace :: "'cb stream_action list"

type_synonym ('cb, 'a) sv_op = "('cb streams, 'a) comp"

definition STREAM_MAGIC :: u32 where "STREAM_MAGIC = 0x29465398"
definition VS_ENABLE_REMOTE_READ :: u32 where "VS_ENABLE_REMOTE_READ = 1"
definition VS_ENABLE_REMOTE_WRITE :: u32 where "VS_ENABLE_REMOTE_WRITE = 2"
definition VS_EVENT_SPACE_AVAILABLE :: nat where "VS_EVENT_SPACE_AVAILABLE = 1"
definition VS_EVENT_DATA_AVAILABLE :: nat where "VS_EVENT_DATA_AVAILABLE = 2"
definition HANDLE_HASH_SIZE :: nat where "HANDLE_HASH_SIZE = 127"

definition remote_read :: "'cb VirtualStream \<Rightarrow> bool" where
  "remote_read v \<longleftrightarrow> vs_access v AND VS_ENABLE_REMOTE_READ \<noteq> 0"

definition remote_write :: "'cb VirtualStream \<Rightarrow> bool" where
  "remote_write v \<longleftrightarrow> vs_access v AND VS_ENABLE_REMOTE_WRITE \<noteq> 0"

definition streams_init :: "'cb streams" where
  "streams_init = \<lparr>sv_handle_hash = replicate HANDLE_HASH_SIZE [], sv_clients = [], sv_streams = [], sv_subscriptions = [],
     sv_id_cnt = 0, sv_stream = (\<lambda>_. None), sv_client = (\<lambda>_. None), sv_next = 0, sv_events = [], sv_trace = []\<rparr>"

section \<open>Access to the state\<close>

definition modV :: "('cb streams \<Rightarrow> 'cb streams) \<Rightarrow> ('cb, unit) sv_op" where
  "modV f = (\<lambda>w. Inr ((), f w))"

definition assertV :: "bool \<Rightarrow> ('cb, unit) sv_op" where
  "assertV b = (if b then retR () else raiseR Assertion)"

definition the_stream :: "nat \<Rightarrow> ('cb, 'cb VirtualStream) sv_op" where
  "the_stream s = (\<lambda>w. case sv_stream w s of None \<Rightarrow> Inl Undefined | Some v \<Rightarrow> Inr (v, w))"

definition the_client :: "nat \<Rightarrow> ('cb, StreamClient) sv_op" where
  "the_client k = (\<lambda>w. case sv_client w k of None \<Rightarrow> Inl Undefined | Some c \<Rightarrow> Inr (c, w))"

definition upd_stream :: "nat \<Rightarrow> ('cb VirtualStream \<Rightarrow> 'cb VirtualStream) \<Rightarrow> ('cb, unit) sv_op" where
  "upd_stream s f = (\<lambda>w. case sv_stream w s of None \<Rightarrow> Inl Undefined
     | Some v \<Rightarrow> Inr ((), w\<lparr>sv_stream := (sv_stream w)(s \<mapsto> f v)\<rparr>))"

definition upd_client :: "nat \<Rightarrow> (StreamClient \<Rightarrow> StreamClient) \<Rightarrow> ('cb, unit) sv_op" where
  "upd_client k f = (\<lambda>w. case sv_client w k of None \<Rightarrow> Inl Undefined
     | Some c \<Rightarrow> Inr ((), w\<lparr>sv_client := (sv_client w)(k \<mapsto> f c)\<rparr>))"

definition actV :: "'cb stream_action \<Rightarrow> ('cb, unit) sv_op" where
  "actV a = modV (\<lambda>w. w\<lparr>sv_trace := sv_trace w @ [a]\<rparr>)"

definition post_sv :: "stream_event \<Rightarrow> nat \<Rightarrow> ('cb, unit) sv_op" where
  "post_sv e s = modV (\<lambda>w. w\<lparr>sv_events := sv_events w @ [(e, s)]\<rparr>)"

fun forV :: "('x \<Rightarrow> ('cb, unit) sv_op) \<Rightarrow> 'x list \<Rightarrow> ('cb, unit) sv_op" where
  "forV f [] = retR ()"
| "forV f (x # xs) = seqR (f x) (forV f xs)"

text \<open>\<open>memcpy\<close> into a block of memory, and the bytes at a place of it.\<close>

definition mem_store :: "nat \<Rightarrow> byte option list \<Rightarrow> byte option list \<Rightarrow> exn + byte option list" where
  "mem_store pos data buf =
     (if pos + length data > length buf then Inl Out_of_bounds
      else Inr (take pos buf @ data @ drop (pos + length data) buf))"

definition mem_load :: "nat \<Rightarrow> nat \<Rightarrow> byte option list \<Rightarrow> exn + byte option list" where
  "mem_load pos n buf = (if pos + n > length buf then Inl Out_of_bounds else Inr (take n (drop pos buf)))"

definition liftV :: "exn + 'a \<Rightarrow> ('cb, 'a) sv_op" where
  "liftV r = (\<lambda>w. case r of Inl e \<Rightarrow> Inl e | Inr x \<Rightarrow> Inr (x, w))"

text \<open>The bytes of a block that is sent: all of them have been written.\<close>

definition used_bytes :: "byte option list \<Rightarrow> exn + byte list" where
  "used_bytes bs = (if None \<in> set bs then Inl Undefined else Inr (map the bs))"

section \<open>Identifiers\<close>

definition get_client_hash :: "u32 \<times> addr \<Rightarrow> nat" where
  "get_client_hash = (\<lambda>(n, c). unat ((n + ucast c) mod word_of_nat HANDLE_HASH_SIZE))"

abbreviation STREAM_BASE_ID :: "byte list" where "STREAM_BASE_ID \<equiv> bytes_of ''VS''"

definition str2id :: "byte list \<Rightarrow> u32 option" where
  "str2id s =
     (if take (length STREAM_BASE_ID) s \<noteq> STREAM_BASE_ID then None
      else let (n, in_range, p) = strtoul (drop (length STREAM_BASE_ID) s) in if p = [] then Some (ucast n) else None)"

text \<open>\<open>snprintf\<close> with the format \<open>%u\<close>.\<close>

definition virtual_stream_get_id :: "'cb VirtualStream \<Rightarrow> byte list" where
  "virtual_stream_get_id v = STREAM_BASE_ID @ map word_of_int (dec_digits (unat (vs_id v)))"

fun find_in_chain :: "u32 \<Rightarrow> addr \<Rightarrow> nat list \<Rightarrow> ('cb, nat option) sv_op" where
  "find_in_chain n c [] = retR None"
| "find_in_chain n c (k # ks) =
     bindR (the_client k) (\<lambda>client.
     bindR (the_stream (sc_stream client)) (\<lambda>stream.
     if vs_id stream = n \<and> sc_channel client = c then retR (Some k) else find_in_chain n c ks))"

definition no_such_stream :: "byte list \<Rightarrow> sv_error" where
  "no_such_stream s = Err_msg ERR_OTHER (bytes_of ''No such stream: '' @ s)"

definition find_client :: "byte list \<Rightarrow> addr \<Rightarrow> ('cb, nat option) sv_op" where
  "find_client s c =
     (case str2id s of
        None \<Rightarrow> retR None
      | Some n \<Rightarrow> (\<lambda>w. find_in_chain n c (sv_handle_hash w ! get_client_hash (n, c)) w))"

section \<open>Messages\<close>

definition send_event_stream_created :: "addr \<Rightarrow> nat \<Rightarrow> 'cb VirtualStream \<Rightarrow> byte list option \<Rightarrow> ('cb, unit) sv_op" where
  "send_event_stream_created out k stream context_id =
     actV (Sent out (Some k) (Stream_created (vs_type stream) (virtual_stream_get_id stream) context_id))"

definition send_event_stream_disposed :: "addr \<Rightarrow> nat \<Rightarrow> 'cb VirtualStream \<Rightarrow> ('cb, unit) sv_op" where
  "send_event_stream_disposed out k stream =
     actV (Sent out (Some k) (Stream_disposed (vs_type stream) (virtual_stream_get_id stream)))"

definition delete_read_request :: "nat \<Rightarrow> ReadRequest \<Rightarrow> ('cb, unit) sv_op" where
  "delete_read_request k r =
     bindR (the_client k) (\<lambda>client.
     seqR (actV (Sent (sc_channel client) (Some k) (Read_reply (rr_token r) [] [] (Some (Err ERR_COMMAND_CANCELLED)) 0 True)))
     (upd_client k (\<lambda>client. client\<lparr>sc_read_requests := remove1 r (sc_read_requests client)\<rparr>)))"

definition delete_write_request :: "nat \<Rightarrow> WriteRequest \<Rightarrow> sv_error option \<Rightarrow> ('cb, unit) sv_op" where
  "delete_write_request k r error =
     bindR (the_client k) (\<lambda>client.
     seqR (actV (Sent (sc_channel client) (Some k) (Result_reply (wr_token r) error)))
     (upd_client k (\<lambda>client. client\<lparr>sc_write_requests := remove1 r (sc_write_requests client)\<rparr>)))"

section \<open>Events\<close>

definition delete_stream :: "nat \<Rightarrow> ('cb, unit) sv_op" where
  "delete_stream s =
     bindR (the_stream s) (\<lambda>stream.
     seqR (assertV (vs_magic stream = STREAM_MAGIC))
     (seqR (assertV (vs_clients stream = []))
     (seqR (assertV (vs_deleted stream))
     (modV (\<lambda>w. w\<lparr>sv_streams := removeAll s (sv_streams w), sv_stream := (sv_stream w)(s := None)\<rparr>)))))"

definition notify_data_available :: "nat \<Rightarrow> ('cb, unit) sv_op" where
  "notify_data_available s =
     bindR (the_stream s) (\<lambda>stream.
     seqR (assertV (vs_magic stream = STREAM_MAGIC))
     (seqR (upd_stream s (\<lambda>v. v\<lparr>vs_data_available_posted := False\<rparr>))
     (if vs_deleted stream \<or> vs_eos_out stream then retR ()
      else actV (Called (vs_callback stream) s VS_EVENT_DATA_AVAILABLE))))"

definition notify_space_available :: "nat \<Rightarrow> ('cb, unit) sv_op" where
  "notify_space_available s =
     bindR (the_stream s) (\<lambda>stream.
     seqR (assertV (vs_magic stream = STREAM_MAGIC))
     (seqR (upd_stream s (\<lambda>v. v\<lparr>vs_space_available_posted := False\<rparr>))
     (if vs_deleted stream \<or> vs_eos_inp stream then retR ()
      else actV (Called (vs_callback stream) s VS_EVENT_SPACE_AVAILABLE))))"

text \<open>The event loop calls the handler of the event that was posted first.\<close>

definition sv_dispatch :: "('cb, unit) sv_op" where
  "sv_dispatch = (\<lambda>w. case sv_events w of
     [] \<Rightarrow> Inr ((), w)
   | (e, s) # es \<Rightarrow>
       (case e of Delete_stream \<Rightarrow> delete_stream s | Notify_data_available \<Rightarrow> notify_data_available s
        | Notify_space_available \<Rightarrow> notify_space_available s) (w\<lparr>sv_events := es\<rparr>))"

section \<open>Clients\<close>

definition ring_len :: "'cb VirtualStream \<Rightarrow> nat" where
  "ring_len v = (vs_buf_inp v + vs_buf_len v - vs_buf_out v) mod vs_buf_len v"

definition post_space_available :: "nat \<Rightarrow> ('cb, unit) sv_op" where
  "post_space_available s =
     seqR (post_sv Notify_space_available s) (upd_stream s (\<lambda>v. v\<lparr>vs_space_available_posted := True\<rparr>))"

text \<open>\<open>None\<close> is the value \<open>~0\<close> of \<open>min_pos\<close>.\<close>

fun min_client_pos :: "nat \<Rightarrow> nat option \<Rightarrow> nat list \<Rightarrow> ('cb, nat option) sv_op" where
  "min_client_pos pos m [] = retR m"
| "min_client_pos pos m (k # ks) =
     bindR (the_client k) (\<lambda>client.
     seqR (assertV (sc_pos client \<le> pos))
     (min_client_pos pos
       (case m of None \<Rightarrow> Some (sc_pos client) | Some x \<Rightarrow> if sc_pos client < x then Some (sc_pos client) else Some x) ks))"

definition advance_stream_buffer :: "nat \<Rightarrow> ('cb, unit) sv_op" where
  "advance_stream_buffer s =
     bindR (the_stream s) (\<lambda>stream.
     let len = ring_len stream; buf_pos = vs_pos stream - len in
     seqR (assertV (remote_read stream))
     (bindR (min_client_pos (vs_pos stream) None (vs_clients stream)) (\<lambda>min_pos.
     seqR
       (case min_pos of
          None \<Rightarrow> upd_stream s (\<lambda>v. v\<lparr>vs_buf_out := vs_buf_inp v\<rparr>)
        | Some m \<Rightarrow>
            if m > buf_pos then
              seqR (assertV (m - buf_pos \<le> len))
                (upd_stream s (\<lambda>v. v\<lparr>vs_buf_out := (vs_buf_out v + (m - buf_pos) mod 2 ^ 32) mod vs_buf_len v\<rparr>))
            else if vs_pos stream - m \<ge> vs_buf_len stream then raiseR Assertion
            else retR ())
     (bindR (the_stream s) (\<lambda>stream1.
      if len \<noteq> ring_len stream1 \<and> \<not> vs_space_available_posted stream1 then post_space_available s else retR ())))))"

definition create_client :: "nat \<Rightarrow> addr \<Rightarrow> ('cb, nat) sv_op" where
  "create_client s channel =
     bindR (the_stream s) (\<lambda>stream.
     bindR (\<lambda>w. Inr (sv_next w, w)) (\<lambda>k.
     seqR (modV (\<lambda>w. w\<lparr>sv_next := Suc k,
       sv_client := (sv_client w)(k \<mapsto> \<lparr>sc_stream = s, sc_channel = channel, sc_pos = vs_pos stream - ring_len stream,
         sc_read_requests = [], sc_write_requests = []\<rparr>),
       sv_handle_hash := chain_add (get_client_hash (vs_id stream, channel)) k (sv_handle_hash w),
       sv_clients := k # sv_clients w\<rparr>))
     (seqR (upd_stream s (\<lambda>v. v\<lparr>vs_clients := k # vs_clients v, vs_ref_cnt := vs_ref_cnt v + 1\<rparr>)) (retR k))))"

definition delete_client :: "nat \<Rightarrow> ('cb, unit) sv_op" where
  "delete_client k =
     bindR (the_client k) (\<lambda>client.
     let s = sc_stream client in
     bindR (the_stream s) (\<lambda>stream.
     seqR (assertV (vs_ref_cnt stream > 0))
     (seqR (send_event_stream_disposed (sc_channel client) k stream)
     (seqR (modV (\<lambda>w. w\<lparr>sv_handle_hash := chain_purge (\<lambda>e. e = k) (sv_handle_hash w), sv_clients := removeAll k (sv_clients w)\<rparr>))
     (seqR (upd_stream s (\<lambda>v. v\<lparr>vs_clients := removeAll k (vs_clients v)\<rparr>))
     (seqR (forV (delete_read_request k) (sc_read_requests client))
     (seqR (forV (\<lambda>r. delete_write_request k r (Some (Err ERR_COMMAND_CANCELLED))) (sc_write_requests client))
     (seqR (modV (\<lambda>w. w\<lparr>sv_client := (sv_client w)(k := None)\<rparr>))
     (seqR (upd_stream s (\<lambda>v. v\<lparr>vs_ref_cnt := vs_ref_cnt v - 1\<rparr>))
     (bindR (the_stream s) (\<lambda>stream.
      if vs_ref_cnt stream = 0 then
        seqR (assertV (vs_clients stream = [])) (seqR (assertV (vs_deleted stream)) (post_sv Delete_stream s))
      else if remote_read stream then advance_stream_buffer s
      else retR ())))))))))))"

definition delete_subscription :: "Subscription \<Rightarrow> ('cb, unit) sv_op" where
  "delete_subscription h = modV (\<lambda>w. w\<lparr>sv_subscriptions := remove1 h (sv_subscriptions w)\<rparr>)"

text \<open>
  The bytes of a reply to a read: how many the client has lost, how many are sent, and where in the ring they are, in one piece or
  two.
\<close>

definition read_window :: "'cb VirtualStream \<Rightarrow> nat \<Rightarrow> nat \<Rightarrow> nat \<times> nat \<times> nat \<times> nat \<times> nat" where
  "read_window stream client_pos sz =
     (let len0 = ring_len stream;
          behind = vs_pos stream - client_pos;
          lost = (if len0 < behind then behind - len0 else 0);
          len1 = (if len0 < behind then len0 else behind mod 2 ^ 32);
          pos = (vs_buf_inp stream + vs_buf_len stream - len1) mod vs_buf_len stream;
          len = (if len1 > sz then sz else len1);
          read1 = (if pos + len \<le> vs_buf_len stream then len else vs_buf_len stream - pos);
          read2 = (if pos + len \<le> vs_buf_len stream then 0 else len - read1)
      in (lost, len, pos, read1, read2))"

definition send_read_reply :: "nat \<Rightarrow> byte list \<Rightarrow> nat \<Rightarrow> ('cb, unit) sv_op" where
  "send_read_reply k token sz =
     bindR (the_client k) (\<lambda>client.
     bindR (the_stream (sc_stream client)) (\<lambda>stream.
     seqR (assertV (ring_len stream > 0 \<or> vs_eos_inp stream))
     (seqR (assertV (sc_pos client \<le> vs_pos stream))
     (case read_window stream (sc_pos client) sz of (lost, len, pos, read1, read2) \<Rightarrow>
        seqR (assertV (read1 + read2 = len))
        (seqR (upd_client k (\<lambda>client. client\<lparr>sc_pos := sc_pos client + (lost + read1 + read2)\<rparr>))
        (bindR (the_client k) (\<lambda>client.
         seqR (assertV (sc_pos client \<le> vs_pos stream))
         (let eos = (sc_pos client = vs_pos stream \<and> vs_eos_inp stream) in
          seqR (assertV (eos \<or> lost + read1 + read2 > 0))
          (bindR (liftV (mem_load pos read1 (vs_buf stream))) (\<lambda>data1.
           bindR (liftV (mem_load 0 read2 (vs_buf stream))) (\<lambda>data2.
           bindR (liftV (used_bytes data1)) (\<lambda>bs1.
           bindR (liftV (used_bytes data2)) (\<lambda>bs2.
           actV (Sent (sc_channel client) (Some k) (Read_reply token bs1 bs2 None lost eos)))))))))))))))"

section \<open>The interface of the owner\<close>

definition strlcpy256 :: "byte list \<Rightarrow> byte list" where
  "strlcpy256 s = take 255 s"

definition virtual_stream_create ::
    "byte list \<Rightarrow> byte list option \<Rightarrow> nat \<Rightarrow> u32 \<Rightarrow> 'cb \<Rightarrow> ('cb, nat) sv_op" where
  "virtual_stream_create type context_id buf_len access callback =
     bindR (\<lambda>w. Inr (sv_next w, w)) (\<lambda>s.
     seqR (modV (\<lambda>w. w\<lparr>sv_next := Suc s, sv_id_cnt := sv_id_cnt w + 1,
       sv_stream := (sv_stream w)(s \<mapsto> \<lparr>vs_magic = STREAM_MAGIC, vs_type = strlcpy256 type, vs_id = sv_id_cnt w,
         vs_access = access, vs_callback = callback, vs_ref_cnt = 1, vs_deleted = False, vs_clients = [], vs_pos = 0,
         vs_buf = replicate (buf_len + 1) None, vs_buf_len = buf_len + 1, vs_buf_inp = 0, vs_buf_out = 0,
         vs_eos_inp = False, vs_eos_out = False, vs_data_available_posted = False, vs_space_available_posted = False\<rparr>)\<rparr>))
     (seqR (\<lambda>w. forV (\<lambda>h. if type = sb_type h then
               bindR (create_client s (sb_channel h)) (\<lambda>k.
               bindR (the_stream s) (\<lambda>stream. send_event_stream_created (sb_channel h) k stream context_id))
             else retR ()) (sv_subscriptions w) w)
     (seqR (modV (\<lambda>w. w\<lparr>sv_streams := s # sv_streams w\<rparr>)) (retR s))))"

fun find_stream :: "u32 \<Rightarrow> nat list \<Rightarrow> ('cb, nat option) sv_op" where
  "find_stream n [] = retR None"
| "find_stream n (s # ss) =
     bindR (the_stream s) (\<lambda>stream. if vs_id stream = n \<and> \<not> vs_deleted stream then retR (Some s) else find_stream n ss)"

definition virtual_stream_find :: "byte list \<Rightarrow> ('cb, nat option) sv_op" where
  "virtual_stream_find s =
     (case str2id s of None \<Rightarrow> retR None | Some n \<Rightarrow> (\<lambda>w. find_stream n (sv_streams w) w))"

text \<open>The first \<open>len\<close> bytes of \<open>buf\<close> are stored at the input end of the ring.\<close>

definition ring_put :: "byte option list \<Rightarrow> 'cb VirtualStream \<Rightarrow> exn + byte option list" where
  "ring_put data v =
     (if vs_buf_inp v + length data \<le> vs_buf_len v then mem_store (vs_buf_inp v) data (vs_buf v)
      else
        let x = vs_buf_len v - vs_buf_inp v in
        (case mem_store (vs_buf_inp v) (take x data) (vs_buf v) of
           Inl e \<Rightarrow> Inl e | Inr buf \<Rightarrow> mem_store 0 (drop x data) buf))"

text \<open>The requests of a client that can be answered now.\<close>

fun serve_reads :: "nat \<Rightarrow> nat \<Rightarrow> ReadRequest list \<Rightarrow> ('cb, unit) sv_op" where
  "serve_reads s k [] = retR ()"
| "serve_reads s k (r # rs) =
     bindR (the_client k) (\<lambda>client.
     bindR (the_stream s) (\<lambda>stream.
     if sc_pos client < vs_pos stream \<or> vs_eos_inp stream then
       seqR (upd_client k (\<lambda>client. client\<lparr>sc_read_requests := rs\<rparr>))
       (seqR (send_read_reply k (rr_token r) (rr_size r)) (serve_reads s k rs))
     else retR ()))"

definition serve_client :: "nat \<Rightarrow> nat \<Rightarrow> ('cb, unit) sv_op" where
  "serve_client s k = bindR (the_client k) (\<lambda>client. serve_reads s k (sc_read_requests client))"

text \<open>The result is the error, if there is one, and \<open>*data_size\<close>, which the callers have set to 0.\<close>

definition virtual_stream_add_data ::
    "nat \<Rightarrow> byte option list \<Rightarrow> bool \<Rightarrow> ('cb, sv_error option \<times> nat) sv_op" where
  "virtual_stream_add_data s buf eos =
     bindR (the_stream s) (\<lambda>stream.
     seqR (assertV (vs_magic stream = STREAM_MAGIC))
     (bindR
       (if vs_eos_inp stream then retR (Some (Err ERR_EOF), 0)
        else
          let free = (vs_buf_out stream + vs_buf_len stream - vs_buf_inp stream - 1) mod vs_buf_len stream in
          seqR (assertV (free < vs_buf_len stream))
          (let len = (if length buf < free then length buf else free) in
           bindR (liftV (ring_put (take len buf) stream)) (\<lambda>mem.
           seqR (upd_stream s (\<lambda>v. v\<lparr>vs_buf := mem, vs_buf_inp := (vs_buf_inp v + len) mod vs_buf_len v,
             vs_pos := vs_pos v + len, vs_eos_inp := (eos \<and> length buf = len)\<rparr>))
           (seqR (actV (Accepted s (take len buf))) (retR (None, len))))))
       (\<lambda>(err, data_size).
     bindR (the_stream s) (\<lambda>stream.
     seqR
       (if remote_read stream then
          (if err = None \<and> (vs_eos_inp stream \<or> data_size > 0) then
             seqR (forV (serve_client s) (vs_clients stream)) (advance_stream_buffer s)
           else retR ())
        else if \<not> vs_data_available_posted stream then
          seqR (post_sv Notify_data_available s) (upd_stream s (\<lambda>v. v\<lparr>vs_data_available_posted := True\<rparr>))
        else retR ())
       (retR (err, data_size))))))"

text \<open>The first request to write of a client is tried again; after an error the others are cancelled.\<close>

definition cancel_writes :: "nat \<Rightarrow> ('cb, unit) sv_op" where
  "cancel_writes k = bindR (the_client k) (\<lambda>client.
     forV (\<lambda>r. delete_write_request k r (Some (Err ERR_COMMAND_CANCELLED))) (sc_write_requests client))"

definition retry_write :: "nat \<Rightarrow> ('cb, unit) sv_op" where
  "retry_write k =
     bindR (the_client k) (\<lambda>client.
     case sc_write_requests client of
       [] \<Rightarrow> retR ()
     | r # rs \<Rightarrow>
         bindR (liftV (mem_load (wr_offs r) (wr_size r - wr_offs r) (wr_data r))) (\<lambda>data.
         bindR (virtual_stream_add_data (sc_stream client) data (wr_eos r)) (\<lambda>(error, done).
         let r1 = r\<lparr>wr_offs := wr_offs r + done\<rparr> in
         seqR (upd_client k (\<lambda>client. client\<lparr>sc_write_requests := r1 # rs\<rparr>))
         (seqR (if error \<noteq> None \<or> wr_offs r1 \<ge> wr_size r1 then delete_write_request k r1 error else retR ())
         (if error \<noteq> None then cancel_writes k else retR ())))))"

definition ring_get :: "nat \<Rightarrow> 'cb VirtualStream \<Rightarrow> exn + byte option list" where
  "ring_get len v =
     (if vs_buf_out v + len \<le> vs_buf_len v then mem_load (vs_buf_out v) len (vs_buf v)
      else
        let x = vs_buf_len v - vs_buf_out v in
        (case mem_load (vs_buf_out v) x (vs_buf v) of
           Inl e \<Rightarrow> Inl e
         | Inr bs \<Rightarrow> (case mem_load 0 (len - x) (vs_buf v) of Inl e \<Rightarrow> Inl e | Inr bs' \<Rightarrow> Inr (bs @ bs'))))"

text \<open>The bytes copied to a buffer of \<open>buf_size\<close> bytes, and \<open>*eos\<close>.\<close>

definition virtual_stream_get_data :: "nat \<Rightarrow> nat \<Rightarrow> ('cb, byte option list \<times> bool) sv_op" where
  "virtual_stream_get_data s buf_size =
     bindR (the_stream s) (\<lambda>stream.
     seqR (assertV (vs_magic stream = STREAM_MAGIC))
     (let len0 = ring_len stream;
          len = (if len0 > buf_size then buf_size else len0);
          eos = (if len0 > buf_size then False else vs_eos_inp stream)
      in
        seqR (if eos then upd_stream s (\<lambda>v. v\<lparr>vs_eos_out := True\<rparr>) else retR ())
        (bindR (liftV (ring_get len stream)) (\<lambda>data.
         seqR (if remote_write stream then forV retry_write (vs_clients stream) else retR ())
         (seqR
           (if \<not> remote_read stream \<and> len > 0 then
              seqR (upd_stream s (\<lambda>v. v\<lparr>vs_buf_out := (vs_buf_out v + len) mod vs_buf_len v\<rparr>))
              (bindR (the_stream s) (\<lambda>stream.
               seqR (assertV (\<not> eos \<or> vs_buf_out stream = vs_buf_inp stream))
               (if \<not> vs_space_available_posted stream then post_space_available s else retR ())))
            else retR ())
         (retR (data, eos)))))))"

definition virtual_stream_is_empty :: "nat \<Rightarrow> ('cb, bool) sv_op" where
  "virtual_stream_is_empty s =
     bindR (the_stream s) (\<lambda>stream.
     seqR (assertV (vs_magic stream = STREAM_MAGIC))
     (seqR (assertV (\<not> vs_deleted stream)) (retR (vs_buf_out stream = vs_buf_inp stream))))"

definition virtual_stream_delete :: "nat \<Rightarrow> ('cb, unit) sv_op" where
  "virtual_stream_delete s =
     bindR (the_stream s) (\<lambda>stream.
     seqR (assertV (vs_magic stream = STREAM_MAGIC))
     (seqR (assertV (\<not> vs_deleted stream))
     (seqR (upd_stream s (\<lambda>v. v\<lparr>vs_deleted := True, vs_ref_cnt := vs_ref_cnt v - 1\<rparr>))
     (bindR (the_stream s) (\<lambda>stream.
      if vs_ref_cnt stream > 0 then retR ()
      else seqR (assertV (vs_clients stream = [])) (post_sv Delete_stream s))))))"

section \<open>The interface of the clients\<close>

definition virtual_stream_subscribe :: "addr \<Rightarrow> byte list \<Rightarrow> ('cb, sv_error option) sv_op" where
  "virtual_stream_subscribe c type =
     (\<lambda>w. if List.find (\<lambda>h. sb_channel h = c \<and> type = sb_type h) (sv_subscriptions w) \<noteq> None
       then Inr (Some (Err_msg ERR_OTHER (bytes_of ''Already subscribed'')), w)
       else Inr (None, w\<lparr>sv_subscriptions := \<lparr>sb_type = strlcpy256 type, sb_channel = c\<rparr> # sv_subscriptions w\<rparr>))"

definition virtual_stream_unsubscribe :: "addr \<Rightarrow> byte list \<Rightarrow> ('cb, sv_error option) sv_op" where
  "virtual_stream_unsubscribe c type =
     (\<lambda>w. case List.find (\<lambda>h. sb_channel h = c \<and> type = sb_type h) (sv_subscriptions w) of
        None \<Rightarrow> Inr (Some (Err ERR_INV_CONTEXT), w)
      | Some h \<Rightarrow> seqR (delete_subscription h) (retR None) w)"

text \<open>The client that a command is about, if the stream has an access right.\<close>

definition client_for :: "byte list \<Rightarrow> addr \<Rightarrow> ('cb VirtualStream \<Rightarrow> bool) \<Rightarrow> ('cb, sv_error + nat) sv_op" where
  "client_for s c access =
     bindR (find_client s c) (\<lambda>client.
     case client of
       None \<Rightarrow> retR (Inl (no_such_stream s))
     | Some k \<Rightarrow>
         bindR (the_client k) (\<lambda>client.
         bindR (the_stream (sc_stream client)) (\<lambda>stream.
         if \<not> access stream then retR (Inl (Err ERR_UNSUPPORTED)) else retR (Inr k))))"

definition virtual_stream_read :: "addr \<Rightarrow> byte list \<Rightarrow> byte list \<Rightarrow> nat \<Rightarrow> ('cb, sv_error option) sv_op" where
  "virtual_stream_read c token s sz =
     bindR (client_for s c remote_read) (\<lambda>r.
     case r of
       Inl err \<Rightarrow> retR (Some err)
     | Inr k \<Rightarrow>
         bindR (the_client k) (\<lambda>client.
         bindR (the_stream (sc_stream client)) (\<lambda>stream.
         seqR
           (if sc_pos client = vs_pos stream \<and> \<not> vs_eos_inp stream then
              upd_client k (\<lambda>client. client\<lparr>sc_read_requests := sc_read_requests client @
                [\<lparr>rr_token = strlcpy256 token, rr_size = sz\<rparr>]\<rparr>)
            else
              seqR (assertV (sc_read_requests client = []))
              (seqR (assertV (sc_channel client = c))
              (seqR (send_read_reply k token sz) (advance_stream_buffer (sc_stream client)))))
           (retR None))))"

text \<open>
  The loop that reads the data of a write. \<open>data\<close> is the block of memory for what does not fit, with the number of bytes in it;
  \<open>offs\<close> counts the bytes the stream has taken. The data of a write may be malformed: what was done before the exception
  stays done, so the loop always returns the state.
\<close>

type_synonym 'cb write_result =
  "(exn + (sv_error option \<times> (byte option list \<times> nat) option \<times> nat \<times> JsonReadBinaryState \<times> istream)) \<times> 'cb streams"

fun write_loop ::
    "nat \<Rightarrow> nat \<Rightarrow> u64 \<Rightarrow> JsonReadBinaryState \<Rightarrow> sv_error option \<Rightarrow> (byte option list \<times> nat) option \<Rightarrow> nat \<Rightarrow>
      istream \<Rightarrow> 'cb streams \<Rightarrow> 'cb write_result" where
  "write_loop 0 s sz st err data offs inp w = (Inl Out_of_fuel, w)"
| "write_loop (Suc n) s sz st err data offs inp w =
     (case data of
        Some (block, data_pos) \<Rightarrow>
          (case json_read_binary_data st (unat (sz - word_of_nat offs - word_of_nat data_pos)) inp of
             Inl e \<Rightarrow> (Inl e, w)
           | Inr ((rd, st1), inp1) \<Rightarrow>
               if rd = [] then (Inr (err, data, offs, st1, inp1), w)
               else
                 (case mem_store data_pos (map Some rd) block of
                    Inl e \<Rightarrow> (Inl e, w)
                  | Inr block1 \<Rightarrow> write_loop n s sz st1 err (Some (block1, data_pos + length rd)) offs inp1 w))
      | None \<Rightarrow>
          (case json_read_binary_data st 256 inp of
             Inl e \<Rightarrow> (Inl e, w)
           | Inr ((rd, st1), inp1) \<Rightarrow>
               if rd = [] then (Inr (err, data, offs, st1, inp1), w)
               else if err \<noteq> None then write_loop n s sz st1 err None offs inp1 w
               else
                 (case virtual_stream_add_data s (map Some rd) False w of
                    Inl e \<Rightarrow> (Inl e, w)
                  | Inr ((err1, done), w1) \<Rightarrow>
                      if done > length rd then (Inl Assertion, w1)
                      else if err1 = None \<and> done < length rd then
                        (case mem_store 0 (map Some (drop done rd)) (replicate (unat (sz - word_of_nat (offs + done))) None) of
                           Inl e \<Rightarrow> (Inl e, w1)
                         | Inr block \<Rightarrow>
                             write_loop n s sz st1 err1 (Some (block, length rd - done)) (offs + done) inp1 w1)
                      else write_loop n s sz st1 err1 None (offs + done) inp1 w1)))"

text \<open>Every round of the loop but the last reads a byte at least.\<close>

definition write_fuel :: "JsonReadBinaryState \<Rightarrow> istream \<Rightarrow> nat" where
  "write_fuel st inp = Suc (length inp + rb_size_start st)"

definition virtual_stream_write ::
    "addr \<Rightarrow> byte list \<Rightarrow> byte list \<Rightarrow> u64 \<Rightarrow> istream \<Rightarrow> 'cb streams \<Rightarrow> (exn + sv_error option \<times> istream) \<times> 'cb streams" where
  "virtual_stream_write c token ident sz inp w =
     (case bindR (client_for ident c remote_write) (\<lambda>r. case r of Inl err \<Rightarrow> retR (Inl err)
             | Inr k \<Rightarrow> bindR (the_client k) (\<lambda>client. retR (Inr (k, client)))) w of
        Inl e \<Rightarrow> (Inl e, w)
      | Inr (r, _) \<Rightarrow>
          (case json_read_binary_start inp of
             Inl e \<Rightarrow> (Inl e, w)
           | Inr (st, inp1) \<Rightarrow>
               (let err = (case r of Inl err \<Rightarrow> Some err | Inr _ \<Rightarrow> None);
                    s = (case r of Inl _ \<Rightarrow> 0 | Inr (k, client) \<Rightarrow> sc_stream client);
                    data = (case r of Inl _ \<Rightarrow> None
                      | Inr (k, client) \<Rightarrow> if sc_write_requests client \<noteq> [] then Some (replicate (unat sz) None, 0) else None)
                in
                case write_loop (write_fuel st inp1) s sz st err data 0 inp1 w of
                  (Inl e, w1) \<Rightarrow> (Inl e, w1)
                | (Inr (err1, data1, offs, st1, inp2), w1) \<Rightarrow>
                    (case json_read_binary_end st1 inp2 of
                       Inl e \<Rightarrow> (Inl e, w1)
                     | Inr (_, inp3) \<Rightarrow>
                         (case
                            (case (data1, r) of
                               (Some (block, _), Inr (k, _)) \<Rightarrow>
                                 upd_client k (\<lambda>client. client\<lparr>sc_write_requests := sc_write_requests client @
                                   [\<lparr>wr_token = strlcpy256 token, wr_data = block, wr_offs = 0,
                                     wr_size = unat (sz - word_of_nat offs), wr_eos = False\<rparr>]\<rparr>)
                             | (None, Inr (k, _)) \<Rightarrow>
                                 if err1 = None then actV (Sent c (Some k) (Result_reply token None)) else retR ()
                             | _ \<Rightarrow> retR ()) w1
                          of Inl e \<Rightarrow> (Inl e, w1) | Inr (_, w2) \<Rightarrow> (Inr (err1, inp3), w2))))))"

definition virtual_stream_eos :: "addr \<Rightarrow> byte list \<Rightarrow> byte list \<Rightarrow> ('cb, sv_error option) sv_op" where
  "virtual_stream_eos c token s =
     bindR (client_for s c remote_write) (\<lambda>r.
     case r of
       Inl err \<Rightarrow> retR (Some err)
     | Inr k \<Rightarrow>
         bindR (the_client k) (\<lambda>client.
         if sc_write_requests client \<noteq> [] then
           seqR (upd_client k (\<lambda>client. client\<lparr>sc_write_requests := sc_write_requests client @
             [\<lparr>wr_token = strlcpy256 token, wr_data = [], wr_offs = 0, wr_size = 0, wr_eos = True\<rparr>]\<rparr>)) (retR None)
         else
           bindR (virtual_stream_add_data (sc_stream client) [] True) (\<lambda>(err, done).
           seqR (if err = None then actV (Sent c (Some k) (Result_reply token None)) else retR ()) (retR err))))"

definition virtual_stream_connect :: "addr \<Rightarrow> byte list \<Rightarrow> ('cb, sv_error option) sv_op" where
  "virtual_stream_connect c s =
     bindR (find_client s c) (\<lambda>client.
     case client of
       Some _ \<Rightarrow> retR None
     | None \<Rightarrow>
         bindR (virtual_stream_find s) (\<lambda>stream.
         case stream of
           None \<Rightarrow> retR (Some (Err ERR_INV_CONTEXT))
         | Some a \<Rightarrow> seqR (create_client a c) (retR None)))"

definition virtual_stream_disconnect :: "addr \<Rightarrow> byte list \<Rightarrow> ('cb, sv_error option) sv_op" where
  "virtual_stream_disconnect c s =
     bindR (find_client s c) (\<lambda>client.
     case client of
       None \<Rightarrow> retR (Some (no_such_stream s))
     | Some k \<Rightarrow> seqR (delete_client k) (retR None))"

definition channel_close_listener :: "addr \<Rightarrow> ('cb, unit) sv_op" where
  "channel_close_listener c =
     seqR (\<lambda>w. forV (\<lambda>k. bindR (the_client k) (\<lambda>client.
               if sc_channel client = c then delete_client k else retR ())) (sv_clients w) w)
     (\<lambda>w. forV (\<lambda>h. if sb_channel h = c then delete_subscription h else retR ()) (sv_subscriptions w) w)"

end
