(* ===== verification/Stream_Ring.thy ===== *)
theory Stream_Ring
  imports Stream_Service
begin

text \<open>
  The ring buffer of a virtual stream as a list: what \<open>ring_put\<close>, \<open>ring_get\<close> and the two pieces of a reply to a read do to the
  list of the bytes in the ring, and the arithmetic of its two ends.
\<close>

section \<open>Windows of a block of memory\<close>

definition window :: "'a list \<Rightarrow> nat \<Rightarrow> nat \<Rightarrow> 'a list" where
  "window buf start len = map (\<lambda>i. buf ! ((start + i) mod length buf)) [0..<len]"

lemma length_window [simp]: "length (window buf start len) = len"
  by (simp add: window_def)

lemma window_0 [simp]: "window buf start 0 = []"
  by (simp add: window_def)

lemma window_add: "window buf start (a + b) = window buf start a @ window buf (start + a) b"
  by (rule nth_equalityI) (auto simp: window_def nth_append add.assoc)

lemma window_mod [simp]: "window buf (start mod length buf) len = window buf start len"
  by (simp add: window_def mod_add_left_eq)

lemma window_cong: "start mod length buf = start' mod length buf \<Longrightarrow> window buf start len = window buf start' len"
  by (metis window_mod)

lemma take_window: "n \<le> len \<Longrightarrow> take n (window buf start len) = window buf start n"
  using window_add [of buf start n "len - n"] by simp

lemma drop_window: "n \<le> len \<Longrightarrow> drop n (window buf start len) = window buf (start + n) (len - n)"
  using window_add [of buf start n "len - n"] by simp

lemma window_inside: "start + len \<le> length buf \<Longrightarrow> window buf start len = take len (drop start buf)"
  by (rule nth_equalityI) (auto simp: window_def)

text \<open>A window that wraps is the end of the block and its beginning.\<close>

lemma window_wraps:
  assumes "start < length buf" "len \<le> length buf" "length buf < start + len"
  shows "window buf start len = drop start buf @ take (len - (length buf - start)) buf"
proof -
  have "window buf start len = window buf start (length buf - start) @ window buf (length buf) (len - (length buf - start))"
    using window_add [of buf start "length buf - start" "len - (length buf - start)"] assms by simp
  also have "window buf (length buf) (len - (length buf - start)) = window buf 0 (len - (length buf - start))"
    by (rule window_cong) simp
  finally show ?thesis using assms by (simp add: window_inside)
qed

section \<open>The ring\<close>

lemma mod_wrap: "x < 2 * n \<Longrightarrow> x mod n = (if x < n then x else x - n)" for x n :: nat
  by (simp add: mod_if)

lemma advance_arith:
  fixes i out n d :: nat
  assumes "i < n" "out < n" "d \<le> (if out \<le> i then i - out else i + n - out)"
  defines "out' \<equiv> (out + d) mod n"
  shows "(if out' \<le> i then i - out' else i + n - out') = (if out \<le> i then i - out else i + n - out) - d"
  using assms mod_wrap [of "out + d" n] by (auto split: if_splits)

lemma input_arith:
  fixes i out n d :: nat
  assumes "i < n" "out < n" "d + (if out \<le> i then i - out else i + n - out) < n"
  defines "i' \<equiv> (i + d) mod n"
  shows "(if out \<le> i' then i' - out else i' + n - out) = (if out \<le> i then i - out else i + n - out) + d"
  using assms mod_wrap [of "i + d" n] by (auto split: if_splits)

definition ring_ok :: "'cb VirtualStream \<Rightarrow> bool" where
  "ring_ok v \<longleftrightarrow> length (vs_buf v) = vs_buf_len v \<and> vs_buf_inp v < vs_buf_len v \<and> vs_buf_out v < vs_buf_len v"

definition ring_list :: "'cb VirtualStream \<Rightarrow> byte option list" where
  "ring_list v = window (vs_buf v) (vs_buf_out v) (ring_len v)"

lemma length_ring_list [simp]: "length (ring_list v) = ring_len v"
  by (simp add: ring_list_def)

lemma ring_len_less: "ring_ok v \<Longrightarrow> ring_len v < vs_buf_len v"
  by (simp add: ring_ok_def ring_len_def)

lemma ring_len_eq:
  "ring_ok v \<Longrightarrow> ring_len v = (if vs_buf_out v \<le> vs_buf_inp v then vs_buf_inp v - vs_buf_out v
     else vs_buf_inp v + vs_buf_len v - vs_buf_out v)"
  by (auto simp: ring_ok_def ring_len_def mod_if)

lemma ring_input_end: "ring_ok v \<Longrightarrow> (vs_buf_out v + ring_len v) mod vs_buf_len v = vs_buf_inp v"
  by (auto simp: ring_len_eq ring_ok_def mod_if)

lemma ring_free:
  "ring_ok v \<Longrightarrow> (vs_buf_out v + vs_buf_len v - vs_buf_inp v - 1) mod vs_buf_len v = vs_buf_len v - 1 - ring_len v"
  by (auto simp: ring_len_eq ring_ok_def mod_if)

lemma ring_start:
  assumes "ring_ok v" "n \<le> ring_len v"
  shows "(vs_buf_inp v + vs_buf_len v - n) mod vs_buf_len v = (vs_buf_out v + (ring_len v - n)) mod vs_buf_len v"
  using assms by (auto simp: ring_len_eq ring_ok_def mod_if)

lemma ring_empty_iff: "ring_ok v \<Longrightarrow> vs_buf_out v = vs_buf_inp v \<longleftrightarrow> ring_list v = []"
  by (auto simp flip: length_0_conv simp: ring_len_eq) (auto simp: ring_ok_def)

text \<open>The output end moves.\<close>

lemma ring_advance:
  assumes "ring_ok v" "n \<le> ring_len v"
  defines "v' \<equiv> v\<lparr>vs_buf_out := (vs_buf_out v + n) mod vs_buf_len v\<rparr>"
  shows "ring_ok v'" "ring_len v' = ring_len v - n" "ring_list v' = drop n (ring_list v)"
proof -
  show ok: "ring_ok v'" using assms by (auto simp: ring_ok_def)
  show len: "ring_len v' = ring_len v - n"
    using advance_arith [of "vs_buf_inp v" "vs_buf_len v" "vs_buf_out v" n] assms(1,2)
    unfolding ring_len_eq [OF ok] ring_len_eq [OF assms(1)] by (simp add: ring_ok_def v'_def split: if_splits)
  show "ring_list v' = drop n (ring_list v)"
    using assms(1,2) window_mod [of "vs_buf v" "vs_buf_out v + n"] unfolding ring_list_def len drop_window [OF assms(2)]
    by (simp add: v'_def ring_ok_def)
qed

text \<open>Two pieces of memory are read: the bytes of a window.\<close>

lemma ring_get_window:
  assumes "ring_ok v" "len \<le> ring_len v"
  shows "ring_get len v = Inr (take len (ring_list v))"
proof (cases "vs_buf_out v + len \<le> vs_buf_len v")
  case True
  then show ?thesis using assms by (simp add: ring_get_def ring_list_def take_window mem_load_def window_inside ring_ok_def)
next
  case False
  then show ?thesis
    using assms ring_len_less [OF assms(1)]
    by (auto simp: ring_get_def ring_list_def take_window mem_load_def ring_ok_def window_wraps Let_def)
qed

lemma load_pieces:
  assumes "pos < length buf" "len \<le> length buf"
    and "read1 = (if pos + len \<le> length buf then len else length buf - pos)"
    and "read2 = (if pos + len \<le> length buf then 0 else len - read1)"
  obtains d1 d2 where "mem_load pos read1 buf = Inr d1" "mem_load 0 read2 buf = Inr d2" "d1 @ d2 = window buf pos len"
    "read1 + read2 = len"
proof (cases "pos + len \<le> length buf")
  case True
  then show ?thesis using that assms by (simp add: mem_load_def window_inside)
next
  case False
  then show ?thesis using that assms by (simp add: mem_load_def window_wraps)
qed

text \<open>Two pieces of memory are written.\<close>

lemma nth_store:
  assumes "mem_store pos data buf = Inr mem"
  shows "length mem = length buf" "j < length buf \<Longrightarrow> mem ! j = (if pos \<le> j \<and> j < pos + length data then data ! (j - pos) else buf ! j)"
proof -
  from assms have m: "mem = take pos buf @ data @ drop (pos + length data) buf" and le: "pos + length data \<le> length buf"
    by (auto simp: mem_store_def split: if_splits)
  then show "length mem = length buf" by simp
  show "mem ! j = (if pos \<le> j \<and> j < pos + length data then data ! (j - pos) else buf ! j)" if "j < length buf"
    using that m le by (auto simp: nth_append min_def)
qed

lemma ring_put_ok:
  assumes "ring_ok v" "length data + ring_len v < vs_buf_len v"
  obtains mem where "ring_put data v = Inr mem" "length mem = vs_buf_len v"
    "\<And>i. i < length data \<Longrightarrow> mem ! ((vs_buf_inp v + i) mod vs_buf_len v) = data ! i"
    "\<And>i. i < ring_len v \<Longrightarrow> mem ! ((vs_buf_out v + i) mod vs_buf_len v) = vs_buf v ! ((vs_buf_out v + i) mod vs_buf_len v)"
proof (cases "vs_buf_inp v + length data \<le> vs_buf_len v")
  case True
  with assms obtain mem where m: "mem_store (vs_buf_inp v) data (vs_buf v) = Inr mem" by (auto simp: mem_store_def ring_ok_def)
  show ?thesis
  proof (rule that)
    show "ring_put data v = Inr mem" using True m by (simp add: ring_put_def)
    show "length mem = vs_buf_len v" using nth_store(1) [OF m] assms by (simp add: ring_ok_def)
    show "mem ! ((vs_buf_inp v + i) mod vs_buf_len v) = data ! i" if "i < length data" for i
      using True that assms nth_store(2) [OF m, of "vs_buf_inp v + i"] by (simp add: ring_ok_def)
    show "mem ! ((vs_buf_out v + i) mod vs_buf_len v) = vs_buf v ! ((vs_buf_out v + i) mod vs_buf_len v)" if "i < ring_len v" for i
      using True that assms mod_wrap [of "vs_buf_out v + i" "vs_buf_len v"]
      by (subst nth_store(2) [OF m]) (auto simp: ring_ok_def ring_len_eq split: if_splits)
  qed
next
  case False
  define x where "x = vs_buf_len v - vs_buf_inp v"
  from False assms obtain m1 where m1: "mem_store (vs_buf_inp v) (take x data) (vs_buf v) = Inr m1"
    by (auto simp: mem_store_def ring_ok_def x_def)
  have l1: "length m1 = vs_buf_len v" using nth_store(1) [OF m1] assms by (simp add: ring_ok_def)
  with assms(2) obtain mem where m2: "mem_store 0 (drop x data) m1 = Inr mem"
    by (cases "mem_store 0 (drop x data) m1") (auto simp: mem_store_def split: if_splits)
  have l2: "length mem = vs_buf_len v" using nth_store(1) [OF m2] l1 by simp
  note n = nth_store(2) [OF m2, unfolded l1] nth_store(2) [OF m1]
  show ?thesis
  proof (rule that)
    show "ring_put data v = Inr mem" using False m1 m2 by (simp add: ring_put_def x_def)
    show "length mem = vs_buf_len v" by (rule l2)
    show "mem ! ((vs_buf_inp v + i) mod vs_buf_len v) = data ! i" if "i < length data" for i
    proof (cases "i < x")
      case True
      then have "vs_buf_inp v + i < vs_buf_len v" "\<not> vs_buf_inp v + i < length data - x"
        using False that assms by (auto simp: x_def ring_ok_def)
      then show ?thesis using True that assms by (simp add: n ring_ok_def)
    next
      case F: False
      then have "(vs_buf_inp v + i) mod vs_buf_len v = i - x" using that assms by (auto simp: x_def ring_ok_def mod_if)
      moreover have "i - x < length data - x" "i - x < vs_buf_len v" using F that assms(2) by auto
      ultimately show ?thesis using F by (simp add: n)
    qed
    show "mem ! ((vs_buf_out v + i) mod vs_buf_len v) = vs_buf v ! ((vs_buf_out v + i) mod vs_buf_len v)" if "i < ring_len v" for i
    proof -
      have "(vs_buf_out v + i) mod vs_buf_len v < vs_buf_inp v" "length data - x \<le> (vs_buf_out v + i) mod vs_buf_len v"
        using False that assms mod_wrap [of "vs_buf_out v + i" "vs_buf_len v"]
        by (auto simp: ring_ok_def ring_len_eq x_def split: if_splits)
      then show ?thesis using assms(1) by (simp add: n ring_ok_def)
    qed
  qed
qed

lemma ring_add:
  assumes "ring_ok v" "length data + ring_len v < vs_buf_len v"
  obtains mem where "ring_put data v = Inr mem"
    "\<And>p e. let v' = v\<lparr>vs_buf := mem, vs_buf_inp := (vs_buf_inp v + length data) mod vs_buf_len v, vs_pos := p, vs_eos_inp := e\<rparr>
     in ring_ok v' \<and> ring_len v' = ring_len v + length data \<and> ring_list v' = ring_list v @ data"
proof -
  from ring_put_ok [OF assms] obtain mem where m: "ring_put data v = Inr mem" "length mem = vs_buf_len v"
    "\<And>i. i < length data \<Longrightarrow> mem ! ((vs_buf_inp v + i) mod vs_buf_len v) = data ! i"
    "\<And>i. i < ring_len v \<Longrightarrow> mem ! ((vs_buf_out v + i) mod vs_buf_len v) = vs_buf v ! ((vs_buf_out v + i) mod vs_buf_len v)"
    by blast
  show ?thesis
  proof (rule that [OF m(1)])
    fix p e
    define v' where "v' = v\<lparr>vs_buf := mem, vs_buf_inp := (vs_buf_inp v + length data) mod vs_buf_len v, vs_pos := p, vs_eos_inp := e\<rparr>"
    have ok: "ring_ok v'" using assms m(2) by (auto simp: ring_ok_def v'_def)
    have len: "ring_len v' = ring_len v + length data"
      using input_arith [of "vs_buf_inp v" "vs_buf_len v" "vs_buf_out v" "length data"] assms
      unfolding ring_len_eq [OF ok] ring_len_eq [OF assms(1)] by (simp add: ring_ok_def v'_def split: if_splits)
    have "window mem (vs_buf_out v) (ring_len v) = ring_list v"
      using m(2,4) assms by (simp add: window_def ring_list_def ring_ok_def)
    moreover have "window mem (vs_buf_out v + ring_len v) (length data) = data"
    proof -
      have "window mem (vs_buf_out v + ring_len v) (length data) = window mem (vs_buf_inp v) (length data)"
        using ring_input_end [OF assms(1)] m(2) assms by (intro window_cong) (simp add: ring_ok_def)
      also have "\<dots> = data" using m(2,3) by (intro nth_equalityI) (simp_all add: window_def)
      finally show ?thesis .
    qed
    ultimately have "ring_list v' = ring_list v @ data"
      using len by (simp add: ring_list_def [of v'] window_add) (simp add: v'_def)
    with ok len show "let v' = v\<lparr>vs_buf := mem, vs_buf_inp := (vs_buf_inp v + length data) mod vs_buf_len v, vs_pos := p, vs_eos_inp := e\<rparr>
     in ring_ok v' \<and> ring_len v' = ring_len v + length data \<and> ring_list v' = ring_list v @ data"
      by (simp add: v'_def Let_def)
  qed
qed

end
