(* ===== verification/Stream_Inv.thy ===== *)
theory Stream_Inv
  imports Stream_Ring Protocol_Proofs
begin

text \<open>
  What the streams service keeps: pointers, lists, hash table and reference counters fit together (\<open>struct_inv\<close>); the rings hold
  the last bytes the streams have accepted, clients are not behind them, requests wait only while they must (\<open>data_inv\<close>); posted
  events are about streams that exist (\<open>event_inv\<close>). \<open>wpR\<close> is the weakest precondition of an operation that has to succeed.
\<close>

named_theorems wp \<open>weakest preconditions of the operations of a component\<close>

section \<open>Operations that succeed\<close>

definition wpR :: "('s, 'a) comp \<Rightarrow> ('a \<Rightarrow> 's \<Rightarrow> bool) \<Rightarrow> 's \<Rightarrow> bool" where
  "wpR m Q w \<longleftrightarrow> (\<exists>x w'. m w = Inr (x, w') \<and> Q x w')"

lemma wpI: "m w = Inr (x, w') \<Longrightarrow> Q x w' \<Longrightarrow> wpR m Q w"
  by (simp add: wpR_def)

lemma wp_mono: "wpR m Q w \<Longrightarrow> (\<And>x w'. Q x w' \<Longrightarrow> Q' x w') \<Longrightarrow> wpR m Q' w"
  by (auto simp: wpR_def)

lemma wp_result: "wpR m Q w \<Longrightarrow> m w = Inr (x, w') \<Longrightarrow> Q x w'"
  by (auto simp: wpR_def)

lemma wp_ret [wp]: "wpR (retR x) Q = Q x"
  by (simp add: fun_eq_iff wpR_def retR_def)

lemma wp_raise [wp]: "wpR (raiseR e) Q w = False"
  by (simp add: wpR_def raiseR_def)

lemma wp_bind [wp]: "wpR (bindR m f) Q = wpR m (\<lambda>x. wpR (f x) Q)"
  by (auto simp: fun_eq_iff wpR_def bindR_def split: sum.splits)

lemma wp_seq [wp]: "wpR (seqR m n) Q = wpR m (\<lambda>x. wpR n Q)"
  by (simp add: seqR_def wp_bind)

lemma wp_assert [wp]: "wpR (assertV b) Q w = (b \<and> Q () w)"
  by (simp add: assertV_def wp_ret wp_raise)

lemma wp_mod [wp]: "wpR (modV f) Q = (\<lambda>w. Q () (f w))"
  by (simp add: fun_eq_iff wpR_def modV_def)

lemma wp_act [wp]: "wpR (actV a) Q w = Q () (w\<lparr>sv_trace := sv_trace w @ [a]\<rparr>)"
  by (simp add: actV_def wp_mod)

lemma wp_post [wp]: "wpR (post_sv e s) Q w = Q () (w\<lparr>sv_events := sv_events w @ [(e, s)]\<rparr>)"
  by (simp add: post_sv_def wp_mod)

lemma wp_the_stream: "sv_stream w s = Some v \<Longrightarrow> wpR (the_stream s) Q w = Q v w"
  by (simp add: wpR_def the_stream_def)

lemma wp_the_client: "sv_client w k = Some c \<Longrightarrow> wpR (the_client k) Q w = Q c w"
  by (simp add: wpR_def the_client_def)

lemma wp_upd_stream:
  "sv_stream w s = Some v \<Longrightarrow> wpR (upd_stream s f) Q w = Q () (w\<lparr>sv_stream := (sv_stream w)(s \<mapsto> f v)\<rparr>)"
  by (simp add: wpR_def upd_stream_def)

lemma wp_upd_client:
  "sv_client w k = Some c \<Longrightarrow> wpR (upd_client k f) Q w = Q () (w\<lparr>sv_client := (sv_client w)(k \<mapsto> f c)\<rparr>)"
  by (simp add: wpR_def upd_client_def)

lemma wp_lift [wp]: "wpR (liftV (Inr x)) Q w = Q x w"
  by (simp add: wpR_def liftV_def)

lemma wp_if: "wpR (if b then m else n) Q w = (if b then wpR m Q w else wpR n Q w)"
  by simp

lemma wp_get [wp]: "wpR (\<lambda>w. Inr (f w, w)) Q w = Q (f w) w"
  by (simp add: wpR_def)

lemma wp_for_state: "wpR (\<lambda>w. forV f (g w) w) Q w = wpR (forV f (g w)) Q w"
  by (simp add: wpR_def)

text \<open>A loop over a list: \<open>I\<close> says what holds when some of its elements are left.\<close>

lemma wp_for:
  assumes "I xs w"
    and "\<And>x ys w. set (x # ys) \<subseteq> set xs \<Longrightarrow> I (x # ys) w \<Longrightarrow> wpR (f x) (\<lambda>_. I ys) w"
    and "\<And>w. I [] w \<Longrightarrow> Q () w"
  shows "wpR (forV f xs) Q w"
proof -
  have "wpR (forV f ys) (\<lambda>_. I []) w" if "I ys w" "set ys \<subseteq> set xs" for ys w
    using that
  proof (induction ys arbitrary: w)
    case Nil
    then show ?case by (simp add: wp)
  next
    case (Cons x ys)
    from assms(2) [OF Cons.prems(2,1)] show ?case
      using Cons.IH Cons.prems(2) by (auto simp: wp elim: wp_mono)
  qed
  from this [OF assms(1) subset_refl] show ?thesis by (rule wp_mono) (auto intro: assms(3))
qed

section \<open>The trace\<close>

definition accepted_in :: "nat \<Rightarrow> 'cb stream_action \<Rightarrow> byte option list" where
  "accepted_in s a = (case a of Accepted s' bs \<Rightarrow> if s' = s then bs else [] | _ \<Rightarrow> [])"

definition received_in :: "nat \<Rightarrow> 'cb stream_action \<Rightarrow> byte list" where
  "received_in k a = (case a of Sent c (Some k') (Read_reply t d1 d2 e l eos) \<Rightarrow> if k' = k then d1 @ d2 else [] | _ \<Rightarrow> [])"

text \<open>The bytes a stream has accepted, and those that were sent to a client.\<close>

definition accepted :: "nat \<Rightarrow> 'cb stream_action list \<Rightarrow> byte option list" where
  "accepted s tr = concat (map (accepted_in s) tr)"

definition received :: "nat \<Rightarrow> 'cb stream_action list \<Rightarrow> byte list" where
  "received k tr = concat (map (received_in k) tr)"

lemma accepted_simps [simp]:
  "accepted s [] = []"
  "accepted s (tr @ tr') = accepted s tr @ accepted s tr'"
  "accepted s [Accepted s' bs] = (if s' = s then bs else [])"
  "accepted s [Sent c ko m] = []"
  "accepted s [Called cb s' e] = []"
  by (simp_all add: accepted_def accepted_in_def)

lemma received_simps [simp]:
  "received k [] = []"
  "received k (tr @ tr') = received k tr @ received k tr'"
  "received k [Accepted s' bs] = []"
  "received k [Called cb s' x] = []"
  "received k [Sent c (Some k') (Read_reply t d1 d2 e l eos)] = (if k' = k then d1 @ d2 else [])"
  "received k [Sent c ko (Result_reply t e)] = []"
  "received k [Sent c ko (Stream_created a b d)] = []"
  "received k [Sent c ko (Stream_disposed a b)] = []"
  by (simp_all add: received_def received_in_def split: option.splits)

section \<open>The invariant\<close>

definition client_key :: "'cb streams \<Rightarrow> nat \<Rightarrow> u32 \<times> addr" where
  "client_key w k = (case sv_client w k of None \<Rightarrow> (0, 0)
     | Some c \<Rightarrow> (case sv_stream w (sc_stream c) of None \<Rightarrow> (0, 0) | Some v \<Rightarrow> (vs_id v, sc_channel c)))"

interpretation hnd: hash_table key get_client_hash HANDLE_HASH_SIZE for key
  by unfold_locales (unfold get_client_hash_def split_def, rule hash_bound, simp_all add: HANDLE_HASH_SIZE_def)

text \<open>Pointers: every client is a client of its stream and in the table, and the counters count.\<close>

definition refs_ok :: "'cb VirtualStream \<Rightarrow> bool" where
  "refs_ok v \<longleftrightarrow> vs_magic v = STREAM_MAGIC \<and> distinct (vs_clients v) \<and> vs_buf_len v \<le> 2 ^ 32 \<and>
     vs_ref_cnt v = int (length (vs_clients v)) + (if vs_deleted v then 0 else 1)"

definition struct_inv :: "'cb streams \<Rightarrow> bool" where
  "struct_inv w \<longleftrightarrow>
     distinct (sv_clients w) \<and> set (sv_clients w) = dom (sv_client w) \<and>
     (\<forall>s v. sv_stream w s = Some v \<longrightarrow> refs_ok v \<and> s < sv_next w \<and> vs_id v < sv_id_cnt w \<and>
        set (vs_clients v) = {k. \<exists>c. sv_client w k = Some c \<and> sc_stream c = s}) \<and>
     (\<forall>k c. sv_client w k = Some c \<longrightarrow> k < sv_next w \<and> sv_stream w (sc_stream c) \<noteq> None) \<and>
     (\<forall>s s' v v'. sv_stream w s = Some v \<longrightarrow> sv_stream w s' = Some v' \<longrightarrow> vs_id v = vs_id v' \<longrightarrow> s = s') \<and>
     inj_on (client_key w) (dom (sv_client w)) \<and>
     hnd.table_ok (client_key w) (sv_handle_hash w) \<and> set (concat (sv_handle_hash w)) = dom (sv_client w)"

lemma struct_stream:
  assumes "struct_inv w" "sv_stream w s = Some v"
  shows "refs_ok v" "s < sv_next w" "vs_id v < sv_id_cnt w" "k \<in> set (vs_clients v) \<longleftrightarrow> (\<exists>c. sv_client w k = Some c \<and> sc_stream c = s)"
proof -
  from assms(1) have "\<forall>s v. sv_stream w s = Some v \<longrightarrow> refs_ok v \<and> s < sv_next w \<and> vs_id v < sv_id_cnt w \<and>
    set (vs_clients v) = {k. \<exists>c. sv_client w k = Some c \<and> sc_stream c = s}" by (simp add: struct_inv_def)
  with assms(2) show "refs_ok v" "s < sv_next w" "vs_id v < sv_id_cnt w"
    "k \<in> set (vs_clients v) \<longleftrightarrow> (\<exists>c. sv_client w k = Some c \<and> sc_stream c = s)" by simp_all
qed

lemma struct_ids:
  "struct_inv w \<Longrightarrow> sv_stream w s = Some v \<Longrightarrow> sv_stream w s' = Some v' \<Longrightarrow> vs_id v = vs_id v' \<Longrightarrow> s = s'"
  unfolding struct_inv_def by blast

lemma struct_client:
  assumes "struct_inv w" "sv_client w k = Some c"
  shows "k < sv_next w" "\<exists>v. sv_stream w (sc_stream c) = Some v"
  using assms by (simp_all add: struct_inv_def)

definition lists_inv :: "'cb streams \<Rightarrow> bool" where
  "lists_inv w \<longleftrightarrow> distinct (sv_streams w) \<and> set (sv_streams w) = dom (sv_stream w) \<and>
     distinct (map (\<lambda>h. (sb_type h, sb_channel h)) (sv_subscriptions w))"

text \<open>Data: the ring has the last bytes the stream has accepted.\<close>

definition stream_ok :: "byte option list \<Rightarrow> 'cb VirtualStream \<Rightarrow> bool" where
  "stream_ok h v \<longleftrightarrow> ring_ok v \<and> vs_pos v = length h \<and> ring_len v \<le> length h \<and>
     ring_list v = drop (length h - ring_len v) h \<and> None \<notin> set h"

definition write_ok :: "WriteRequest \<Rightarrow> bool" where
  "write_ok r \<longleftrightarrow> length (wr_data r) = wr_size r \<and> wr_offs r \<le> wr_size r \<and> None \<notin> set (wr_data r)"

text \<open>A client with \<open>busy\<close> has requests that are about to be served.\<close>

definition client_ok :: "bool \<Rightarrow> 'cb VirtualStream \<Rightarrow> StreamClient \<Rightarrow> bool" where
  "client_ok busy v c \<longleftrightarrow>
     (remote_read v \<longrightarrow> vs_pos v - ring_len v \<le> sc_pos c \<and> sc_pos c \<le> vs_pos v) \<and>
     (sc_read_requests c \<noteq> [] \<longrightarrow> remote_read v \<and> (busy \<or> sc_pos c = vs_pos v \<and> \<not> vs_eos_inp v)) \<and>
     (\<forall>r \<in> set (sc_read_requests c). 0 < rr_size r) \<and> (\<forall>r \<in> set (sc_write_requests c). write_ok r)"

definition data_inv :: "nat set \<Rightarrow> 'cb streams \<Rightarrow> bool" where
  "data_inv X w \<longleftrightarrow>
     (\<forall>s v. sv_stream w s = Some v \<longrightarrow> stream_ok (accepted s (sv_trace w)) v) \<and>
     (\<forall>s. sv_next w \<le> s \<longrightarrow> accepted s (sv_trace w) = []) \<and>
     (\<forall>k c v. sv_client w k = Some c \<longrightarrow> sv_stream w (sc_stream c) = Some v \<longrightarrow> client_ok (k \<in> X) v c)"

text \<open>Events: one of a kind for a stream, as the flags of the stream say, and nothing behind the event that deletes it.\<close>

fun delete_last :: "(stream_event \<times> nat) list \<Rightarrow> bool" where
  "delete_last [] = True"
| "delete_last ((e, s) # es) = ((e = Delete_stream \<longrightarrow> s \<notin> snd ` set es) \<and> delete_last es)"

lemma delete_last_snoc: "delete_last (es @ [(e, s)]) \<longleftrightarrow> delete_last es \<and> (Delete_stream, s) \<notin> set es"
  by (induction es rule: delete_last.induct) auto

definition event_inv :: "'cb streams \<Rightarrow> bool" where
  "event_inv w \<longleftrightarrow>
     distinct (sv_events w) \<and> delete_last (sv_events w) \<and>
     (\<forall>e s. (e, s) \<in> set (sv_events w) \<longrightarrow> sv_stream w s \<noteq> None) \<and>
     (\<forall>s v. sv_stream w s = Some v \<longrightarrow>
        ((Delete_stream, s) \<in> set (sv_events w) \<longleftrightarrow> vs_ref_cnt v = 0) \<and>
        ((Notify_data_available, s) \<in> set (sv_events w) \<longleftrightarrow> vs_data_available_posted v) \<and>
        ((Notify_space_available, s) \<in> set (sv_events w) \<longleftrightarrow> vs_space_available_posted v))"

lemma event_flags:
  assumes "event_inv w" "sv_stream w s = Some v"
  shows "(Delete_stream, s) \<in> set (sv_events w) \<longleftrightarrow> vs_ref_cnt v = 0"
    "(Notify_data_available, s) \<in> set (sv_events w) \<longleftrightarrow> vs_data_available_posted v"
    "(Notify_space_available, s) \<in> set (sv_events w) \<longleftrightarrow> vs_space_available_posted v"
  using assms unfolding event_inv_def by blast+

lemma event_list:
  assumes "event_inv w"
  shows "distinct (sv_events w)" "delete_last (sv_events w)" "(e, s) \<in> set (sv_events w) \<Longrightarrow> \<exists>v. sv_stream w s = Some v"
  using assms unfolding event_inv_def by blast+

lemma event_invI:
  assumes "distinct (sv_events w)" "delete_last (sv_events w)" "\<And>e s. (e, s) \<in> set (sv_events w) \<Longrightarrow> sv_stream w s \<noteq> None"
    and "\<And>s v. sv_stream w s = Some v \<Longrightarrow> (Delete_stream, s) \<in> set (sv_events w) \<longleftrightarrow> vs_ref_cnt v = 0"
    "\<And>s v. sv_stream w s = Some v \<Longrightarrow> (Notify_data_available, s) \<in> set (sv_events w) \<longleftrightarrow> vs_data_available_posted v"
    "\<And>s v. sv_stream w s = Some v \<Longrightarrow> (Notify_space_available, s) \<in> set (sv_events w) \<longleftrightarrow> vs_space_available_posted v"
  shows "event_inv w"
  using assms unfolding event_inv_def by blast

text \<open>
  Some clients are watched: \<open>(n, k, p)\<close> is the client \<open>k\<close>, at position \<open>p\<close> when the trace had \<open>n\<close> entries. What was sent to it since
  then are the bytes from there on.
\<close>

definition watch_ok :: "nat \<times> nat \<times> nat \<Rightarrow> 'cb streams \<Rightarrow> bool" where
  "watch_ok x w = (case x of (n, k, p) \<Rightarrow> k < sv_next w \<and> n \<le> length (sv_trace w) \<and>
     (\<forall>c v. sv_client w k = Some c \<longrightarrow> sv_stream w (sc_stream c) = Some v \<longrightarrow> remote_read v \<longrightarrow>
        p \<le> sc_pos c \<and>
        map Some (received k (drop n (sv_trace w))) = take (sc_pos c - p) (drop p (accepted (sc_stream c) (sv_trace w)))))"

definition sv_inv :: "(nat \<times> nat \<times> nat) set \<Rightarrow> nat set \<Rightarrow> 'cb streams \<Rightarrow> bool" where
  "sv_inv T X w \<longleftrightarrow> struct_inv w \<and> data_inv X w \<and> event_inv w \<and> (\<forall>x \<in> T. watch_ok x w)"

section \<open>The skeleton\<close>

text \<open>What \<open>struct_inv\<close> reads of a stream and a client.\<close>

definition stream_skel :: "'cb VirtualStream \<Rightarrow> _" where
  "stream_skel v = (vs_magic v, vs_id v, vs_access v, vs_clients v, vs_ref_cnt v, vs_deleted v, vs_buf_len v)"

definition client_skel :: "StreamClient \<Rightarrow> nat \<times> addr" where
  "client_skel c = (sc_stream c, sc_channel c)"

definition same_skel :: "'cb streams \<Rightarrow> 'cb streams \<Rightarrow> bool" where
  "same_skel w w' \<longleftrightarrow> sv_handle_hash w' = sv_handle_hash w \<and> sv_clients w' = sv_clients w \<and> sv_streams w' = sv_streams w \<and>
     sv_subscriptions w' = sv_subscriptions w \<and> sv_id_cnt w' = sv_id_cnt w \<and> sv_next w' = sv_next w \<and>
     (\<forall>s. map_option stream_skel (sv_stream w' s) = map_option stream_skel (sv_stream w s)) \<and>
     (\<forall>k. map_option client_skel (sv_client w' k) = map_option client_skel (sv_client w k))"

lemma same_skel_refl [simp]: "same_skel w w"
  by (simp add: same_skel_def)

lemma same_skel_trans: "same_skel w w' \<Longrightarrow> same_skel w' w'' \<Longrightarrow> same_skel w w''"
  by (simp add: same_skel_def)

lemma same_skel_upds [simp]:
  "same_skel w (w\<lparr>sv_trace := tr\<rparr>)" "same_skel w (w\<lparr>sv_events := es\<rparr>)"
  by (simp_all add: same_skel_def)

lemma skelD:
  assumes "same_skel w w'"
  shows "map_option stream_skel (sv_stream w' s) = map_option stream_skel (sv_stream w s)"
    and "map_option client_skel (sv_client w' k) = map_option client_skel (sv_client w k)"
  using assms by (auto simp: same_skel_def)

lemma skel_stream:
  assumes "same_skel w w'" "sv_stream w' s = Some v'"
  obtains v where "sv_stream w s = Some v" "stream_skel v' = stream_skel v"
  using skelD(1) [OF assms(1), of s] assms(2) by (cases "sv_stream w s") auto

lemma skel_stream':
  assumes "same_skel w w'" "sv_stream w s = Some v"
  obtains v' where "sv_stream w' s = Some v'" "stream_skel v' = stream_skel v"
  using skelD(1) [OF assms(1), of s] assms(2) by (cases "sv_stream w' s") auto

lemma skel_client:
  assumes "same_skel w w'" "sv_client w' k = Some c'"
  obtains c where "sv_client w k = Some c" "sc_stream c' = sc_stream c" "sc_channel c' = sc_channel c"
  using skelD(2) [OF assms(1), of k] assms(2) by (cases "sv_client w k") (auto simp: client_skel_def)

lemma skel_client':
  assumes "same_skel w w'" "sv_client w k = Some c"
  obtains c' where "sv_client w' k = Some c'" "sc_stream c' = sc_stream c" "sc_channel c' = sc_channel c"
  using skelD(2) [OF assms(1), of k] assms(2) by (cases "sv_client w' k") (auto simp: client_skel_def)

lemma skel_dom:
  assumes "same_skel w w'"
  shows "dom (sv_client w') = dom (sv_client w)" "dom (sv_stream w') = dom (sv_stream w)"
    "{k. \<exists>c. sv_client w' k = Some c \<and> sc_stream c = s} = {k. \<exists>c. sv_client w k = Some c \<and> sc_stream c = s}"
    "client_key w' = client_key w"
proof -
  have "sv_client w' k = None \<longleftrightarrow> sv_client w k = None" "sv_stream w' k = None \<longleftrightarrow> sv_stream w k = None" for k
    using skelD [OF assms] by (metis option.map_disc_iff)+
  then show "dom (sv_client w') = dom (sv_client w)" "dom (sv_stream w') = dom (sv_stream w)"
    by (simp_all add: dom_def)
  show "{k. \<exists>c. sv_client w' k = Some c \<and> sc_stream c = s} = {k. \<exists>c. sv_client w k = Some c \<and> sc_stream c = s}"
  proof (intro Collect_cong)
    fix k
    show "(\<exists>c. sv_client w' k = Some c \<and> sc_stream c = s) = (\<exists>c. sv_client w k = Some c \<and> sc_stream c = s)"
      using skelD(2) [OF assms, of k] by (cases "sv_client w k"; cases "sv_client w' k") (auto simp: client_skel_def)
  qed
  show "client_key w' = client_key w"
  proof
    fix k
    show "client_key w' k = client_key w k"
    proof (cases "sv_client w k")
      case None
      then show ?thesis using skelD(2) [OF assms, of k] by (simp add: client_key_def)
    next
      case (Some c)
      then obtain c' where c: "sv_client w' k = Some c'" "sc_stream c' = sc_stream c" "sc_channel c' = sc_channel c"
        by (rule skel_client' [OF assms])
      with Some skelD(1) [OF assms, of "sc_stream c"] show ?thesis
        by (cases "sv_stream w (sc_stream c)") (auto simp: client_key_def stream_skel_def)
    qed
  qed
qed

lemma skel_refs: "stream_skel v' = stream_skel v \<Longrightarrow> refs_ok v' = refs_ok v" "stream_skel v' = stream_skel v \<Longrightarrow> vs_id v' = vs_id v"
  "stream_skel v' = stream_skel v \<Longrightarrow> vs_clients v' = vs_clients v" "stream_skel v' = stream_skel v \<Longrightarrow> remote_read v' = remote_read v"
  "stream_skel v' = stream_skel v \<Longrightarrow> vs_ref_cnt v' = vs_ref_cnt v" "stream_skel v' = stream_skel v \<Longrightarrow> vs_deleted v' = vs_deleted v"
  "stream_skel v' = stream_skel v \<Longrightarrow> remote_write v' = remote_write v" "stream_skel v' = stream_skel v \<Longrightarrow> vs_buf_len v' = vs_buf_len v"
  by (auto simp: stream_skel_def refs_ok_def remote_read_def remote_write_def)

lemma same_skel_struct:
  assumes "same_skel w w'" "struct_inv w"
  shows "struct_inv w'"
proof -
  note d = skel_dom [OF assms(1)]
  from assms(1) have e: "sv_handle_hash w' = sv_handle_hash w" "sv_clients w' = sv_clients w" "sv_next w' = sv_next w"
    "sv_id_cnt w' = sv_id_cnt w" by (auto simp: same_skel_def)
  show ?thesis
    unfolding struct_inv_def d e
  proof (intro conjI allI impI)
    fix s v' assume "sv_stream w' s = Some v'"
    then obtain v where v: "sv_stream w s = Some v" "stream_skel v' = stream_skel v" by (rule skel_stream [OF assms(1)])
    note st = struct_stream [OF assms(2) v(1)]
    from st(1-3) show "refs_ok v'" "s < sv_next w" "vs_id v' < sv_id_cnt w" by (simp_all add: skel_refs [OF v(2)])
    show "set (vs_clients v') = {k. \<exists>c. sv_client w k = Some c \<and> sc_stream c = s}"
      unfolding skel_refs(3) [OF v(2)] set_eq_iff mem_Collect_eq st(4) by simp
  next
    fix k c' assume "sv_client w' k = Some c'"
    then obtain c where "sv_client w k = Some c" "sc_stream c' = sc_stream c" by (rule skel_client [OF assms(1)])
    moreover from this(1) have "k < sv_next w" "sc_stream c \<in> dom (sv_stream w)"
      using struct_client [OF assms(2)] by auto
    ultimately show "k < sv_next w" "sv_stream w' (sc_stream c') \<noteq> None"
      using d(2) by auto
  next
    fix s1 s2 v1 v2 assume s: "sv_stream w' s1 = Some v1" "sv_stream w' s2 = Some v2" "vs_id v1 = vs_id v2"
    from s(1) obtain u1 where u1: "sv_stream w s1 = Some u1" "stream_skel v1 = stream_skel u1" by (rule skel_stream [OF assms(1)])
    from s(2) obtain u2 where u2: "sv_stream w s2 = Some u2" "stream_skel v2 = stream_skel u2" by (rule skel_stream [OF assms(1)])
    from s(3) have "vs_id u1 = vs_id u2" by (simp add: skel_refs(2) [OF u1(2)] skel_refs(2) [OF u2(2)])
    with u1(1) u2(1) struct_ids [OF assms(2)] show "s1 = s2" by blast
  qed (use assms(2) in \<open>simp_all add: struct_inv_def\<close>)
qed

lemma same_skel_lists: "same_skel w w' \<Longrightarrow> lists_inv w \<Longrightarrow> lists_inv w'"
  by (simp add: lists_inv_def skel_dom(2)) (simp add: same_skel_def)

section \<open>Reply to a read\<close>

text \<open>A reply has the next bytes of the client, as many as are asked for and as there are.\<close>

lemma send_read_reply_eq:
  assumes c: "sv_client w k = Some c" and v: "sv_stream w (sc_stream c) = Some v"
    and ring: "ring_ok v" "vs_buf_len v \<le> 2 ^ 32" "None \<notin> set (ring_list v)"
    and pos: "ring_len v \<le> vs_pos v" "vs_pos v - ring_len v \<le> sc_pos c" "sc_pos c \<le> vs_pos v"
    and some: "sc_pos c < vs_pos v \<or> vs_eos_inp v" "0 < sz"
  defines "n \<equiv> min sz (vs_pos v - sc_pos c)"
  obtains d1 d2 where "map Some (d1 @ d2) = take n (drop (sc_pos c - (vs_pos v - ring_len v)) (ring_list v))"
    "send_read_reply k token sz w = Inr ((), w\<lparr>sv_client := (sv_client w)(k \<mapsto> c\<lparr>sc_pos := sc_pos c + n\<rparr>),
       sv_trace := sv_trace w @ [Sent (sc_channel c) (Some k)
         (Read_reply token d1 d2 None 0 (sc_pos c + n = vs_pos v \<and> vs_eos_inp v))]\<rparr>)"
proof -
  define behind where "behind = vs_pos v - sc_pos c"
  have b: "behind \<le> ring_len v" "behind mod 2 ^ 32 = behind"
    using pos ring_len_less [OF ring(1)] ring(2) by (auto simp: behind_def)
  define start where "start = (vs_buf_inp v + vs_buf_len v - behind) mod vs_buf_len v"
  define r1 where "r1 = (if start + n \<le> length (vs_buf v) then n else length (vs_buf v) - start)"
  define r2 where "r2 = (if start + n \<le> length (vs_buf v) then 0 else n - r1)"
  have len: "length (vs_buf v) = vs_buf_len v" "0 < vs_buf_len v" using ring(1) by (auto simp: ring_ok_def)
  have n: "n \<le> behind" "n \<le> ring_len v" using b by (auto simp: n_def behind_def)
  have st: "start < length (vs_buf v)" "n \<le> length (vs_buf v)"
    using len n ring_len_less [OF ring(1)] by (auto simp: start_def)
  from load_pieces [OF st r1_def r2_def] obtain b1 b2 where
    l: "mem_load start r1 (vs_buf v) = Inr b1" "mem_load 0 r2 (vs_buf v) = Inr b2" "b1 @ b2 = window (vs_buf v) start n" "r1 + r2 = n"
    by blast
  have off: "ring_len v - behind = sc_pos c - (vs_pos v - ring_len v)" using pos by (simp add: behind_def)
  have "window (vs_buf v) start n = window (vs_buf v) (vs_buf_out v + (ring_len v - behind)) n"
    using ring_start [OF ring(1) b(1)] len(1) by (intro window_cong) (simp add: start_def)
  also have "\<dots> = take n (drop (ring_len v - behind) (ring_list v))"
    using n b by (simp add: ring_list_def drop_window take_window)
  finally have w: "b1 @ b2 = take n (drop (sc_pos c - (vs_pos v - ring_len v)) (ring_list v))" using l(3) off by simp
  then have "set b1 \<union> set b2 \<subseteq> set (ring_list v)" by (metis set_append set_take_subset set_drop_subset subset_trans)
  then have nn: "None \<notin> set b1" "None \<notin> set b2" using ring(3) by auto
  have m: "map Some (map the b1) = b1" "map Some (map the b2) = b2"
    using nn by (induction b1, auto, induction b2, auto)
  have i: "(if behind > sz then sz else behind) = n" by (auto simp: n_def behind_def)
  have win: "read_window v (sc_pos c) sz = (0, n, start, r1, r2)"
    unfolding read_window_def Let_def behind_def [symmetric] b(2) if_not_P [OF leD [OF b(1)]] start_def [symmetric] i
    by (simp add: r1_def r2_def len(1))
  have e: "(sc_pos c + n = vs_pos v \<and> vs_eos_inp v) \<or> 0 < n" using some pos by (auto simp: n_def)
  have e1: "(sc_pos c + n = vs_pos v \<and> vs_eos_inp v) \<or> 0 < r1 \<or> 0 < r2" using e l(4) by linarith
  have sp: "sc_pos c + n \<le> vs_pos v" using n pos by (simp add: behind_def)
  have lp: "0 < ring_len v \<or> vs_eos_inp v" using some b by (auto simp: behind_def)
  have "send_read_reply k token sz w = Inr ((), w\<lparr>sv_client := (sv_client w)(k \<mapsto> c\<lparr>sc_pos := sc_pos c + n\<rparr>),
       sv_trace := sv_trace w @ [Sent (sc_channel c) (Some k)
         (Read_reply token (map the b1) (map the b2) None 0 (sc_pos c + n = vs_pos v \<and> vs_eos_inp v))]\<rparr>)"
    using pos(3) l(1,2,4) nn e sp lp e1
    by (simp add: send_read_reply_def win reader_simps the_client_def the_stream_def assertV_def upd_client_def liftV_def actV_def
      modV_def c v Let_def used_bytes_def)
  then show ?thesis using that [of "map the b1" "map the b2"] w m by (simp del: map_map)
qed

end
