(* ===== verification/Stream_Proofs.thy ===== *)
theory Stream_Proofs
  imports Stream_Inv
begin

text \<open>
  The operations of the streams service keep the invariant: first changes of one stream or client, then the reply to a read,
  the advance of a ring, adding data, getting data, clients that come and go.
\<close>

section \<open>Changes that keep the invariant\<close>

lemma same_skel_stream:
  "sv_stream w s = Some v \<Longrightarrow> stream_skel v' = stream_skel v \<Longrightarrow> same_skel w (w\<lparr>sv_stream := (sv_stream w)(s \<mapsto> v')\<rparr>)"
  by (simp add: same_skel_def)

lemma same_skel_client:
  "sv_client w k = Some c \<Longrightarrow> sc_stream c' = sc_stream c \<Longrightarrow> sc_channel c' = sc_channel c \<Longrightarrow>
    same_skel w (w\<lparr>sv_client := (sv_client w)(k \<mapsto> c')\<rparr>)"
  by (simp add: same_skel_def client_skel_def)

lemma inv_stream:
  assumes "sv_inv T X w" "sv_stream w s = Some v"
  shows "refs_ok v" "s < sv_next w" "k \<in> set (vs_clients v) \<longleftrightarrow> (\<exists>c. sv_client w k = Some c \<and> sc_stream c = s)"
    "stream_ok (accepted s (sv_trace w)) v"
  using assms struct_stream [of w s v] by (simp_all add: sv_inv_def data_inv_def)

lemma inv_client:
  assumes "sv_inv T X w" "sv_client w k = Some c"
  obtains v where "sv_stream w (sc_stream c) = Some v" "k \<in> set (vs_clients v)" "client_ok (k \<in> X) v c" "k < sv_next w"
proof -
  from assms(1) have st: "struct_inv w" and d: "data_inv X w" by (simp_all add: sv_inv_def)
  from struct_client [OF st assms(2)] obtain v where v: "sv_stream w (sc_stream c) = Some v" "k < sv_next w" by blast
  from struct_stream(4) [OF st v(1), of k] assms(2) have "k \<in> set (vs_clients v)" by simp
  with v d assms(2) that show ?thesis by (simp add: data_inv_def)
qed

text \<open>The trace.\<close>

lemma inv_act:
  assumes "sv_inv T X w" "\<And>s. accepted s [a] = []" "\<And>k. received k [a] = []"
  shows "sv_inv T X (w\<lparr>sv_trace := sv_trace w @ [a]\<rparr>)"
proof -
  let ?w = "w\<lparr>sv_trace := sv_trace w @ [a]\<rparr>"
  have "struct_inv w" "data_inv X w" "event_inv w" using assms(1) by (simp_all add: sv_inv_def)
  then have "struct_inv ?w" "data_inv X ?w" "event_inv ?w"
    using same_skel_struct [OF same_skel_upds(1)] by (simp_all add: data_inv_def event_inv_def assms(2))
  moreover have "watch_ok x ?w" if "x \<in> T" for x
  proof -
    from assms(1) that have "watch_ok x w" by (simp add: sv_inv_def)
    then show ?thesis by (cases x) (simp add: watch_ok_def assms(2,3))
  qed
  ultimately show ?thesis by (simp add: sv_inv_def)
qed

text \<open>One stream.\<close>

lemma inv_upd_stream:
  assumes inv: "sv_inv T X w" and v: "sv_stream w s = Some v" "stream_skel v' = stream_skel v"
    and flags: "vs_data_available_posted v' = vs_data_available_posted v" "vs_space_available_posted v' = vs_space_available_posted v"
    and ok: "stream_ok (accepted s (sv_trace w)) v'"
    and cl: "\<And>k c. sv_client w k = Some c \<Longrightarrow> sc_stream c = s \<Longrightarrow> client_ok (k \<in> X) v c \<Longrightarrow> client_ok (k \<in> X) v' c"
  shows "sv_inv T X (w\<lparr>sv_stream := (sv_stream w)(s \<mapsto> v')\<rparr>)"
proof -
  let ?w = "w\<lparr>sv_stream := (sv_stream w)(s \<mapsto> v')\<rparr>"
  have "struct_inv ?w"
    using inv by (intro same_skel_struct [OF same_skel_stream [OF v]]) (simp add: sv_inv_def)
  moreover have "data_inv X ?w" using inv ok cl v(1) by (auto simp: sv_inv_def data_inv_def)
  moreover have "event_inv ?w" using inv v(1) flags by (auto simp: sv_inv_def event_inv_def skel_refs(5) [OF v(2)])
  moreover have "watch_ok x ?w" if "x \<in> T" for x
  proof -
    from inv that have "watch_ok x w" by (simp add: sv_inv_def)
    then show ?thesis using v(1) by (auto simp: watch_ok_def skel_refs(4) [OF v(2)] split: prod.splits)
  qed
  ultimately show ?thesis by (simp add: sv_inv_def)
qed

text \<open>One client, not its position.\<close>

lemma inv_upd_client:
  assumes inv: "sv_inv T X w" and c: "sv_client w k = Some c"
    and same: "sc_stream c' = sc_stream c" "sc_channel c' = sc_channel c" "sc_pos c' = sc_pos c"
    and ok: "\<And>v. sv_stream w (sc_stream c) = Some v \<Longrightarrow> client_ok (k \<in> X) v c \<Longrightarrow> client_ok (k \<in> X') v c'"
    and X: "X' - {k} = X - {k}"
  shows "sv_inv T X' (w\<lparr>sv_client := (sv_client w)(k \<mapsto> c')\<rparr>)"
proof -
  let ?w = "w\<lparr>sv_client := (sv_client w)(k \<mapsto> c')\<rparr>"
  have "struct_inv ?w"
    using inv by (intro same_skel_struct [OF same_skel_client [OF c same(1,2)]]) (simp add: sv_inv_def)
  moreover have "data_inv X' ?w"
  proof -
    have "j \<in> X' \<longleftrightarrow> j \<in> X" if "j \<noteq> k" for j using X that by blast
    then show ?thesis using inv ok c same by (auto simp: sv_inv_def data_inv_def)
  qed
  moreover have "event_inv ?w" using inv by (simp add: sv_inv_def event_inv_def)
  moreover have "watch_ok x ?w" if "x \<in> T" for x
  proof -
    from inv that have "watch_ok x w" by (simp add: sv_inv_def)
    then show ?thesis using c same by (auto simp: watch_ok_def split: prod.splits if_splits)
  qed
  ultimately show ?thesis by (simp add: sv_inv_def)
qed

text \<open>An event about a stream that is not to be deleted.\<close>

lemma event_inv_post:
  assumes "event_inv w" "sv_stream w s = Some v" "vs_ref_cnt v \<noteq> 0" "vs_ref_cnt v' = vs_ref_cnt v"
    and "e = Notify_data_available \<and> \<not> vs_data_available_posted v \<and> vs_data_available_posted v' \<and>
           vs_space_available_posted v' = vs_space_available_posted v \<or>
         e = Notify_space_available \<and> \<not> vs_space_available_posted v \<and> vs_space_available_posted v' \<and>
           vs_data_available_posted v' = vs_data_available_posted v"
  shows "event_inv (w\<lparr>sv_events := sv_events w @ [(e, s)], sv_stream := (sv_stream w)(s \<mapsto> v')\<rparr>)"
proof -
  note f = event_flags [OF assms(1)] and l = event_list [OF assms(1)]
  from f [OF assms(2)] assms(3,5) have n: "(e, s) \<notin> set (sv_events w)" "(Delete_stream, s) \<notin> set (sv_events w)" by auto
  show ?thesis
    by (rule event_invI)
      (use l n f [OF assms(2)] f assms(3-5) in \<open>auto simp: delete_last_snoc assms(2) split: if_splits\<close>)
qed

lemma inv_post:
  assumes inv: "sv_inv T X w" and v: "sv_stream w s = Some v" "vs_ref_cnt v \<noteq> 0"
    and e: "e = Notify_data_available \<and> \<not> vs_data_available_posted v \<and> v' = v\<lparr>vs_data_available_posted := True\<rparr> \<or>
         e = Notify_space_available \<and> \<not> vs_space_available_posted v \<and> v' = v\<lparr>vs_space_available_posted := True\<rparr>"
  shows "sv_inv T X (w\<lparr>sv_events := sv_events w @ [(e, s)], sv_stream := (sv_stream w)(s \<mapsto> v')\<rparr>)"
proof -
  let ?w = "w\<lparr>sv_events := sv_events w @ [(e, s)], sv_stream := (sv_stream w)(s \<mapsto> v')\<rparr>"
  have sk: "stream_skel v' = stream_skel v" using e by (auto simp: stream_skel_def)
  have r: "ring_ok v' = ring_ok v" "ring_len v' = ring_len v" "ring_list v' = ring_list v" "vs_pos v' = vs_pos v" "vs_eos_inp v' = vs_eos_inp v"
    using e by (auto simp: ring_ok_def ring_len_def ring_list_def)
  have o: "stream_ok h v' = stream_ok h v" "client_ok b v' c = client_ok b v c" for h b c
    by (simp_all add: stream_ok_def client_ok_def r skel_refs(4) [OF sk])
  have "same_skel w ?w" using v(1) sk by (simp add: same_skel_def)
  then have "struct_inv ?w" using inv by (auto simp: sv_inv_def intro: same_skel_struct)
  moreover have "data_inv X ?w"
    using inv v(1) by (simp add: sv_inv_def data_inv_def o)
  moreover have "event_inv ?w" using inv v e by (intro event_inv_post [of w s v]) (auto simp: sv_inv_def)
  moreover have "watch_ok x ?w" if "x \<in> T" for x
  proof -
    from inv that have "watch_ok x w" by (simp add: sv_inv_def)
    then show ?thesis using v(1) by (auto simp: watch_ok_def skel_refs(4) [OF sk] split: prod.splits)
  qed
  ultimately show ?thesis by (simp add: sv_inv_def)
qed

text \<open>A client whose requests wait as they must is not busy.\<close>

lemma inv_calm:
  assumes inv: "sv_inv T X w" and c: "sv_client w k = Some c"
    and calm: "\<And>v. sv_stream w (sc_stream c) = Some v \<Longrightarrow> sc_read_requests c \<noteq> [] \<Longrightarrow> sc_pos c = vs_pos v \<and> \<not> vs_eos_inp v"
  shows "sv_inv T (X - {k}) w"
proof -
  have "sv_inv T (X - {k}) (w\<lparr>sv_client := (sv_client w)(k \<mapsto> c)\<rparr>)"
    by (rule inv_upd_client [OF inv c]) (use calm in \<open>auto simp: client_ok_def\<close>)
  then show ?thesis using c by (simp add: fun_upd_idem)
qed

section \<open>Requests to read\<close>

text \<open>What serving requests and moving the end of the ring do not change.\<close>

definition stream_input :: "'cb VirtualStream \<Rightarrow> nat \<times> bool \<times> byte option list \<times> nat" where
  "stream_input v = (vs_pos v, vs_eos_inp v, vs_buf v, vs_buf_inp v)"

definition quiet :: "'cb streams \<Rightarrow> 'cb streams \<Rightarrow> bool" where
  "quiet w w' \<longleftrightarrow> same_skel w w' \<and> (\<forall>s. accepted s (sv_trace w') = accepted s (sv_trace w)) \<and>
     (\<forall>k. map_option sc_write_requests (sv_client w' k) = map_option sc_write_requests (sv_client w k)) \<and>
     (\<forall>s. map_option stream_input (sv_stream w' s) = map_option stream_input (sv_stream w s))"

lemma quiet_refl [simp]: "quiet w w"
  by (simp add: quiet_def)

lemma quiet_trans: "quiet w w' \<Longrightarrow> quiet w' w'' \<Longrightarrow> quiet w w''"
  by (auto simp: quiet_def elim: same_skel_trans)

lemma quiet_skel: "quiet w w' \<Longrightarrow> same_skel w w'"
  by (simp add: quiet_def)

lemma quiet_stream:
  assumes "quiet w w'" "sv_stream w s = Some v"
  obtains v' where "sv_stream w' s = Some v'" "stream_skel v' = stream_skel v" "vs_pos v' = vs_pos v" "vs_eos_inp v' = vs_eos_inp v"
proof -
  from assms obtain v' where v': "sv_stream w' s = Some v'" "stream_skel v' = stream_skel v"
    by (auto simp: quiet_def elim: skel_stream')
  from assms(1) have "map_option stream_input (sv_stream w' s) = map_option stream_input (sv_stream w s)" by (simp add: quiet_def)
  with assms(2) v' that show ?thesis by (auto simp: stream_input_def)
qed

lemma wp_reply:
  assumes inv: "sv_inv T X w" and c: "sv_client w k = Some c" and v: "sv_stream w (sc_stream c) = Some v" "remote_read v"
    and some: "sc_pos c < vs_pos v \<or> vs_eos_inp v" "0 < sz" and busy: "k \<in> X \<or> sc_read_requests c = []"
  shows "wpR (send_read_reply k token sz) (\<lambda>_ w'. sv_inv T X w' \<and> quiet w w' \<and>
    sv_client w' k = Some (c\<lparr>sc_pos := sc_pos c + min sz (vs_pos v - sc_pos c)\<rparr>) \<and> sv_stream w' = sv_stream w) w"
proof -
  define n where "n = min sz (vs_pos v - sc_pos c)"
  define h where "h = accepted (sc_stream c) (sv_trace w)"
  have so: "stream_ok h v" "refs_ok v" using inv_stream [OF inv v(1)] by (simp_all add: h_def)
  have co: "client_ok (k \<in> X) v c" using inv c v by (simp add: sv_inv_def data_inv_def)
  have ring: "ring_ok v" "vs_buf_len v \<le> 2 ^ 32" "None \<notin> set (ring_list v)" "ring_len v \<le> vs_pos v" "vs_pos v = length h"
    using so by (auto simp: stream_ok_def refs_ok_def dest: in_set_dropD)
  have pos: "vs_pos v - ring_len v \<le> sc_pos c" "sc_pos c \<le> vs_pos v" using co v(2) by (simp_all add: client_ok_def)
  from send_read_reply_eq [OF c v(1) ring(1-4) pos some, folded n_def, of token] obtain d1 d2 where
    d: "map Some (d1 @ d2) = take n (drop (sc_pos c - (vs_pos v - ring_len v)) (ring_list v))" and
    e: "send_read_reply k token sz w = Inr ((), w\<lparr>sv_client := (sv_client w)(k \<mapsto> c\<lparr>sc_pos := sc_pos c + n\<rparr>),
       sv_trace := sv_trace w @ [Sent (sc_channel c) (Some k)
         (Read_reply token d1 d2 None 0 (sc_pos c + n = vs_pos v \<and> vs_eos_inp v))]\<rparr>)"
    by blast
  let ?w = "w\<lparr>sv_client := (sv_client w)(k \<mapsto> c\<lparr>sc_pos := sc_pos c + n\<rparr>),
       sv_trace := sv_trace w @ [Sent (sc_channel c) (Some k)
         (Read_reply token d1 d2 None 0 (sc_pos c + n = vs_pos v \<and> vs_eos_inp v))]\<rparr>"
  have d': "map Some (d1 @ d2) = take n (drop (sc_pos c) h)"
    using d so(1) pos ring(4,5) by (simp add: stream_ok_def)
  have sk: "same_skel w ?w" using c by (simp add: same_skel_def client_skel_def)
  have q: "quiet w ?w" using sk c by (simp add: quiet_def)
  have "struct_inv ?w" using inv by (intro same_skel_struct [OF sk]) (simp add: sv_inv_def)
  moreover have "data_inv X ?w"
  proof -
    have "client_ok (k \<in> X) v (c\<lparr>sc_pos := sc_pos c + n\<rparr>)" using co busy pos by (auto simp: client_ok_def n_def)
    then show ?thesis using inv v by (auto simp: sv_inv_def data_inv_def)
  qed
  moreover have "event_inv ?w" using inv by (simp add: sv_inv_def event_inv_def)
  moreover have "watch_ok x ?w" if "x \<in> T" for x
  proof -
    obtain m j p where x: "x = (m, j, p)" by (cases x)
    from inv that have w: "watch_ok (m, j, p) w" by (simp add: sv_inv_def x)
    show ?thesis
    proof (cases "j = k")
      case True
      with w c v have p: "p \<le> sc_pos c" "map Some (received k (drop m (sv_trace w))) = take (sc_pos c - p) (drop p h)"
        by (auto simp: watch_ok_def h_def)
      from p(1) have "sc_pos c + n - p = (sc_pos c - p) + n" by simp
      then have "take (sc_pos c + n - p) (drop p h) = take (sc_pos c - p) (drop p h) @ take n (drop (sc_pos c) h)"
        using p(1) by (simp only: take_add) simp
      then show ?thesis using w p c v d' True by (auto simp: watch_ok_def x h_def [symmetric])
    next
      case False
      then show ?thesis using w by (auto simp: watch_ok_def x)
    qed
  qed
  ultimately have "sv_inv T X ?w" by (simp add: sv_inv_def)
  with q show ?thesis unfolding wpR_def e by (simp add: n_def)
qed

lemma wp_serve_reads:
  assumes "sv_inv T (insert k X) w" "sv_client w k = Some c" "sc_read_requests c = rs" "sc_stream c = s"
  shows "wpR (serve_reads s k rs) (\<lambda>_ w'. sv_inv T (X - {k}) w' \<and> quiet w w') w"
  using assms
proof (induction rs arbitrary: w c)
  case Nil
  then show ?case using inv_calm [OF Nil.prems(1,2)] by (simp add: wp)
next
  case (Cons r rs)
  note inv = Cons.prems(1) and c = Cons.prems(2)
  from inv_client [OF inv c] Cons.prems(4) obtain v where v: "sv_stream w s = Some v" "client_ok True v c" by auto
  have rr: "remote_read v" "0 < rr_size r" using v(2) Cons.prems(3) by (auto simp: client_ok_def)
  show ?case
  proof (cases "sc_pos c < vs_pos v \<or> vs_eos_inp v")
    case False
    then have "sc_pos c = vs_pos v" "\<not> vs_eos_inp v" using v(2) rr by (auto simp: client_ok_def)
    then have "sv_inv T (insert k X - {k}) w" using v(1) Cons.prems(4) by (intro inv_calm [OF inv c]) auto
    then show ?thesis using False v(1) c by (simp add: wp wp_the_client wp_the_stream)
  next
    case True
    let ?c = "c\<lparr>sc_read_requests := rs\<rparr>"
    let ?w = "w\<lparr>sv_client := (sv_client w)(k \<mapsto> ?c)\<rparr>"
    have inv1: "sv_inv T (insert k X) ?w"
      by (rule inv_upd_client [OF inv c]) (use Cons.prems(3) in \<open>auto simp: client_ok_def\<close>)
    have q1: "quiet w ?w" using c by (simp add: quiet_def same_skel_client)
    have "wpR (send_read_reply k (rr_token r) (rr_size r)) (\<lambda>_ w'. sv_inv T (insert k X) w' \<and> quiet ?w w' \<and>
      sv_client w' k = Some (?c\<lparr>sc_pos := sc_pos ?c + min (rr_size r) (vs_pos v - sc_pos ?c)\<rparr>) \<and> sv_stream w' = sv_stream ?w) ?w"
      using inv1 v(1) rr True Cons.prems(4) by (intro wp_reply) auto
    then have "wpR (send_read_reply k (rr_token r) (rr_size r)) (\<lambda>_. wpR (serve_reads s k rs) (\<lambda>_ w'. sv_inv T (X - {k}) w' \<and> quiet w w')) ?w"
    proof (rule wp_mono)
      fix w' assume a: "sv_inv T (insert k X) w' \<and> quiet ?w w' \<and>
        sv_client w' k = Some (?c\<lparr>sc_pos := sc_pos ?c + min (rr_size r) (vs_pos v - sc_pos ?c)\<rparr>) \<and> sv_stream w' = sv_stream ?w"
      then have "wpR (serve_reads s k rs) (\<lambda>_ w''. sv_inv T (X - {k}) w'' \<and> quiet w' w'') w'"
        using Cons.prems(4)
        by (intro Cons.IH [where c = "?c\<lparr>sc_pos := sc_pos ?c + min (rr_size r) (vs_pos v - sc_pos ?c)\<rparr>"]) auto
      then show "wpR (serve_reads s k rs) (\<lambda>_ w'. sv_inv T (X - {k}) w' \<and> quiet w w') w'"
        by (rule wp_mono) (use a q1 quiet_trans in blast)
    qed
    then show ?thesis using True v(1) c by (simp add: wp wp_the_client wp_the_stream wp_upd_client)
  qed
qed

lemma wp_serve_clients:
  assumes "sv_inv T (set ks) w" "distinct ks" "\<And>k. k \<in> set ks \<Longrightarrow> \<exists>c. sv_client w k = Some c \<and> sc_stream c = s"
  shows "wpR (forV (serve_client s) ks) (\<lambda>_ w'. sv_inv T {} w' \<and> quiet w w') w"
proof (rule wp_for [where I = "\<lambda>ks w'. distinct ks \<and> sv_inv T (set ks) w' \<and> quiet w w'"], goal_cases)
  case 1
  then show ?case using assms by simp
next
  case (2 k ys w1)
  from 2(1) assms(3) obtain c where "sv_client w k = Some c" "sc_stream c = s" by auto
  then obtain c1 where c1: "sv_client w1 k = Some c1" "sc_stream c1 = s"
    using skel_client' [of w w1 k c] quiet_skel 2(2) by metis
  from 2(2) have "set ys - {k} = set ys" by auto
  with 2(2) c1 have "wpR (serve_reads s k (sc_read_requests c1)) (\<lambda>_ w'. sv_inv T (set ys) w' \<and> quiet w1 w') w1"
    using wp_serve_reads [of T k "set ys" w1 c1 "sc_read_requests c1" s] by simp
  then have "wpR (serve_client s k) (\<lambda>_ w'. sv_inv T (set ys) w' \<and> quiet w1 w') w1"
    using c1 by (simp add: serve_client_def wp wp_the_client)
  then show ?case by (rule wp_mono) (use 2(2) quiet_trans in auto)
qed simp

section \<open>The ring moves\<close>

lemma min_client_pos_eq:
  assumes "\<And>k. k \<in> set ks \<Longrightarrow> \<exists>c. sv_client w k = Some c \<and> sc_pos c \<le> P"
  shows "\<exists>r. min_client_pos P m ks w = Inr (r, w) \<and> (r = None \<longleftrightarrow> m = None \<and> ks = []) \<and>
    (\<forall>x. r = Some x \<longrightarrow> (\<forall>y. m = Some y \<longrightarrow> x \<le> y) \<and> (\<forall>k c. k \<in> set ks \<longrightarrow> sv_client w k = Some c \<longrightarrow> x \<le> sc_pos c) \<and>
       (m = Some x \<or> (\<exists>k \<in> set ks. \<exists>c. sv_client w k = Some c \<and> sc_pos c = x)))"
  using assms
proof (induction ks arbitrary: m)
  case Nil
  then show ?case by (simp add: retR_def)
next
  case (Cons k ks)
  from Cons.prems [of k] obtain c where c: "sv_client w k = Some c" "sc_pos c \<le> P" by auto
  define m' where "m' = (case m of None \<Rightarrow> Some (sc_pos c) | Some x \<Rightarrow> if sc_pos c < x then Some (sc_pos c) else Some x)"
  have e: "min_client_pos P m (k # ks) w = min_client_pos P m' ks w"
    using c by (simp add: reader_simps the_client_def assertV_def m'_def)
  from Cons.IH [of m'] Cons.prems obtain r where r: "min_client_pos P m' ks w = Inr (r, w)" "r = None \<longleftrightarrow> m' = None \<and> ks = []"
    "\<And>x. r = Some x \<Longrightarrow> (\<forall>y. m' = Some y \<longrightarrow> x \<le> y) \<and> (\<forall>k c. k \<in> set ks \<longrightarrow> sv_client w k = Some c \<longrightarrow> x \<le> sc_pos c) \<and>
       (m' = Some x \<or> (\<exists>k \<in> set ks. \<exists>c. sv_client w k = Some c \<and> sc_pos c = x))" by auto
  show ?case
  proof (intro exI [of _ r] conjI allI impI, goal_cases)
    case 1
    then show ?case using e r(1) by simp
  next
    case 2
    then show ?case using r(2) by (auto simp: m'_def split: option.splits if_splits)
  next
    case (3 x y)
    then show ?case using r(3) [of x] by (auto simp: m'_def split: if_splits)
  next
    case (4 x j d)
    then show ?case using r(3) [of x] c by (cases "j = k") (auto simp: m'_def split: option.splits if_splits)
  next
    case (5 x)
    then show ?case using r(3) [of x] c by (auto simp: m'_def split: option.splits if_splits)
  qed
qed

lemma stream_ok_advance:
  assumes "stream_ok h v" "n \<le> ring_len v"
  shows "stream_ok h (v\<lparr>vs_buf_out := (vs_buf_out v + n) mod vs_buf_len v\<rparr>)"
  using assms ring_advance [OF _ assms(2)] by (auto simp: stream_ok_def add.commute)

text \<open>How far the ring may be moved: to the client that is behind most.\<close>

definition advance_by :: "'cb VirtualStream \<Rightarrow> nat option \<Rightarrow> nat" where
  "advance_by v m = (case m of None \<Rightarrow> ring_len v
     | Some x \<Rightarrow> if x > vs_pos v - ring_len v then x - (vs_pos v - ring_len v) else 0)"

lemma wp_post_space:
  assumes "sv_inv T X w" "sv_stream w s = Some v" "vs_ref_cnt v \<noteq> 0" "\<not> vs_space_available_posted v"
  shows "wpR (post_space_available s) (\<lambda>_ w'. sv_inv T X w' \<and> quiet w w' \<and>
    sv_stream w' = (sv_stream w)(s \<mapsto> v\<lparr>vs_space_available_posted := True\<rparr>) \<and> sv_trace w' = sv_trace w) w"
proof -
  let ?v = "v\<lparr>vs_space_available_posted := True\<rparr>"
  have "sv_inv T X (w\<lparr>sv_events := sv_events w @ [(Notify_space_available, s)], sv_stream := (sv_stream w)(s \<mapsto> ?v)\<rparr>)"
    by (rule inv_post [OF assms(1,2,3)]) (use assms(4) in simp)
  moreover have "quiet w (w\<lparr>sv_events := sv_events w @ [(Notify_space_available, s)], sv_stream := (sv_stream w)(s \<mapsto> ?v)\<rparr>)"
    using assms(2) by (simp add: quiet_def same_skel_def stream_skel_def stream_input_def)
  ultimately show ?thesis using assms(2) by (simp add: post_space_available_def wp wp_upd_stream)
qed

lemma wp_advance:
  assumes inv: "sv_inv T X w" and v: "sv_stream w s = Some v" "remote_read v" "vs_ref_cnt v \<noteq> 0"
  shows "wpR (advance_stream_buffer s) (\<lambda>_ w'. sv_inv T X w' \<and> quiet w w') w"
proof -
  have so: "stream_ok (accepted s (sv_trace w)) v" "refs_ok v" and cl: "\<And>k. k \<in> set (vs_clients v) \<longleftrightarrow> (\<exists>c. sv_client w k = Some c \<and> sc_stream c = s)"
    using inv_stream [OF inv v(1)] by simp_all
  have co: "client_ok (k \<in> X) v c" if "sv_client w k = Some c" "sc_stream c = s" for k c
    using inv that v by (simp add: sv_inv_def data_inv_def)
  have bounds: "vs_pos v - ring_len v \<le> sc_pos c" "sc_pos c \<le> vs_pos v" if "sv_client w k = Some c" "sc_stream c = s" for k c
    using co [OF that] v(2) by (simp_all add: client_ok_def)
  have live: "\<And>k. k \<in> set (vs_clients v) \<Longrightarrow> \<exists>c. sv_client w k = Some c \<and> sc_pos c \<le> vs_pos v"
    using cl bounds by blast
  from min_client_pos_eq [of "vs_clients v" w "vs_pos v" None, OF live] obtain m where
    m: "min_client_pos (vs_pos v) None (vs_clients v) w = Inr (m, w)" "m = None \<longleftrightarrow> vs_clients v = []"
       "\<And>x k c. m = Some x \<Longrightarrow> k \<in> set (vs_clients v) \<Longrightarrow> sv_client w k = Some c \<Longrightarrow> x \<le> sc_pos c"
       "\<And>x. m = Some x \<Longrightarrow> \<exists>k \<in> set (vs_clients v). \<exists>c. sv_client w k = Some c \<and> sc_pos c = x" by auto
  define n where "n = advance_by v m"
  have x: "vs_pos v - ring_len v \<le> x" "x \<le> vs_pos v" if "m = Some x" for x
  proof -
    from m(4) [OF that] obtain k c where k: "k \<in> set (vs_clients v)" "sv_client w k = Some c" "sc_pos c = x" by blast
    with cl [of k] have "sc_stream c = s" by auto
    with bounds [OF k(2)] k(3) show "vs_pos v - ring_len v \<le> x" "x \<le> vs_pos v" by auto
  qed
  have rl: "ring_len v < vs_buf_len v" "ring_len v \<le> vs_pos v" "vs_buf_len v \<le> 2 ^ 32"
    using so ring_len_less by (auto simp: stream_ok_def refs_ok_def)
  have n: "n \<le> ring_len v" using x rl(2) by (auto simp: n_def advance_by_def split: option.splits)
  let ?v = "v\<lparr>vs_buf_out := (vs_buf_out v + n) mod vs_buf_len v\<rparr>"
  let ?w = "w\<lparr>sv_stream := (sv_stream w)(s \<mapsto> ?v)\<rparr>"
  have adv: "ring_len ?v = ring_len v - n" using ring_advance [OF _ n] so by (simp add: stream_ok_def)
  have inv1: "sv_inv T X ?w"
  proof (rule inv_upd_stream [OF inv v(1)])
    show "stream_ok (accepted s (sv_trace w)) ?v" by (rule stream_ok_advance [OF so(1) n])
    fix k c assume k: "sv_client w k = Some c" "sc_stream c = s" "client_ok (k \<in> X) v c"
    then have "k \<in> set (vs_clients v)" using cl by blast
    then have "vs_pos v - (ring_len v - n) \<le> sc_pos c"
      using m(2) m(3) [OF _ _ k(1)] x rl bounds [OF k(1,2)] by (cases m) (auto simp: n_def advance_by_def)
    then show "client_ok (k \<in> X) ?v c" using k(3) adv by (auto simp: client_ok_def remote_read_def)
  qed (simp_all add: stream_skel_def)
  have q1: "quiet w ?w" using v(1) by (simp add: quiet_def same_skel_stream stream_skel_def stream_input_def)
  have move: "wpR (case m of
          None \<Rightarrow> upd_stream s (\<lambda>v. v\<lparr>vs_buf_out := vs_buf_inp v\<rparr>)
        | Some m \<Rightarrow>
            if m > vs_pos v - ring_len v then
              seqR (assertV (m - (vs_pos v - ring_len v) \<le> ring_len v))
                (upd_stream s (\<lambda>v'. v'\<lparr>vs_buf_out := (vs_buf_out v' + (m - (vs_pos v - ring_len v)) mod 2 ^ 32) mod vs_buf_len v'\<rparr>))
            else if vs_pos v - m \<ge> vs_buf_len v then raiseR Assertion
            else retR ()) Q w = Q () ?w" for Q
  proof (cases m)
    case None
    then show ?thesis using v(1) ring_input_end [of v] so(1) by (simp add: wp_upd_stream n_def advance_by_def stream_ok_def)
  next
    case (Some x)
    show ?thesis
    proof (cases "x > vs_pos v - ring_len v")
      case True
      then have "(x - (vs_pos v - ring_len v)) mod 2 ^ 32 = n" "x - (vs_pos v - ring_len v) \<le> ring_len v"
        using Some n rl by (simp_all add: n_def advance_by_def)
      then show ?thesis using Some True v(1) by (simp add: wp wp_upd_stream)
    next
      case False
      then have e: "n = 0" using Some by (simp add: n_def advance_by_def)
      have "vs_buf_out v mod vs_buf_len v = vs_buf_out v" using so(1) by (simp add: stream_ok_def ring_ok_def)
      then have "?w = w" using v(1) e by (simp add: fun_upd_idem)
      moreover have "\<not> vs_pos v - x \<ge> vs_buf_len v" using x [OF Some] rl by simp
      ultimately show ?thesis using Some False by (simp add: wp)
    qed
  qed
  have "wpR (if ring_len v \<noteq> ring_len ?v \<and> \<not> vs_space_available_posted ?v then post_space_available s else retR ())
    (\<lambda>_ w'. sv_inv T X w' \<and> quiet w w') ?w"
  proof (cases "ring_len v \<noteq> ring_len ?v \<and> \<not> vs_space_available_posted ?v")
    case True
    have "wpR (post_space_available s) (\<lambda>_ w'. sv_inv T X w' \<and> quiet ?w w' \<and>
      sv_stream w' = (sv_stream ?w)(s \<mapsto> ?v\<lparr>vs_space_available_posted := True\<rparr>) \<and> sv_trace w' = sv_trace ?w) ?w"
      by (rule wp_post_space [OF inv1]) (use v True in simp_all)
    then show ?thesis unfolding if_P [OF True] by (rule wp_mono) (use q1 quiet_trans in blast)
  next
    case False
    then show ?thesis using inv1 q1 by (simp add: wp del: de_Morgan_conj)
  qed
  then show ?thesis
    unfolding advance_stream_buffer_def Let_def wp wp_the_stream [OF v(1)]
    using m(1) move v(2) by (simp add: wp wpR_def [of "min_client_pos _ _ _"] wp_the_stream)
qed

section \<open>Adding data\<close>

lemma stream_ok_store:
  assumes "stream_ok h v" "length data + ring_len v < vs_buf_len v" "None \<notin> set data" "vs_pos v' = vs_pos v + length data"
    and "ring_ok v'" "ring_len v' = ring_len v + length data" "ring_list v' = ring_list v @ data"
  shows "stream_ok (h @ data) v'"
  using assms by (auto simp: stream_ok_def)

lemma inv_store:
  assumes inv: "sv_inv T {} w" and v: "sv_stream w s = Some v" and room: "length data + ring_len v < vs_buf_len v" "None \<notin> set data"
    and v': "stream_skel v' = stream_skel v" "vs_pos v' = vs_pos v + length data"
      "ring_ok v'" "ring_len v' = ring_len v + length data" "ring_list v' = ring_list v @ data"
      "vs_data_available_posted v' = vs_data_available_posted v" "vs_space_available_posted v' = vs_space_available_posted v"
    and busy: "\<not> remote_read v \<or> X = set (vs_clients v) \<or> data = [] \<and> vs_eos_inp v' = vs_eos_inp v"
    and X: "X \<subseteq> set (vs_clients v)"
  shows "sv_inv T X (w\<lparr>sv_stream := (sv_stream w)(s \<mapsto> v'), sv_trace := sv_trace w @ [Accepted s data]\<rparr>)"
proof -
  let ?w = "w\<lparr>sv_stream := (sv_stream w)(s \<mapsto> v'), sv_trace := sv_trace w @ [Accepted s data]\<rparr>"
  have st: "struct_inv w" and d: "data_inv {} w" and e: "event_inv w" using inv by (simp_all add: sv_inv_def)
  have sk: "same_skel w ?w" using v v'(1) by (simp add: same_skel_def)
  have so: "stream_ok (accepted s (sv_trace w)) v" and cl: "\<And>k. k \<in> set (vs_clients v) \<longleftrightarrow> (\<exists>c. sv_client w k = Some c \<and> sc_stream c = s)"
    using inv_stream [OF inv v] by simp_all
  have "struct_inv ?w" by (rule same_skel_struct [OF sk st])
  moreover have "data_inv X ?w"
    unfolding data_inv_def
  proof (intro conjI allI impI)
    fix s' u assume "sv_stream ?w s' = Some u"
    then show "stream_ok (accepted s' (sv_trace ?w)) u"
      using d stream_ok_store [OF so room v'(2-5)] by (auto simp: data_inv_def split: if_splits)
  next
    fix s' assume "sv_next ?w \<le> s'"
    then show "accepted s' (sv_trace ?w) = []" using d inv_stream(2) [OF inv v] by (auto simp: data_inv_def)
  next
    fix k c u assume k: "sv_client ?w k = Some c" "sv_stream ?w (sc_stream c) = Some u"
    show "client_ok (k \<in> X) u c"
    proof (cases "sc_stream c = s")
      case True
      with k have u: "u = v'" and kc: "k \<in> set (vs_clients v)" using cl by auto
      have "client_ok False v c" using d k True v by (auto simp: data_inv_def)
      then have "client_ok (k \<in> X) v' c"
        using busy kc v'(2,4) so by (auto simp: client_ok_def skel_refs(4) [OF v'(1)] stream_ok_def)
      then show ?thesis using u by simp
    next
      case False
      then have "k \<notin> X" using cl k X by auto
      then show ?thesis using d k False by (auto simp: data_inv_def)
    qed
  qed
  moreover have "event_inv ?w" using e v v'(6,7) by (auto simp: event_inv_def skel_refs(5) [OF v'(1)])
  moreover have "watch_ok x ?w" if "x \<in> T" for x
  proof -
    obtain m j p where x: "x = (m, j, p)" by (cases x)
    from inv that have w: "watch_ok (m, j, p) w" by (simp add: sv_inv_def x)
    have "sc_pos c \<le> length (accepted s (sv_trace w))" if "sv_client w j = Some c" "sc_stream c = s" "remote_read v" for c
      using d so that v by (auto simp: data_inv_def client_ok_def stream_ok_def)
    then show ?thesis using w v by (auto simp: watch_ok_def x skel_refs(4) [OF v'(1)])
  qed
  ultimately show ?thesis by (simp add: sv_inv_def)
qed

text \<open>What \<open>virtual_stream_add_data\<close> takes, and what it leaves alone.\<close>

definition adds :: "nat \<Rightarrow> byte option list \<Rightarrow> 'cb streams \<Rightarrow> 'cb streams \<Rightarrow> bool" where
  "adds s data w w' \<longleftrightarrow> same_skel w w' \<and>
     (\<forall>k. map_option sc_write_requests (sv_client w' k) = map_option sc_write_requests (sv_client w k)) \<and>
     (\<forall>s'. accepted s' (sv_trace w') = accepted s' (sv_trace w) @ (if s' = s then data else []))"

lemma adds_quiet: "adds s data w w' \<Longrightarrow> quiet w' w'' \<Longrightarrow> adds s data w w''"
  by (auto simp: adds_def quiet_def elim: same_skel_trans)

lemma quiet_adds: "quiet w w' \<Longrightarrow> adds s [] w w'"
  by (auto simp: adds_def quiet_def)

definition room :: "'cb VirtualStream \<Rightarrow> nat" where
  "room v = vs_buf_len v - 1 - ring_len v"

text \<open>The second half of \<open>virtual_stream_add_data\<close>: requests to read are served, or the owner is told.\<close>

definition add_data_notify :: "nat \<Rightarrow> bool \<Rightarrow> ('cb, unit) sv_op" where
  "add_data_notify s serve =
     bindR (the_stream s) (\<lambda>stream.
       if remote_read stream then
         (if serve then seqR (forV (serve_client s) (vs_clients stream)) (advance_stream_buffer s) else retR ())
       else if \<not> vs_data_available_posted stream then
         seqR (post_sv Notify_data_available s) (upd_stream s (\<lambda>v. v\<lparr>vs_data_available_posted := True\<rparr>))
       else retR ())"

lemma wp_notify:
  assumes v: "sv_stream w s = Some v" "vs_ref_cnt v \<noteq> 0"
    and inv: "sv_inv T (if remote_read v \<and> serve then set (vs_clients v) else {}) w"
  shows "wpR (add_data_notify s serve) (\<lambda>_ w'. sv_inv T {} w' \<and> quiet w w' \<and>
    (\<not> remote_read v \<longrightarrow> sv_stream w' = (sv_stream w)(s \<mapsto> v\<lparr>vs_data_available_posted := True\<rparr>))) w"
proof (cases "remote_read v")
  case True
  show ?thesis
  proof (cases serve)
    case serve: True
    with True inv have inv': "sv_inv T (set (vs_clients v)) w" by simp
    have cl: "\<And>k. k \<in> set (vs_clients v) \<Longrightarrow> \<exists>c. sv_client w k = Some c \<and> sc_stream c = s" "distinct (vs_clients v)"
      using inv_stream [OF inv' v(1)] by (auto simp: refs_ok_def)
    have "wpR (forV (serve_client s) (vs_clients v)) (\<lambda>_. wpR (advance_stream_buffer s) (\<lambda>_ w'. sv_inv T {} w' \<and> quiet w w')) w"
    proof (rule wp_mono [OF wp_serve_clients [OF inv' cl(2,1)]])
      fix w1 assume a: "sv_inv T {} w1 \<and> quiet w w1"
      then obtain v1 where v1: "sv_stream w1 s = Some v1" "stream_skel v1 = stream_skel v" using v(1) by (auto elim: quiet_stream)
      have "wpR (advance_stream_buffer s) (\<lambda>_ w'. sv_inv T {} w' \<and> quiet w1 w') w1"
        using a v(2) True skel_refs(4,5) [OF v1(2)] by (intro wp_advance [OF _ v1(1)]) auto
      then show "wpR (advance_stream_buffer s) (\<lambda>_ w'. sv_inv T {} w' \<and> quiet w w') w1"
        by (rule wp_mono) (use a quiet_trans in blast)
    qed
    then show ?thesis using True serve v(1) by (simp add: add_data_notify_def wp wp_the_stream)
  next
    case False
    then show ?thesis using True v(1) inv by (simp add: add_data_notify_def wp wp_the_stream)
  qed
next
  case False
  with inv have inv': "sv_inv T {} w" by simp
  let ?v = "v\<lparr>vs_data_available_posted := True\<rparr>"
  show ?thesis
  proof (cases "vs_data_available_posted v")
    case True
    then have "?v = v" by simp
    then show ?thesis using False True v(1) inv' by (simp add: add_data_notify_def wp wp_the_stream fun_upd_idem)
  next
    case F: False
    let ?w = "w\<lparr>sv_events := sv_events w @ [(Notify_data_available, s)], sv_stream := (sv_stream w)(s \<mapsto> ?v)\<rparr>"
    have "sv_inv T {} ?w" by (rule inv_post [OF inv' v]) (use F in simp)
    moreover have "quiet w ?w" using v(1) by (simp add: quiet_def same_skel_def stream_skel_def stream_input_def)
    ultimately show ?thesis using False F v(1) by (simp add: add_data_notify_def wp wp_the_stream wp_upd_stream)
  qed
qed

lemma the_stream_twice:
  "bindR (the_stream s) (\<lambda>v. seqR (bindR (the_stream s) (F v)) (K v)) = bindR (the_stream s) (\<lambda>v. seqR (F v v) (K v))"
  by (auto simp: fun_eq_iff bindR_def seqR_def the_stream_def split: option.splits)

text \<open>The first half, and both.\<close>

definition add_data_store :: "nat \<Rightarrow> 'cb VirtualStream \<Rightarrow> byte option list \<Rightarrow> bool \<Rightarrow> ('cb, sv_error option \<times> nat) sv_op" where
  "add_data_store s stream buf eos =
     (if vs_eos_inp stream then retR (Some (Err ERR_EOF), 0)
      else
        let free = (vs_buf_out stream + vs_buf_len stream - vs_buf_inp stream - 1) mod vs_buf_len stream in
        seqR (assertV (free < vs_buf_len stream))
        (let len = (if length buf < free then length buf else free) in
         bindR (liftV (ring_put (take len buf) stream)) (\<lambda>mem.
         seqR (upd_stream s (\<lambda>v. v\<lparr>vs_buf := mem, vs_buf_inp := (vs_buf_inp v + len) mod vs_buf_len v,
           vs_pos := vs_pos v + len, vs_eos_inp := (eos \<and> length buf = len)\<rparr>))
         (seqR (actV (Accepted s (take len buf))) (retR (None, len))))))"

lemma add_data_halves:
  "virtual_stream_add_data s buf eos =
     bindR (the_stream s) (\<lambda>stream.
     seqR (assertV (vs_magic stream = STREAM_MAGIC))
     (bindR (add_data_store s stream buf eos) (\<lambda>(err, data_size).
     bindR (the_stream s) (\<lambda>stream.
     seqR (add_data_notify s (err = None \<and> (vs_eos_inp stream \<or> data_size > 0))) (retR (err, data_size))))))"
  unfolding virtual_stream_add_data_def add_data_store_def add_data_notify_def the_stream_twice by (rule refl)

text \<open>The result of \<open>virtual_stream_add_data\<close>.\<close>

definition add_result :: "'cb VirtualStream \<Rightarrow> byte option list \<Rightarrow> sv_error option \<times> nat" where
  "add_result v data = (if vs_eos_inp v then (Some (Err ERR_EOF), 0) else (None, min (length data) (room v)))"

lemma wp_add_data:
  assumes inv: "sv_inv T {} w" and v: "sv_stream w s = Some v" "vs_ref_cnt v \<noteq> 0" and data: "None \<notin> set data"
  defines "n \<equiv> snd (add_result v data)"
  shows "wpR (virtual_stream_add_data s data eos) (\<lambda>r w'. r = add_result v data \<and> sv_inv T {} w' \<and> adds s (take n data) w w' \<and>
    (\<exists>v'. sv_stream w' s = Some v' \<and> vs_eos_inp v' = (vs_eos_inp v \<or> eos \<and> n = length data) \<and>
       (\<not> remote_read v \<longrightarrow> ring_list v' = ring_list v @ take n data \<and> vs_buf_out v' = vs_buf_out v))) w"
proof -
  have so: "stream_ok (accepted s (sv_trace w)) v" and ro: "refs_ok v" using inv_stream [OF inv v(1)] by simp_all
  have ring: "ring_ok v" using so by (simp add: stream_ok_def)
  have magic: "vs_magic v = STREAM_MAGIC" using ro by (simp add: refs_ok_def)
  let ?Q = "\<lambda>r w'. r = add_result v data \<and> sv_inv T {} w' \<and> adds s (take n data) w w' \<and>
    (\<exists>v'. sv_stream w' s = Some v' \<and> vs_eos_inp v' = (vs_eos_inp v \<or> eos \<and> n = length data) \<and>
       (\<not> remote_read v \<longrightarrow> ring_list v' = ring_list v @ take n data \<and> vs_buf_out v' = vs_buf_out v))"
  have key: "wpR (add_data_notify s (fst (add_result v data) = None \<and> (vs_eos_inp v1 \<or> n > 0))) (\<lambda>_. ?Q (add_result v data)) w1"
    if v1: "sv_stream w1 s = Some v1" "stream_skel v1 = stream_skel v" "vs_eos_inp v1 = (vs_eos_inp v \<or> eos \<and> n = length data)"
      and i1: "sv_inv T (if remote_read v1 \<and> fst (add_result v data) = None \<and> (vs_eos_inp v1 \<or> n > 0) then set (vs_clients v1) else {}) w1"
      and a1: "adds s (take n data) w w1" and l1: "\<not> remote_read v \<longrightarrow> ring_list v1 = ring_list v @ take n data \<and> vs_buf_out v1 = vs_buf_out v"
    for w1 v1
  proof -
    have r: "vs_ref_cnt v1 \<noteq> 0" "remote_read v1 = remote_read v" using v(2) skel_refs [OF v1(2)] by auto
    show ?thesis
    proof (rule wp_mono [OF wp_notify [OF v1(1) r(1) i1]])
      fix w2 assume a: "sv_inv T {} w2 \<and> quiet w1 w2 \<and> (\<not> remote_read v1 \<longrightarrow>
        sv_stream w2 = (sv_stream w1)(s \<mapsto> v1\<lparr>vs_data_available_posted := True\<rparr>))"
      then obtain v2 where v2: "sv_stream w2 s = Some v2" "vs_eos_inp v2 = vs_eos_inp v1" using v1(1) by (auto elim: quiet_stream)
      moreover have "ring_list v2 = ring_list v1 \<and> vs_buf_out v2 = vs_buf_out v1" if "\<not> remote_read v"
        using a v2(1) that r by (auto simp: ring_list_def ring_len_def)
      moreover have "adds s (take n data) w w2" using adds_quiet a1 a by blast
      ultimately show "?Q (add_result v data) w2" using a l1 v1(3) by simp
    qed
  qed
  show ?thesis
  proof (cases "vs_eos_inp v")
    case True
    have "n = 0" "add_result v data = (Some (Err ERR_EOF), 0)" using True by (simp_all add: n_def add_result_def)
    then have "wpR (add_data_notify s (fst (add_result v data) = None \<and> (vs_eos_inp v \<or> n > 0))) (\<lambda>_. ?Q (add_result v data)) w"
      using v True inv by (intro key) (auto intro: quiet_adds)
    then show ?thesis
      using True magic v(1) \<open>n = 0\<close> unfolding \<open>add_result v data = _\<close>
      by (simp add: add_data_halves wp wp_the_stream add_data_store_def)
  next
    case False
    have res: "add_result v data = (None, n)" "n = (if length data < room v then length data else room v)"
      using False by (simp_all add: n_def add_result_def min_def)
    have free: "(vs_buf_out v + vs_buf_len v - vs_buf_inp v - 1) mod vs_buf_len v = room v" "room v < vs_buf_len v"
      using ring_free [OF ring] ring_len_less [OF ring] by (simp_all add: room_def)
    have len: "length (take n data) = n" "n + ring_len v < vs_buf_len v"
      using res ring_len_less [OF ring] by (auto simp: room_def)
    have nn: "None \<notin> set (take n data)" using data by (meson in_set_takeD)
    from ring_add [OF ring, of "take n data"] len obtain mem where put: "ring_put (take n data) v = Inr mem" and
      mem: "\<And>p e. let v' = v\<lparr>vs_buf := mem, vs_buf_inp := (vs_buf_inp v + n) mod vs_buf_len v, vs_pos := p, vs_eos_inp := e\<rparr>
        in ring_ok v' \<and> ring_len v' = ring_len v + n \<and> ring_list v' = ring_list v @ take n data"
      by (simp add: len(1)) blast
    let ?v = "v\<lparr>vs_buf := mem, vs_buf_inp := (vs_buf_inp v + n) mod vs_buf_len v, vs_pos := vs_pos v + n,
      vs_eos_inp := (eos \<and> length data = n)\<rparr>"
    let ?w = "w\<lparr>sv_stream := (sv_stream w)(s \<mapsto> ?v), sv_trace := sv_trace w @ [Accepted s (take n data)]\<rparr>"
    have sk: "stream_skel ?v = stream_skel v" by (simp add: stream_skel_def)
    have r: "ring_ok ?v" "ring_len ?v = ring_len v + n" "ring_list ?v = ring_list v @ take n data"
      using mem [of "eos \<and> length data = n" "vs_pos v + n"] by (simp_all add: Let_def)
    let ?X = "if remote_read ?v \<and> fst (add_result v data) = None \<and> (vs_eos_inp ?v \<or> n > 0) then set (vs_clients ?v) else {}"
    have "sv_inv T ?X ?w"
      by (rule inv_store [OF inv v(1)]) (use len nn r sk False res in \<open>auto simp: remote_read_def\<close>)
    moreover have "adds s (take n data) w ?w" using v(1) sk by (simp add: adds_def same_skel_def)
    ultimately have k: "wpR (add_data_notify s (fst (add_result v data) = None \<and> (vs_eos_inp ?v \<or> n > 0))) (\<lambda>_. ?Q (add_result v data)) ?w"
      using r sk False by (intro key) auto
    show ?thesis
      using False magic v(1) k put free unfolding res(1)
      by (simp add: add_data_halves wp wp_the_stream wp_upd_stream Let_def add_data_store_def len(1) flip: res(2))
  qed
qed

end
