(* ===== verification/Stream_Owner.thy ===== *)
theory Stream_Owner
  imports Stream_Proofs
begin

text \<open>
  The side of the owner of a stream: getting data, which tries the waiting requests to write again, deleting, and the events of
  the service.
\<close>

section \<open>Requests to write\<close>

definition talks :: "'cb streams \<Rightarrow> 'cb streams \<Rightarrow> bool" where
  "talks w w' \<longleftrightarrow> same_skel w w' \<and> sv_stream w' = sv_stream w \<and> (\<forall>s. accepted s (sv_trace w') = accepted s (sv_trace w))"

lemma talks_refl [simp]: "talks w w"
  by (simp add: talks_def)

lemma talks_trans: "talks w w' \<Longrightarrow> talks w' w'' \<Longrightarrow> talks w w''"
  by (auto simp: talks_def elim: same_skel_trans)

lemma wp_delete_write:
  assumes inv: "sv_inv T X w" and c: "sv_client w k = Some c"
  shows "wpR (delete_write_request k r err) (\<lambda>_ w'. sv_inv T X w' \<and> talks w w' \<and>
    sv_client w' = (sv_client w)(k \<mapsto> c\<lparr>sc_write_requests := remove1 r (sc_write_requests c)\<rparr>)) w"
proof -
  let ?a = "Sent (sc_channel c) (Some k) (Result_reply (wr_token r) err)"
  let ?c = "c\<lparr>sc_write_requests := remove1 r (sc_write_requests c)\<rparr>"
  let ?w = "w\<lparr>sv_trace := sv_trace w @ [?a]\<rparr>"
  have "sv_inv T X ?w" by (rule inv_act [OF inv]) simp_all
  then have "sv_inv T X (?w\<lparr>sv_client := (sv_client ?w)(k \<mapsto> ?c)\<rparr>)"
    using c by (intro inv_upd_client [of T X ?w k c]) (auto simp: client_ok_def dest: notin_set_remove1)
  moreover have "talks w (?w\<lparr>sv_client := (sv_client ?w)(k \<mapsto> ?c)\<rparr>)"
    using c by (simp add: talks_def same_skel_def client_skel_def)
  ultimately show ?thesis using c by (simp add: delete_write_request_def wp wp_the_client wp_upd_client)
qed

lemma wp_cancel_writes:
  assumes inv: "sv_inv T X w" and c: "sv_client w k = Some c"
  shows "wpR (cancel_writes k) (\<lambda>_ w'. sv_inv T X w' \<and> talks w w') w"
proof -
  have "wpR (forV (\<lambda>r. delete_write_request k r (Some (Err ERR_COMMAND_CANCELLED))) (sc_write_requests c))
    (\<lambda>_ w'. sv_inv T X w' \<and> talks w w') w"
  proof (rule wp_for [where I = "\<lambda>_ w'. sv_inv T X w' \<and> talks w w'"], goal_cases)
    case 1
    then show ?case using inv by simp
  next
    case (2 r rs w1)
    then obtain c1 where "sv_client w1 k = Some c1" using c by (auto simp: talks_def elim: skel_client')
    then have "wpR (delete_write_request k r (Some (Err ERR_COMMAND_CANCELLED))) (\<lambda>_ w'. sv_inv T X w' \<and> talks w1 w' \<and>
      sv_client w' = (sv_client w1)(k \<mapsto> c1\<lparr>sc_write_requests := remove1 r (sc_write_requests c1)\<rparr>)) w1"
      using 2 by (intro wp_delete_write) auto
    then show ?case by (rule wp_mono) (use 2 talks_trans in blast)
  qed
  then show ?thesis using c by (simp add: cancel_writes_def wp wp_the_client)
qed

text \<open>A stream that takes more data: \<open>ext\<close>.\<close>

definition grows :: "nat \<Rightarrow> 'cb streams \<Rightarrow> 'cb streams \<Rightarrow> bool" where
  "grows s w w' \<longleftrightarrow> same_skel w w' \<and>
     (\<exists>v v' ext. sv_stream w s = Some v \<and> sv_stream w' s = Some v' \<and>
        (\<forall>s'. accepted s' (sv_trace w') = accepted s' (sv_trace w) @ (if s' = s then ext else [])) \<and>
        (\<not> remote_read v \<longrightarrow> ring_list v' = ring_list v @ ext \<and> vs_buf_out v' = vs_buf_out v) \<and>
        (vs_eos_inp v \<longrightarrow> ext = [] \<and> vs_eos_inp v'))"

lemma grows_refl: "sv_stream w s = Some v \<Longrightarrow> grows s w w"
  by (simp add: grows_def)

lemma grows_trans:
  assumes "grows s w w'" "grows s w' w''"
  shows "grows s w w''"
proof -
  from assms(1) obtain v v1 e1 where 1: "sv_stream w s = Some v" "sv_stream w' s = Some v1"
    "\<And>s'. accepted s' (sv_trace w') = accepted s' (sv_trace w) @ (if s' = s then e1 else [])"
    "\<not> remote_read v \<Longrightarrow> ring_list v1 = ring_list v @ e1 \<and> vs_buf_out v1 = vs_buf_out v"
    "vs_eos_inp v \<Longrightarrow> e1 = [] \<and> vs_eos_inp v1" "same_skel w w'" by (auto simp: grows_def)
  from assms(2) 1(2) obtain v2 e2 where 2: "sv_stream w'' s = Some v2"
    "\<And>s'. accepted s' (sv_trace w'') = accepted s' (sv_trace w') @ (if s' = s then e2 else [])"
    "\<not> remote_read v1 \<Longrightarrow> ring_list v2 = ring_list v1 @ e2 \<and> vs_buf_out v2 = vs_buf_out v1"
    "vs_eos_inp v1 \<Longrightarrow> e2 = [] \<and> vs_eos_inp v2" "same_skel w' w''" by (auto simp: grows_def)
  have "remote_read v1 = remote_read v"
    using skel_stream [OF 1(6,2)] 1(1) skel_refs(4) by (metis option.inject)
  then show ?thesis
    unfolding grows_def using 1 2 same_skel_trans [OF 1(6) 2(5)]
    by (intro conjI exI [of _ v] exI [of _ v2] exI [of _ "e1 @ e2"]) auto
qed

lemma talks_grows: "sv_stream w s = Some v \<Longrightarrow> talks w w' \<Longrightarrow> grows s w w'"
  by (simp add: grows_def talks_def)

lemma grows_talks: "grows s w w' \<Longrightarrow> talks w' w'' \<Longrightarrow> grows s w w''"
  using grows_trans talks_grows by (metis grows_def)

lemma adds_grows:
  assumes "adds s (take n data) w w'" "sv_stream w s = Some v" "sv_stream w' s = Some v'"
    "vs_eos_inp v \<Longrightarrow> take n data = [] \<and> vs_eos_inp v'" "\<not> remote_read v \<Longrightarrow> ring_list v' = ring_list v @ take n data \<and> vs_buf_out v' = vs_buf_out v"
  shows "grows s w w'"
  using assms unfolding grows_def adds_def by (intro conjI exI [of _ v] exI [of _ v'] exI [of _ "take n data"]) auto

lemma wp_retry_write:
  assumes inv: "sv_inv T {} w" and c: "sv_client w k = Some c" "sc_stream c = s"
  shows "wpR (retry_write k) (\<lambda>_ w'. sv_inv T {} w' \<and> grows s w w') w"
proof (cases "sc_write_requests c")
  case Nil
  from inv_client [OF inv c(1)] c(2) obtain v where "sv_stream w s = Some v" by auto
  then show ?thesis using Nil c inv by (simp add: retry_write_def wp wp_the_client grows_refl)
next
  case (Cons r rs)
  from inv_client [OF inv c(1)] c(2) obtain v where v: "sv_stream w s = Some v" "k \<in> set (vs_clients v)" "client_ok False v c" by auto
  from v(3) Cons have r: "write_ok r" and rs: "\<forall>r \<in> set rs. write_ok r" by (auto simp: client_ok_def)
  define data where "data = drop (wr_offs r) (wr_data r)"
  define n where "n = snd (add_result v data)"
  have load: "mem_load (wr_offs r) (wr_size r - wr_offs r) (wr_data r) = Inr data"
    using r by (simp add: mem_load_def write_ok_def data_def)
  have nn: "None \<notin> set data" using r by (auto simp: data_def write_ok_def dest: in_set_dropD)
  have ld: "length data = wr_size r - wr_offs r" using r by (simp add: data_def write_ok_def)
  have nd: "n \<le> length data" by (simp add: n_def add_result_def)
  have ref: "vs_ref_cnt v \<noteq> 0" using v(2) inv_stream(1) [OF inv v(1)] by (auto simp: refs_ok_def)
  let ?r = "r\<lparr>wr_offs := wr_offs r + n\<rparr>"
  let ?err = "fst (add_result v data)"
  have finish: "wpR (seqR (upd_client k (\<lambda>client. client\<lparr>sc_write_requests := ?r # rs\<rparr>))
         (seqR (if ?err \<noteq> None \<or> wr_offs ?r \<ge> wr_size ?r then delete_write_request k ?r ?err else retR ())
         (if ?err \<noteq> None then cancel_writes k else retR ()))) (\<lambda>_ w'. sv_inv T {} w' \<and> grows s w w') w1"
    if a: "sv_inv T {} w1" "adds s (take n data) w w1" "sv_stream w1 s = Some v1" "vs_eos_inp v1 = (vs_eos_inp v \<or> wr_eos r \<and> n = length data)"
      "\<not> remote_read v \<longrightarrow> ring_list v1 = ring_list v @ take n data \<and> vs_buf_out v1 = vs_buf_out v" for w1 v1
  proof -
    have g: "grows s w w1"
    proof (rule adds_grows [OF a(2) v(1) a(3)])
      show "take n data = [] \<and> vs_eos_inp v1" if "vs_eos_inp v" using that a(4) by (simp add: n_def add_result_def)
    qed (use a(5) in simp)
    obtain c1 where c1: "sv_client w1 k = Some c1" "sc_stream c1 = s"
      using a(2) c by (auto simp: adds_def elim: skel_client')
    let ?c = "c1\<lparr>sc_write_requests := ?r # rs\<rparr>"
    let ?w = "w1\<lparr>sv_client := (sv_client w1)(k \<mapsto> ?c)\<rparr>"
    have "write_ok ?r" using r nd ld by (auto simp: write_ok_def)
    then have i2: "sv_inv T {} ?w" using rs by (intro inv_upd_client [OF a(1) c1(1)]) (auto simp: client_ok_def)
    have t2: "talks w1 ?w" using c1 by (simp add: talks_def same_skel_client)
    have "wpR (if ?err \<noteq> None \<or> wr_offs ?r \<ge> wr_size ?r then delete_write_request k ?r ?err else retR ())
      (\<lambda>_ w'. sv_inv T {} w' \<and> talks w1 w') ?w"
    proof (cases "?err \<noteq> None \<or> wr_offs ?r \<ge> wr_size ?r")
      case True
      have "wpR (delete_write_request k ?r ?err) (\<lambda>_ w'. sv_inv T {} w' \<and> talks ?w w' \<and>
        sv_client w' = (sv_client ?w)(k \<mapsto> ?c\<lparr>sc_write_requests := remove1 ?r (sc_write_requests ?c)\<rparr>)) ?w"
        by (rule wp_delete_write [OF i2]) simp
      then show ?thesis unfolding if_P [OF True] by (rule wp_mono) (use t2 talks_trans in blast)
    next
      case False
      then show ?thesis unfolding if_not_P [OF False] using i2 t2 by (simp add: wp)
    qed
    then have "wpR (seqR (if ?err \<noteq> None \<or> wr_offs ?r \<ge> wr_size ?r then delete_write_request k ?r ?err else retR ())
         (if ?err \<noteq> None then cancel_writes k else retR ())) (\<lambda>_ w'. sv_inv T {} w' \<and> grows s w w') ?w"
      unfolding wp
    proof (rule wp_mono)
      fix w2 assume b: "sv_inv T {} w2 \<and> talks w1 w2"
      then have g2: "grows s w w2" using g grows_talks by blast
      obtain c2 where c2: "sv_client w2 k = Some c2" using b c1 by (auto simp: talks_def elim: skel_client')
      show "wpR (if ?err \<noteq> None then cancel_writes k else retR ()) (\<lambda>_ w'. sv_inv T {} w' \<and> grows s w w') w2"
      proof (cases "?err \<noteq> None")
        case True
        have "wpR (cancel_writes k) (\<lambda>_ w'. sv_inv T {} w' \<and> talks w2 w') w2" using b c2 by (intro wp_cancel_writes) auto
        then show ?thesis unfolding if_P [OF True] by (rule wp_mono) (use g2 grows_talks in blast)
      next
        case False
        then show ?thesis using b g2 by (simp add: wp)
      qed
    qed
    then show ?thesis using c1 by (simp add: wp wp_upd_client)
  qed
  have add: "wpR (virtual_stream_add_data s data (wr_eos r)) (\<lambda>res w'. res = add_result v data \<and> sv_inv T {} w' \<and> adds s (take n data) w w' \<and>
    (\<exists>v'. sv_stream w' s = Some v' \<and> vs_eos_inp v' = (vs_eos_inp v \<or> wr_eos r \<and> n = length data) \<and>
       (\<not> remote_read v \<longrightarrow> ring_list v' = ring_list v @ take n data \<and> vs_buf_out v' = vs_buf_out v))) w"
    unfolding n_def by (rule wp_add_data [OF inv v(1) ref nn])
  have res: "add_result v data = (?err, n)" by (simp add: n_def)
  show ?thesis
    unfolding retry_write_def wp wp_the_client [OF c(1)] Cons list.case load Let_def c(2)
  proof (rule wp_mono [OF add])
    fix x w1 assume a: "x = add_result v data \<and> sv_inv T {} w1 \<and> adds s (take n data) w w1 \<and>
      (\<exists>v'. sv_stream w1 s = Some v' \<and> vs_eos_inp v' = (vs_eos_inp v \<or> wr_eos r \<and> n = length data) \<and>
         (\<not> remote_read v \<longrightarrow> ring_list v' = ring_list v @ take n data \<and> vs_buf_out v' = vs_buf_out v))"
    then have "x = (?err, n)" using res by simp
    moreover from a finish have "wpR (seqR (upd_client k (\<lambda>client. client\<lparr>sc_write_requests := ?r # rs\<rparr>))
         (seqR (if ?err \<noteq> None \<or> wr_offs ?r \<ge> wr_size ?r then delete_write_request k ?r ?err else retR ())
         (if ?err \<noteq> None then cancel_writes k else retR ()))) (\<lambda>_ w'. sv_inv T {} w' \<and> grows s w w') w1" by blast
    ultimately show "wpR (case x of (error, done) \<Rightarrow>
         seqR (upd_client k (\<lambda>client. client\<lparr>sc_write_requests := r\<lparr>wr_offs := wr_offs r + done\<rparr> # rs\<rparr>))
         (seqR (if error \<noteq> None \<or> wr_offs (r\<lparr>wr_offs := wr_offs r + done\<rparr>) \<ge> wr_size (r\<lparr>wr_offs := wr_offs r + done\<rparr>)
             then delete_write_request k (r\<lparr>wr_offs := wr_offs r + done\<rparr>) error else retR ())
         (if error \<noteq> None then cancel_writes k else retR ()))) (\<lambda>_ w'. sv_inv T {} w' \<and> grows s w w') w1"
      by (simp only: prod.case)
  qed
qed

section \<open>Getting data\<close>

lemma wp_retry_writes:
  assumes inv: "sv_inv T {} w" and v: "sv_stream w s = Some v"
  shows "wpR (forV retry_write (vs_clients v)) (\<lambda>_ w'. sv_inv T {} w' \<and> grows s w w') w"
proof (rule wp_for [where I = "\<lambda>_ w'. sv_inv T {} w' \<and> grows s w w'"], goal_cases)
  case 1
  then show ?case using inv v by (simp add: grows_refl)
next
  case (2 k ks w1)
  from 2(1) inv_stream(3) [OF inv v, of k] obtain c where "sv_client w k = Some c" "sc_stream c = s" by auto
  then obtain c1 where c1: "sv_client w1 k = Some c1" "sc_stream c1 = s" using 2(2) by (auto simp: grows_def elim: skel_client')
  have "wpR (retry_write k) (\<lambda>_ w'. sv_inv T {} w' \<and> grows s w1 w') w1" using 2(2) c1 by (intro wp_retry_write) auto
  then show ?case by (rule wp_mono) (use 2(2) grows_trans in blast)
qed simp

text \<open>The number of bytes that have left the ring.\<close>

definition consumed :: "'cb VirtualStream \<Rightarrow> nat" where
  "consumed v = vs_pos v - ring_len v"

text \<open>The owner takes bytes out of the ring.\<close>

lemma wp_consume:
  assumes inv: "sv_inv T {} w" and v: "sv_stream w s = Some v" "vs_ref_cnt v \<noteq> 0" "\<not> remote_read v"
    and n: "n \<le> ring_len v" and eos: "eos \<Longrightarrow> n = ring_len v"
  shows "wpR (seqR (upd_stream s (\<lambda>v. v\<lparr>vs_buf_out := (vs_buf_out v + n) mod vs_buf_len v\<rparr>))
      (bindR (the_stream s) (\<lambda>stream.
       seqR (assertV (\<not> eos \<or> vs_buf_out stream = vs_buf_inp stream))
       (if \<not> vs_space_available_posted stream then post_space_available s else retR ()))))
    (\<lambda>_ w'. sv_inv T {} w' \<and> same_skel w w' \<and> (\<exists>v'. sv_stream w' s = Some v' \<and> consumed v' = consumed v + n)) w"
proof -
  let ?v = "v\<lparr>vs_buf_out := (vs_buf_out v + n) mod vs_buf_len v\<rparr>"
  let ?w = "w\<lparr>sv_stream := (sv_stream w)(s \<mapsto> ?v)\<rparr>"
  have so: "stream_ok (accepted s (sv_trace w)) v" using inv_stream [OF inv v(1)] by simp
  then have ring: "ring_ok v" "ring_len v \<le> vs_pos v" by (auto simp: stream_ok_def)
  note adv = ring_advance [OF ring(1) n]
  have inv1: "sv_inv T {} ?w"
  proof (rule inv_upd_stream [OF inv v(1)])
    show "stream_ok (accepted s (sv_trace w)) ?v" by (rule stream_ok_advance [OF so n])
  qed (use v(3) in \<open>simp_all add: stream_skel_def client_ok_def remote_read_def\<close>)
  have cons: "consumed ?v = consumed v + n" using adv(2) n ring(2) by (simp add: consumed_def)
  have "\<not> eos \<or> vs_buf_out ?v = vs_buf_inp ?v"
    unfolding ring_empty_iff [OF adv(1)] using adv(3) eos by auto
  moreover have "wpR (if \<not> vs_space_available_posted ?v then post_space_available s else retR ())
    (\<lambda>_ w'. sv_inv T {} w' \<and> same_skel w w' \<and> (\<exists>v'. sv_stream w' s = Some v' \<and> consumed v' = consumed v + n)) ?w"
  proof (cases "vs_space_available_posted ?v")
    case True
    then show ?thesis using inv1 v(1) cons by (simp add: wp same_skel_stream stream_skel_def)
  next
    case False
    have "wpR (post_space_available s) (\<lambda>_ w'. sv_inv T {} w' \<and> quiet ?w w' \<and>
      sv_stream w' = (sv_stream ?w)(s \<mapsto> ?v\<lparr>vs_space_available_posted := True\<rparr>) \<and> sv_trace w' = sv_trace ?w) ?w"
      by (rule wp_post_space [OF inv1]) (use v False in simp_all)
    moreover have "same_skel w ?w" by (rule same_skel_stream [OF v(1)]) (simp add: stream_skel_def)
    moreover have "consumed (?v\<lparr>vs_space_available_posted := True\<rparr>) = consumed ?v" by (simp add: consumed_def ring_len_def)
    ultimately show ?thesis using False cons by (auto elim!: wp_mono intro: same_skel_trans quiet_skel)
  qed
  ultimately show ?thesis using v(1) by (simp add: wp wp_upd_stream wp_the_stream)
qed

definition get_result :: "'cb VirtualStream \<Rightarrow> nat \<Rightarrow> byte option list \<times> bool" where
  "get_result v sz = (take sz (ring_list v), ring_len v \<le> sz \<and> vs_eos_inp v)"

lemma wp_get_data:
  assumes inv: "sv_inv T {} w" and v: "sv_stream w s = Some v" "vs_ref_cnt v \<noteq> 0"
  shows "wpR (virtual_stream_get_data s sz) (\<lambda>r w'. r = get_result v sz \<and> sv_inv T {} w' \<and> same_skel w w' \<and>
    (\<exists>v'. sv_stream w' s = Some v' \<and> (\<not> remote_read v \<longrightarrow> consumed v' = consumed v + length (fst (get_result v sz))))) w"
proof -
  define len where "len = (if ring_len v > sz then sz else ring_len v)"
  define eos where "eos = (if ring_len v > sz then False else vs_eos_inp v)"
  have so: "stream_ok (accepted s (sv_trace w)) v" and ro: "refs_ok v" using inv_stream [OF inv v(1)] by simp_all
  have ring: "ring_ok v" using so by (simp add: stream_ok_def)
  have len: "len \<le> ring_len v" "take len (ring_list v) = take sz (ring_list v)" "length (take sz (ring_list v)) = len"
    by (auto simp: len_def min_def)
  have e: "eos = (ring_len v \<le> sz \<and> vs_eos_inp v)" by (simp add: eos_def)
  have get: "ring_get len v = Inr (take sz (ring_list v))" using ring_get_window [OF ring len(1)] len(2) by simp
  let ?Q = "\<lambda>w'. sv_inv T {} w' \<and> same_skel w w' \<and> (\<exists>v'. sv_stream w' s = Some v' \<and> (\<not> remote_read v \<longrightarrow> consumed v' = consumed v + len))"
  have last: "wpR (if \<not> remote_read v \<and> len > 0 then
              seqR (upd_stream s (\<lambda>v. v\<lparr>vs_buf_out := (vs_buf_out v + len) mod vs_buf_len v\<rparr>))
              (bindR (the_stream s) (\<lambda>stream.
               seqR (assertV (\<not> eos \<or> vs_buf_out stream = vs_buf_inp stream))
               (if \<not> vs_space_available_posted stream then post_space_available s else retR ())))
            else retR ()) (\<lambda>_. ?Q) w2" if i2: "sv_inv T {} w2" and g: "grows s w w2" for w2
  proof -
    from g obtain u v2 ext where u: "sv_stream w s = Some u" and v2: "sv_stream w2 s = Some v2" and sk: "same_skel w w2"
      and x: "\<forall>s'. accepted s' (sv_trace w2) = accepted s' (sv_trace w) @ (if s' = s then ext else [])"
        "\<not> remote_read u \<longrightarrow> ring_list v2 = ring_list u @ ext \<and> vs_buf_out v2 = vs_buf_out u"
        "vs_eos_inp u \<longrightarrow> ext = [] \<and> vs_eos_inp v2"
      unfolding grows_def by blast
    from u v(1) x have x: "\<not> remote_read v \<Longrightarrow> ring_list v2 = ring_list v @ ext" "vs_eos_inp v \<Longrightarrow> ext = []"
        "accepted s (sv_trace w2) = accepted s (sv_trace w) @ ext" by auto
    obtain v0 where "sv_stream w s = Some v0" and sk2: "stream_skel v2 = stream_skel v0" using skel_stream [OF sk v2] by blast
    with v(1) have r: "remote_read v2 = remote_read v" "vs_ref_cnt v2 = vs_ref_cnt v" using skel_refs(4,5) [OF sk2] by simp_all
    have so2: "stream_ok (accepted s (sv_trace w2)) v2" using inv_stream [OF i2 v2] by simp
    show ?thesis
    proof (cases "\<not> remote_read v \<and> len > 0")
      case True
      have rl: "ring_len v2 = ring_len v + length ext" using x(1) True by (simp flip: length_ring_list)
      then have cons: "consumed v2 = consumed v" using so so2 x(3) by (simp add: consumed_def stream_ok_def)
      have "wpR (seqR (upd_stream s (\<lambda>v. v\<lparr>vs_buf_out := (vs_buf_out v + len) mod vs_buf_len v\<rparr>))
              (bindR (the_stream s) (\<lambda>stream.
               seqR (assertV (\<not> eos \<or> vs_buf_out stream = vs_buf_inp stream))
               (if \<not> vs_space_available_posted stream then post_space_available s else retR ()))))
        (\<lambda>_ w'. sv_inv T {} w' \<and> same_skel w2 w' \<and> (\<exists>v'. sv_stream w' s = Some v' \<and> consumed v' = consumed v2 + len)) w2"
        using r v(2) True len(1) rl x(2) by (intro wp_consume [OF i2 v2]) (auto simp: e len_def)
      then show ?thesis unfolding if_P [OF True] by (rule wp_mono) (use sk same_skel_trans cons in auto)
    next
      case False
      have "consumed v2 = consumed v + len" if "\<not> remote_read v"
      proof -
        have "ring_len v2 = ring_len v + length ext" using x(1) that by (simp flip: length_ring_list)
        then show ?thesis using so so2 x(3) False that by (simp add: consumed_def stream_ok_def)
      qed
      then show ?thesis unfolding if_not_P [OF False] using i2 sk v2 by (simp add: wp)
    qed
  qed
  have mid: "wpR (if remote_write v then forV retry_write (vs_clients v) else retR ()) (\<lambda>_ w'. sv_inv T {} w' \<and> grows s w w') w1"
    if i1: "sv_inv T {} w1" and g: "grows s w w1" and v1: "sv_stream w1 s = Some v1" "vs_clients v1 = vs_clients v" for w1 v1
  proof (cases "remote_write v")
    case True
    from wp_retry_writes [OF i1 v1(1)] v1(2)
    have "wpR (forV retry_write (vs_clients v)) (\<lambda>_ w'. sv_inv T {} w' \<and> grows s w1 w') w1" by simp
    then show ?thesis unfolding if_P [OF True] by (rule wp_mono) (use g grows_trans in blast)
  next
    case False
    then show ?thesis using i1 g by (simp add: wp)
  qed
  have first: "wpR (if eos then upd_stream s (\<lambda>v. v\<lparr>vs_eos_out := True\<rparr>) else retR ())
    (\<lambda>_ w1. sv_inv T {} w1 \<and> grows s w w1 \<and> (\<exists>v1. sv_stream w1 s = Some v1 \<and> vs_clients v1 = vs_clients v)) w"
  proof (cases eos)
    case True
    let ?v = "v\<lparr>vs_eos_out := True\<rparr>"
    let ?w = "w\<lparr>sv_stream := (sv_stream w)(s \<mapsto> ?v)\<rparr>"
    have r: "ring_len ?v = ring_len v" "ring_list ?v = ring_list v" "ring_ok ?v = ring_ok v" by (simp_all add: ring_len_def ring_list_def ring_ok_def)
    have "sv_inv T {} ?w"
      by (rule inv_upd_stream [OF inv v(1)]) (use so r in \<open>simp_all add: stream_skel_def stream_ok_def client_ok_def remote_read_def\<close>)
    moreover have "grows s w ?w"
      using v(1) by (simp add: grows_def same_skel_stream stream_skel_def r)
    ultimately show ?thesis using True v(1) by (simp add: wp_upd_stream)
  next
    case False
    then show ?thesis using inv v(1) by (simp add: wp grows_refl)
  qed
  have "wpR (if eos then upd_stream s (\<lambda>v. v\<lparr>vs_eos_out := True\<rparr>) else retR ()) (\<lambda>_. wpR
     (if remote_write v then forV retry_write (vs_clients v) else retR ()) (\<lambda>_. wpR
     (if \<not> remote_read v \<and> len > 0 then
              seqR (upd_stream s (\<lambda>v. v\<lparr>vs_buf_out := (vs_buf_out v + len) mod vs_buf_len v\<rparr>))
              (bindR (the_stream s) (\<lambda>stream.
               seqR (assertV (\<not> eos \<or> vs_buf_out stream = vs_buf_inp stream))
               (if \<not> vs_space_available_posted stream then post_space_available s else retR ())))
            else retR ()) (\<lambda>_. ?Q))) w"
    by (rule wp_mono [OF first]) (use mid last in \<open>blast intro: wp_mono\<close>)
  then show ?thesis
    unfolding virtual_stream_get_data_def wp wp_the_stream [OF v(1)] Let_def len_def [symmetric] eos_def [symmetric] get get_result_def
    using ro len(3) by (simp add: refs_ok_def wp e)
qed

end
