(* ===== verification/Stream_Clients.thy ===== *)
theory Stream_Clients
  imports Stream_Owner
begin

text \<open>
  Clients and streams that come and go: lookup in the table of clients, connecting and disconnecting, creating and deleting
  streams, the end of a channel, and the events of the service.
\<close>

section \<open>Lookup\<close>

lemma find_in_chain_eq:
  assumes "\<And>k. k \<in> set ks \<Longrightarrow> \<exists>c v. sv_client w k = Some c \<and> sv_stream w (sc_stream c) = Some v"
  shows "find_in_chain n cn ks w = Inr (List.find (\<lambda>k. client_key w k = (n, cn)) ks, w)"
  using assms
proof (induction ks)
  case Nil
  then show ?case by (simp add: retR_def)
next
  case (Cons k ks)
  from Cons.prems [of k] obtain c v where "sv_client w k = Some c" "sv_stream w (sc_stream c) = Some v" by auto
  then show ?case using Cons.IH Cons.prems
    by (auto simp: reader_simps the_client_def the_stream_def client_key_def)
qed

lemma table_ok_cong:
  assumes "\<And>e. e \<in> set (concat t) \<Longrightarrow> key e = key' e"
  shows "hnd.table_ok key t = hnd.table_ok key' t"
proof -
  have "key e = key' e" if "h < length t" "e \<in> set (t ! h)" for h e
    by (rule assms) (use that nth_mem [of h t] in auto)
  then show ?thesis by (auto simp: hnd.table_ok_def)
qed

lemma struct_table:
  assumes "struct_inv w"
  shows "hnd.table_ok (client_key w) (sv_handle_hash w)" "set (concat (sv_handle_hash w)) = dom (sv_client w)"
    "inj_on (client_key w) (dom (sv_client w))" "distinct (sv_clients w)" "set (sv_clients w) = dom (sv_client w)"
  using assms unfolding struct_inv_def by blast+

lemma client_key_eq: "sv_client w k = Some c \<Longrightarrow> sv_stream w (sc_stream c) = Some v \<Longrightarrow> client_key w k = (vs_id v, sc_channel c)"
  by (simp add: client_key_def)

text \<open>A lookup finds the client of the channel and the stream with the identifier, if there is one.\<close>

lemma find_client_eq:
  assumes inv: "struct_inv w"
  obtains r where "find_client ident cn w = Inr (r, w)"
    "\<And>k. r = Some k \<Longrightarrow> \<exists>c v n. sv_client w k = Some c \<and> sv_stream w (sc_stream c) = Some v \<and> sc_channel c = cn \<and> str2id ident = Some n \<and> vs_id v = n"
    "\<And>n k c v. r = None \<Longrightarrow> str2id ident = Some n \<Longrightarrow> sv_client w k = Some c \<Longrightarrow> sv_stream w (sc_stream c) = Some v \<Longrightarrow>
       sc_channel c = cn \<Longrightarrow> vs_id v \<noteq> n"
proof (cases "str2id ident")
  case None
  then show ?thesis using that [of None] by (simp add: find_client_def retR_def)
next
  case (Some n)
  define ks where "ks = sv_handle_hash w ! get_client_hash (n, cn)"
  have len: "length (sv_handle_hash w) = HANDLE_HASH_SIZE" "get_client_hash (n, cn) < HANDLE_HASH_SIZE"
    using struct_table(1) [OF inv] hnd.hash_bound by (auto simp: hnd.table_ok_def)
  have live: "\<exists>c v. sv_client w k = Some c \<and> sv_stream w (sc_stream c) = Some v" if "k \<in> set ks" for k
  proof -
    have "k \<in> set (concat (sv_handle_hash w))" using that len by (auto simp: ks_def)
    then obtain c where c: "sv_client w k = Some c" unfolding struct_table(2) [OF inv] by auto
    then show ?thesis using struct_client(2) [OF inv c] by blast
  qed
  define r where "r = List.find (\<lambda>k. client_key w k = (n, cn)) ks"
  have e: "find_client ident cn w = Inr (r, w)"
    using find_in_chain_eq [of ks w n cn, OF live] Some by (simp add: find_client_def ks_def r_def)
  show ?thesis
  proof (rule that [OF e])
    fix k assume "r = Some k"
    then have "k \<in> set ks" "client_key w k = (n, cn)" unfolding r_def find_Some_iff by (auto simp: in_set_conv_nth)
    then show "\<exists>c v n. sv_client w k = Some c \<and> sv_stream w (sc_stream c) = Some v \<and> sc_channel c = cn \<and> str2id ident = Some n \<and> vs_id v = n"
      using live [of k] Some by (auto simp: client_key_eq)
  next
    fix n' k c v assume a: "r = None" "str2id ident = Some n'" "sv_client w k = Some c" "sv_stream w (sc_stream c) = Some v" "sc_channel c = cn"
    show "vs_id v \<noteq> n'"
    proof
      assume "vs_id v = n'"
      with a Some have key: "client_key w k = (n, cn)" by (simp add: client_key_def)
      have "k \<in> set (concat (sv_handle_hash w))" using a(3) struct_table(2) [OF inv] by auto
      then have "k \<in> set (hnd.entries (client_key w) (n, cn) (sv_handle_hash w))"
        using hnd.set_entries [OF struct_table(1) [OF inv]] key by simp
      then have "k \<in> set ks" by (simp add: hnd.entries_def ks_def)
      with a(1) key show False by (auto simp: r_def find_None_iff)
    qed
  qed
qed

lemma find_client_cases:
  assumes inv: "struct_inv w"
  obtains (none) "find_client ident cn w = Inr (None, w)"
      "\<And>n k c v. str2id ident = Some n \<Longrightarrow> sv_client w k = Some c \<Longrightarrow> sv_stream w (sc_stream c) = Some v \<Longrightarrow> sc_channel c = cn \<Longrightarrow> vs_id v \<noteq> n"
    | (some) k c v where "find_client ident cn w = Inr (Some k, w)" "sv_client w k = Some c" "sv_stream w (sc_stream c) = Some v"
      "sc_channel c = cn" "str2id ident = Some (vs_id v)"
proof (rule find_client_eq [OF inv, of ident cn])
  fix r
  assume r: "find_client ident cn w = Inr (r, w)"
    and s: "\<And>k. r = Some k \<Longrightarrow> \<exists>c v n. sv_client w k = Some c \<and> sv_stream w (sc_stream c) = Some v \<and> sc_channel c = cn \<and> str2id ident = Some n \<and> vs_id v = n"
    and n: "\<And>n k c v. r = None \<Longrightarrow> str2id ident = Some n \<Longrightarrow> sv_client w k = Some c \<Longrightarrow> sv_stream w (sc_stream c) = Some v \<Longrightarrow>
       sc_channel c = cn \<Longrightarrow> vs_id v \<noteq> n"
  show thesis
  proof (cases r)
    case None
    then show thesis using r n by (intro none) simp_all
  next
    case (Some k)
    with s [of k] r some show thesis by auto
  qed
qed

section \<open>A new client\<close>

definition new_client :: "nat \<Rightarrow> addr \<Rightarrow> 'cb VirtualStream \<Rightarrow> StreamClient" where
  "new_client s cn v = \<lparr>sc_stream = s, sc_channel = cn, sc_pos = vs_pos v - ring_len v, sc_read_requests = [], sc_write_requests = []\<rparr>"

definition with_client :: "nat \<Rightarrow> addr \<Rightarrow> 'cb VirtualStream \<Rightarrow> 'cb streams \<Rightarrow> 'cb streams" where
  "with_client s cn v w = w\<lparr>sv_next := Suc (sv_next w), sv_client := (sv_client w)(sv_next w \<mapsto> new_client s cn v),
     sv_handle_hash := chain_add (get_client_hash (vs_id v, cn)) (sv_next w) (sv_handle_hash w),
     sv_clients := sv_next w # sv_clients w,
     sv_stream := (sv_stream w)(s \<mapsto> v\<lparr>vs_clients := sv_next w # vs_clients v, vs_ref_cnt := vs_ref_cnt v + 1\<rparr>)\<rparr>"

lemma create_client_eq: "sv_stream w s = Some v \<Longrightarrow> create_client s cn w = Inr (sv_next w, with_client s cn v w)"
  by (simp add: create_client_def with_client_def new_client_def reader_simps the_stream_def upd_stream_def modV_def)

lemma with_client_struct:
  assumes inv: "struct_inv w" and v: "sv_stream w s = Some v"
    and fresh: "\<And>k c. sv_client w k = Some c \<Longrightarrow> sc_stream c = s \<Longrightarrow> sc_channel c \<noteq> cn"
  shows "struct_inv (with_client s cn v w)"
proof -
  let ?w = "with_client s cn v w" and ?k = "sv_next w"
  note T = struct_table [OF inv]
  have new: "sv_client w ?k = None" "?k \<notin> set (vs_clients v)"
    using struct_client(1) [OF inv] struct_stream(4) [OF inv v] by (metis less_irrefl not_None_eq)+
  have key_old: "client_key ?w k = client_key w k" if "k \<noteq> ?k" for k
    using that v by (auto simp: client_key_def with_client_def split: option.splits)
  have key_new: "client_key ?w ?k = (vs_id v, cn)" by (simp add: client_key_def with_client_def new_client_def)
  have old_key: "client_key w k \<noteq> (vs_id v, cn)" if kc: "sv_client w k = Some c" for k c
  proof
    assume a: "client_key w k = (vs_id v, cn)"
    obtain u where u: "sv_stream w (sc_stream c) = Some u" using struct_client(2) [OF inv kc] by blast
    with a kc have "vs_id u = vs_id v" "sc_channel c = cn" by (simp_all add: client_key_def)
    with struct_ids [OF inv u v] fresh [OF kc] show False by blast
  qed
  show ?thesis
    unfolding struct_inv_def
  proof (intro conjI allI impI)
    show "distinct (sv_clients ?w)" "set (sv_clients ?w) = dom (sv_client ?w)"
      using T(4,5) new by (auto simp: with_client_def)
    fix s' u assume u: "sv_stream ?w s' = Some u"
    have "refs_ok u \<and> s' < sv_next ?w \<and> vs_id u < sv_id_cnt ?w \<and>
        set (vs_clients u) = {k. \<exists>c. sv_client ?w k = Some c \<and> sc_stream c = s'}"
    proof (cases "s' = s")
      case True
      then have "u = v\<lparr>vs_clients := ?k # vs_clients v, vs_ref_cnt := vs_ref_cnt v + 1\<rparr>" using u by (simp add: with_client_def)
      then show "refs_ok u \<and> s' < sv_next ?w \<and> vs_id u < sv_id_cnt ?w \<and>
        set (vs_clients u) = {k. \<exists>c. sv_client ?w k = Some c \<and> sc_stream c = s'}"
        using struct_stream [OF inv v] new True by (auto simp: refs_ok_def with_client_def new_client_def)
    next
      case False
      then have "sv_stream w s' = Some u" using u by (simp add: with_client_def)
      then show "refs_ok u \<and> s' < sv_next ?w \<and> vs_id u < sv_id_cnt ?w \<and>
        set (vs_clients u) = {k. \<exists>c. sv_client ?w k = Some c \<and> sc_stream c = s'}"
        using struct_stream [OF inv, of s' u] new False by (auto simp: with_client_def new_client_def)
    qed
    then show "refs_ok u" "s' < sv_next ?w" "vs_id u < sv_id_cnt ?w"
      "set (vs_clients u) = {k. \<exists>c. sv_client ?w k = Some c \<and> sc_stream c = s'}" by blast+
  next
    fix k c assume c: "sv_client ?w k = Some c"
    then show "k < sv_next ?w" "sv_stream ?w (sc_stream c) \<noteq> None"
      using struct_client [OF inv, of k c] by (auto simp: with_client_def new_client_def split: if_splits)
  next
    fix s1 s2 v1 v2 assume "sv_stream ?w s1 = Some v1" "sv_stream ?w s2 = Some v2" "vs_id v1 = vs_id v2"
    then show "s1 = s2" using struct_ids [OF inv] v by (auto simp: with_client_def split: if_splits)
  next
    have d: "dom (sv_client ?w) = insert ?k (dom (sv_client w))" by (simp add: with_client_def)
    have "inj_on (client_key ?w) (dom (sv_client w))"
      using T(3) key_old new by (auto simp: inj_on_def) (metis domI domIff)
    moreover have "client_key ?w ?k \<notin> client_key ?w ` (dom (sv_client w) - {?k})"
      using key_new key_old old_key by (auto simp: image_iff) (metis prod.collapse)
    ultimately show "inj_on (client_key ?w) (dom (sv_client ?w))" unfolding d inj_on_insert by blast
    have l: "get_client_hash (vs_id v, cn) < length (sv_handle_hash w)"
      using T(1) hnd.hash_bound by (simp add: hnd.table_ok_def)
    have "hnd.table_ok (client_key ?w) (sv_handle_hash w)"
      using T(1,2) new key_old table_ok_cong [of "sv_handle_hash w" "client_key ?w" "client_key w"] by (metis domIff)
    from hnd.table_ok_add [OF this, of ?k] show "hnd.table_ok (client_key ?w) (sv_handle_hash ?w)"
      unfolding key_new by (simp add: with_client_def)
    show "set (concat (sv_handle_hash ?w)) = dom (sv_client ?w)"
      unfolding d using set_chain_add [OF l, of ?k] T(2) by (simp add: with_client_def)
  qed
qed

lemma with_client_inv:
  assumes inv: "sv_inv T {} w" and v: "sv_stream w s = Some v" "vs_ref_cnt v \<noteq> 0"
    and fresh: "\<And>k c. sv_client w k = Some c \<Longrightarrow> sc_stream c = s \<Longrightarrow> sc_channel c \<noteq> cn"
  shows "sv_inv T {} (with_client s cn v w)"
proof -
  let ?w = "with_client s cn v w" and ?k = "sv_next w"
  let ?v = "v\<lparr>vs_clients := ?k # vs_clients v, vs_ref_cnt := vs_ref_cnt v + 1\<rparr>"
  have st: "struct_inv w" and d: "data_inv {} w" and e: "event_inv w" using inv by (simp_all add: sv_inv_def)
  have so: "stream_ok (accepted s (sv_trace w)) v" and ro: "refs_ok v" using inv_stream [OF inv v(1)] by simp_all
  have r: "ring_len ?v = ring_len v" "ring_list ?v = ring_list v" "ring_ok ?v = ring_ok v" "remote_read ?v = remote_read v"
    by (simp_all add: ring_len_def ring_list_def ring_ok_def remote_read_def)
  have o: "stream_ok h ?v = stream_ok h v" "client_ok b ?v c = client_ok b v c" for h b c
    by (simp_all add: stream_ok_def client_ok_def r)
  have "struct_inv ?w" by (rule with_client_struct [OF st v(1) fresh])
  moreover have "data_inv {} ?w"
  proof -
    have "client_ok False v (new_client s cn v)" by (simp add: client_ok_def new_client_def)
    then show ?thesis using d v(1) by (auto simp: data_inv_def with_client_def o new_client_def)
  qed
  moreover have "event_inv ?w"
  proof -
    have "vs_ref_cnt v + 1 \<noteq> 0" using ro by (auto simp: refs_ok_def)
    then show ?thesis using e v by (auto simp: event_inv_def with_client_def)
  qed
  moreover have "watch_ok x ?w" if "x \<in> T" for x
  proof -
    from inv that have "watch_ok x w" by (simp add: sv_inv_def)
    then show ?thesis using v(1) by (cases x) (auto simp: watch_ok_def with_client_def r)
  qed
  ultimately show ?thesis by (simp add: sv_inv_def)
qed

section \<open>A client that leaves\<close>

text \<open>The state after a client has been taken out of everything; \<open>tr\<close> are the messages about its requests.\<close>

definition without_client :: "nat \<Rightarrow> StreamClient \<Rightarrow> 'cb VirtualStream \<Rightarrow> 'cb stream_action list \<Rightarrow> 'cb streams \<Rightarrow> 'cb streams" where
  "without_client k c v tr w = w\<lparr>sv_trace := sv_trace w @ tr, sv_client := (sv_client w)(k := None),
     sv_handle_hash := chain_purge (\<lambda>e. e = k) (sv_handle_hash w), sv_clients := removeAll k (sv_clients w),
     sv_stream := (sv_stream w)(sc_stream c \<mapsto> v\<lparr>vs_clients := removeAll k (vs_clients v), vs_ref_cnt := vs_ref_cnt v - 1\<rparr>)\<rparr>"

lemma without_client_struct:
  assumes inv: "struct_inv w" and c: "sv_client w k = Some c" and v: "sv_stream w (sc_stream c) = Some v"
  shows "struct_inv (without_client k c v tr w)"
proof -
  let ?w = "without_client k c v tr w"
  note T = struct_table [OF inv]
  have mem: "k \<in> set (vs_clients v)" using struct_stream(4) [OF inv v] c by simp
  have key: "client_key ?w j = client_key w j" if "j \<noteq> k" for j
    using that v by (auto simp: client_key_def without_client_def split: option.splits)
  show ?thesis
    unfolding struct_inv_def
  proof (intro conjI allI impI)
    show "distinct (sv_clients ?w)" "set (sv_clients ?w) = dom (sv_client ?w)"
      using T(4,5) by (auto simp: without_client_def distinct_removeAll)
    fix s' u assume u: "sv_stream ?w s' = Some u"
    have "refs_ok u \<and> s' < sv_next ?w \<and> vs_id u < sv_id_cnt ?w \<and>
        set (vs_clients u) = {k. \<exists>c. sv_client ?w k = Some c \<and> sc_stream c = s'}"
    proof (cases "s' = sc_stream c")
      case True
      then have u: "u = v\<lparr>vs_clients := removeAll k (vs_clients v), vs_ref_cnt := vs_ref_cnt v - 1\<rparr>" using u by (simp add: without_client_def)
      have ro: "refs_ok v" using struct_stream [OF inv v] by simp
      then have "removeAll k (vs_clients v) = remove1 k (vs_clients v)" by (simp add: refs_ok_def distinct_remove1_removeAll)
      then have "length (removeAll k (vs_clients v)) + 1 = length (vs_clients v)"
        using mem length_pos_if_in_set [OF mem] by (simp add: length_remove1)
      then have "refs_ok u" using ro u by (auto simp: refs_ok_def distinct_removeAll)
      then show ?thesis using struct_stream [OF inv v] u True by (auto simp: without_client_def)
    next
      case False
      then have "sv_stream w s' = Some u" using u by (simp add: without_client_def)
      then show ?thesis using struct_stream [OF inv, of s' u] c False by (auto simp: without_client_def)
    qed
    then show "refs_ok u" "s' < sv_next ?w" "vs_id u < sv_id_cnt ?w"
      "set (vs_clients u) = {k. \<exists>c. sv_client ?w k = Some c \<and> sc_stream c = s'}" by blast+
  next
    fix j d assume d: "sv_client ?w j = Some d"
    then show "j < sv_next ?w" "sv_stream ?w (sc_stream d) \<noteq> None"
      using struct_client [OF inv, of j d] by (auto simp: without_client_def split: if_splits)
  next
    fix s1 s2 v1 v2 assume "sv_stream ?w s1 = Some v1" "sv_stream ?w s2 = Some v2" "vs_id v1 = vs_id v2"
    then show "s1 = s2" using struct_ids [OF inv] v by (auto simp: without_client_def split: if_splits)
  next
    have d: "dom (sv_client ?w) = dom (sv_client w) - {k}" by (auto simp: without_client_def)
    show "inj_on (client_key ?w) (dom (sv_client ?w))"
      using T(3) key unfolding d by (auto simp: inj_on_def)
    show s: "set (concat (sv_handle_hash ?w)) = dom (sv_client ?w)"
      unfolding d using T(2) by (auto simp: without_client_def set_chain_purge simp del: set_concat)
    have "hnd.table_ok (client_key w) (sv_handle_hash ?w)"
      using hnd.table_ok_purge [OF T(1)] by (simp add: without_client_def)
    moreover have "client_key ?w e = client_key w e" if "e \<in> set (concat (sv_handle_hash ?w))" for e
      using that key unfolding s d by auto
    ultimately show "hnd.table_ok (client_key ?w) (sv_handle_hash ?w)" using table_ok_cong by blast
  qed
qed

lemma without_client_rest:
  assumes inv: "sv_inv T {} w" and c: "sv_client w k = Some c" and v: "sv_stream w (sc_stream c) = Some v"
    and tr: "\<And>s. accepted s tr = []" "\<And>k. received k tr = []"
  shows "data_inv {} (without_client k c v tr w)" "x \<in> T \<Longrightarrow> watch_ok x (without_client k c v tr w)"
proof -
  let ?v = "v\<lparr>vs_clients := removeAll k (vs_clients v), vs_ref_cnt := vs_ref_cnt v - 1\<rparr>"
  have r: "ring_len ?v = ring_len v" "ring_list ?v = ring_list v" "ring_ok ?v = ring_ok v" "remote_read ?v = remote_read v"
    by (simp_all add: ring_len_def ring_list_def ring_ok_def remote_read_def)
  have o: "stream_ok h ?v = stream_ok h v" "client_ok b ?v c = client_ok b v c" for h b c
    by (simp_all add: stream_ok_def client_ok_def r)
  show "data_inv {} (without_client k c v tr w)"
    using inv v by (auto simp: sv_inv_def data_inv_def without_client_def o tr split: if_splits)
  show "watch_ok x (without_client k c v tr w)" if "x \<in> T"
  proof -
    from inv that have "watch_ok x w" by (simp add: sv_inv_def)
    then show ?thesis using v by (cases x) (auto simp: watch_ok_def without_client_def r tr split: if_splits)
  qed
qed

text \<open>The messages about the requests of a client that leaves.\<close>

definition tells :: "nat \<Rightarrow> 'cb streams \<Rightarrow> 'cb streams \<Rightarrow> bool" where
  "tells k w w' \<longleftrightarrow> (\<exists>tr c'. w' = w\<lparr>sv_trace := sv_trace w @ tr, sv_client := (sv_client w)(k \<mapsto> c')\<rparr> \<and>
     (\<forall>s. accepted s tr = []) \<and> (\<forall>j. received j tr = []))"

lemma tells_refl: "sv_client w k = Some c \<Longrightarrow> tells k w w"
  unfolding tells_def by (intro exI [of _ "[]"] exI [of _ c]) (simp add: fun_upd_idem)

lemma tells_trans: "tells k w w' \<Longrightarrow> tells k w' w'' \<Longrightarrow> tells k w w''"
  unfolding tells_def
proof (elim exE conjE)
  fix tr c tr' c'
  assume "w' = w\<lparr>sv_trace := sv_trace w @ tr, sv_client := (sv_client w)(k \<mapsto> c)\<rparr>" "\<forall>s. accepted s tr = []" "\<forall>j. received j tr = []"
    "w'' = w'\<lparr>sv_trace := sv_trace w' @ tr', sv_client := (sv_client w')(k \<mapsto> c')\<rparr>" "\<forall>s. accepted s tr' = []" "\<forall>j. received j tr' = []"
  then show "\<exists>tr c'. w'' = w\<lparr>sv_trace := sv_trace w @ tr, sv_client := (sv_client w)(k \<mapsto> c')\<rparr> \<and>
     (\<forall>s. accepted s tr = []) \<and> (\<forall>j. received j tr = [])"
    by (intro exI [of _ "tr @ tr'"] exI [of _ c']) simp
qed

lemma tells_client: "tells k w w' \<Longrightarrow> \<exists>c. sv_client w' k = Some c"
  by (auto simp: tells_def)

lemma wp_tell_read: "sv_client w k = Some c \<Longrightarrow> wpR (delete_read_request k r) (\<lambda>_ w'. tells k w w') w"
  unfolding delete_read_request_def tells_def wp
  by (simp add: wp wp_the_client wp_upd_client)
    (rule exI [of _ "[Sent (sc_channel c) (Some k) (Read_reply (rr_token r) [] [] (Some (Err ERR_COMMAND_CANCELLED)) 0 True)]"],
      intro conjI exI [of _ "c\<lparr>sc_read_requests := remove1 r (sc_read_requests c)\<rparr>"], simp_all)

lemma wp_tell_write: "sv_client w k = Some c \<Longrightarrow> wpR (delete_write_request k r err) (\<lambda>_ w'. tells k w w') w"
  unfolding delete_write_request_def tells_def wp
  by (simp add: wp wp_the_client wp_upd_client)
    (rule exI [of _ "[Sent (sc_channel c) (Some k) (Result_reply (wr_token r) err)]"],
      intro conjI exI [of _ "c\<lparr>sc_write_requests := remove1 r (sc_write_requests c)\<rparr>"], simp_all)

lemma wp_tell_loop:
  assumes "tells k w w1" "\<And>r w' c. sv_client w' k = Some c \<Longrightarrow> wpR (f r) (\<lambda>_ w''. tells k w' w'') w'"
  shows "wpR (forV f rs) (\<lambda>_ w'. tells k w w') w1"
proof (rule wp_for [where I = "\<lambda>_ w'. tells k w w'"], goal_cases)
  case 1
  then show ?case by (rule assms(1))
next
  case (2 r rs w2)
  from tells_client [OF 2(2)] obtain c where "sv_client w2 k = Some c" by blast
  from assms(2) [OF this, of r] show ?case by (rule wp_mono) (use 2(2) tells_trans in blast)
qed simp

text \<open>What a client that leaves, and the advance of the ring behind it, do not change.\<close>

definition leaves :: "nat \<Rightarrow> 'cb streams \<Rightarrow> 'cb streams \<Rightarrow> bool" where
  "leaves k w w' \<longleftrightarrow> dom (sv_stream w') = dom (sv_stream w) \<and> sv_streams w' = sv_streams w \<and> sv_subscriptions w' = sv_subscriptions w \<and>
     sv_client w' k = None \<and> sv_next w' = sv_next w \<and> sv_clients w' = removeAll k (sv_clients w) \<and>
     (\<forall>j. j \<noteq> k \<longrightarrow> map_option client_skel (sv_client w' j) = map_option client_skel (sv_client w j))"

lemma wp_delete_client:
  assumes inv: "sv_inv T {} w" and c: "sv_client w k = Some c"
  shows "wpR (delete_client k) (\<lambda>_ w'. sv_inv T {} w' \<and> leaves k w w') w"
proof -
  from inv_client [OF inv c] obtain v where v: "sv_stream w (sc_stream c) = Some v" "k \<in> set (vs_clients v)" by auto
  have ro: "refs_ok v" and st: "struct_inv w" and ev: "event_inv w"
    using inv_stream [OF inv v(1)] inv by (simp_all add: sv_inv_def)
  have pos: "0 < vs_ref_cnt v" using v(2) ro by (auto simp: refs_ok_def)
  let ?a = "Sent (sc_channel c) (Some k) (Stream_disposed (vs_type v) (virtual_stream_get_id v))"
  let ?v1 = "v\<lparr>vs_clients := removeAll k (vs_clients v)\<rparr>"
  let ?v2 = "v\<lparr>vs_clients := removeAll k (vs_clients v), vs_ref_cnt := vs_ref_cnt v - 1\<rparr>"
  let ?w1 = "w\<lparr>sv_trace := sv_trace w @ [?a], sv_handle_hash := chain_purge (\<lambda>e. e = k) (sv_handle_hash w),
     sv_clients := removeAll k (sv_clients w), sv_stream := (sv_stream w)(sc_stream c \<mapsto> ?v1)\<rparr>"
  have end_ok: "wpR (if vs_ref_cnt ?v2 = 0 then
        seqR (assertV (vs_clients ?v2 = [])) (seqR (assertV (vs_deleted ?v2)) (post_sv Delete_stream (sc_stream c)))
      else if remote_read ?v2 then advance_stream_buffer (sc_stream c)
      else retR ()) (\<lambda>_ w'. sv_inv T {} w' \<and> leaves k w w') (without_client k c v tr w)"
    if tr: "\<And>s. accepted s tr = []" "\<And>k. received k tr = []" for tr
  proof -
    let ?w = "without_client k c v tr w"
    have stq: "struct_inv ?w" by (rule without_client_struct [OF st c v(1)])
    note rest = without_client_rest [OF inv c v(1) tr]
    have v2: "sv_stream ?w (sc_stream c) = Some ?v2" by (simp add: without_client_def)
    have ro2: "refs_ok ?v2" using struct_stream(1) [OF stq v2] .
    have lv: "leaves k w ?w" using v(1) by (auto simp: leaves_def without_client_def)
    show ?thesis
    proof (cases "vs_ref_cnt ?v2 = 0")
      case True
      then have fin: "vs_clients ?v2 = []" "vs_deleted ?v2" using ro2 by (auto simp: refs_ok_def split: if_splits)
      let ?we = "?w\<lparr>sv_events := sv_events ?w @ [(Delete_stream, sc_stream c)]\<rparr>"
      have "struct_inv ?we" using same_skel_struct [OF same_skel_upds(2) stq] .
      moreover have "data_inv {} ?we" using rest(1) by (simp add: data_inv_def)
      moreover have "watch_ok x ?we" if "x \<in> T" for x using rest(2) [OF that] by (simp add: watch_ok_def)
      moreover have "event_inv ?we"
        using ev pos True v(1) by (auto simp: event_inv_def without_client_def delete_last_snoc)
      ultimately have "sv_inv T {} ?we" by (simp add: sv_inv_def)
      moreover have "leaves k w ?we" using lv by (simp add: leaves_def)
      ultimately show ?thesis using True fin by (simp add: wp)
    next
      case False
      have "event_inv ?w" using ev pos False v(1) by (auto simp: event_inv_def without_client_def)
      with stq rest have i2: "sv_inv T {} ?w" by (simp add: sv_inv_def)
      show ?thesis
      proof (cases "remote_read ?v2")
        case True
        have "wpR (advance_stream_buffer (sc_stream c)) (\<lambda>_ w'. sv_inv T {} w' \<and> quiet ?w w') ?w"
          by (rule wp_advance [OF i2 v2 True False])
        then show ?thesis unfolding if_not_P [OF False] if_P [OF True]
        proof (rule wp_mono)
          fix w' assume a: "sv_inv T {} w' \<and> quiet ?w w'"
          then have sk: "same_skel ?w w'" by (simp add: quiet_def)
          have "sv_client w' k = None" using skelD(2) [OF sk, of k] lv by (simp add: leaves_def)
          then have "leaves k w w'" using lv skel_dom(2) [OF sk] sk unfolding leaves_def same_skel_def by simp
          with a show "sv_inv T {} w' \<and> leaves k w w'" by blast
        qed
      next
        case F: False
        then show ?thesis unfolding if_not_P [OF False] if_not_P [OF F] using i2 lv by (simp add: wp)
      qed
    qed
  qed
  have loops: "wpR (forV (delete_read_request k) (sc_read_requests c)) (\<lambda>_. wpR
      (forV (\<lambda>r. delete_write_request k r (Some (Err ERR_COMMAND_CANCELLED))) (sc_write_requests c)) (\<lambda>_ w'. tells k ?w1 w')) ?w1"
  proof (rule wp_mono [OF wp_tell_loop [of k ?w1 ?w1]])
    show "tells k ?w1 ?w1" by (rule tells_refl [of _ _ c]) (simp add: c)
    show "\<And>r w' c. sv_client w' k = Some c \<Longrightarrow> wpR (delete_read_request k r) (\<lambda>_ w''. tells k w' w'') w'" by (rule wp_tell_read)
    fix w2 assume "tells k ?w1 w2"
    then show "wpR (forV (\<lambda>r. delete_write_request k r (Some (Err ERR_COMMAND_CANCELLED))) (sc_write_requests c)) (\<lambda>_ w'. tells k ?w1 w') w2"
      by (rule wp_tell_loop) (rule wp_tell_write)
  qed
  have "wpR (forV (delete_read_request k) (sc_read_requests c)) (\<lambda>_. wpR
      (forV (\<lambda>r. delete_write_request k r (Some (Err ERR_COMMAND_CANCELLED))) (sc_write_requests c)) (\<lambda>_. wpR
      (seqR (modV (\<lambda>w. w\<lparr>sv_client := (sv_client w)(k := None)\<rparr>))
     (seqR (upd_stream (sc_stream c) (\<lambda>v. v\<lparr>vs_ref_cnt := vs_ref_cnt v - 1\<rparr>))
     (bindR (the_stream (sc_stream c)) (\<lambda>stream.
      if vs_ref_cnt stream = 0 then
        seqR (assertV (vs_clients stream = [])) (seqR (assertV (vs_deleted stream)) (post_sv Delete_stream (sc_stream c)))
      else if remote_read stream then advance_stream_buffer (sc_stream c)
      else retR ())))) (\<lambda>_ w'. sv_inv T {} w' \<and> leaves k w w'))) ?w1"
  proof (rule wp_mono [OF loops], erule wp_mono)
    fix w2 assume "tells k ?w1 w2"
    then obtain tr c' where w2: "w2 = ?w1\<lparr>sv_trace := sv_trace ?w1 @ tr, sv_client := (sv_client ?w1)(k \<mapsto> c')\<rparr>"
      and tr: "\<And>s. accepted s tr = []" "\<And>k. received k tr = []" by (auto simp: tells_def)
    have "(w2\<lparr>sv_client := (sv_client w2)(k := None), sv_stream := (sv_stream w2)(sc_stream c \<mapsto> ?v2)\<rparr>) = without_client k c v (?a # tr) w"
      by (simp add: w2 without_client_def)
    moreover have "sv_stream (without_client k c v (?a # tr) w) (sc_stream c) = Some ?v2" by (simp add: without_client_def)
    moreover have "accepted s (?a # tr) = []" "received j (?a # tr) = []" for s j
      using accepted_simps(2) [of s "[?a]" tr] received_simps(2) [of j "[?a]" tr] tr by simp_all
    ultimately show "wpR (seqR (modV (\<lambda>w. w\<lparr>sv_client := (sv_client w)(k := None)\<rparr>))
     (seqR (upd_stream (sc_stream c) (\<lambda>v. v\<lparr>vs_ref_cnt := vs_ref_cnt v - 1\<rparr>))
     (bindR (the_stream (sc_stream c)) (\<lambda>stream.
      if vs_ref_cnt stream = 0 then
        seqR (assertV (vs_clients stream = [])) (seqR (assertV (vs_deleted stream)) (post_sv Delete_stream (sc_stream c)))
      else if remote_read stream then advance_stream_buffer (sc_stream c)
      else retR ())))) (\<lambda>_ w'. sv_inv T {} w' \<and> leaves k w w') w2"
      using end_ok [of "?a # tr"] by (simp add: wp wp_upd_stream [of _ _ ?v1] wp_the_stream [of _ _ ?v2] w2)
  qed
  then show ?thesis
    using pos by (simp add: delete_client_def Let_def wp wp_the_client [OF c] wp_the_stream [OF v(1)] send_event_stream_disposed_def
      wp_upd_stream [of _ _ v] v(1))
qed

section \<open>The whole service\<close>

definition service_inv :: "(nat \<times> nat \<times> nat) set \<Rightarrow> 'cb streams \<Rightarrow> bool" where
  "service_inv T w \<longleftrightarrow> sv_inv T {} w \<and> lists_inv w"

lemma service_skel: "service_inv T w \<Longrightarrow> sv_inv T {} w' \<Longrightarrow> same_skel w w' \<Longrightarrow> service_inv T w'"
  using same_skel_lists by (auto simp: service_inv_def)

lemma leaves_lists: "lists_inv w \<Longrightarrow> leaves k w w' \<Longrightarrow> lists_inv w'"
  by (simp add: lists_inv_def leaves_def)

lemma init_fields:
  "sv_client streams_init = (\<lambda>_. None)" "sv_stream streams_init = (\<lambda>_. None)" "sv_clients streams_init = []"
  "sv_streams streams_init = []" "sv_subscriptions streams_init = []" "sv_events streams_init = []" "sv_trace streams_init = []"
  "sv_handle_hash streams_init = replicate HANDLE_HASH_SIZE []"
  by (simp_all add: streams_init_def)

lemma service_init: "service_inv {} streams_init"
proof -
  have "hnd.table_ok (client_key streams_init) (replicate HANDLE_HASH_SIZE [])" by (rule hnd.table_ok_empty)
  then have "struct_inv streams_init" unfolding struct_inv_def init_fields dom_empty by simp
  then show ?thesis
    by (simp add: service_inv_def sv_inv_def data_inv_def event_inv_def lists_inv_def init_fields)
qed

lemma wp_disconnect:
  assumes "service_inv T w"
  shows "wpR (virtual_stream_disconnect cn ident) (\<lambda>_. service_inv T) w"
proof -
  from assms have inv: "sv_inv T {} w" "lists_inv w" "struct_inv w" by (simp_all add: service_inv_def sv_inv_def)
  show ?thesis
  proof (cases rule: find_client_cases [OF inv(3), of ident cn, case_names none some])
    case none
    then show ?thesis using assms by (simp add: virtual_stream_disconnect_def wp wpR_def [of "find_client _ _"])
  next
    case (some k c v)
    from wp_delete_client [OF inv(1) some(2)] have "wpR (delete_client k) (\<lambda>_. service_inv T) w"
      by (rule wp_mono) (use leaves_lists inv(2) in \<open>auto simp: service_inv_def\<close>)
    then show ?thesis using some(1) by (simp add: virtual_stream_disconnect_def wp wpR_def [of "find_client _ _"])
  qed
qed

lemma service_subscriptions:
  assumes "service_inv T w" "distinct (map (\<lambda>h. (sb_type h, sb_channel h)) hs)"
  shows "service_inv T (w\<lparr>sv_subscriptions := hs\<rparr>)"
proof -
  have "client_key (w\<lparr>sv_subscriptions := hs\<rparr>) = client_key w" by (rule ext) (simp add: client_key_def split: option.split)
  then show ?thesis using assms
    by (simp add: service_inv_def sv_inv_def struct_inv_def data_inv_def event_inv_def watch_ok_def lists_inv_def)
qed

lemma wp_close_clients:
  assumes "service_inv T w"
  shows "wpR (\<lambda>w. forV (\<lambda>k. bindR (the_client k) (\<lambda>client. if sc_channel client = cn then delete_client k else retR ())) (sv_clients w) w)
    (\<lambda>_ w'. service_inv T w' \<and> (\<forall>k c. sv_client w' k = Some c \<longrightarrow> sc_channel c \<noteq> cn)) w"
proof -
  let ?I = "\<lambda>ks w'. distinct ks \<and> service_inv T w' \<and> set ks \<subseteq> dom (sv_client w') \<and>
    (\<forall>k c. sv_client w' k = Some c \<longrightarrow> sc_channel c = cn \<longrightarrow> k \<in> set ks)"
  have "wpR (forV (\<lambda>k. bindR (the_client k) (\<lambda>client. if sc_channel client = cn then delete_client k else retR ())) (sv_clients w))
    (\<lambda>_ w'. service_inv T w' \<and> (\<forall>k c. sv_client w' k = Some c \<longrightarrow> sc_channel c \<noteq> cn)) w"
  proof (rule wp_for [where I = ?I], goal_cases)
    case 1
    then show ?case using assms struct_table(4,5) [of w] by (auto simp: service_inv_def sv_inv_def)
  next
    case (2 k ks w1)
    from 2(2) obtain c where c: "sv_client w1 k = Some c" by auto
    from 2(2) have inv: "sv_inv T {} w1" "lists_inv w1" by (simp_all add: service_inv_def)
    show ?case
    proof (cases "sc_channel c = cn")
      case True
      have "wpR (delete_client k) (\<lambda>_ w'. sv_inv T {} w' \<and> leaves k w1 w') w1" by (rule wp_delete_client [OF inv(1) c])
      then have "wpR (delete_client k) (\<lambda>_. ?I ks) w1"
      proof (rule wp_mono)
        fix w' assume a: "sv_inv T {} w' \<and> leaves k w1 w'"
        have m: "map_option client_skel (sv_client w' j) = map_option client_skel (sv_client w1 j)" if "j \<noteq> k" for j
          using a that by (simp add: leaves_def)
        have "j \<in> dom (sv_client w')" if "j \<in> set ks" for j
        proof -
          have "j \<noteq> k" "j \<in> dom (sv_client w1)" using that 2(2) by auto
          then show ?thesis using m [of j] by (metis domIff option.map_disc_iff)
        qed
        moreover have "j \<in> set ks" if "sv_client w' j = Some d" "sc_channel d = cn" for j d
        proof -
          have "j \<noteq> k" using a that by (auto simp: leaves_def)
          with m [of j] that obtain d1 where "sv_client w1 j = Some d1" "sc_channel d1 = cn"
            by (cases "sv_client w1 j") (auto simp: client_skel_def)
          with 2(2) \<open>j \<noteq> k\<close> show ?thesis by auto
        qed
        ultimately show "?I ks w'" using a 2(2) leaves_lists [OF inv(2)] by (auto simp: service_inv_def)
      qed
      then show ?thesis using c True by (simp add: wp wp_the_client)
    next
      case False
      then have "j \<in> set ks" if "sv_client w1 j = Some d" "sc_channel d = cn" for j d
        using 2(2) c that by (cases "j = k") auto
      then have "?I ks w1" using 2(2) by simp
      then show ?thesis using c False by (simp add: wp wp_the_client)
    qed
  next
    case (3 w')
    then show ?case by auto
  qed
  then show ?thesis by (simp only: wp_for_state [of _ sv_clients])
qed

lemma wp_close_subscriptions:
  assumes "service_inv T w"
  shows "wpR (forV (\<lambda>h. if sb_channel h = cn then delete_subscription h else retR ()) hs) (\<lambda>_ w'. service_inv T w' \<and> sv_client w' = sv_client w) w"
proof (rule wp_for [where I = "\<lambda>_ w'. service_inv T w' \<and> sv_client w' = sv_client w"], goal_cases)
  case 1
  then show ?case using assms by simp
next
  case (2 h hs w1)
  have "service_inv T (w1\<lparr>sv_subscriptions := remove1 h (sv_subscriptions w1)\<rparr>)" if "service_inv T w1" for w1 :: "'a streams"
    using that by (intro service_subscriptions) (auto simp: service_inv_def lists_inv_def distinct_map intro: inj_on_subset)
  then show ?case using 2(2) by (simp add: delete_subscription_def wp)
qed simp

lemma wp_close:
  assumes "service_inv T w"
  shows "wpR (channel_close_listener cn) (\<lambda>_ w'. service_inv T w' \<and> (\<forall>k c. sv_client w' k = Some c \<longrightarrow> sc_channel c \<noteq> cn)) w"
  unfolding channel_close_listener_def wp
proof (rule wp_mono [OF wp_close_clients [OF assms, of cn]], unfold wp_for_state [of _ sv_subscriptions])
  fix w1 assume a: "service_inv T w1 \<and> (\<forall>k c. sv_client w1 k = Some c \<longrightarrow> sc_channel c \<noteq> cn)"
  then show "wpR (forV (\<lambda>h. if sb_channel h = cn then delete_subscription h else retR ()) (sv_subscriptions w1))
    (\<lambda>_ w'. service_inv T w' \<and> (\<forall>k c. sv_client w' k = Some c \<longrightarrow> sc_channel c \<noteq> cn)) w1"
    by (intro wp_mono [OF wp_close_subscriptions [of T]]) simp_all
qed

section \<open>Connecting\<close>

lemma find_stream_eq:
  assumes "\<And>s. s \<in> set ss \<Longrightarrow> sv_stream w s \<noteq> None"
  shows "\<exists>r. find_stream n ss w = Inr (r, w) \<and> (\<forall>s. r = Some s \<longrightarrow> s \<in> set ss \<and> (\<exists>v. sv_stream w s = Some v \<and> vs_id v = n \<and> \<not> vs_deleted v))"
  using assms
proof (induction ss)
  case Nil
  then show ?case by (simp add: retR_def)
next
  case (Cons s ss)
  from Cons.prems [of s] obtain v where v: "sv_stream w s = Some v" by auto
  show ?case
  proof (cases "vs_id v = n \<and> \<not> vs_deleted v")
    case True
    then show ?thesis using v by (auto simp: reader_simps the_stream_def)
  next
    case False
    with Cons v show ?thesis by (auto simp: reader_simps the_stream_def)
  qed
qed

lemma wp_stream_find:
  assumes "service_inv T w"
  shows "wpR (virtual_stream_find ident) (\<lambda>r w'. w' = w \<and>
    (\<forall>s. r = Some s \<longrightarrow> (\<exists>v. sv_stream w s = Some v \<and> \<not> vs_deleted v \<and> str2id ident = Some (vs_id v)))) w"
proof (cases "str2id ident")
  case None
  then show ?thesis by (simp add: virtual_stream_find_def wp)
next
  case (Some n)
  from assms have "\<And>s. s \<in> set (sv_streams w) \<Longrightarrow> sv_stream w s \<noteq> None" by (auto simp: service_inv_def lists_inv_def)
  from find_stream_eq [of "sv_streams w" w n, OF this] Some show ?thesis
    by (auto simp: virtual_stream_find_def wpR_def)
qed

lemma with_client_lists: "lists_inv w \<Longrightarrow> sv_stream w s = Some v \<Longrightarrow> lists_inv (with_client s cn v w)"
  by (auto simp: lists_inv_def with_client_def)

lemma ref_cnt_owned: "refs_ok v \<Longrightarrow> \<not> vs_deleted v \<Longrightarrow> vs_ref_cnt v \<noteq> 0"
  by (simp add: refs_ok_def)

lemma wp_connect:
  assumes "service_inv T w"
  shows "wpR (virtual_stream_connect cn ident) (\<lambda>_. service_inv T) w"
proof -
  from assms have inv: "sv_inv T {} w" "lists_inv w" "struct_inv w" by (simp_all add: service_inv_def sv_inv_def)
  show ?thesis
  proof (cases rule: find_client_cases [OF inv(3), of ident cn, case_names none some])
    case (some k c v)
    then show ?thesis using assms by (simp add: virtual_stream_connect_def wp wpR_def [of "find_client _ _"])
  next
    case none
    have "wpR (virtual_stream_find ident) (\<lambda>stream. wpR (case stream of None \<Rightarrow> retR (Some (Err ERR_INV_CONTEXT))
      | Some a \<Rightarrow> seqR (create_client a cn) (retR None)) (\<lambda>_. service_inv T)) w"
    proof (rule wp_mono [OF wp_stream_find [OF assms]])
      fix r w' assume a: "w' = w \<and> (\<forall>s. r = Some s \<longrightarrow> (\<exists>v. sv_stream w s = Some v \<and> \<not> vs_deleted v \<and> str2id ident = Some (vs_id v)))"
      show "wpR (case r of None \<Rightarrow> retR (Some (Err ERR_INV_CONTEXT)) | Some a \<Rightarrow> seqR (create_client a cn) (retR None)) (\<lambda>_. service_inv T) w'"
      proof (cases r)
        case None
        then show ?thesis using a assms by (simp add: wp)
      next
        case (Some s)
        with a obtain v where v: "sv_stream w s = Some v" "\<not> vs_deleted v" "str2id ident = Some (vs_id v)" by blast
        have "sv_inv T {} (with_client s cn v w)"
        proof (rule with_client_inv [OF inv(1) v(1)])
          show "vs_ref_cnt v \<noteq> 0" by (rule ref_cnt_owned [OF inv_stream(1) [OF inv(1) v(1)] v(2)])
          show "sc_channel c \<noteq> cn" if "sv_client w k = Some c" "sc_stream c = s" for k c using none(2) [OF v(3) that(1)] that v(1) by blast
        qed
        then have "service_inv T (with_client s cn v w)" using with_client_lists [OF inv(2) v(1)] by (simp add: service_inv_def)
        then show ?thesis using a Some create_client_eq [OF v(1), of cn] by (simp add: wp wpR_def [of "create_client _ _"])
      qed
    qed
    then show ?thesis using none(1) by (simp add: virtual_stream_connect_def wp wpR_def [of "find_client _ _"])
  qed
qed

section \<open>Subscriptions\<close>

lemma wp_subscribe:
  assumes "service_inv T w" "length type < 256"
  shows "wpR (virtual_stream_subscribe cn type) (\<lambda>_. service_inv T) w"
proof (cases "List.find (\<lambda>h. sb_channel h = cn \<and> type = sb_type h) (sv_subscriptions w)")
  case None
  have "service_inv T (w\<lparr>sv_subscriptions := \<lparr>sb_type = strlcpy256 type, sb_channel = cn\<rparr> # sv_subscriptions w\<rparr>)"
    using assms None by (intro service_subscriptions) (auto simp: service_inv_def lists_inv_def strlcpy256_def find_None_iff)
  then show ?thesis using None by (simp add: virtual_stream_subscribe_def wpR_def)
qed (use assms in \<open>simp add: virtual_stream_subscribe_def wpR_def\<close>)

lemma wp_unsubscribe:
  assumes "service_inv T w"
  shows "wpR (virtual_stream_unsubscribe cn type) (\<lambda>_. service_inv T) w"
proof (cases "List.find (\<lambda>h. sb_channel h = cn \<and> type = sb_type h) (sv_subscriptions w)")
  case (Some h)
  have "service_inv T (w\<lparr>sv_subscriptions := remove1 h (sv_subscriptions w)\<rparr>)"
    using assms by (intro service_subscriptions) (auto simp: service_inv_def lists_inv_def distinct_map intro: inj_on_subset)
  then show ?thesis using Some by (simp add: virtual_stream_unsubscribe_def wpR_def delete_subscription_def reader_simps modV_def)
qed (use assms in \<open>simp add: virtual_stream_unsubscribe_def wpR_def\<close>)

end
