(* ===== verification/Stream_Life.thy ===== *)
theory Stream_Life
  imports Stream_Clients
begin

text \<open>
  The life of a stream: it is created with the clients that have subscribed to its type, its owner deletes it, and an event frees
  it when the last client has left.
\<close>

section \<open>A new stream\<close>

definition new_stream :: "byte list \<Rightarrow> u32 \<Rightarrow> nat \<Rightarrow> u32 \<Rightarrow> 'cb \<Rightarrow> 'cb VirtualStream" where
  "new_stream type n len access cb = \<lparr>vs_magic = STREAM_MAGIC, vs_type = strlcpy256 type, vs_id = n,
     vs_access = access, vs_callback = cb, vs_ref_cnt = 1, vs_deleted = False, vs_clients = [], vs_pos = 0,
     vs_buf = replicate (len + 1) None, vs_buf_len = len + 1, vs_buf_inp = 0, vs_buf_out = 0,
     vs_eos_inp = False, vs_eos_out = False, vs_data_available_posted = False, vs_space_available_posted = False\<rparr>"

definition with_stream :: "byte list \<Rightarrow> nat \<Rightarrow> u32 \<Rightarrow> 'cb \<Rightarrow> 'cb streams \<Rightarrow> 'cb streams" where
  "with_stream type len access cb w = w\<lparr>sv_next := Suc (sv_next w), sv_id_cnt := sv_id_cnt w + 1,
     sv_stream := (sv_stream w)(sv_next w \<mapsto> new_stream type (sv_id_cnt w) len access cb)\<rparr>"

lemma with_stream_inv:
  assumes inv: "sv_inv T {} w" and n: "unat (sv_id_cnt w) + 1 < 2 ^ 32" "len < 2 ^ 32"
  shows "sv_inv T {} (with_stream type len access cb w)"
proof -
  let ?w = "with_stream type len access cb w" and ?s = "sv_next w"
  let ?v = "new_stream type (sv_id_cnt w) len access cb"
  have st: "struct_inv w" and d: "data_inv {} w" and e: "event_inv w" using inv by (simp_all add: sv_inv_def)
  have fresh: "sv_stream w ?s = None" using struct_stream(2) [OF st] by (metis less_irrefl not_None_eq)
  have no_client: "sc_stream c \<noteq> ?s" if "sv_client w k = Some c" for k c
    using struct_client(2) [OF st that] fresh by auto
  have key: "client_key ?w = client_key w"
  proof
    fix k
    show "client_key ?w k = client_key w k"
      using no_client [of k] by (auto simp: client_key_def with_stream_def split: option.split)
  qed
  have cnt: "unat (sv_id_cnt w + 1) = unat (sv_id_cnt w) + 1" using n(1) by (subst unat_add_lem [THEN iffD1]) simp_all
  have id_old: "vs_id v < sv_id_cnt w + 1" "vs_id v \<noteq> sv_id_cnt w" if "sv_stream w s = Some v" for s v
    using struct_stream(3) [OF st that] cnt by (auto simp: word_less_nat_alt)
  have "struct_inv ?w"
    unfolding struct_inv_def key
  proof (intro conjI allI impI)
    fix s v assume a: "sv_stream ?w s = Some v"
    have "refs_ok v \<and> s < sv_next ?w \<and> vs_id v < sv_id_cnt ?w \<and> set (vs_clients v) = {k. \<exists>c. sv_client ?w k = Some c \<and> sc_stream c = s}"
    proof (cases "s = ?s")
      case True
      then have "v = ?v" using a by (simp add: with_stream_def)
      then show ?thesis using True n no_client cnt
        by (auto simp: new_stream_def refs_ok_def with_stream_def word_less_nat_alt)
    next
      case False
      then have "sv_stream w s = Some v" using a by (simp add: with_stream_def)
      then show ?thesis using struct_stream [OF st, of s v] id_old by (auto simp: with_stream_def)
    qed
    then show "refs_ok v" "s < sv_next ?w" "vs_id v < sv_id_cnt ?w" "set (vs_clients v) = {k. \<exists>c. sv_client ?w k = Some c \<and> sc_stream c = s}"
      by blast+
  next
    fix k c assume "sv_client ?w k = Some c"
    then show "k < sv_next ?w" "sv_stream ?w (sc_stream c) \<noteq> None"
      using struct_client [OF st, of k c] by (auto simp: with_stream_def)
  next
    fix s1 s2 v1 v2 assume "sv_stream ?w s1 = Some v1" "sv_stream ?w s2 = Some v2" "vs_id v1 = vs_id v2"
    then show "s1 = s2"
      using struct_ids [OF st, of s1 v1 s2 v2] id_old(2) [of s1 v1] id_old(2) [of s2 v2]
      by (auto simp: with_stream_def new_stream_def split: if_splits)
  qed (use struct_table [OF st] in \<open>simp_all add: with_stream_def\<close>)
  moreover have "data_inv {} ?w"
  proof -
    have "accepted ?s (sv_trace w) = []" using d by (simp add: data_inv_def)
    moreover have "stream_ok [] ?v" by (simp add: stream_ok_def new_stream_def ring_ok_def ring_len_def ring_list_def)
    ultimately show ?thesis using d no_client by (auto simp: data_inv_def with_stream_def)
  qed
  moreover have "event_inv ?w"
  proof -
    have "sv_stream w s \<noteq> None" if "(x, s) \<in> set (sv_events w)" for x s using e that unfolding event_inv_def by blast
    with fresh have "(x, ?s) \<notin> set (sv_events w)" for x by blast
    then show ?thesis using e by (auto simp: event_inv_def with_stream_def new_stream_def)
  qed
  moreover have "watch_ok x ?w" if "x \<in> T" for x
  proof -
    from inv that have "watch_ok x w" by (simp add: sv_inv_def)
    then show ?thesis using no_client by (cases x) (auto simp: watch_ok_def with_stream_def)
  qed
  ultimately show ?thesis by (simp add: sv_inv_def)
qed

text \<open>One client for each subscription to the type.\<close>

lemma wp_create:
  assumes inv: "service_inv T w" and n: "unat (sv_id_cnt w) + 1 < 2 ^ 32" "len < 2 ^ 32"
  shows "wpR (virtual_stream_create type ctx len access cb) (\<lambda>s w'. service_inv T w' \<and>
    (\<exists>v. sv_stream w' s = Some v \<and> \<not> vs_deleted v)) w"
proof -
  let ?s = "sv_next w" and ?w = "with_stream type len access cb w"
  from inv have i1: "sv_inv T {} ?w" by (intro with_stream_inv [OF _ n]) (simp add: service_inv_def)
  have li: "lists_inv w" "struct_inv w" using inv by (simp_all add: service_inv_def sv_inv_def)
  have fresh: "sv_stream w ?s = None" using struct_stream(2) [OF li(2)] by (metis less_irrefl not_None_eq)
  let ?body = "\<lambda>h. if type = sb_type h then
               bindR (create_client ?s (sb_channel h)) (\<lambda>k.
               bindR (the_stream ?s) (\<lambda>stream. send_event_stream_created (sb_channel h) k stream ctx))
             else retR ()"
  let ?I = "\<lambda>hs w'. distinct (map (\<lambda>h. (sb_type h, sb_channel h)) hs) \<and> sv_inv T {} w' \<and> sv_streams w' = sv_streams w \<and>
    sv_subscriptions w' = sv_subscriptions w \<and> dom (sv_stream w') = dom (sv_stream ?w) \<and>
    (\<exists>v. sv_stream w' ?s = Some v \<and> \<not> vs_deleted v) \<and>
    (\<forall>h k c. h \<in> set hs \<longrightarrow> sb_type h = type \<longrightarrow> sv_client w' k = Some c \<longrightarrow> sc_stream c = ?s \<longrightarrow> sc_channel c \<noteq> sb_channel h)"
  have "wpR (forV ?body (sv_subscriptions ?w)) (\<lambda>_. ?I []) ?w"
  proof (rule wp_for [where I = ?I], goal_cases)
    case 1
    have "sc_stream c \<noteq> ?s" if "sv_client w k = Some c" for k c using struct_client(2) [OF li(2) that] fresh by auto
    then show ?case using i1 li(1) by (auto simp: with_stream_def lists_inv_def new_stream_def)
  next
    case (2 h hs w1)
    from 2(2) obtain v where v: "sv_stream w1 ?s = Some v" "\<not> vs_deleted v" and i: "sv_inv T {} w1" by blast
    show ?case
    proof (cases "type = sb_type h")
      case False
      then show ?thesis using 2(2) by (simp add: wp)
    next
      case True
      let ?w1 = "with_client ?s (sb_channel h) v w1"
      let ?v = "v\<lparr>vs_clients := sv_next w1 # vs_clients v, vs_ref_cnt := vs_ref_cnt v + 1\<rparr>"
      have i2: "sv_inv T {} ?w1"
        using 2(2) True by (intro with_client_inv [OF i v(1)] ref_cnt_owned [OF inv_stream(1) [OF i v(1)] v(2)]) auto
      have v2: "sv_stream ?w1 ?s = Some ?v" by (simp add: with_client_def)
      let ?a = "Sent (sb_channel h) (Some (sv_next w1)) (Stream_created (vs_type ?v) (virtual_stream_get_id ?v) ctx)"
      have "sv_inv T {} (?w1\<lparr>sv_trace := sv_trace ?w1 @ [?a]\<rparr>)" by (rule inv_act [OF i2]) simp_all
      moreover have ne: "sb_channel h \<noteq> sb_channel h'" if "h' \<in> set hs" "sb_type h' = type" for h'
        using 2(2) that True by (auto simp: image_iff)
      have "sc_channel c \<noteq> sb_channel h'"
        if "h' \<in> set hs" "sb_type h' = type" "sv_client ?w1 k = Some c" "sc_stream c = ?s" for h' k c
        using 2(2) that ne [OF that(1,2)] by (cases "k = sv_next w1") (auto simp: with_client_def new_client_def)
      ultimately have "?I hs (?w1\<lparr>sv_trace := sv_trace ?w1 @ [?a]\<rparr>)"
        using 2(2) v by (auto simp: with_client_def)
      then show ?thesis
        unfolding if_P [OF True] using create_client_eq [OF v(1), of "sb_channel h"] v2
        by (simp add: wp wpR_def [of "create_client _ _"] wp_the_stream [OF v2] send_event_stream_created_def)
    qed
  qed simp
  then have "wpR (forV ?body (sv_subscriptions ?w)) (\<lambda>_ w'. service_inv T (w'\<lparr>sv_streams := ?s # sv_streams w'\<rparr>) \<and>
    (\<exists>v. sv_stream w' ?s = Some v \<and> \<not> vs_deleted v)) ?w"
  proof (rule wp_mono)
    fix w' assume a: "?I [] w'"
    let ?w' = "w'\<lparr>sv_streams := ?s # sv_streams w'\<rparr>"
    have "client_key ?w' = client_key w'" by (rule ext) (simp add: client_key_def split: option.split)
    then have "sv_inv T {} ?w'" using a by (simp add: sv_inv_def struct_inv_def data_inv_def event_inv_def watch_ok_def)
    moreover have "lists_inv ?w'" using a li(1) fresh by (auto simp: lists_inv_def with_stream_def)
    ultimately show "service_inv T ?w' \<and> (\<exists>v. sv_stream w' ?s = Some v \<and> \<not> vs_deleted v)" using a by (simp add: service_inv_def)
  qed
  then show ?thesis
    unfolding virtual_stream_create_def by (simp add: wp with_stream_def new_stream_def wp_for_state [of _ sv_subscriptions])
qed

section \<open>The end of a stream\<close>

lemma wp_stream_delete:
  assumes inv: "service_inv T w" and v: "sv_stream w s = Some v" "\<not> vs_deleted v"
  shows "wpR (virtual_stream_delete s) (\<lambda>_. service_inv T) w"
proof -
  from inv have i: "sv_inv T {} w" "lists_inv w" by (simp_all add: service_inv_def)
  have ro: "refs_ok v" and so: "stream_ok (accepted s (sv_trace w)) v" using inv_stream [OF i(1) v(1)] by simp_all
  have st: "struct_inv w" and d: "data_inv {} w" and e: "event_inv w" using i(1) by (simp_all add: sv_inv_def)
  let ?v = "v\<lparr>vs_deleted := True, vs_ref_cnt := vs_ref_cnt v - 1\<rparr>"
  let ?w = "w\<lparr>sv_stream := (sv_stream w)(s \<mapsto> ?v)\<rparr>"
  have r: "ring_len ?v = ring_len v" "ring_list ?v = ring_list v" "ring_ok ?v = ring_ok v" "remote_read ?v = remote_read v"
    by (simp_all add: ring_len_def ring_list_def ring_ok_def remote_read_def)
  have o: "stream_ok h ?v = stream_ok h v" "client_ok b ?v c = client_ok b v c" for h b c
    by (simp_all add: stream_ok_def client_ok_def r)
  have ro2: "refs_ok ?v" using ro v(2) by (simp add: refs_ok_def)
  have key: "client_key ?w = client_key w"
    by (rule ext) (use v(1) in \<open>auto simp: client_key_def split: option.split\<close>)
  have "struct_inv ?w"
    unfolding struct_inv_def key
  proof (intro conjI allI impI)
    fix s' u assume "sv_stream ?w s' = Some u"
    then show "refs_ok u" "s' < sv_next ?w" "vs_id u < sv_id_cnt ?w"
      using ro2 struct_stream(1-3) [OF st] v(1) by (auto split: if_splits)
  next
    fix s' u assume u: "sv_stream ?w s' = Some u"
    then have "\<exists>u0. sv_stream w s' = Some u0 \<and> vs_clients u = vs_clients u0" using v(1) by (auto split: if_splits)
    then show "set (vs_clients u) = {k. \<exists>c. sv_client ?w k = Some c \<and> sc_stream c = s'}"
      using struct_stream(4) [OF st] by (auto simp: set_eq_iff)
  next
    fix s1 s2 v1 v2 assume "sv_stream ?w s1 = Some v1" "sv_stream ?w s2 = Some v2" "vs_id v1 = vs_id v2"
    then show "s1 = s2" using struct_ids [OF st] v(1) by (auto split: if_splits)
  next
    fix k c assume "sv_client ?w k = Some c"
    then show "k < sv_next ?w" "sv_stream ?w (sc_stream c) \<noteq> None" using struct_client [OF st, of k c] by auto
  qed (use struct_table [OF st] in simp_all)
  moreover have "data_inv {} ?w" using d v(1) by (simp add: data_inv_def o)
  moreover have "watch_ok x ?w" if "x \<in> T" for x
  proof -
    from i(1) that have "watch_ok x w" by (simp add: sv_inv_def)
    then show ?thesis using v(1) by (cases x) (auto simp: watch_ok_def r)
  qed
  ultimately have part: "struct_inv ?w" "data_inv {} ?w" "\<And>x. x \<in> T \<Longrightarrow> watch_ok x ?w" by blast+
  have li: "lists_inv ?w" using i(2) v(1) by (auto simp: lists_inv_def)
  show ?thesis
  proof (cases "vs_ref_cnt ?v > 0")
    case True
    have "event_inv ?w" using e v True ro by (auto simp: event_inv_def refs_ok_def)
    with part li have "service_inv T ?w" by (simp add: service_inv_def sv_inv_def)
    then show ?thesis using v True ro
      by (simp add: virtual_stream_delete_def wp wp_the_stream wp_upd_stream refs_ok_def)
  next
    case False
    then have z: "vs_ref_cnt ?v = 0" "vs_clients v = []" using ro v(2) by (auto simp: refs_ok_def)
    let ?we = "?w\<lparr>sv_events := sv_events w @ [(Delete_stream, s)]\<rparr>"
    have "event_inv ?we" using e v z ro by (auto simp: event_inv_def delete_last_snoc refs_ok_def)
    moreover have "struct_inv ?we" by (rule same_skel_struct [OF same_skel_upds(2) part(1)])
    moreover have "data_inv {} ?we" using part(2) by (simp add: data_inv_def)
    moreover have "watch_ok x ?we" if "x \<in> T" for x using part(3) [OF that] by (simp add: watch_ok_def)
    ultimately have "service_inv T ?we" using li by (simp add: service_inv_def sv_inv_def lists_inv_def)
    then show ?thesis using v False z ro
      by (simp add: virtual_stream_delete_def wp wp_the_stream wp_upd_stream refs_ok_def)
  qed
qed

section \<open>Events\<close>

lemma event_tail:
  assumes "event_inv w" "sv_events w = (e, s) # es"
  obtains v where "sv_stream w s = Some v" "e = Delete_stream \<Longrightarrow> vs_ref_cnt v = 0 \<and> s \<notin> snd ` set es" "(e, s) \<notin> set es"
proof -
  note l = event_list [OF assms(1)]
  from l(3) [of e s] assms(2) obtain v where v: "sv_stream w s = Some v" by auto
  with event_flags(1) [OF assms(1) v] l(1,2) assms(2) that show ?thesis by auto
qed

text \<open>An event that only changes the flag it stands for.\<close>

lemma inv_notified:
  assumes inv: "service_inv T w" and ev: "sv_events w = (e, s) # es" and v: "sv_stream w s = Some v"
    and f: "e = Notify_data_available \<and> v' = v\<lparr>vs_data_available_posted := False\<rparr> \<or>
      e = Notify_space_available \<and> v' = v\<lparr>vs_space_available_posted := False\<rparr>"
  shows "service_inv T (w\<lparr>sv_events := es, sv_stream := (sv_stream w)(s \<mapsto> v')\<rparr>)"
proof -
  let ?w = "w\<lparr>sv_events := es, sv_stream := (sv_stream w)(s \<mapsto> v')\<rparr>"
  from inv have i: "struct_inv w" "data_inv {} w" "event_inv w" "lists_inv w" by (simp_all add: service_inv_def sv_inv_def)
  have sk: "stream_skel v' = stream_skel v" using f by (auto simp: stream_skel_def)
  have r: "ring_ok v' = ring_ok v" "ring_len v' = ring_len v" "ring_list v' = ring_list v" "vs_pos v' = vs_pos v" "vs_eos_inp v' = vs_eos_inp v"
    using f by (auto simp: ring_ok_def ring_len_def ring_list_def)
  have o: "stream_ok h v' = stream_ok h v" "client_ok b v' c = client_ok b v c" for h b c
    by (simp_all add: stream_ok_def client_ok_def r skel_refs(4) [OF sk])
  have ss: "same_skel w ?w" using v sk by (simp add: same_skel_def)
  have nin: "(e, s) \<notin> set es" using i(3) ev by (simp add: event_inv_def)
  have "struct_inv ?w" "lists_inv ?w" using same_skel_struct [OF ss i(1)] same_skel_lists [OF ss i(4)] .
  moreover have "data_inv {} ?w" using i(2) v by (simp add: data_inv_def o)
  moreover have "event_inv ?w"
  proof -
    note f1 = event_flags [OF i(3)] and l = event_list [OF i(3)]
    have ref: "vs_ref_cnt v' = vs_ref_cnt v" using skel_refs(5) [OF sk] .
    show ?thesis
    proof (rule event_invI)
      show "distinct (sv_events ?w)" "delete_last (sv_events ?w)" using l(1,2) ev by simp_all
      show "sv_stream ?w s' \<noteq> None" if "(e', s') \<in> set (sv_events ?w)" for e' s' using l(3) [of e' s'] ev that by auto
      fix s' u assume u: "sv_stream ?w s' = Some u"
      have "((Delete_stream, s') \<in> set es \<longleftrightarrow> vs_ref_cnt u = 0) \<and> ((Notify_data_available, s') \<in> set es \<longleftrightarrow> vs_data_available_posted u) \<and>
        ((Notify_space_available, s') \<in> set es \<longleftrightarrow> vs_space_available_posted u)"
      proof (cases "s' = s")
        case True
        then have "u = v'" using u by simp
        then show ?thesis using f1 [OF v] ev f nin ref True by auto
      next
        case False
        then have "sv_stream w s' = Some u" using u by simp
        from f1 [OF this] show ?thesis using ev False by simp
      qed
      then show "(Delete_stream, s') \<in> set (sv_events ?w) \<longleftrightarrow> vs_ref_cnt u = 0"
        "(Notify_data_available, s') \<in> set (sv_events ?w) \<longleftrightarrow> vs_data_available_posted u"
        "(Notify_space_available, s') \<in> set (sv_events ?w) \<longleftrightarrow> vs_space_available_posted u" by simp_all
    qed
  qed
  moreover have "watch_ok x ?w" if "x \<in> T" for x
  proof -
    from inv that have "watch_ok x w" by (simp add: service_inv_def sv_inv_def)
    then show ?thesis using v by (cases x) (auto simp: watch_ok_def skel_refs(4) [OF sk])
  qed
  ultimately show ?thesis by (simp add: service_inv_def sv_inv_def)
qed

lemma service_act:
  assumes "service_inv T w" "\<And>s. accepted s [a] = []" "\<And>k. received k [a] = []"
  shows "service_inv T (w\<lparr>sv_trace := sv_trace w @ [a]\<rparr>)"
  using assms inv_act [of T "{}" w a] by (simp add: service_inv_def lists_inv_def)

text \<open>A stream that nobody refers to is freed.\<close>

lemma inv_freed:
  assumes inv: "service_inv T w" and ev: "sv_events w = (Delete_stream, s) # es" and v: "sv_stream w s = Some v"
  shows "service_inv T (w\<lparr>sv_events := es, sv_streams := removeAll s (sv_streams w), sv_stream := (sv_stream w)(s := None)\<rparr>)"
    and "vs_clients v = []" "vs_deleted v"
proof -
  let ?w = "w\<lparr>sv_events := es, sv_streams := removeAll s (sv_streams w), sv_stream := (sv_stream w)(s := None)\<rparr>"
  from inv have i: "struct_inv w" "data_inv {} w" "event_inv w" "lists_inv w" by (simp_all add: service_inv_def sv_inv_def)
  from event_tail [OF i(3) ev] v have z: "vs_ref_cnt v = 0" "s \<notin> snd ` set es" by auto
  have ro: "refs_ok v" using struct_stream(1) [OF i(1) v] .
  show cl: "vs_clients v = []" and "vs_deleted v" using ro z(1) by (auto simp: refs_ok_def split: if_splits)
  have no: "sc_stream c \<noteq> s" if "sv_client w k = Some c" for k c
    using struct_stream(4) [OF i(1) v, of k] cl that by auto
  have key: "client_key ?w = client_key w"
    by (rule ext) (use no in \<open>auto simp: client_key_def split: option.split\<close>)
  have "struct_inv ?w"
    unfolding struct_inv_def key
  proof (intro conjI allI impI)
    fix s' u assume u: "sv_stream ?w s' = Some u"
    then show "refs_ok u" "s' < sv_next ?w" "vs_id u < sv_id_cnt ?w"
      using struct_stream(1-3) [OF i(1)] by (auto split: if_splits)
    show "set (vs_clients u) = {k. \<exists>c. sv_client ?w k = Some c \<and> sc_stream c = s'}"
      using struct_stream(4) [OF i(1)] u by (auto split: if_splits)
  next
    fix s1 s2 v1 v2 assume "sv_stream ?w s1 = Some v1" "sv_stream ?w s2 = Some v2" "vs_id v1 = vs_id v2"
    then show "s1 = s2" using struct_ids [OF i(1)] by (auto split: if_splits)
  next
    fix k c assume "sv_client ?w k = Some c"
    then show "k < sv_next ?w" "sv_stream ?w (sc_stream c) \<noteq> None" using struct_client [OF i(1), of k c] no by auto
  qed (use struct_table [OF i(1)] in simp_all)
  moreover have "lists_inv ?w" using i(4) by (auto simp: lists_inv_def distinct_removeAll)
  moreover have "data_inv {} ?w" using i(2) by (simp add: data_inv_def)
  moreover have "event_inv ?w"
  proof -
    note f1 = event_flags [OF i(3)] and l = event_list [OF i(3)]
    have "(e, s) \<notin> set es" for e using z(2) by force
    then show ?thesis
      by (intro event_invI) (use l f1 ev in \<open>auto split: if_splits\<close>)
  qed
  moreover have "watch_ok x ?w" if "x \<in> T" for x
  proof -
    from inv that have "watch_ok x w" by (simp add: service_inv_def sv_inv_def)
    then show ?thesis by (cases x) (auto simp: watch_ok_def)
  qed
  ultimately show "service_inv T ?w" by (simp add: service_inv_def sv_inv_def)
qed

lemma wp_dispatch:
  assumes inv: "service_inv T w"
  shows "wpR sv_dispatch (\<lambda>_. service_inv T) w"
proof (cases "sv_events w")
  case Nil
  then show ?thesis using inv by (simp add: sv_dispatch_def wpR_def)
next
  case (Cons x es)
  obtain e s where x: "x = (e, s)" by (cases x)
  note ev = Cons [unfolded x]
  from inv have i: "struct_inv w" "event_inv w" by (simp_all add: service_inv_def sv_inv_def)
  from event_tail [OF i(2) ev] obtain v where v: "sv_stream w s = Some v" by blast
  have magic: "vs_magic v = STREAM_MAGIC" using struct_stream(1) [OF i(1) v] by (simp add: refs_ok_def)
  have disp: "wpR sv_dispatch Q w = wpR (case e of Delete_stream \<Rightarrow> delete_stream s | Notify_data_available \<Rightarrow> notify_data_available s
        | Notify_space_available \<Rightarrow> notify_space_available s) Q (w\<lparr>sv_events := es\<rparr>)" for Q
    by (simp add: sv_dispatch_def wpR_def ev)
  show ?thesis
  proof (cases e)
    case Delete_stream
    then show ?thesis
      unfolding disp using inv_freed [OF inv _ v, of es] ev magic v
      by (simp add: delete_stream_def wp wp_the_stream)
  next
    case Notify_data_available
    have "service_inv T (w\<lparr>sv_events := es, sv_stream := (sv_stream w)(s \<mapsto> v\<lparr>vs_data_available_posted := False\<rparr>)\<rparr>)"
      by (rule inv_notified [OF inv ev v]) (simp add: Notify_data_available)
    moreover from this have "service_inv T (w\<lparr>sv_events := es, sv_stream := (sv_stream w)(s \<mapsto> v\<lparr>vs_data_available_posted := False\<rparr>),
      sv_trace := sv_trace w @ [Called (vs_callback v) s VS_EVENT_DATA_AVAILABLE]\<rparr>)"
      using service_act [of T "w\<lparr>sv_events := es, sv_stream := (sv_stream w)(s \<mapsto> v\<lparr>vs_data_available_posted := False\<rparr>)\<rparr>"
        "Called (vs_callback v) s VS_EVENT_DATA_AVAILABLE"] by simp
    ultimately show ?thesis
      unfolding disp using Notify_data_available v magic
      by (simp add: notify_data_available_def wp wp_the_stream wp_upd_stream)
  next
    case Notify_space_available
    have "service_inv T (w\<lparr>sv_events := es, sv_stream := (sv_stream w)(s \<mapsto> v\<lparr>vs_space_available_posted := False\<rparr>)\<rparr>)"
      by (rule inv_notified [OF inv ev v]) (simp add: Notify_space_available)
    moreover from this have "service_inv T (w\<lparr>sv_events := es, sv_stream := (sv_stream w)(s \<mapsto> v\<lparr>vs_space_available_posted := False\<rparr>),
      sv_trace := sv_trace w @ [Called (vs_callback v) s VS_EVENT_SPACE_AVAILABLE]\<rparr>)"
      using service_act [of T "w\<lparr>sv_events := es, sv_stream := (sv_stream w)(s \<mapsto> v\<lparr>vs_space_available_posted := False\<rparr>)\<rparr>"
        "Called (vs_callback v) s VS_EVENT_SPACE_AVAILABLE"] by simp
    ultimately show ?thesis
      unfolding disp using Notify_space_available v magic
      by (simp add: notify_space_available_def wp wp_the_stream wp_upd_stream)
  qed
qed

end
