(* ===== verification/Stream_Requests.thy ===== *)
theory Stream_Requests
  imports Stream_Life
begin

text \<open>
  Requests of clients: to read, to write, to end a stream. They succeed, keep the invariant, and say what the client gets.
\<close>

section \<open>Finding the client\<close>

lemma client_for_eq:
  assumes inv: "struct_inv w"
  obtains (none) "client_for ident cn access w = Inr (Inl (no_such_stream ident), w)"
    | (denied) k c v where "client_for ident cn access w = Inr (Inl (Err ERR_UNSUPPORTED), w)" "sv_client w k = Some c"
        "sv_stream w (sc_stream c) = Some v" "sc_channel c = cn" "str2id ident = Some (vs_id v)" "\<not> access v"
    | (some) k c v where "client_for ident cn access w = Inr (Inr k, w)" "sv_client w k = Some c"
        "sv_stream w (sc_stream c) = Some v" "sc_channel c = cn" "str2id ident = Some (vs_id v)" "access v"
proof (cases rule: find_client_cases [OF inv, of ident cn, case_names none some])
  case none
  with that(1) show ?thesis by (simp add: client_for_def reader_simps)
next
  case (some k c v)
  then have e: "client_for ident cn access w = Inr (if access v then Inr k else Inl (Err ERR_UNSUPPORTED), w)"
    by (simp add: client_for_def reader_simps the_client_def the_stream_def)
  show ?thesis
  proof (cases "access v")
    case True
    with e some that(3) [of k c v] show ?thesis by simp
  next
    case False
    with e some that(2) [of k c v] show ?thesis by simp
  qed
qed

lemma live_ref: "sv_inv T X w \<Longrightarrow> sv_client w k = Some c \<Longrightarrow> sv_stream w (sc_stream c) = Some v \<Longrightarrow> vs_ref_cnt v \<noteq> 0"
  using inv_stream(1) [of T X w "sc_stream c" v] inv_stream(3) [of T X w "sc_stream c" v k] by (auto simp: refs_ok_def)

lemma service_client:
  assumes "service_inv T w" "sv_client w k = Some c" "sv_stream w (sc_stream c) = Some v"
  shows "client_ok False v c" "vs_ref_cnt v \<noteq> 0"
  using assms live_ref [of T "{}" w k c v] by (simp_all add: service_inv_def sv_inv_def data_inv_def)

section \<open>Reading\<close>

lemma wp_read:
  assumes inv: "service_inv T w" and sz: "0 < sz"
  shows "wpR (virtual_stream_read cn token ident sz) (\<lambda>_. service_inv T) w"
proof -
  from inv have i: "sv_inv T {} w" "struct_inv w" by (simp_all add: service_inv_def sv_inv_def)
  show ?thesis
  proof (cases rule: client_for_eq [OF i(2), of ident cn remote_read, case_names none denied some])
    case (some k c v)
    note co = service_client [OF inv some(2,3)]
    note get = wpR_def [of "client_for _ _ _"] wp_the_client [OF some(2)] wp_the_stream [OF some(3)]
    show ?thesis
    proof (cases "sc_pos c = vs_pos v \<and> \<not> vs_eos_inp v")
      case True
      let ?c = "c\<lparr>sc_read_requests := sc_read_requests c @ [\<lparr>rr_token = strlcpy256 token, rr_size = sz\<rparr>]\<rparr>"
      have "sv_inv T {} (w\<lparr>sv_client := (sv_client w)(k \<mapsto> ?c)\<rparr>)"
        by (rule inv_upd_client [OF i(1) some(2)]) (use True some sz in \<open>auto simp: client_ok_def\<close>)
      then have "service_inv T (w\<lparr>sv_client := (sv_client w)(k \<mapsto> ?c)\<rparr>)"
        by (rule service_skel [OF inv]) (simp add: same_skel_client [OF some(2)])
      then show ?thesis using some True by (simp add: virtual_stream_read_def wp get wp_upd_client [OF some(2)])
    next
      case False
      then have e: "sc_read_requests c = []" "sc_pos c < vs_pos v \<or> vs_eos_inp v" using co some(6) by (auto simp: client_ok_def)
      have "wpR (send_read_reply k token sz) (\<lambda>_. wpR (advance_stream_buffer (sc_stream c)) (\<lambda>_. service_inv T)) w"
      proof (rule wp_mono [OF wp_reply [OF i(1) some(2,3,6) e(2) sz]])
        fix w1 assume a: "sv_inv T {} w1 \<and> quiet w w1 \<and> sv_client w1 k = Some (c\<lparr>sc_pos := sc_pos c + min sz (vs_pos v - sc_pos c)\<rparr>) \<and>
          sv_stream w1 = sv_stream w"
        then have "wpR (advance_stream_buffer (sc_stream c)) (\<lambda>_ w'. sv_inv T {} w' \<and> quiet w1 w') w1"
          using some co by (intro wp_advance [of T "{}" w1 "sc_stream c" v]) simp_all
        then show "wpR (advance_stream_buffer (sc_stream c)) (\<lambda>_. service_inv T) w1"
          by (rule wp_mono) (use a inv in \<open>blast intro: service_skel quiet_skel same_skel_trans\<close>)
      qed (use e in simp)
      then show ?thesis using some e(1) unfolding virtual_stream_read_def
        by (simp add: wp get if_not_P [OF False] del: de_Morgan_conj)
    qed
  qed (use inv in \<open>simp_all add: virtual_stream_read_def wp wpR_def [of "client_for _ _ _"]\<close>)
qed

section \<open>The end of a stream\<close>

text \<open>A request to write that is queued behind others.\<close>

lemma inv_queue_write:
  assumes inv: "service_inv T w" and c: "sv_client w k = Some c" and r: "write_ok r"
  shows "service_inv T (w\<lparr>sv_client := (sv_client w)(k \<mapsto> c\<lparr>sc_write_requests := sc_write_requests c @ [r]\<rparr>)\<rparr>)"
proof -
  from inv have i: "sv_inv T {} w" by (simp add: service_inv_def)
  have "sv_inv T {} (w\<lparr>sv_client := (sv_client w)(k \<mapsto> c\<lparr>sc_write_requests := sc_write_requests c @ [r]\<rparr>)\<rparr>)"
    by (rule inv_upd_client [OF i c]) (use r in \<open>auto simp: client_ok_def\<close>)
  then show ?thesis by (rule service_skel [OF inv]) (simp add: same_skel_client [OF c])
qed

lemma service_adds: "service_inv T w \<Longrightarrow> sv_inv T {} w' \<Longrightarrow> adds s data w w' \<Longrightarrow> service_inv T w'"
  using service_skel by (auto simp: adds_def)

lemma wp_eos:
  assumes inv: "service_inv T w"
  shows "wpR (virtual_stream_eos cn token ident) (\<lambda>_. service_inv T) w"
proof -
  from inv have i: "sv_inv T {} w" "struct_inv w" by (simp_all add: service_inv_def sv_inv_def)
  show ?thesis
  proof (cases rule: client_for_eq [OF i(2), of ident cn remote_write, case_names none denied some])
    case (some k c v)
    note co = service_client [OF inv some(2,3)]
    show ?thesis
    proof (cases "sc_write_requests c = []")
      case False
      then show ?thesis using some inv_queue_write [OF inv some(2)]
        by (simp add: virtual_stream_eos_def wp wpR_def [of "client_for _ _ _"] wp_the_client wp_upd_client write_ok_def)
    next
      case True
      have "wpR (virtual_stream_add_data (sc_stream c) [] True) (\<lambda>r w1. wpR (seqR (if fst r = None then actV (Sent cn (Some k)
          (Result_reply token None)) else retR ()) (retR (fst r))) (\<lambda>_. service_inv T) w1) w"
      proof (rule wp_mono [OF wp_add_data [OF i(1) some(3) co(2)]])
        fix r w1 assume a: "r = add_result v [] \<and> sv_inv T {} w1 \<and>
          adds (sc_stream c) (take (snd (add_result v ([] :: byte option list))) []) w w1 \<and> (\<exists>v'. sv_stream w1 (sc_stream c) = Some v' \<and>
            vs_eos_inp v' = (vs_eos_inp v \<or> True \<and> snd (add_result v []) = length ([] :: byte option list)) \<and>
            (\<not> remote_read v \<longrightarrow> ring_list v' = ring_list v @ take (snd (add_result v [])) [] \<and> vs_buf_out v' = vs_buf_out v))"
        then have "service_inv T w1" using service_adds [OF inv] by blast
        then show "wpR (seqR (if fst r = None then actV (Sent cn (Some k) (Result_reply token None)) else retR ()) (retR (fst r)))
          (\<lambda>_. service_inv T) w1"
          using service_act [of T w1 "Sent cn (Some k) (Result_reply token None)"] by (simp add: wp)
      qed simp
      then show ?thesis using some True by (simp add: virtual_stream_eos_def wp wpR_def [of "client_for _ _ _"] wp_the_client split_def)
    qed
  qed (use inv in \<open>simp_all add: virtual_stream_eos_def wp wpR_def [of "client_for _ _ _"]\<close>)
qed

lemma wp_is_empty:
  assumes "service_inv T w" "sv_stream w s = Some v" "\<not> vs_deleted v"
  shows "wpR (virtual_stream_is_empty s) (\<lambda>r w'. w' = w \<and> (r \<longleftrightarrow> ring_list v = [])) w"
proof -
  have ro: "refs_ok v" and so: "stream_ok (accepted s (sv_trace w)) v"
    using assms(1) inv_stream(1,4) [of T "{}" w s v] assms(2) by (simp_all add: service_inv_def)
  then have "ring_ok v" "vs_magic v = STREAM_MAGIC" by (simp_all add: stream_ok_def refs_ok_def)
  moreover from this(1) have "ring_list v = [] \<longleftrightarrow> vs_buf_out v = vs_buf_inp v" using ring_empty_iff by blast
  ultimately show ?thesis using assms by (simp add: virtual_stream_is_empty_def wp wp_the_stream)
qed

end
