(* ===== verification/Stream_Write.thy ===== *)
theory Stream_Write
  imports Stream_Requests
begin

text \<open>
  A write: its data is read from the message in pieces, as base64 or raw; the stream takes what it has room for and a request keeps
  the rest.
\<close>

section \<open>The data of a message\<close>

text \<open>What is still to be read are \<open>bs\<close> and the text behind the value.\<close>

definition source :: "JsonReadBinaryState \<Rightarrow> istream \<Rightarrow> byte list \<Rightarrow> istream \<Rightarrow> bool" where
  "source st inp bs rest \<longleftrightarrow>
     (if rb_encoding st = ENCODING_BINARY
      then rb_buf st = [] \<and> rb_size_start st = rb_size_done st + length bs \<and> inp = items_of bs @ rest
      else \<exists>bs'. inp = b64_stream bs' (34 # rest) \<and> bs = rb_buf st @ bs')"

lemma source_read:
  assumes "source st inp bs rest"
  obtains st' inp' where "json_read_binary_data st len inp = Inr ((take len bs, st'), inp')" "source st' inp' (drop len bs) rest"
proof (cases "rb_encoding st = ENCODING_BINARY")
  case True
  with assms have s: "rb_buf st = []" "rb_size_start st = rb_size_done st + length bs" "inp = items_of bs @ rest"
    by (simp_all add: source_def)
  let ?st = "st\<lparr>rb_size_done := rb_size_done st + length (take len bs)\<rparr>"
  have "read_raw (min len (length bs)) (items_of bs @ rest) = Inr (take len bs, items_of (drop len bs) @ rest)"
    using read_raw_items [of "take len bs" "items_of (drop len bs) @ rest"]
    by (simp add: min.commute flip: append_assoc items_of_simps(3))
  then have "json_read_binary_data st len inp = Inr ((take len bs, ?st), items_of (drop len bs) @ rest)"
    using True s by (simp add: json_read_binary_data_def reader_simps)
  moreover have "source ?st (items_of (drop len bs) @ rest) (drop len bs) rest" using True s by (simp add: source_def)
  ultimately show ?thesis by (rule that)
next
  case False
  with assms obtain bs' where s: "inp = b64_stream bs' (34 # rest)" "bs = rb_buf st @ bs'" by (auto simp: source_def)
  from json_read_binary_loop_part [OF after_quote, of "rb_buf st" "[]" len bs' rest] obtain rem' bs'' early where
    rd: "json_read_binary_loop (rb_buf st) [] len inp = Inr ((rem', take len bs, early), b64_stream bs'' (34 # rest))"
      "rem' @ bs'' = drop len bs" unfolding s by auto
  let ?st = "if early then st\<lparr>rb_buf := rem'\<rparr> else st\<lparr>rb_buf := rem', rb_size_done := rb_size_done st + length (take len bs)\<rparr>"
  have "json_read_binary_data st len inp = Inr ((take len bs, ?st), b64_stream bs'' (34 # rest))"
    using False rd(1) by (simp add: json_read_binary_data_def reader_simps)
  moreover have "source ?st (b64_stream bs'' (34 # rest)) (drop len bs) rest" using False rd(2) by (auto simp: source_def)
  ultimately show ?thesis by (rule that)
qed

lemma source_end: "source st inp [] rest \<Longrightarrow> json_read_binary_end st inp = Inr ((), rest)"
  by (auto simp: source_def json_read_binary_end_def reader_simps b64_stream_def isspace_def split: if_splits)

lemma source_length: "source st inp bs rest \<Longrightarrow> length bs < write_fuel st inp \<or> rb_buf st \<noteq> []"
  by (auto simp: source_def write_fuel_def b64_stream_def base64_ref_length split: if_splits)

lemma source_start:
  assumes "length bs < 2 ^ 64"
  obtains st inp where "json_read_binary_start (json_binary_text zc bs @ rest) = Inr (st, inp)" "source st inp bs rest"
    "length bs < write_fuel st inp"
proof (cases "zc \<and> bs \<noteq> []")
  case True
  have n: "unat (of_nat (length bs) :: u64) = length bs" using assms by (simp add: unat_of_nat take_bit_nat_eq_self)
  let ?st = "\<lparr>rb_encoding = ENCODING_BINARY, rb_size_start = length bs, rb_size_done = 0, rb_buf = []\<rparr>"
  have "json_read_ulong (dec_digits (length bs) @ 41 # items_of bs @ rest) = Inr (of_nat (length bs), 41 # items_of bs @ rest)"
    using json_read_ulong_dec [OF no_digit_paren, of "of_nat (length bs)"] by (simp add: n)
  then have "json_read_binary_start (json_binary_text zc bs @ rest) = Inr (?st, items_of bs @ rest)"
    using n True by (simp add: json_binary_text_def json_read_binary_start_def reader_simps isspace_def)
  then show ?thesis using that by (simp add: source_def write_fuel_def)
next
  case False
  let ?st = "\<lparr>rb_encoding = ENCODING_BASE64, rb_size_start = 0, rb_size_done = 0, rb_buf = []\<rparr>"
  have s: "json_read_binary_start (json_binary_text zc bs @ rest) = Inr (?st, b64_stream bs (34 # rest))"
    unfolding json_binary_text_def if_not_P [OF False] by (simp add: json_read_binary_start_def reader_simps isspace_def b64_stream_def)
  have "source ?st (b64_stream bs (34 # rest)) bs rest" by (simp add: source_def)
  from that [OF s this] source_length [OF this] show ?thesis by simp
qed

section \<open>The loop\<close>

text \<open>After an error the data is skipped.\<close>

lemma write_loop_skip:
  assumes "source st inp bs rest" "length bs < n" "err \<noteq> None"
  shows "\<exists>st' inp'. write_loop n s sz st err None offs inp w = (Inr (err, None, offs, st', inp'), w) \<and> source st' inp' [] rest"
  using assms(1,2)
proof (induction n arbitrary: st inp bs)
  case (Suc n)
  from source_read [OF Suc.prems(1), of 256] obtain st1 inp1 where
    rd: "json_read_binary_data st 256 inp = Inr ((take 256 bs, st1), inp1)" "source st1 inp1 (drop 256 bs) rest" .
  show ?case
  proof (cases "bs = []")
    case True
    then show ?thesis using rd by simp
  next
    case False
    then have "length (drop 256 bs) < n" using Suc.prems(2) by (cases bs) auto
    from Suc.IH [OF rd(2) this] show ?thesis using rd(1) False assms(3) by simp
  qed
qed simp

text \<open>A block for the data is filled; what the sender has declared and not sent stays as it was allocated.\<close>

lemma write_loop_fill:
  assumes "source st inp bs rest" "0 < n" "bs \<noteq> [] \<Longrightarrow> 1 < n"
    and sz: "unat (sz - word_of_nat offs - word_of_nat (length acc)) = length bs + x"
  shows "\<exists>st' inp'. write_loop n s sz st err (Some (map Some acc @ replicate (length bs + x) None, length acc)) offs inp w =
      (Inr (err, Some (map Some (acc @ bs) @ replicate x None, length (acc @ bs)), offs, st', inp'), w) \<and> source st' inp' [] rest"
proof -
  from source_read [OF assms(1), of "length bs + x"] obtain st1 inp1 where
    rd: "json_read_binary_data st (length bs + x) inp = Inr ((bs, st1), inp1)" "source st1 inp1 [] rest" by auto
  show ?thesis
  proof (cases "bs = []")
    case True
    with assms(2) rd sz show ?thesis by (cases n) simp_all
  next
    case False
    with assms(3) have "1 < n" by simp
    then obtain n' where n: "n = Suc (Suc n')" using that [of "n - 2"] by simp
    have "sz - word_of_nat offs - word_of_nat (length acc) = word_of_nat (length bs + x)"
      by (simp flip: sz)
    from source_read [OF rd(2)] obtain st2 inp2 where
      rd2: "json_read_binary_data st1 (unat (sz - word_of_nat offs - word_of_nat (length acc + length bs))) inp1 = Inr (([], st2), inp2)"
        "source st2 inp2 [] rest" by (metis drop_Nil take_Nil)
    have st: "mem_store (length acc) (map Some bs) (map Some acc @ replicate (length bs + x) None) =
        Inr (map Some (acc @ bs) @ replicate x None)"
      by (simp add: mem_store_def)
    have "write_loop n s sz st err (Some (map Some acc @ replicate (length bs + x) None, length acc)) offs inp w =
      write_loop (Suc n') s sz st1 err (Some (map Some (acc @ bs) @ replicate x None, length acc + length bs)) offs inp1 w"
      unfolding n by (subst write_loop.simps(2)) (use rd(1) False st in \<open>simp add: sz del: write_loop.simps map_append\<close>)
    also have "\<dots> = (Inr (err, Some (map Some (acc @ bs) @ replicate x None, length (acc @ bs)), offs, st2, inp2), w)"
      by (subst write_loop.simps(2)) (use rd2 in \<open>simp del: write_loop.simps map_append of_nat_add\<close>)
    finally show ?thesis using rd2(2) by blast
  qed
qed

lemma adds_trans: "adds s d w w' \<Longrightarrow> adds s d' w' w'' \<Longrightarrow> adds s (d @ d') w w''"
  by (auto simp: adds_def elim: same_skel_trans)

lemma adds_refl [simp]: "adds s [] w w"
  by (simp add: adds_def)

text \<open>The block for what is left, if there is something left.\<close>

definition leftover :: "byte list \<Rightarrow> (byte option list \<times> nat) option" where
  "leftover bs = (if bs = [] then None else Some (map Some bs, length bs))"

lemma write_loop_block:
  assumes src: "source st inp bs rest" and n: "0 < n" "bs \<noteq> [] \<Longrightarrow> 1 < n" and acc: "acc \<noteq> []"
    and sz: "sz = word_of_nat (offs + length (acc @ bs))" "offs + length (acc @ bs) < 2 ^ 64"
  obtains block st' inp' where "mem_store 0 (map Some acc) (replicate (unat (sz - word_of_nat offs)) None) = Inr block"
    "write_loop n s sz st err (Some (block, length acc)) offs inp w = (Inr (err, leftover (acc @ bs), offs, st', inp'), w)"
    "source st' inp' [] rest"
proof -
  have w: "sz - word_of_nat offs = word_of_nat (length (acc @ bs))" "sz - word_of_nat offs - word_of_nat (length acc) = word_of_nat (length bs)"
    using sz(1) by simp_all
  have u: "unat (sz - word_of_nat offs) = length acc + length bs"
    unfolding w(1) using sz(2) by (simp add: unat_of_nat take_bit_nat_eq_self del: of_nat_add)
  have u2: "unat (sz - word_of_nat offs - word_of_nat (length acc)) = length bs"
    unfolding w(2) using sz(2) by (simp add: unat_of_nat take_bit_nat_eq_self)
  have "mem_store 0 (map Some acc) (replicate (unat (sz - word_of_nat offs)) None) = Inr (map Some acc @ replicate (length bs) None)"
    by (simp add: u mem_store_def)
  with write_loop_fill [OF src n, where x = 0 and acc = acc, simplified, OF u2] acc that show ?thesis by (force simp: leftover_def)
qed

lemma write_loop_store:
  assumes "source st inp bs rest" "length bs < n" "sv_inv T {} w" "sv_stream w s = Some v" "vs_ref_cnt v \<noteq> 0" "\<not> vs_eos_inp v"
    and "sz = word_of_nat (offs + length bs)" "offs + length bs < 2 ^ 64"
  shows "\<exists>m st' inp' w'. write_loop n s sz st None None offs inp w = (Inr (None, leftover (drop m bs), offs + m, st', inp'), w') \<and>
    m \<le> length bs \<and> source st' inp' [] rest \<and> sv_inv T {} w' \<and> adds s (map Some (take m bs)) w w'"
  using assms
proof (induction n arbitrary: st inp bs w v offs)
  case (Suc n)
  define chunk where "chunk = take 256 bs"
  define late where "late = drop 256 bs"
  from source_read [OF Suc.prems(1), of 256] obtain st1 inp1 where
    rd: "json_read_binary_data st 256 inp = Inr ((chunk, st1), inp1)" "source st1 inp1 late rest" unfolding chunk_def late_def .
  show ?case
  proof (cases "bs = []")
    case True
    then have "chunk = []" "late = []" by (simp_all add: chunk_def late_def)
    then show ?thesis using True rd Suc.prems(3) by (intro exI [of _ 0]) (simp add: leftover_def)
  next
    case False
    then have ne: "chunk \<noteq> []" and dl: "length late < n" using Suc.prems(2) by (cases bs; auto simp: chunk_def late_def)+
    have split: "bs = chunk @ late" by (simp add: chunk_def late_def)
    define m where "m = min (length chunk) (room v)"
    have res: "add_result v (map Some chunk) = (None, m)" using Suc.prems(6) by (simp add: add_result_def m_def)
    from wp_add_data [OF Suc.prems(3-5), of "map Some chunk" False] Suc.prems(6) obtain w1 v1 where
      add: "virtual_stream_add_data s (map Some chunk) False w = Inr ((None, m), w1)"
      and a: "sv_inv T {} w1" "adds s (map Some (take m chunk)) w w1" "sv_stream w1 s = Some v1" "\<not> vs_eos_inp v1"
      by (auto simp: wpR_def res take_map)
    show ?thesis
    proof (cases "m < length chunk")
      case True
      have d: "drop m chunk @ late = drop m bs" "take m bs = take m chunk"
        using True unfolding split by simp_all
      have "m \<le> length bs" using True unfolding split by simp
      then have total: "offs + m + length (drop m chunk @ late) = offs + length bs" unfolding d by simp
      have sz: "sz = word_of_nat (offs + m + length (drop m chunk @ late))" "offs + m + length (drop m chunk @ late) < 2 ^ 64"
        unfolding total using Suc.prems(7,8) by blast+
      have n: "0 < n" "late \<noteq> [] \<Longrightarrow> 1 < n" using dl by (auto, cases late, auto)
      have "drop m chunk \<noteq> []" using True by simp
      from write_loop_block [OF rd(2) n this sz] obtain block st2 inp2 where
        b: "mem_store 0 (map Some (drop m chunk)) (replicate (unat (sz - word_of_nat (offs + m))) None) = Inr block"
        "write_loop n s sz st1 None (Some (block, length (drop m chunk))) (offs + m) inp1 w1 =
          (Inr (None, leftover (drop m chunk @ late), offs + m, st2, inp2), w1)" "source st2 inp2 [] rest" by blast
      show ?thesis using rd(1) ne add True b a \<open>m \<le> length bs\<close>
        by (intro exI [of _ m]) (simp add: d del: of_nat_add)
    next
      case False
      then have m: "m = length chunk" by (simp add: m_def)
      from a(2) obtain u where "sv_stream w s = Some u" "stream_skel v1 = stream_skel u"
        using a(3) by (auto simp: adds_def elim: skel_stream)
      then have r1: "vs_ref_cnt v1 \<noteq> 0" using Suc.prems(4,5) skel_refs(5) by fastforce
      have total: "offs + m + length late = offs + length bs" unfolding m split by simp
      have sz: "sz = word_of_nat (offs + m + length late)" "offs + m + length late < 2 ^ 64"
        unfolding total using Suc.prems(7,8) by blast+
      from Suc.IH [OF rd(2) dl a(1,3) r1 a(4) sz] obtain m' st' inp' w' where
        IH: "write_loop n s sz st1 None None (offs + m) inp1 w1 = (Inr (None, leftover (drop m' late), offs + m + m', st', inp'), w')"
          "m' \<le> length late" "source st' inp' [] rest" "sv_inv T {} w'" "adds s (map Some (take m' late)) w1 w'"
        by blast
      have d: "drop (m + m') bs = drop m' late" "take (m + m') bs = chunk @ take m' late"
        unfolding split by (simp_all add: m)
      have "adds s (map Some (take (m + m') bs)) w w'"
        using adds_trans [OF a(2) IH(5)] unfolding d by (simp add: m)
      moreover have "m + m' \<le> length bs" using IH(2) total by simp
      ultimately show ?thesis using rd(1) ne add m IH
        by (intro exI [of _ "m + m'"]) (simp add: d [unfolded m] add.assoc del: of_nat_add)
    qed
  qed
qed simp

text \<open>A stream that has ended takes nothing.\<close>

lemma write_loop_ended:
  assumes src: "source st inp bs rest" "length bs < n" "bs \<noteq> []"
    and inv: "sv_inv T {} w" "sv_stream w s = Some v" "vs_ref_cnt v \<noteq> 0" "vs_eos_inp v"
  shows "\<exists>st' inp' w'. write_loop n s sz st None None offs inp w = (Inr (Some (Err ERR_EOF), None, offs, st', inp'), w') \<and>
    source st' inp' [] rest \<and> sv_inv T {} w' \<and> adds s [] w w'"
proof -
  obtain n' where n: "n = Suc n'" using src(2) by (cases n) auto
  from source_read [OF src(1), of 256] obtain st1 inp1 where
    rd: "json_read_binary_data st 256 inp = Inr ((take 256 bs, st1), inp1)" "source st1 inp1 (drop 256 bs) rest" .
  have res: "add_result v (map Some (take 256 bs)) = (Some (Err ERR_EOF), 0)" using inv(4) by (simp add: add_result_def)
  from wp_add_data [OF inv(1-3), of "map Some (take 256 bs)" False] obtain w1 where
    add: "virtual_stream_add_data s (map Some (take 256 bs)) False w = Inr ((Some (Err ERR_EOF), 0), w1)"
    and a: "sv_inv T {} w1" "adds s [] w w1"
    by (auto simp: wpR_def res)
  have "length (drop 256 bs) < n'" using src(2,3) n by (cases bs) auto
  from write_loop_skip [OF rd(2) this, of "Some (Err ERR_EOF)" s sz "offs + 0" w1] obtain st' inp' where
    "write_loop n' s sz st1 (Some (Err ERR_EOF)) None (offs + 0) inp1 w1 = (Inr (Some (Err ERR_EOF), None, offs, st', inp'), w1)"
    "source st' inp' [] rest" by auto
  then show ?thesis using rd(1) add a src(3) by (simp add: n)
qed

section \<open>The operation\<close>

text \<open>The bytes that a client has written and its stream has not taken.\<close>

definition pending :: "nat \<Rightarrow> 'cb streams \<Rightarrow> byte option list" where
  "pending k w = (case sv_client w k of None \<Rightarrow> []
     | Some c \<Rightarrow> concat (map (\<lambda>r. drop (wr_offs r) (wr_data r)) (sc_write_requests c)))"

text \<open>A command has been answered, or its answer waits behind the last bytes of the client.\<close>

definition write_settled :: "addr \<Rightarrow> nat \<Rightarrow> byte list \<Rightarrow> 'cb streams \<Rightarrow> bool" where
  "write_settled cn k token w \<longleftrightarrow> (\<exists>c. sv_client w k = Some c \<and> sc_channel c = cn \<and>
     (if sc_write_requests c = [] then sv_trace w \<noteq> [] \<and> last (sv_trace w) = Sent cn (Some k) (Result_reply token None)
      else wr_token (last (sc_write_requests c)) = strlcpy256 token))"

text \<open>What a write does that is not refused.\<close>

definition write_done :: "addr \<Rightarrow> nat \<Rightarrow> nat \<Rightarrow> byte list \<Rightarrow> byte list \<Rightarrow> sv_error option \<Rightarrow> 'cb streams \<Rightarrow> 'cb streams \<Rightarrow> bool" where
  "write_done cn k s token bs err w w' \<longleftrightarrow>
     (case err of
        None \<Rightarrow> accepted s (sv_trace w') @ pending k w' = accepted s (sv_trace w) @ pending k w @ map Some bs \<and> write_settled cn k token w'
      | Some e \<Rightarrow> e = Err ERR_EOF \<and> accepted s (sv_trace w') = accepted s (sv_trace w) \<and> pending k w' = pending k w)"

lemma unat_length: "length bs < 2 ^ 64 \<Longrightarrow> unat (word_of_nat (length bs) :: u64) = length bs"
  by (simp add: unat_of_nat take_bit_nat_eq_self)

lemma write_step:
  assumes "client_for ident cn remote_write w = Inr (Inr k, w)" "sv_client w k = Some c"
    and "json_read_binary_start inp = Inr (st, inp1)"
    and "write_loop (write_fuel st inp1) (sc_stream c) sz st None
      (if sc_write_requests c \<noteq> [] then Some (replicate (unat sz) None, 0) else None) 0 inp1 w = (Inr (err, data, offs, st1, inp2), w1)"
    and "json_read_binary_end st1 inp2 = Inr ((), inp3)"
    and "wpR (case data of
        Some (block, _) \<Rightarrow> upd_client k (\<lambda>client. client\<lparr>sc_write_requests := sc_write_requests client @
                                   [\<lparr>wr_token = strlcpy256 token, wr_data = block, wr_offs = 0,
                                     wr_size = unat (sz - word_of_nat offs), wr_eos = False\<rparr>]\<rparr>)
      | None \<Rightarrow> if err = None then actV (Sent cn (Some k) (Result_reply token None)) else retR ()) (\<lambda>_. Q) w1"
  shows "\<exists>w'. virtual_stream_write cn token ident sz inp w = (Inr (err, inp3), w') \<and> Q w'"
proof -
  have r: "bindR (client_for ident cn remote_write) (\<lambda>r. case r of Inl err \<Rightarrow> retR (Inl err)
             | Inr k \<Rightarrow> bindR (the_client k) (\<lambda>client. retR (Inr (k, client)))) w = Inr (Inr (k, c), w)"
    using assms(1,2) by (simp add: reader_simps the_client_def)
  show ?thesis
  proof (cases data)
    case None
    then show ?thesis using assms(3-6) unfolding virtual_stream_write_def r
      by (cases err) (auto simp: wpR_def Let_def)
  next
    case (Some x)
    then show ?thesis using assms(3-6) unfolding virtual_stream_write_def r
      by (cases x) (auto simp: wpR_def Let_def)
  qed
qed

lemma adds_pending: "adds s d w w' \<Longrightarrow> pending k w' = pending k w"
proof -
  assume "adds s d w w'"
  then have "map_option sc_write_requests (sv_client w' k) = map_option sc_write_requests (sv_client w k)" by (simp add: adds_def)
  then show ?thesis by (cases "sv_client w k"; cases "sv_client w' k") (simp_all add: pending_def)
qed

lemma adds_client:
  assumes "adds s d w w'" "sv_client w k = Some c"
  obtains c' where "sv_client w' k = Some c'" "sc_stream c' = sc_stream c" "sc_channel c' = sc_channel c"
    "sc_write_requests c' = sc_write_requests c"
proof -
  from assms obtain c' where c': "sv_client w' k = Some c'" "sc_stream c' = sc_stream c" "sc_channel c' = sc_channel c"
    by (auto simp: adds_def elim: skel_client')
  have "map_option sc_write_requests (sv_client w' k) = map_option sc_write_requests (sv_client w k)" using assms(1) by (simp add: adds_def)
  with c' assms(2) that show ?thesis by simp
qed

text \<open>The end of a write: a request is queued for what is left, or the command is answered.\<close>

lemma wp_write_end:
  assumes inv: "service_inv T w" and c: "sv_client w k = Some c" "sc_channel c = cn"
    and data: "data = leftover bs \<or> bs = [] \<and> data = Some ([], 0)" and sz: "sz = length bs"
  shows "wpR (case data of
        Some (block, _) \<Rightarrow> upd_client k (\<lambda>client. client\<lparr>sc_write_requests := sc_write_requests client @
                                   [\<lparr>wr_token = strlcpy256 token, wr_data = block, wr_offs = 0, wr_size = sz, wr_eos = False\<rparr>]\<rparr>)
      | None \<Rightarrow> if None = None then actV (Sent cn (Some k) (Result_reply token None)) else retR ())
    (\<lambda>_ w'. service_inv T w' \<and> (sc_write_requests c = [] \<or> data \<noteq> None \<longrightarrow> write_settled cn k token w') \<and>
      (\<forall>s. accepted s (sv_trace w') = accepted s (sv_trace w)) \<and> pending k w' = pending k w @ map Some bs) w"
proof (cases data)
  case None
  with data have "bs = []" by (simp add: leftover_def split: if_splits)
  with None c show ?thesis
    using service_act [of T w "Sent cn (Some k) (Result_reply token None)"] inv
    by (simp add: wp write_settled_def pending_def)
next
  case (Some x)
  obtain block m where x: "x = (block, m)" by (cases x)
  with Some data have b: "block = map Some bs" by (auto simp: leftover_def split: if_splits)
  let ?r = "\<lparr>wr_token = strlcpy256 token, wr_data = map Some bs, wr_offs = 0, wr_size = sz, wr_eos = False\<rparr>"
  have "service_inv T (w\<lparr>sv_client := (sv_client w)(k \<mapsto> c\<lparr>sc_write_requests := sc_write_requests c @ [?r]\<rparr>)\<rparr>)"
    by (rule inv_queue_write [OF inv c(1)]) (auto simp: write_ok_def sz)
  then show ?thesis using c Some by (simp add: wp_upd_client [OF c(1)] x b write_settled_def pending_def)
qed

lemma virtual_stream_write_ok:
  assumes inv: "service_inv T w" and bs: "length bs < 2 ^ 64"
    and k: "client_for ident cn remote_write w = Inr (Inr k, w)" "sv_client w k = Some c" "sc_channel c = cn"
  shows "\<exists>err w'. virtual_stream_write cn token ident (word_of_nat (length bs)) (json_binary_text zc bs @ rest) w = (Inr (err, rest), w') \<and>
    service_inv T w' \<and> write_done cn k (sc_stream c) token bs err w w'"
proof -
  let ?sz = "word_of_nat (length bs) :: u64" and ?s = "sc_stream c" and ?n = "length bs"
  from inv have i: "sv_inv T {} w" by (simp add: service_inv_def)
  from inv_client [OF i k(2)] obtain v where v: "sv_stream w ?s = Some v" by auto
  have ref: "vs_ref_cnt v \<noteq> 0" by (rule live_ref [OF i k(2) v])
  from source_start [OF bs, of zc rest] obtain st inp where
    src: "json_read_binary_start (json_binary_text zc bs @ rest) = Inr (st, inp)" "source st inp bs rest" "?n < write_fuel st inp" .
  note step = write_step [where token = token and sz = ?sz, OF k(1,2) src(1)]
  show ?thesis
  proof (cases "sc_write_requests c = []")
    case False
    have "1 < write_fuel st inp" if "bs \<noteq> []" using src(3) that by (cases bs) auto
    from write_loop_fill [OF src(2) _ this, of ?sz 0 "[]" 0 ?s None w] unat_length [OF bs] src(3) obtain st1 inp1 where
      l: "write_loop (write_fuel st inp) ?s ?sz st None (Some (replicate (unat ?sz) None, 0)) 0 inp w =
        (Inr (None, Some (map Some bs, ?n), 0, st1, inp1), w)" "source st1 inp1 [] rest" by auto
    have "wpR (case Some (map Some bs, ?n) of
        Some (block, _) \<Rightarrow> upd_client k (\<lambda>client. client\<lparr>sc_write_requests := sc_write_requests client @
                                   [\<lparr>wr_token = strlcpy256 token, wr_data = block, wr_offs = 0, wr_size = unat (?sz - word_of_nat 0), wr_eos = False\<rparr>]\<rparr>)
      | None \<Rightarrow> if None = None then actV (Sent cn (Some k) (Result_reply token None)) else retR ())
      (\<lambda>_ w'. service_inv T w' \<and> write_done cn k ?s token bs None w w') w"
      by (rule wp_mono [OF wp_write_end [OF inv k(2,3), of _ bs]])
        (use bs in \<open>auto simp: leftover_def unat_length write_done_def\<close>)
    from step [OF _ source_end [OF l(2)] this, unfolded if_P [OF False]] l(1) show ?thesis by auto
  next
    case True
    show ?thesis
    proof (cases "vs_eos_inp v \<and> bs \<noteq> []")
      case ended: True
      from write_loop_ended [OF src(2,3) _ i v ref] ended obtain st1 inp1 w1 where
        l: "write_loop (write_fuel st inp) ?s ?sz st None None 0 inp w = (Inr (Some (Err ERR_EOF), None, 0, st1, inp1), w1)"
        "source st1 inp1 [] rest" "sv_inv T {} w1" "adds ?s [] w w1" by blast
      from l(3,4) have d: "service_inv T w1 \<and> write_done cn k ?s token bs (Some (Err ERR_EOF)) w w1"
        using service_adds [OF inv] adds_pending [of ?s "[]" w w1] by (simp add: write_done_def adds_def)
      have "\<exists>w'. virtual_stream_write cn token ident ?sz (json_binary_text zc bs @ rest) w = (Inr (Some (Err ERR_EOF), rest), w') \<and>
        service_inv T w' \<and> write_done cn k ?s token bs (Some (Err ERR_EOF)) w w'"
        by (rule step [where data = None, OF _ source_end [OF l(2)]]) (use l(1) True d in \<open>simp_all add: wp\<close>)
      then show ?thesis by blast
    next
      case False
      have "\<exists>m st' inp' w'. write_loop (write_fuel st inp) ?s ?sz st None None 0 inp w =
          (Inr (None, leftover (drop m bs), m, st', inp'), w') \<and>
        m \<le> length bs \<and> source st' inp' [] rest \<and> sv_inv T {} w' \<and> adds ?s (map Some (take m bs)) w w'"
      proof (cases "bs = []")
        case e: True
        from source_read [OF src(2), of 256] e obtain st1 inp1 where
          "json_read_binary_data st 256 inp = Inr (([], st1), inp1)" "source st1 inp1 [] rest" by auto
        then show ?thesis using e i by (intro exI [of _ 0]) (simp add: write_fuel_def leftover_def)
      next
        case ne: False
        then show ?thesis using write_loop_store [OF src(2,3) i v ref, of ?sz 0] False bs by simp
      qed
      then obtain m st1 inp1 w1 where
        l: "write_loop (write_fuel st inp) ?s ?sz st None None 0 inp w = (Inr (None, leftover (drop m bs), m, st1, inp1), w1)"
        "m \<le> ?n" "source st1 inp1 [] rest" "sv_inv T {} w1" "adds ?s (map Some (take m bs)) w w1" by blast
      from adds_client [OF l(5) k(2)] obtain c1 where c1: "sv_client w1 k = Some c1" "sc_channel c1 = cn" "sc_write_requests c1 = []"
        using True k(3) by metis
      have sz: "unat (?sz - word_of_nat m) = length (drop m bs)"
      proof -
        have "?sz - word_of_nat m = word_of_nat (length (drop m bs))" using l(2) by (simp add: of_nat_diff)
        then show ?thesis using unat_length [of "drop m bs"] bs by simp
      qed
      have "wpR (case leftover (drop m bs) of
        Some (block, _) \<Rightarrow> upd_client k (\<lambda>client. client\<lparr>sc_write_requests := sc_write_requests client @
                                   [\<lparr>wr_token = strlcpy256 token, wr_data = block, wr_offs = 0, wr_size = unat (?sz - word_of_nat m), wr_eos = False\<rparr>]\<rparr>)
      | None \<Rightarrow> if None = None then actV (Sent cn (Some k) (Result_reply token None)) else retR ())
      (\<lambda>_ w'. service_inv T w' \<and> write_done cn k ?s token bs None w w') w1"
      proof (rule wp_mono [OF wp_write_end [OF service_adds [OF inv l(4,5)] c1(1,2) _ sz]])
        fix w' :: "'a streams"
        assume a: "service_inv T w' \<and> (sc_write_requests c1 = [] \<or> leftover (drop m bs) \<noteq> None \<longrightarrow> write_settled cn k token w') \<and>
          (\<forall>s. accepted s (sv_trace w') = accepted s (sv_trace w1)) \<and> pending k w' = pending k w1 @ map Some (drop m bs)"
        moreover have "pending k w1 = []" "pending k w = []" using c1 k(2) True by (simp_all add: pending_def)
        moreover have "accepted ?s (sv_trace w1) = accepted ?s (sv_trace w) @ map Some (take m bs)" using l(5) by (simp add: adds_def)
        moreover have "map Some (take m bs) @ map Some (drop m bs) = map Some bs" by (simp flip: map_append)
        ultimately show "service_inv T w' \<and> write_done cn k ?s token bs None w w'" using c1(3) by (simp add: write_done_def)
      qed simp
      from step [OF _ source_end [OF l(3)] this] l(1) True show ?thesis by simp blast
    qed
  qed
qed

text \<open>A write that is refused reads its data and changes nothing.\<close>

lemma virtual_stream_write_refused:
  assumes bs: "length bs < 2 ^ 64" and k: "client_for ident cn remote_write w = Inr (Inl err, w)"
  shows "virtual_stream_write cn token ident sz (json_binary_text zc bs @ rest) w = (Inr (Some err, rest), w)"
proof -
  from source_start [OF bs, of zc rest] obtain st inp where
    src: "json_read_binary_start (json_binary_text zc bs @ rest) = Inr (st, inp)" "source st inp bs rest" "length bs < write_fuel st inp" .
  have r: "bindR (client_for ident cn remote_write) (\<lambda>r. case r of Inl err \<Rightarrow> retR (Inl err)
             | Inr k \<Rightarrow> bindR (the_client k) (\<lambda>client. retR (Inr (k, client)))) w = Inr (Inl err, w)"
    using k by (simp add: reader_simps)
  from write_loop_skip [OF src(2,3), of "Some err" 0 sz 0 w] obtain st' inp' where
    l: "write_loop (write_fuel st inp) 0 sz st (Some err) None 0 inp w = (Inr (Some err, None, 0, st', inp'), w)"
    "source st' inp' [] rest" by auto
  show ?thesis using src(1) l(1) source_end [OF l(2)] unfolding virtual_stream_write_def r by (simp add: retR_def)
qed

lemma virtual_stream_write_returns:
  assumes inv: "service_inv T w" and bs: "length bs < 2 ^ 64"
  obtains (written) k c v err w' where "virtual_stream_write cn token ident (word_of_nat (length bs)) (json_binary_text zc bs @ rest) w = (Inr (err, rest), w')"
      "service_inv T w'" "sv_client w k = Some c" "sv_stream w (sc_stream c) = Some v" "sc_channel c = cn" "str2id ident = Some (vs_id v)"
      "remote_write v" "write_done cn k (sc_stream c) token bs err w w'"
    | (refused) err where "virtual_stream_write cn token ident (word_of_nat (length bs)) (json_binary_text zc bs @ rest) w = (Inr (Some err, rest), w)"
      "err = no_such_stream ident \<or> err = Err ERR_UNSUPPORTED"
proof -
  from inv have st: "struct_inv w" by (simp add: service_inv_def sv_inv_def)
  show ?thesis
  proof (cases rule: client_for_eq [OF st, of ident cn remote_write, case_names none denied some])
    case none
    from virtual_stream_write_refused [OF bs none] refused show ?thesis by blast
  next
    case (denied k c v)
    from virtual_stream_write_refused [OF bs denied(1)] refused show ?thesis by blast
  next
    case (some k c v)
    from virtual_stream_write_ok [OF inv bs some(1,2,4)] some written show ?thesis by blast
  qed
qed

end
