(* ===== verification/Stream_System.thy ===== *)
theory Stream_System
  imports Stream_Write
begin

text \<open>
  The streams service as a whole: the calls that owners of streams, clients and the event loop make, in any order, and what holds
  in every state they reach.
\<close>

section \<open>Calls\<close>

datatype 'cb call =
    Create "byte list" "byte list option" nat u32 'cb
  | Delete nat
  | Add_data nat "byte list" bool
  | Get_data nat nat
  | Is_empty nat
  | Subscribe addr "byte list"
  | Unsubscribe addr "byte list"
  | Read addr "byte list" "byte list" nat
  | Write addr "byte list" "byte list" bool "byte list"
  | Eos addr "byte list" "byte list"
  | Connect addr "byte list"
  | Disconnect addr "byte list"
  | Closed addr
  | Dispatch

definition drop_result :: "('cb, 'a) sv_op \<Rightarrow> 'cb streams \<Rightarrow> exn + 'cb streams" where
  "drop_result m w = (case m w of Inl e \<Rightarrow> Inl e | Inr (_, w') \<Rightarrow> Inr w')"

fun exec_call :: "'cb call \<Rightarrow> 'cb streams \<Rightarrow> exn + 'cb streams" where
  "exec_call (Create type ctx len access cb) = drop_result (virtual_stream_create type ctx len access cb)"
| "exec_call (Delete s) = drop_result (virtual_stream_delete s)"
| "exec_call (Add_data s bs eos) = drop_result (virtual_stream_add_data s (map Some bs) eos)"
| "exec_call (Get_data s n) = drop_result (virtual_stream_get_data s n)"
| "exec_call (Is_empty s) = drop_result (virtual_stream_is_empty s)"
| "exec_call (Subscribe c type) = drop_result (virtual_stream_subscribe c type)"
| "exec_call (Unsubscribe c type) = drop_result (virtual_stream_unsubscribe c type)"
| "exec_call (Read c token s n) = drop_result (virtual_stream_read c token s n)"
| "exec_call (Write c token s zc bs) =
     (\<lambda>w. case virtual_stream_write c token s (word_of_nat (length bs)) (json_binary_text zc bs) w of
        (Inl e, _) \<Rightarrow> Inl e | (Inr _, w') \<Rightarrow> Inr w')"
| "exec_call (Eos c token s) = drop_result (virtual_stream_eos c token s)"
| "exec_call (Connect c s) = drop_result (virtual_stream_connect c s)"
| "exec_call (Disconnect c s) = drop_result (virtual_stream_disconnect c s)"
| "exec_call (Closed c) = drop_result (channel_close_listener c)"
| "exec_call Dispatch = drop_result sv_dispatch"

definition owned :: "'cb streams \<Rightarrow> nat \<Rightarrow> bool" where
  "owned w s \<longleftrightarrow> (case sv_stream w s of None \<Rightarrow> False | Some v \<Rightarrow> \<not> vs_deleted v)"

text \<open>
  What callers must see to: an owner uses a stream until it deletes it; buffers are smaller than 4 GB and less than \<open>2 ^ 32 - 1\<close> streams are
  created; a client reads one byte at least, gives the size of the data it writes, and a type that fits the field of a subscription.
\<close>

fun call_ok :: "'cb streams \<Rightarrow> 'cb call \<Rightarrow> bool" where
  "call_ok w (Create type ctx len access cb) \<longleftrightarrow> unat (sv_id_cnt w) + 1 < 2 ^ 32 \<and> len < 2 ^ 32"
| "call_ok w (Delete s) \<longleftrightarrow> owned w s"
| "call_ok w (Add_data s bs eos) \<longleftrightarrow> owned w s"
| "call_ok w (Get_data s n) \<longleftrightarrow> owned w s"
| "call_ok w (Is_empty s) \<longleftrightarrow> owned w s"
| "call_ok w (Subscribe c type) \<longleftrightarrow> length type < 256"
| "call_ok w (Read c token s n) \<longleftrightarrow> 0 < n"
| "call_ok w (Write c token s zc bs) \<longleftrightarrow> length bs < 2 ^ 64"
| "call_ok w _ \<longleftrightarrow> True"

inductive service_run :: "'cb streams \<Rightarrow> 'cb streams \<Rightarrow> bool" where
  start: "service_run w w"
| calls: "service_run w w' \<Longrightarrow> call_ok w' c \<Longrightarrow> exec_call c w' = Inr w'' \<Longrightarrow> service_run w w''"

text \<open>A sequence of calls.\<close>

fun run_calls :: "'cb call list \<Rightarrow> 'cb streams \<Rightarrow> 'cb streams option" where
  "run_calls [] w = Some w"
| "run_calls (c # cs) w =
     (if call_ok w c then (case exec_call c w of Inl e \<Rightarrow> None | Inr w' \<Rightarrow> run_calls cs w') else None)"

lemma run_calls_run: "run_calls cs w = Some w' \<Longrightarrow> service_run w0 w \<Longrightarrow> service_run w0 w'"
  by (induction cs w rule: run_calls.induct) (auto split: if_splits sum.splits intro: service_run.calls)

section \<open>Every call keeps the invariant\<close>

lemma wp_drop: "wpR m (\<lambda>_. Q) w \<Longrightarrow> \<exists>w'. drop_result m w = Inr w' \<and> Q w'"
  by (auto simp: wpR_def drop_result_def)

lemma owned_stream: "owned w s \<Longrightarrow> \<exists>v. sv_stream w s = Some v \<and> \<not> vs_deleted v"
  by (auto simp: owned_def split: option.splits)

lemma owned_ref: "sv_inv T X w \<Longrightarrow> sv_stream w s = Some v \<Longrightarrow> \<not> vs_deleted v \<Longrightarrow> vs_ref_cnt v \<noteq> 0"
  using inv_stream(1) [of T X w s v] by (simp add: refs_ok_def)

lemma exec_call_ok:
  assumes inv: "service_inv T w" and ok: "call_ok w c"
  shows "\<exists>w'. exec_call c w = Inr w' \<and> service_inv T w'"
proof -
  from inv have i: "sv_inv T {} w" by (simp add: service_inv_def)
  have own: "\<exists>w'. drop_result m w = Inr w' \<and> service_inv T w'"
    if "owned w s" "\<And>v. sv_stream w s = Some v \<Longrightarrow> \<not> vs_deleted v \<Longrightarrow> vs_ref_cnt v \<noteq> 0 \<Longrightarrow> wpR m (\<lambda>_. service_inv T) w"
    for s and m :: "('a, 'b) sv_op"
    using owned_stream [OF that(1)] owned_ref [OF i] that(2) wp_drop by blast
  show ?thesis
  proof (cases c)
    case (Create type ctx len access cb)
    then have "wpR (virtual_stream_create type ctx len access cb) (\<lambda>_. service_inv T) w"
      using ok by (intro wp_mono [OF wp_create [OF inv]]) auto
    with Create show ?thesis by (simp add: wp_drop)
  next
    case (Add_data s bs eos)
    have "wpR (virtual_stream_add_data s (map Some bs) eos) (\<lambda>_. service_inv T) w" if "sv_stream w s = Some v" "vs_ref_cnt v \<noteq> 0" for v
      by (rule wp_mono [OF wp_add_data [OF i that]]) (use service_adds [OF inv] in auto)
    with own [of s] Add_data ok show ?thesis by auto
  next
    case (Get_data s n)
    have "wpR (virtual_stream_get_data s n) (\<lambda>_. service_inv T) w" if "sv_stream w s = Some v" "vs_ref_cnt v \<noteq> 0" for v
      by (rule wp_mono [OF wp_get_data [OF i that]]) (use service_skel [OF inv] in auto)
    with own [of s] Get_data ok show ?thesis by auto
  next
    case (Delete s)
    with own [of s] wp_stream_delete [OF inv] ok show ?thesis by auto
  next
    case (Is_empty s)
    have "wpR (virtual_stream_is_empty s) (\<lambda>_. service_inv T) w" if "sv_stream w s = Some v" "\<not> vs_deleted v" for v
      by (rule wp_mono [OF wp_is_empty [OF inv that]]) (use inv in auto)
    with own [of s] Is_empty ok show ?thesis by auto
  next
    case (Write cn token s zc bs)
    from ok Write have bs: "length bs < 2 ^ 64" by simp
    show ?thesis
    proof (cases rule: virtual_stream_write_returns [OF inv bs, of cn token s zc "[]", case_names written refused])
    qed (use inv in \<open>auto simp: Write\<close>)
  qed (use ok in \<open>auto intro!: wp_drop wp_subscribe wp_unsubscribe wp_read wp_eos wp_connect wp_disconnect wp_dispatch inv
      wp_mono [OF wp_close [OF inv]]\<close>)
qed

lemma service_run_inv: "service_run w w' \<Longrightarrow> service_inv T w \<Longrightarrow> service_inv T w'"
proof (induction rule: service_run.induct)
  case (calls w w' c w'')
  from exec_call_ok [OF calls.IH [OF calls.prems] calls.hyps(2)] calls.hyps(3) show ?case by auto
qed

lemma run_init: "service_run streams_init w \<Longrightarrow> service_inv {} w"
  by (rule service_run_inv [OF _ service_init])

section \<open>Facts about states that are reached\<close>

lemma run_data:
  assumes "service_inv T w" "sv_stream w s = Some v"
  shows "vs_pos v = length (accepted s (sv_trace w))" "consumed v + ring_len v = vs_pos v"
    "ring_list v = drop (consumed v) (accepted s (sv_trace w))" "None \<notin> set (accepted s (sv_trace w))"
  using assms inv_stream(4) [of T "{}" w s v] by (auto simp: service_inv_def stream_ok_def consumed_def)

lemma watch_new:
  assumes inv: "service_inv {} w" and c: "sv_client w k = Some c"
  shows "service_inv {(length (sv_trace w), k, sc_pos c)} w"
proof -
  from inv_client [of "{}" "{}" w k c] inv c have "k < sv_next w" by (auto simp: service_inv_def)
  then have "watch_ok (length (sv_trace w), k, sc_pos c) w" using c by (auto simp: watch_ok_def)
  with inv show ?thesis by (simp add: service_inv_def sv_inv_def)
qed

lemma id_text: "virtual_stream_get_id v = STREAM_BASE_ID @ token_text (ucast (vs_id v))"
proof -
  have "unat (ucast (vs_id v) :: u64) = unat (vs_id v)" by (simp add: unsigned_ucast_eq take_bit_nat_eq_self unsigned_less [THEN less_trans])
  then show ?thesis by (simp add: virtual_stream_get_id_def token_text_def)
qed

lemma str2id_get_id: "str2id (virtual_stream_get_id v) = Some (vs_id v)"
proof -
  have "ucast (ucast (vs_id v) :: u64) = vs_id v" by (rule bit_word_eqI) (auto simp: bit_simps)
  then show ?thesis by (simp add: str2id_def id_text strtoul_token)
qed

lemma client_found:
  assumes st: "struct_inv w" and c: "sv_client w k = Some c" "sv_stream w (sc_stream c) = Some v" "sc_channel c = cn"
  shows "find_client (virtual_stream_get_id v) cn w = Inr (Some k, w)"
proof (cases rule: find_client_cases [OF st, of "virtual_stream_get_id v" cn, case_names none some])
  case none
  from none(2) [OF _ c] show ?thesis by (simp add: str2id_get_id)
next
  case (some j d u)
  then have "sc_stream d = sc_stream c" using struct_ids [OF st c(2), of "sc_stream d" u] by (simp add: str2id_get_id)
  then have "client_key w j = client_key w k" using some c by (simp add: client_key_def)
  then have "j = k" using inj_onD [OF struct_table(3) [OF st]] some(2) c(1) by blast
  with some show ?thesis by simp
qed

section \<open>Properties\<close>

text \<open>C16: no call of the streams service fails an assertion, reads memory it must not read or runs for ever,
  whatever calls of owners, clients and the event loop came before it, as long as each of them kept to what call_ok asks.\<close>

theorem streams_service_safe:
  assumes "service_run streams_init w" "call_ok w c"
  shows "\<exists>w'. exec_call c w = Inr w'"
  using exec_call_ok [OF run_init [OF assms(1)] assms(2)] by blast

text \<open>C17: in every state the service reaches, the reference counter of a stream counts its clients and its owner, a stream that
  nobody refers to is about to be freed, no two streams have one identifier, and the table of clients finds exactly the client
  of a channel that is connected to the stream of an identifier.\<close>

theorem streams_service_references:
  assumes "service_run streams_init w"
  shows "(\<forall>s v. sv_stream w s = Some v \<longrightarrow>
      vs_ref_cnt v = int (card {k. \<exists>c. sv_client w k = Some c \<and> sc_stream c = s}) + (if vs_deleted v then 0 else 1) \<and>
      (vs_ref_cnt v = 0 \<longleftrightarrow> (Delete_stream, s) \<in> set (sv_events w))) \<and>
    (\<forall>s s' v v'. sv_stream w s = Some v \<longrightarrow> sv_stream w s' = Some v' \<longrightarrow> vs_id v = vs_id v' \<longrightarrow> s = s') \<and>
    (\<forall>s v cn. sv_stream w s = Some v \<longrightarrow> (\<exists>r. find_client (virtual_stream_get_id v) cn w = Inr (r, w) \<and>
      (\<forall>k. r = Some k \<longleftrightarrow> (\<exists>c. sv_client w k = Some c \<and> sc_stream c = s \<and> sc_channel c = cn))))"
proof (intro conjI allI impI)
  from run_init [OF assms] have i: "sv_inv {} {} w" and st: "struct_inv w" and ev: "event_inv w"
    by (simp_all add: service_inv_def sv_inv_def)
  fix s v assume v: "sv_stream w s = Some v"
  have "set (vs_clients v) = {k. \<exists>c. sv_client w k = Some c \<and> sc_stream c = s}"
    using inv_stream(3) [OF i v] by (simp add: set_eq_iff)
  moreover have ro: "refs_ok v" using inv_stream(1) [OF i v] .
  ultimately have "card {k. \<exists>c. sv_client w k = Some c \<and> sc_stream c = s} = length (vs_clients v)"
    by (metis refs_ok_def distinct_card)
  then show "vs_ref_cnt v = int (card {k. \<exists>c. sv_client w k = Some c \<and> sc_stream c = s}) + (if vs_deleted v then 0 else 1)"
    using ro by (simp add: refs_ok_def)
  show "vs_ref_cnt v = 0 \<longleftrightarrow> (Delete_stream, s) \<in> set (sv_events w)" using event_flags(1) [OF ev v] by simp
  show "s = s'" if "sv_stream w s' = Some v'" "vs_id v = vs_id v'" for s' v' using struct_ids [OF st v] that by blast
  fix cn
  show "\<exists>r. find_client (virtual_stream_get_id v) cn w = Inr (r, w) \<and>
    (\<forall>k. r = Some k \<longleftrightarrow> (\<exists>c. sv_client w k = Some c \<and> sc_stream c = s \<and> sc_channel c = cn))"
  proof (cases rule: find_client_cases [OF st, of "virtual_stream_get_id v" cn, case_names none some])
    case none
    then show ?thesis using v by (force simp: str2id_get_id)
  next
    case (some k c u)
    then have s: "sc_stream c = s" using struct_ids [OF st v, of "sc_stream c" u] by (simp add: str2id_get_id)
    have one: "j = k" if "sv_client w j = Some d" "sc_stream d = s" "sc_channel d = cn" for j d
      using client_found [OF st that(1), of v cn] that some(1) v by simp
    have "\<forall>j. Some k = Some j \<longleftrightarrow> (\<exists>c. sv_client w j = Some c \<and> sc_stream c = s \<and> sc_channel c = cn)"
      using one some(2,4) s by (metis option.inject)
    with some(1) show ?thesis by blast
  qed
qed

text \<open>C3: what a client of a stream is sent are the bytes that were added to the stream, from its position on,
  in order, none twice and none left out, across any sequence of calls: those of other clients and the owner, buffers that wrap, requests that wait.\<close>

theorem stream_delivers_in_order:
  assumes "service_run streams_init w" "sv_client w k = Some c" "service_run w w'"
    and "sv_client w' k = Some c'" "sv_stream w' (sc_stream c') = Some v'" "remote_read v'"
  shows "sc_pos c \<le> sc_pos c' \<and> sc_pos c' \<le> length (accepted (sc_stream c') (sv_trace w')) \<and>
    map Some (received k (drop (length (sv_trace w)) (sv_trace w'))) =
      take (sc_pos c' - sc_pos c) (drop (sc_pos c) (accepted (sc_stream c') (sv_trace w')))"
proof -
  from service_run_inv [OF assms(3) watch_new [OF run_init [OF assms(1)] assms(2)]]
  have inv: "service_inv {(length (sv_trace w), k, sc_pos c)} w'" .
  then have "watch_ok (length (sv_trace w), k, sc_pos c) w'" by (simp add: service_inv_def sv_inv_def)
  moreover have "sc_pos c' \<le> vs_pos v'" using service_client(1) [OF inv assms(4,5)] assms(6) by (simp add: client_ok_def)
  ultimately show ?thesis using run_data(1) [OF inv assms(5)] assms(4-6) by (simp add: watch_ok_def)
qed

text \<open>C22: a request to read waits only while its client has been sent all the bytes of the stream and the stream has not
  ended.\<close>

theorem read_requests_wait_for_data:
  assumes "service_run streams_init w" "sv_client w k = Some c" "sv_stream w (sc_stream c) = Some v" "sc_read_requests c \<noteq> []"
  shows "sc_pos c = length (accepted (sc_stream c) (sv_trace w)) \<and> \<not> vs_eos_inp v"
  using service_client(1) [OF run_init [OF assms(1)] assms(2,3)] run_data(1) [OF run_init [OF assms(1)] assms(3)] assms(4)
  by (simp add: client_ok_def)

text \<open>C21: virtual_stream_get_data returns the next bytes of the stream, as many as fit and are there, and says that the
  stream has ended only when no byte is left; a stream that clients do not read from is moved on by as many bytes.\<close>

theorem get_data_returns_next_bytes:
  assumes "service_run streams_init w" "sv_stream w s = Some v" "\<not> vs_deleted v"
  shows "\<exists>data eos w' v'. virtual_stream_get_data s n w = Inr ((data, eos), w') \<and>
    data = take n (drop (consumed v) (accepted s (sv_trace w))) \<and>
    eos = (vs_eos_inp v \<and> consumed v + n \<ge> length (accepted s (sv_trace w))) \<and>
    sv_stream w' s = Some v' \<and> (\<not> remote_read v \<longrightarrow> consumed v' = consumed v + length data)"
proof -
  from run_init [OF assms(1)] have inv: "service_inv {} w" "sv_inv {} {} w" by (simp_all add: service_inv_def)
  note d = run_data [OF inv(1) assms(2)]
  from wp_get_data [OF inv(2) assms(2) owned_ref [OF inv(2) assms(2,3)], of n] obtain w' v' where
    "virtual_stream_get_data s n w = Inr (get_result v n, w')" "sv_stream w' s = Some v'"
    "\<not> remote_read v \<longrightarrow> consumed v' = consumed v + length (fst (get_result v n))" unfolding wpR_def by blast
  moreover have "ring_len v \<le> n \<longleftrightarrow> consumed v + n \<ge> length (accepted s (sv_trace w))" using d(1,2) by linarith
  ultimately show ?thesis using d(3) by (auto simp: get_result_def)
qed

text \<open>virtual_stream_add_data takes the first bytes of its data, as many as the ring has room for, and puts
  them behind those the stream has accepted; after the end of the stream it takes nothing and returns ERR_EOF.\<close>

theorem add_data_takes_what_fits:
  assumes "service_run streams_init w" "sv_stream w s = Some v" "\<not> vs_deleted v"
  shows "\<exists>w'. virtual_stream_add_data s (map Some bs) eos w =
      Inr (if vs_eos_inp v then (Some (Err ERR_EOF), 0) else (None, min (length bs) (room v)), w') \<and>
    accepted s (sv_trace w') = accepted s (sv_trace w) @ (if vs_eos_inp v then [] else map Some (take (room v) bs))"
proof -
  from run_init [OF assms(1)] have inv: "sv_inv {} {} w" by (simp add: service_inv_def)
  from wp_add_data [OF inv assms(2) owned_ref [OF inv assms(2,3)], of "map Some bs" eos] show ?thesis
    by (auto simp: wpR_def add_result_def adds_def take_map min_def split: if_splits)
qed


end
