(* ===== verification/Stream_Examples.thy ===== *)
theory Stream_Examples
  imports Stream_System
begin

text \<open>
  A run of the streams service: a stream with a ring of five bytes, a client that connects, reads and writes. Then what the service
  does with requests that are not well-formed.
\<close>

section \<open>A run\<close>

abbreviation ex_id :: "byte list" where "ex_id \<equiv> [86, 83, 48]"

definition ex_stream :: "unit VirtualStream" where
  "ex_stream = \<lparr>vs_magic = STREAM_MAGIC, vs_type = [112], vs_id = 0, vs_access = 3, vs_callback = (), vs_ref_cnt = 2,
     vs_deleted = False, vs_clients = [1], vs_pos = 0, vs_buf = replicate 5 None, vs_buf_len = 5, vs_buf_inp = 0, vs_buf_out = 0,
     vs_eos_inp = False, vs_eos_out = False, vs_data_available_posted = False, vs_space_available_posted = False\<rparr>"

definition ex_client :: "nat \<Rightarrow> ReadRequest list \<Rightarrow> StreamClient" where
  "ex_client pos rs = \<lparr>sc_stream = 0, sc_channel = 5, sc_pos = pos, sc_read_requests = rs, sc_write_requests = []\<rparr>"

definition ex_created :: "unit streams" where
  "ex_created = streams_init\<lparr>sv_next := 1, sv_id_cnt := 1, sv_stream := [0 \<mapsto> new_stream [112] 0 4 3 ()], sv_streams := [0]\<rparr>"

definition ex_connected :: "unit streams" where
  "ex_connected = with_client 0 5 (new_stream [112] 0 4 3 ()) ex_created"

definition ex_filled :: "unit streams" where
  "ex_filled = ex_connected\<lparr>sv_stream := [0 \<mapsto> ex_stream\<lparr>vs_buf := [Some 1, Some 2, Some 3, None, None], vs_buf_inp := 3, vs_pos := 3\<rparr>],
     sv_trace := [Accepted 0 [Some 1, Some 2, Some 3]]\<rparr>"

definition ex_read :: "unit streams" where
  "ex_read = ex_filled\<lparr>sv_client := [1 \<mapsto> ex_client 2 []], sv_stream := [0 \<mapsto> ex_stream\<lparr>vs_buf := [Some 1, Some 2, Some 3, None, None],
       vs_buf_inp := 3, vs_buf_out := 2, vs_pos := 3, vs_space_available_posted := True\<rparr>], sv_events := [(Notify_space_available, 0)],
     sv_trace := [Accepted 0 [Some 1, Some 2, Some 3], Sent 5 (Some 1) (Read_reply [65] [1, 2] [] None 0 False)]\<rparr>"

definition ex_waiting :: "unit streams" where
  "ex_waiting = ex_connected\<lparr>sv_client := [1 \<mapsto> ex_client 0 [\<lparr>rr_token = [65], rr_size = 2\<rparr>]]\<rparr>"

lemmas access_simps = reader_simps drop_result_def assertV_def the_stream_def upd_stream_def the_client_def upd_client_def actV_def modV_def
  liftV_def post_sv_def

lemma ex_new: "new_stream [112] 0 4 3 () = ex_stream\<lparr>vs_clients := [], vs_ref_cnt := 1\<rparr>"
  by (simp add: new_stream_def ex_stream_def strlcpy256_def)

lemma ex_created_sel: "sv_handle_hash ex_created = replicate HANDLE_HASH_SIZE []" "sv_streams ex_created = [0]"
  "sv_stream ex_created = [0 \<mapsto> ex_stream\<lparr>vs_clients := [], vs_ref_cnt := 1\<rparr>]" "sv_client ex_created = Map.empty"
  by (simp_all add: ex_created_def init_fields ex_new)

lemma ex_connected_sel: "sv_stream ex_connected = [0 \<mapsto> ex_stream]" "sv_client ex_connected = [1 \<mapsto> ex_client 0 []]"
  "sv_trace ex_connected = []" "sv_events ex_connected = []"
  by (simp_all add: ex_connected_def ex_created_def init_fields with_client_def ex_new new_client_def ex_client_def)
    (simp_all add: ex_stream_def)

lemma ex_filled_sel: "sv_client ex_filled = [1 \<mapsto> ex_client 0 []]" "sv_events ex_filled = []"
  by (simp_all add: ex_filled_def ex_connected_sel)

lemma ex_create: "exec_call (Create [112] None 4 3 ()) streams_init = Inr ex_created"
  by (simp add: virtual_stream_create_def streams_init_def ex_created_def access_simps new_stream_def fun_eq_iff)

lemma ex_get_id: "vs_id v = 0 \<Longrightarrow> virtual_stream_get_id v = ex_id"
  by (simp add: virtual_stream_get_id_def bytes_of_def dec_digits.simps)

lemma ex_str2id: "str2id ex_id = Some 0"
  using str2id_get_id [of ex_stream] ex_get_id [of ex_stream] by (simp add: ex_stream_def)

lemma ex_connect: "exec_call (Connect 5 ex_id) ex_created = Inr ex_connected"
proof -
  have "get_client_hash (0, 5) < HANDLE_HASH_SIZE" by (rule hnd.hash_bound)
  then have "find_client ex_id 5 ex_created = Inr (None, ex_created)"
    by (simp add: find_client_def ex_str2id ex_created_sel retR_def)
  moreover have "virtual_stream_find ex_id ex_created = Inr (Some 0, ex_created)"
    by (simp add: virtual_stream_find_def ex_str2id ex_created_sel access_simps ex_stream_def)
  moreover have "create_client 0 5 ex_created = Inr (sv_next ex_created, ex_connected)"
    unfolding ex_connected_def by (rule create_client_eq) (simp add: ex_created_def)
  ultimately show ?thesis by (simp add: virtual_stream_connect_def access_simps)
qed

lemma ex_add: "exec_call (Add_data 0 [1, 2, 3] False) ex_connected = Inr ex_filled"
  by (simp add: virtual_stream_add_data_def access_simps ex_connected_sel ex_stream_def ring_put_def mem_store_def remote_read_def
      serve_client_def ex_client_def advance_stream_buffer_def ring_len_def VS_ENABLE_REMOTE_READ_def)
    (simp add: ex_filled_def ex_stream_def eval_nat_numeral)

lemma run_connected: "service_run streams_init ex_connected"
  by (rule service_run.calls [OF service_run.calls [OF service_run.start _ ex_create] _ ex_connect])
    (simp_all add: streams_init_def)

lemma run_filled: "service_run streams_init ex_filled"
  by (rule service_run.calls [OF run_connected _ ex_add]) (simp add: owned_def ex_connected_sel ex_stream_def)

lemma ex_found: "find_client ex_id 5 ex_connected = Inr (Some 1, ex_connected)" "find_client ex_id 5 ex_filled = Inr (Some 1, ex_filled)"
proof -
  have "find_client ex_id 5 w = Inr (Some 1, w)"
    if "service_run streams_init w" "sv_client w 1 = Some (ex_client 0 [])" "sv_stream w 0 = Some v" "vs_id v = 0" for w :: "unit streams" and v
    using client_found [of w 1 "ex_client 0 []" v 5] run_init [OF that(1)] that(2,3) ex_get_id [OF that(4)]
    by (simp add: service_inv_def sv_inv_def ex_client_def)
  from this [OF run_connected] this [OF run_filled]
  show "find_client ex_id 5 ex_connected = Inr (Some 1, ex_connected)" "find_client ex_id 5 ex_filled = Inr (Some 1, ex_filled)"
    by (simp_all add: ex_connected_sel ex_filled_def ex_stream_def)
qed

definition ex_replied :: "unit streams" where
  "ex_replied = ex_filled\<lparr>sv_client := [1 \<mapsto> ex_client 2 []],
     sv_trace := [Accepted 0 [Some 1, Some 2, Some 3], Sent 5 (Some 1) (Read_reply [65] [1, 2] [] None 0 False)]\<rparr>"

lemma ex_reply: "send_read_reply 1 [65] 2 ex_filled = Inr ((), ex_replied)"
  by (simp add: send_read_reply_def access_simps ex_filled_def ex_replied_def ex_connected_sel ex_client_def ex_stream_def ring_len_def
      read_window_def mem_load_def used_bytes_def) (simp add: eval_nat_numeral)

lemma ex_advance: "advance_stream_buffer 0 ex_replied = Inr ((), ex_read)"
  by (simp add: ex_replied_def ex_filled_def advance_stream_buffer_def access_simps ex_client_def ex_stream_def ring_len_def
      remote_read_def VS_ENABLE_REMOTE_READ_def post_space_available_def ex_connected_sel)
    (simp add: ex_read_def ex_replied_def ex_filled_def ex_stream_def ex_client_def eval_nat_numeral)

lemma ex_read_call: "exec_call (Read 5 [65] ex_id 2) ex_filled = Inr ex_read"
proof -
  have "client_for ex_id 5 remote_read ex_filled = Inr (Inr 1, ex_filled)"
    by (simp add: client_for_def ex_found access_simps ex_filled_sel ex_client_def)
      (simp add: ex_filled_def ex_stream_def remote_read_def VS_ENABLE_REMOTE_READ_def reader_simps)
  moreover have "sv_stream ex_filled 0 = Some (ex_stream\<lparr>vs_buf := [Some 1, Some 2, Some 3, None, None], vs_buf_inp := 3, vs_pos := 3\<rparr>)"
    by (simp add: ex_filled_def)
  ultimately show ?thesis using ex_reply ex_advance
    by (simp add: virtual_stream_read_def access_simps ex_filled_sel ex_client_def)
qed

lemma ex_wait_call: "exec_call (Read 5 [65] ex_id 2) ex_connected = Inr ex_waiting"
  by (simp add: virtual_stream_read_def client_for_def ex_found access_simps ex_connected_sel ex_client_def ex_stream_def
    remote_read_def VS_ENABLE_REMOTE_READ_def ex_waiting_def strlcpy256_def)

lemma run_read: "service_run ex_connected ex_read" "service_run streams_init ex_waiting"
proof -
  have "service_run ex_connected ex_filled"
    by (rule service_run.calls [OF service_run.start _ ex_add]) (simp add: owned_def ex_connected_sel ex_stream_def)
  then show "service_run ex_connected ex_read" by (rule service_run.calls [OF _ _ ex_read_call]) simp
  show "service_run streams_init ex_waiting" by (rule service_run.calls [OF run_connected _ ex_wait_call]) simp
qed

section \<open>Witnesses\<close>

theorem streams_service_safe_witness: "\<exists>w'. exec_call (Write 5 [66] ex_id False [1, 2, 3, 4, 5, 6]) ex_filled = Inr w'"
  by (rule streams_service_safe [OF run_filled]) simp

theorem streams_service_references_witness:
  "vs_ref_cnt ex_stream = int (card {k. \<exists>c. sv_client ex_connected k = Some c \<and> sc_stream c = 0}) + 1 \<and>
   vs_ref_cnt ex_stream \<noteq> 0"
proof -
  have "sv_stream ex_connected 0 = Some ex_stream" "(Delete_stream, 0) \<notin> set (sv_events ex_connected)" "\<not> vs_deleted ex_stream"
    by (simp_all add: ex_connected_sel) (simp add: ex_stream_def)
  with streams_service_references [OF run_connected, THEN conjunct1, rule_format, of 0 ex_stream] show ?thesis by simp
qed

theorem stream_delivers_in_order_witness:
  "map Some (received 1 (drop (length (sv_trace ex_connected)) (sv_trace ex_read))) =
     take 2 (drop 0 (accepted 0 (sv_trace ex_read)))"
  using stream_delivers_in_order [OF run_connected _ run_read(1), of 1 "ex_client 0 []" "ex_client 2 []"]
  by (simp add: ex_connected_sel ex_read_def ex_client_def ex_stream_def remote_read_def VS_ENABLE_REMOTE_READ_def)

theorem read_requests_wait_for_data_witness:
  "sc_pos (ex_client 0 [\<lparr>rr_token = [65], rr_size = 2\<rparr>]) = length (accepted 0 (sv_trace ex_waiting)) \<and> \<not> vs_eos_inp ex_stream"
  using read_requests_wait_for_data [OF run_read(2), of 1 "ex_client 0 [\<lparr>rr_token = [65], rr_size = 2\<rparr>]" ex_stream]
  by (simp add: ex_waiting_def ex_connected_sel ex_client_def)

theorem get_data_returns_next_bytes_witness:
  "\<exists>data eos w'. virtual_stream_get_data 0 2 ex_filled = Inr ((data, eos), w') \<and> data = [Some 1, Some 2] \<and> \<not> eos"
  using get_data_returns_next_bytes [OF run_filled, of 0 "ex_stream\<lparr>vs_buf := [Some 1, Some 2, Some 3, None, None], vs_buf_inp := 3, vs_pos := 3\<rparr>" 2]
  by (auto simp: ex_filled_def ex_stream_def consumed_def ring_len_def)

theorem add_data_takes_what_fits_witness:
  "\<exists>w'. virtual_stream_add_data 0 (map Some [1, 2, 3, 4, 5, 6]) False ex_connected = Inr ((None, 4), w') \<and>
    accepted 0 (sv_trace w') = map Some [1, 2, 3, 4]"
  using add_data_takes_what_fits [OF run_connected, of 0 ex_stream "[1, 2, 3, 4, 5, 6]" False]
  by (simp add: ex_connected_sel room_def ring_len_def ex_stream_def eval_nat_numeral)


section \<open>Requests that are not well-formed\<close>

text \<open>A request to read nothing fails an assertion when there is data: a client can stop the agent with it.\<close>

theorem read_of_nothing_fails:
  assumes "service_run streams_init w" "sv_client w k = Some c" "sv_stream w (sc_stream c) = Some v" "remote_read v" "sc_pos c < vs_pos v"
  shows "virtual_stream_read (sc_channel c) token (virtual_stream_get_id v) 0 w = Inl Assertion"
proof -
  from run_init [OF assms(1)] have inv: "service_inv {} w" "struct_inv w" by (simp_all add: service_inv_def sv_inv_def)
  have f: "find_client (virtual_stream_get_id v) (sc_channel c) w = Inr (Some k, w)"
    by (rule client_found [OF inv(2) assms(2,3) refl])
  have co: "client_ok False v c" by (rule service_client(1) [OF inv(1) assms(2,3)])
  then have e: "sc_read_requests c = []" "0 < ring_len v" "vs_pos v - sc_pos c \<le> ring_len v" using assms(4,5) by (auto simp: client_ok_def)
  have "ring_ok v" using inv_stream(4) [of "{}" "{}" w "sc_stream c" v] inv(1) assms(3) by (simp add: service_inv_def stream_ok_def)
  then have "(x mod vs_buf_len v) \<le> vs_buf_len v" for x by (simp add: ring_ok_def)
  then obtain pos where r: "read_window v (sc_pos c) 0 = (0, 0, pos, 0, 0)" using e(3) by (simp add: read_window_def Let_def)
  have s: "send_read_reply k token 0 w = Inl Assertion"
    using assms(2,3,5) e(2) by (simp add: send_read_reply_def r access_simps Let_def)
  have "client_for (virtual_stream_get_id v) (sc_channel c) remote_read w = Inr (Inr k, w)"
    using f assms(2-4) by (simp add: client_for_def access_simps)
  then show ?thesis using assms(2,3,5) e(1) s by (simp add: virtual_stream_read_def access_simps)
qed

text \<open>A client that declares more data than it sends makes the request keep memory that was not written; it goes into the stream later.\<close>

theorem write_declared_too_long:
  assumes "service_run streams_init w" "sv_client w k = Some c" "sv_stream w (sc_stream c) = Some v" "remote_write v"
    and "sc_write_requests c \<noteq> []" "length bs < 2 ^ 64" "unat sz = length bs + n"
  shows "virtual_stream_write (sc_channel c) token (virtual_stream_get_id v) sz (json_binary_text zc bs @ rest) w =
    (Inr (None, rest), w\<lparr>sv_client := (sv_client w)(k \<mapsto> c\<lparr>sc_write_requests := sc_write_requests c @
      [\<lparr>wr_token = strlcpy256 token, wr_data = map Some bs @ replicate n None, wr_offs = 0, wr_size = length bs + n, wr_eos = False\<rparr>]\<rparr>)\<rparr>)"
proof -
  from run_init [OF assms(1)] have inv: "service_inv {} w" "struct_inv w" by (simp_all add: service_inv_def sv_inv_def)
  have cf: "client_for (virtual_stream_get_id v) (sc_channel c) remote_write w = Inr (Inr k, w)"
    using client_found [OF inv(2) assms(2,3) refl] assms(2-4) by (simp add: client_for_def access_simps)
  from source_start [OF assms(6), of zc rest] obtain st inp where
    src: "json_read_binary_start (json_binary_text zc bs @ rest) = Inr (st, inp)" "source st inp bs rest" "length bs < write_fuel st inp" .
  have "1 < write_fuel st inp" if "bs \<noteq> []" using src(3) that by (cases bs) auto
  from write_loop_fill [OF src(2) _ this, of sz 0 "[]" n "sc_stream c" None w] assms(7) src(3) obtain st1 inp1 where
    l: "write_loop (write_fuel st inp) (sc_stream c) sz st None (Some (replicate (unat sz) None, 0)) 0 inp w =
      (Inr (None, Some (map Some bs @ replicate n None, length bs), 0, st1, inp1), w)" "source st1 inp1 [] rest" by auto
  show ?thesis
    using src(1) l(1) source_end [OF l(2)] assms(2,5,7) cf
    by (simp add: virtual_stream_write_def access_simps)
qed

end
