(* ===== verification/Stream_Commands.thy ===== *)
theory Stream_Commands
  imports Stream_Examples
begin

text \<open>
  The messages of the streams service as they are written to a channel, the handlers of its commands, and their registration with
  the protocol module.
\<close>

abbreviation STREAMS :: "byte list" where "STREAMS \<equiv> bytes_of ''Streams''"

section \<open>Messages\<close>

text \<open>The data of a reply to a read is in one or two pieces of the ring.\<close>

definition write_reply_data :: "'o out_class \<Rightarrow> byte list \<Rightarrow> byte list \<Rightarrow> 'o \<Rightarrow> exn + 'o" where
  "write_reply_data cl data1 data2 out =
     (if length data1 + length data2 > 0 then
        (let (st, out1) = json_write_binary_start cl (length data1 + length data2) out;
             (st1, out2) = json_write_binary_data cl st data1 out1;
             (st2, out3) = json_write_binary_data cl st1 data2 out2
         in case json_write_binary_end cl st2 out3 of Inl e \<Rightarrow> Inl e | Inr out4 \<Rightarrow> Inr (write_stream cl 0 out4))
      else Inr (write_stringz cl (bytes_of ''null'') out))"

text \<open>\<open>errno_of\<close> gives the number under which \<open>set_errno\<close> or \<open>set_fmt_errno\<close> registers an error; the report of a number is looked up by \<open>get_error_report\<close>.\<close>

definition write_msg ::
    "'o out_class \<Rightarrow> (sv_error \<Rightarrow> int) \<Rightarrow> (int \<Rightarrow> ErrorReport option) \<Rightarrow> stream_msg \<Rightarrow> 'o \<Rightarrow> exn + 'o" where
  "write_msg cl errno_of get_error_report m out =
     (let err = (\<lambda>e. case e of None \<Rightarrow> 0 | Some e \<Rightarrow> errno_of e) in
      case m of
        Stream_created type ident context_id \<Rightarrow>
          Inr (seqW [write_stringz cl (bytes_of ''E''), write_stringz cl STREAMS, write_stringz cl (bytes_of ''created''),
            json_write_string cl (Some type), write_stream cl 0, json_write_string cl (Some ident), write_stream cl 0,
            json_write_string cl context_id, write_stream cl 0, write_stream cl MARKER_EOM] out)
      | Stream_disposed type ident \<Rightarrow>
          Inr (seqW [write_stringz cl (bytes_of ''E''), write_stringz cl STREAMS, write_stringz cl (bytes_of ''disposed''),
            json_write_string cl (Some type), write_stream cl 0, json_write_string cl (Some ident), write_stream cl 0,
            write_stream cl MARKER_EOM] out)
      | Read_reply token data1 data2 error lost eos \<Rightarrow>
          (case write_reply_data cl data1 data2 (write_stringz cl token (write_stringz cl (bytes_of ''R'') out)) of
             Inl e \<Rightarrow> Inl e
           | Inr out1 \<Rightarrow>
               (case write_errno cl get_error_report (err error) out1 of
                  Inl e \<Rightarrow> Inl e
                | Inr out2 \<Rightarrow>
                    (case json_write_long cl (int lost) out2 of
                       Inl e \<Rightarrow> Inl e
                     | Inr out3 \<Rightarrow>
                         Inr (seqW [write_stream cl 0, json_write_boolean cl eos, write_stream cl 0, write_stream cl MARKER_EOM] out3))))
      | Result_reply token error \<Rightarrow>
          (case write_errno cl get_error_report (err error) (write_stringz cl token (write_stringz cl (bytes_of ''R'') out)) of
             Inl e \<Rightarrow> Inl e
           | Inr out1 \<Rightarrow> Inr (write_stream cl MARKER_EOM out1)))"

section \<open>Handlers\<close>

text \<open>
  A handler reads the arguments of its command and returns what is left of the input, or the exception; what it did to the service
  before an exception stays done.
\<close>

type_synonym 'cb sv_handler = "byte list \<Rightarrow> addr \<Rightarrow> istream \<Rightarrow> 'cb streams \<Rightarrow> (exn + istream) \<times> 'cb streams"

definition read_id :: "byte list reader" where
  "read_id = bindR (json_read_string (replicate 256 0)) (\<lambda>(n, arr). seqR (json_test_char MARKER_EOA) (retR (cstr arr)))"

definition reply_to :: "addr \<Rightarrow> stream_msg option \<Rightarrow> 'cb streams \<Rightarrow> 'cb streams" where
  "reply_to c m w = (case m of None \<Rightarrow> w | Some m \<Rightarrow> w\<lparr>sv_trace := sv_trace w @ [Sent c None m]\<rparr>)"

definition run_handler ::
    "'a reader \<Rightarrow> ('a \<Rightarrow> ('cb, sv_error option) sv_op) \<Rightarrow> (sv_error option \<Rightarrow> stream_msg option) \<Rightarrow>
      addr \<Rightarrow> istream \<Rightarrow> 'cb streams \<Rightarrow> (exn + istream) \<times> 'cb streams" where
  "run_handler args f reply c inp w =
     (case args inp of
        Inl e \<Rightarrow> (Inl e, w)
      | Inr (x, inp1) \<Rightarrow> (case f x w of Inl e \<Rightarrow> (Inl e, w) | Inr (err, w1) \<Rightarrow> (Inr inp1, reply_to c (reply err) w1)))"

definition id_arg :: "byte list reader" where
  "id_arg = bindR read_id (\<lambda>ident. seqR (json_test_char MARKER_EOM) (retR ident))"

definition result_reply :: "byte list \<Rightarrow> sv_error option \<Rightarrow> stream_msg option" where
  "result_reply token err = Some (Result_reply token err)"

text \<open>The reply to a read, a write or an end of stream that has failed; the others have been sent or are delayed.\<close>

definition error_reply :: "byte list \<Rightarrow> sv_error option \<Rightarrow> stream_msg option" where
  "error_reply token err = (case err of None \<Rightarrow> None | Some e \<Rightarrow> Some (Result_reply token err))"

definition command_subscribe :: "'cb sv_handler" where
  "command_subscribe token c = run_handler id_arg (virtual_stream_subscribe c) (result_reply token) c"

definition command_unsubscribe :: "'cb sv_handler" where
  "command_unsubscribe token c = run_handler id_arg (virtual_stream_unsubscribe c) (result_reply token) c"

definition command_read :: "'cb sv_handler" where
  "command_read token c =
     run_handler (bindR read_id (\<lambda>ident. bindR json_read_ulong (\<lambda>sz.
         seqR (json_test_char MARKER_EOA) (seqR (json_test_char MARKER_EOM) (retR (ident, sz))))))
       (\<lambda>(ident, sz). virtual_stream_read c token ident (unat sz))
       (\<lambda>err. case err of None \<Rightarrow> None | Some e \<Rightarrow> Some (Read_reply token [] [] err 0 False)) c"

definition command_write :: "'cb sv_handler" where
  "command_write token c inp w =
     (case bindR read_id (\<lambda>ident. bindR json_read_long (\<lambda>sz. seqR (json_test_char MARKER_EOA) (retR (ident, sz)))) inp of
        Inl e \<Rightarrow> (Inl e, w)
      | Inr ((ident, sz), inp1) \<Rightarrow>
          (case virtual_stream_write c token ident (word_of_int sz) inp1 w of
             (Inl e, w1) \<Rightarrow> (Inl e, w1)
           | (Inr (err, inp2), w1) \<Rightarrow>
               (case seqR (json_test_char MARKER_EOA) (json_test_char MARKER_EOM) inp2 of
                  Inl e \<Rightarrow> (Inl e, w1)
                | Inr (_, inp3) \<Rightarrow> (Inr inp3, reply_to c (error_reply token err) w1))))"

definition command_eos :: "'cb sv_handler" where
  "command_eos token c = run_handler id_arg (virtual_stream_eos c token) (error_reply token) c"

definition command_connect :: "'cb sv_handler" where
  "command_connect token c = run_handler id_arg (virtual_stream_connect c) (result_reply token) c"

definition command_disconnect :: "'cb sv_handler" where
  "command_disconnect token c = run_handler id_arg (virtual_stream_disconnect c) (result_reply token) c"

section \<open>The service on its channels\<close>

datatype stream_command = Cmd_subscribe | Cmd_unsubscribe | Cmd_read | Cmd_write | Cmd_eos | Cmd_connect | Cmd_disconnect

fun stream_handler :: "stream_command \<Rightarrow> 'cb sv_handler" where
  "stream_handler Cmd_subscribe = command_subscribe"
| "stream_handler Cmd_unsubscribe = command_unsubscribe"
| "stream_handler Cmd_read = command_read"
| "stream_handler Cmd_write = command_write"
| "stream_handler Cmd_eos = command_eos"
| "stream_handler Cmd_connect = command_connect"
| "stream_handler Cmd_disconnect = command_disconnect"

definition stream_commands :: "addr \<Rightarrow> (addr \<times> byte list \<times> byte list \<times> stream_command) list" where
  "stream_commands p = [(p, STREAMS, bytes_of ''subscribe'', Cmd_subscribe), (p, STREAMS, bytes_of ''unsubscribe'', Cmd_unsubscribe),
     (p, STREAMS, bytes_of ''read'', Cmd_read), (p, STREAMS, bytes_of ''write'', Cmd_write), (p, STREAMS, bytes_of ''eos'', Cmd_eos),
     (p, STREAMS, bytes_of ''connect'', Cmd_connect), (p, STREAMS, bytes_of ''disconnect'', Cmd_disconnect)]"

definition ini_streams_service :: "addr \<Rightarrow> ('o, stream_command, 'x, unit) proto_op" where
  "ini_streams_service p = add_command_handlers (stream_commands p)"

text \<open>
  The messages that an operation of the service has sent are written to their channels, in order. They do not depend on what is
  written, so it makes no difference that the model writes them when the operation has ended.
\<close>

fun write_msgs ::
    "'o out_class \<Rightarrow> (sv_error \<Rightarrow> int) \<Rightarrow> (int \<Rightarrow> ErrorReport option) \<Rightarrow> 'cb stream_action list \<Rightarrow> ('o, 'h, 'x, unit) proto_op" where
  "write_msgs cl errno_of rep [] = retR ()"
| "write_msgs cl errno_of rep (Sent c k m # as) =
     bindR (getW (\<lambda>w. write_msg cl errno_of rep m (ch_out (w_channels w c)))) (\<lambda>r.
       case r of Inl e \<Rightarrow> raiseR e | Inr out \<Rightarrow> seqR (outW c (\<lambda>_. out)) (write_msgs cl errno_of rep as))"
| "write_msgs cl errno_of rep (a # as) = write_msgs cl errno_of rep as"

definition call_stream_command ::
    "'o out_class \<Rightarrow> (sv_error \<Rightarrow> int) \<Rightarrow> (int \<Rightarrow> ErrorReport option) \<Rightarrow> stream_command \<Rightarrow> byte list \<Rightarrow> addr \<Rightarrow>
      ('o, stream_command, 'cb streams, unit) proto_op" where
  "call_stream_command cl errno_of rep h token c w =
     (case stream_handler h token c (ch_inp (w_channels w c)) (w_client w) of
        (Inl e, _) \<Rightarrow> Inl e
      | (Inr inp, sv) \<Rightarrow>
          write_msgs cl errno_of rep (drop (length (sv_trace (w_client w))) (sv_trace sv))
            (mod_channel c (\<lambda>ch. ch\<lparr>ch_inp := inp\<rparr>) (w\<lparr>w_client := sv\<rparr>)))"

end
