(* ===== verification/Stream_Messages.thy ===== *)
theory Stream_Messages
  imports Stream_Commands
begin

text \<open>
  What the messages of the streams service are on a channel, and the commands of a peer from the channel through the protocol module
  to the service and back.
\<close>

section \<open>The text of a message\<close>

definition errno_text :: "(int \<Rightarrow> ErrorReport option) \<Rightarrow> int \<Rightarrow> int list" where
  "errno_text rep n = (if n = 0 then [] else case rep n of None \<Rightarrow> items_of (bytes_of ''null'') | Some r \<Rightarrow> error_text r) @ [0]"

definition msg_head :: "string \<Rightarrow> byte list \<Rightarrow> int list" where
  "msg_head t x = stringz (bytes_of t) @ stringz x"

definition msg_body :: "bool \<Rightarrow> (sv_error \<Rightarrow> int) \<Rightarrow> (int \<Rightarrow> ErrorReport option) \<Rightarrow> stream_msg \<Rightarrow> int list" where
  "msg_body zc errno_of rep m =
     (let err = (\<lambda>e. errno_text rep (case e of None \<Rightarrow> 0 | Some e \<Rightarrow> errno_of e)) in
      case m of
        Stream_created type ident ctx \<Rightarrow> msg_head ''E'' STREAMS @ stringz (bytes_of ''created'') @ json_string type @ [0] @
          json_string ident @ [0] @ (case ctx of None \<Rightarrow> items_of (bytes_of ''null'') | Some s \<Rightarrow> json_string s) @ [0]
      | Stream_disposed type ident \<Rightarrow> msg_head ''E'' STREAMS @ stringz (bytes_of ''disposed'') @ json_string type @ [0] @
          json_string ident @ [0]
      | Read_reply token d1 d2 e lost eos \<Rightarrow> msg_head ''R'' token @
          (if d1 @ d2 = [] then items_of (bytes_of ''null'') else json_binary_text zc (d1 @ d2)) @ [0] @ err e @
          dec_digits lost @ [0] @ str (if eos then ''true'' else ''false'') @ [0]
      | Result_reply token e \<Rightarrow> msg_head ''R'' token @ err e)"

definition codes_ok :: "(int \<Rightarrow> ErrorReport option) \<Rightarrow> bool" where
  "codes_ok rep \<longleftrightarrow> (\<forall>n r. rep n = Some r \<longrightarrow> INT64_MIN < er_code r \<and> er_code r \<le> INT64_MAX)"

definition msg_ok :: "stream_msg \<Rightarrow> bool" where
  "msg_ok m \<longleftrightarrow> (case m of Read_reply token d1 d2 e lost eos \<Rightarrow> length (d1 @ d2) < 2 ^ 63 \<and> lost < 2 ^ 63 | _ \<Rightarrow> True)"

context output_stream begin

lemma writesE_bind:
  "writesE v xs \<Longrightarrow> writesE w ys \<Longrightarrow> writesE (\<lambda>out. case v out of Inl e \<Rightarrow> Inl e | Inr out1 \<Rightarrow> w out1) (xs @ ys)"
  unfolding writesE_def by fastforce

lemma writesE_then: "writes v xs \<Longrightarrow> writesE w ys \<Longrightarrow> writesE (\<lambda>out. w (v out)) (xs @ ys)"
  by (fastforce simp: writesE_def writes_def)

lemma writesE_errno:
  assumes "codes_ok rep"
  shows "writesE (write_errno cl rep n) (errno_text rep n)"
proof (cases "n = 0")
  case True
  have "writesE (\<lambda>out. Inr (write_stream cl 0 out)) [0]" by (rule writesE_Inr [OF writes_int]) simp_all
  then show ?thesis using True by (simp add: write_errno_def [abs_def] errno_text_def)
next
  case False
  have "writesE (write_error_object cl (rep n)) (case rep n of None \<Rightarrow> items_of (bytes_of ''null'') | Some r \<Rightarrow> error_text r)"
  proof (cases "rep n")
    case None
    then show ?thesis using writesE_Inr [OF writes_string] by (simp add: write_error_object_def [abs_def])
  next
    case (Some r)
    then show ?thesis using writesE_error_object [of r] assms by (auto simp: codes_ok_def)
  qed
  from writesE_bind [OF this writesE_Inr [OF writes_int [of 0]]] False show ?thesis
    by (simp add: write_errno_def [abs_def] errno_text_def)
qed

lemma write_reply_data_text:
  assumes inv: "inv out" and len: "length (d1 @ d2) < 18446744073709551616"
  shows "\<exists>out'. write_reply_data cl d1 d2 out = Inr out' \<and> inv out' \<and> items out' = items out @
    (if d1 @ d2 = [] then items_of (bytes_of ''null'') else json_binary_text (supports_zero_copy cl out) (d1 @ d2)) @ [0]"
proof (cases "d1 @ d2 = []")
  case True
  then show ?thesis using writesD [OF writes_stringz inv] by (simp add: write_reply_data_def)
next
  case False
  obtain st out1 where s: "json_write_binary_start cl (length d1 + length d2) out = (st, out1)"
    by (cases "json_write_binary_start cl (length d1 + length d2) out")
  obtain st1 out2 where c1: "json_write_binary_data cl st d1 out1 = (st1, out2)" by (cases "json_write_binary_data cl st d1 out1")
  obtain st2 out3 where c2: "json_write_binary_data cl st1 d2 out2 = (st2, out3)" by (cases "json_write_binary_data cl st1 d2 out2")
  have "json_write_binary_chunks cl st [d1, d2] out1 = (st2, out3)" using c1 c2 by simp
  from binary_chunks_text [OF inv _ _ _ this, of "length d1 + length d2"] len s obtain out4 where
    o: "json_write_binary_end cl st2 out3 = Inr out4" "inv out4"
      "items out4 = items out @ json_binary_text (supports_zero_copy cl out) (d1 @ d2)" by auto
  have "write_reply_data cl d1 d2 out = Inr (write_stream cl 0 out4)"
    using False by (auto simp: write_reply_data_def s c1 c2 o(1))
  with writesD [OF writes_int [of 0] o(2)] o(3) show ?thesis unfolding if_not_P [OF False] by simp
qed

lemma writes_reply: "writes (\<lambda>out. write_stringz cl token (write_stringz cl (bytes_of ''R'') out)) (msg_head ''R'' token)"
  using writes_reply_head [of token] by (simp add: msg_head_def stringz_def)

lemma write_msg_text:
  assumes rep: "codes_ok rep" and m: "msg_ok m" and eom: "ok MARKER_EOM" and inv: "inv out"
  shows "\<exists>zc out'. write_msg cl errno_of rep m out = Inr out' \<and> inv out' \<and>
    items out' = items out @ msg_body zc errno_of rep m @ [MARKER_EOM]"
proof (cases m)
  case (Stream_created type ident ctx)
  have "writes (json_write_string cl ctx) (case ctx of None \<Rightarrow> items_of (bytes_of ''null'') | Some s \<Rightarrow> json_string s)"
    using writes_string writes_json_string by (cases ctx) (simp_all add: json_write_string_def)
  then have "writes (seqW [write_stringz cl (bytes_of ''E''), write_stringz cl STREAMS, write_stringz cl (bytes_of ''created''),
      json_write_string cl (Some type), write_stream cl 0, json_write_string cl (Some ident), write_stream cl 0,
      json_write_string cl ctx, write_stream cl 0, write_stream cl MARKER_EOM]) (msg_body True errno_of rep m @ [MARKER_EOM])"
    by (intro writes_seqW1 [OF writes_stringz writes_seqW1 [OF writes_stringz writes_seqW1 [OF writes_stringz
        writes_seqW1 [OF writes_json_string writes_seqW1 [OF writes_int writes_seqW1 [OF writes_json_string
        writes_seqW1 [OF writes_int writes_seqW1 [OF _ writes_seqW1 [OF writes_int writes_Cons_last [OF writes_write_stream [OF eom]]]]]]]]]]])
      (simp_all add: Stream_created msg_body_def msg_head_def stringz_def)
  from writesD [OF this inv] show ?thesis
    unfolding write_msg_def Let_def Stream_created stream_msg.case by blast
next
  case (Stream_disposed type ident)
  have "writes (seqW [write_stringz cl (bytes_of ''E''), write_stringz cl STREAMS, write_stringz cl (bytes_of ''disposed''),
      json_write_string cl (Some type), write_stream cl 0, json_write_string cl (Some ident), write_stream cl 0,
      write_stream cl MARKER_EOM]) (msg_body True errno_of rep m @ [MARKER_EOM])"
    by (intro writes_seqW1 [OF writes_stringz writes_seqW1 [OF writes_stringz writes_seqW1 [OF writes_stringz
        writes_seqW1 [OF writes_json_string writes_seqW1 [OF writes_int writes_seqW1 [OF writes_json_string
        writes_seqW1 [OF writes_int writes_Cons_last [OF writes_write_stream [OF eom]]]]]]]]])
      (simp_all add: Stream_disposed msg_body_def msg_head_def stringz_def)
  from writesD [OF this inv] show ?thesis
    unfolding write_msg_def Let_def Stream_disposed stream_msg.case by blast
next
  case (Result_reply token e)
  let ?n = "case e of None \<Rightarrow> 0 | Some e \<Rightarrow> errno_of e"
  from writesE_bind [OF writesE_then [OF writes_reply writesE_errno [OF rep]] writesE_Inr [OF writes_write_stream [OF eom]]]
  have "writesE (write_msg cl errno_of rep m) (msg_body True errno_of rep m @ [MARKER_EOM])"
    by (simp add: Result_reply write_msg_def [abs_def] msg_body_def)
  from writesE_D [OF this inv] show ?thesis by blast
next
  case (Read_reply token d1 d2 e lost eos)
  define out1 where "out1 = write_stringz cl token (write_stringz cl (bytes_of ''R'') out)"
  have o1: "inv out1" "items out1 = items out @ msg_head ''R'' token" using writesD [OF writes_reply inv] by (simp_all add: out1_def)
  from write_reply_data_text [OF o1(1), of d1 d2] m obtain out2 where
    o2: "write_reply_data cl d1 d2 out1 = Inr out2" "inv out2" "items out2 = items out1 @
      (if d1 @ d2 = [] then items_of (bytes_of ''null'') else json_binary_text (supports_zero_copy cl out1) (d1 @ d2)) @ [0]"
    by (auto simp: msg_ok_def Read_reply)
  let ?n = "case e of None \<Rightarrow> 0 | Some e \<Rightarrow> errno_of e"
  let ?tail = "seqW [write_stream cl 0, json_write_boolean cl eos, write_stream cl 0, write_stream cl MARKER_EOM]"
  have "writes ?tail (0 # str (if eos then ''true'' else ''false'') @ [0, MARKER_EOM])"
    by (rule writes_seqW1 [OF writes_int writes_seqW1 [OF writes_boolean writes_seqW1 [OF writes_int
        writes_Cons_last [OF writes_write_stream [OF eom]]]]]) simp_all
  from writesE_bind [OF writesE_errno [OF rep, of ?n] writesE_bind [OF writesE_long [of "int lost"] writesE_Inr [OF this]]] m
  have "writesE (\<lambda>out2. case write_errno cl rep ?n out2 of Inl e \<Rightarrow> Inl e | Inr out3 \<Rightarrow>
      (case json_write_long cl (int lost) out3 of Inl e \<Rightarrow> Inl e | Inr out4 \<Rightarrow> Inr (?tail out4)))
    (errno_text rep ?n @ dec_int (int lost) @ 0 # str (if eos then ''true'' else ''false'') @ [0, MARKER_EOM])"
    by (simp add: msg_ok_def Read_reply)
  from writesE_D [OF this o2(2)] o2 o1 show ?thesis
    unfolding Read_reply write_msg_def Let_def stream_msg.case out1_def [symmetric]
    by (intro exI [of _ "supports_zero_copy cl out1"]) (auto simp: msg_body_def dec_int_def)
qed

end

section \<open>Bytes\<close>

definition byte_items :: "int list \<Rightarrow> bool" where
  "byte_items xs \<longleftrightarrow> (\<forall>x \<in> set xs. 0 \<le> x \<and> x < 256)"

lemma byte_items_simps [simp]:
  "byte_items []" "byte_items (x # xs) \<longleftrightarrow> 0 \<le> x \<and> x < 256 \<and> byte_items xs" "byte_items (xs @ ys) \<longleftrightarrow> byte_items xs \<and> byte_items ys"
  by (auto simp: byte_items_def)

lemma byte_items_items [simp]: "byte_items (items_of bs)"
  by (auto simp: byte_items_def items_of_def uint_byte_range)

lemma byte_items_marker: "byte_items xs \<Longrightarrow> MARKER_EOM \<notin> set xs \<and> MARKER_EOS \<notin> set xs"
  by (force simp: byte_items_def)

lemma byte_items_stringz [simp]: "byte_items (stringz bs)"
  by (simp add: stringz_def)

lemma byte_items_str [simp]: "byte_items (str s)"
  using of_char_int_range by (auto simp: byte_items_def str_def)

lemma byte_items_digits [simp]: "byte_items (dec_digits n)"
  using dec_digits_range by (fastforce simp: byte_items_def)

lemma byte_items_dec_int [simp]: "byte_items (dec_int n)"
  by (simp add: dec_int_def)

lemma byte_items_escape: "byte_items (json_escape b)"
proof -
  have "0 \<le> uint b" "0 \<le> drop_bit 4 (uint b)" by simp_all
  with hex_digit_range [of "uint b"] hex_digit_range [of "drop_bit 4 (uint b)"] uint_byte_range [of b]
  show ?thesis by (auto simp: json_escape_def Let_def)
qed

lemma byte_items_concat: "(\<And>x. x \<in> set xs \<Longrightarrow> byte_items (f x)) \<Longrightarrow> byte_items (concat (map f xs))"
  by (induction xs) auto

lemma byte_items_json_string [simp]: "byte_items (json_string s)"
  by (simp add: json_string_def byte_items_concat byte_items_escape)

lemma byte_items_binary [simp]: "byte_items (json_binary_text zc bs)"
  by (simp add: json_binary_text_def)

lemma byte_items_join: "(\<And>x. x \<in> set xs \<Longrightarrow> byte_items x) \<Longrightarrow> byte_items (join xs)"
  by (cases xs) (auto simp: join_Cons intro!: byte_items_concat [where f = "\<lambda>y. 44 # y", simplified])

lemma byte_items_error_text [simp]: "byte_items (error_text r)"
proof -
  have "byte_items (field_text f)" if "f \<in> set (error_fields r)" for f
    using that by (auto simp: error_fields_def field_text_def intro!: byte_items_join split: if_splits option.splits)
  then show ?thesis by (auto simp: error_text_def intro!: byte_items_join)
qed

lemma byte_items_msg: "byte_items (msg_body zc errno_of rep m)"
  by (cases m) (simp_all add: msg_body_def msg_head_def errno_text_def split: option.split)

section \<open>Messages on their channels\<close>

lemma write_reply_data_ok: "\<exists>out'. write_reply_data item_class d1 d2 out = Inr out'"
proof -
  have enc: "wb_encoding (fst (json_write_binary_data item_class st d o1)) = wb_encoding st"
    "wb_size_start (fst (json_write_binary_data item_class st d o1)) = wb_size_start st"
    "wb_encoding st = ENCODING_BINARY \<Longrightarrow> wb_size_done (fst (json_write_binary_data item_class st d o1)) = wb_size_done st + length d"
    for st d o1
    by (auto simp: json_write_binary_data_def Let_def split: if_splits prod.splits)
  show ?thesis
  proof (cases "length d1 + length d2 = 0")
    case False
    define x where "x = json_write_binary_start item_class (length d1 + length d2) out"
    define y where "y = json_write_binary_data item_class (fst x) d1 (snd x)"
    define z where "z = json_write_binary_data item_class (fst y) d2 (snd y)"
    have "wb_size_start (fst x) = length d1 + length d2" "wb_size_done (fst x) = 0"
      by (simp_all add: x_def json_write_binary_start_def Let_def)
    then have "\<exists>o4. json_write_binary_end item_class (fst z) (snd z) = Inr o4"
      using enc [of "fst y" d2 "snd y"] enc [of "fst x" d1 "snd x"]
      by (auto simp: json_write_binary_end_def simp flip: y_def z_def)
    then show ?thesis using False
      by (auto simp: write_reply_data_def Let_def split_def simp flip: x_def y_def z_def)
  qed (simp add: write_reply_data_def)
qed

lemma write_msg_ok:
  assumes "codes_ok rep"
  shows "\<exists>out'. write_msg item_class errno_of rep m out = Inr out'"
proof -
  have e: "\<exists>out'. write_errno item_class rep n out = Inr out'" for n out
    using item.writesE_D [OF item.writesE_errno [OF assms] TrueI, of n out] by blast
  have l: "\<exists>out'. json_write_long item_class (int n) out = Inr out'" for n out
    by (simp add: json_write_long_def)
  show ?thesis
  proof (cases m)
    case (Read_reply token d1 d2 err lost eos)
    obtain o1 where o1: "write_reply_data item_class d1 d2 (write_stringz item_class token (write_stringz item_class (bytes_of ''R'') out)) = Inr o1"
      using write_reply_data_ok by blast
    obtain o2 where o2: "write_errno item_class rep (case err of None \<Rightarrow> 0 | Some e \<Rightarrow> errno_of e) o1 = Inr o2" using e by blast
    obtain o3 where "json_write_long item_class (int lost) o2 = Inr o3" using l by blast
    with o1 o2 show ?thesis unfolding write_msg_def Let_def Read_reply by simp
  next
    case (Result_reply token err)
    obtain o1 where "write_errno item_class rep (case err of None \<Rightarrow> 0 | Some e \<Rightarrow> errno_of e)
        (write_stringz item_class token (write_stringz item_class (bytes_of ''R'') out)) = Inr o1" using e by blast
    then show ?thesis unfolding write_msg_def Let_def Result_reply by simp
  qed (simp_all add: write_msg_def)
qed

lemma write_msgs_ok:
  assumes "codes_ok rep"
  shows "\<exists>w'. write_msgs item_class errno_of rep as w = Inr ((), w') \<and> w_client w' = w_client w \<and>
    (\<forall>c. ch_inp (w_channels w' c) = ch_inp (w_channels w c))"
proof (induction as arbitrary: w)
  case (Cons a as)
  show ?case
  proof (cases a)
    case (Sent c k m)
    obtain o' where o: "write_msg item_class errno_of rep m (ch_out (w_channels w c)) = Inr o'" using write_msg_ok [OF assms] by blast
    from Cons [of "mod_channel c (\<lambda>ch. ch\<lparr>ch_out := o'\<rparr>) w"] show ?thesis
      by (auto simp: Sent reader_simps o)
  qed (use Cons in \<open>simp_all add: reader_simps\<close>)
qed (simp add: reader_simps)

lemma add_command_handlers_client: "add_command_handlers rs w = Inr ((), w') \<Longrightarrow> w_client w' = w_client w"
  by (induction rs arbitrary: w rule: add_command_handlers.induct)
    (auto simp: reader_simps add_command_handler2_def split: sum.splits)

lemma ini_streams_service_ok: "\<exists>w'. ini_streams_service p (protocol_statics w) = Inr ((), w')"
proof -
  have ok: "\<exists>w'. add_command_handlers rs w = Inr ((), w')" if "\<forall>(q, s, n, h) \<in> set rs. s = STREAMS" for rs w
    using that
  proof (induction rs arbitrary: w rule: add_command_handlers.induct)
    case (2 q s n h rs)
    have "\<exists>v. add_command_handler2 q s n h w = Inr ((), v)"
      using 2(2) by (auto simp: add_command_handler2_def protocol_get_service_def bytes_of_def split: sum.splits)
    with 2 show ?case by (auto simp: reader_simps)
  qed (simp add: reader_simps)
  show ?thesis unfolding ini_streams_service_def by (rule ok) (simp add: stream_commands_def)
qed

section \<open>Arguments\<close>

lemma test_EOA [simp]: "json_test_char MARKER_EOA (MARKER_EOA # rest) = Inr ((), rest)"
  by (cases rest) (simp_all add: json_test_char_def reader_simps check_char_def isspace_def)

lemma test_EOM [simp]: "json_test_char MARKER_EOM (MARKER_EOM # rest) = Inr ((), rest)"
  by (simp add: json_test_char_def reader_simps check_char_def)

lemma read_id_text: "name_ok ident \<Longrightarrow> read_id (json_string ident @ 0 # rest) = Inr (ident, rest)"
proof -
  assume "name_ok ident"
  then obtain i arr where "json_read_string (replicate 256 0) (json_string ident @ 0 # rest) = Inr ((i, arr), 0 # rest)" "cstr arr = ident"
    by (rule json_read_name)
  then show ?thesis
    by (simp add: read_id_def reader_simps)
qed

lemma short_stream_id: "name_ok (virtual_stream_get_id v)"
proof -
  have d: "length (dec_digits n) < 250" if "n < 10 ^ 20" for n
    using dec_digits_length [of n 19] that by simp
  have "unat (vs_id v) < 10 ^ 20" using unsigned_less [of "vs_id v", where ?'a = nat] by simp
  from d [OF this] have "length (virtual_stream_get_id v) < 256" by (simp add: virtual_stream_get_id_def bytes_of_def)
  moreover have "0 \<notin> set (token_text (ucast (vs_id v)))" using token_digit [of 0 "ucast (vs_id v)"] by auto
  ultimately show ?thesis by (simp add: name_ok_def id_text bytes_of_def)
qed

section \<open>Properties\<close>

text \<open>C20: whatever the streams service sends is one message: bytes, starting with the type of the message and its token or service, and
  one end of message behind them. No error number, string or data makes the writer fail.\<close>

theorem stream_messages_well_formed:
  assumes "codes_ok rep" "msg_ok m"
  shows "\<exists>out' body. write_msg item_class errno_of rep m \<lparr>is_zero_copy = zc, is_items = []\<rparr> = Inr out' \<and>
    is_items out' = body @ [MARKER_EOM] \<and> byte_items body \<and>
    (\<exists>t x args. body = stringz [t] @ stringz x @ args \<and>
      (case m of Stream_created _ _ _ \<Rightarrow> t = 69 \<and> x = STREAMS | Stream_disposed _ _ \<Rightarrow> t = 69 \<and> x = STREAMS
       | Read_reply token _ _ _ _ _ \<Rightarrow> t = 82 \<and> x = token | Result_reply token _ \<Rightarrow> t = 82 \<and> x = token))"
proof -
  from item.write_msg_text [OF assms item_ok_EOM, where out = "\<lparr>is_zero_copy = zc, is_items = []\<rparr>" and errno_of = errno_of] obtain zc' out' where
    o: "write_msg item_class errno_of rep m \<lparr>is_zero_copy = zc, is_items = []\<rparr> = Inr out'"
      "is_items out' = msg_body zc' errno_of rep m @ [MARKER_EOM]" by auto
  moreover have "\<exists>t x args. msg_body zc' errno_of rep m = stringz [t] @ stringz x @ args \<and>
      (case m of Stream_created _ _ _ \<Rightarrow> t = 69 \<and> x = STREAMS | Stream_disposed _ _ \<Rightarrow> t = 69 \<and> x = STREAMS
       | Read_reply token _ _ _ _ _ \<Rightarrow> t = 82 \<and> x = token | Result_reply token _ \<Rightarrow> t = 82 \<and> x = token)"
    by (cases m) (auto simp: msg_body_def msg_head_def)
  ultimately show ?thesis using byte_items_msg by blast
qed

theorem stream_messages_well_formed_witness:
  "\<exists>out' body. write_msg item_class (\<lambda>_. 5) (\<lambda>_. None) (Read_reply [65] [1, 2] [3] (Some (Err ERR_EOF)) 0 True)
      \<lparr>is_zero_copy = True, is_items = []\<rparr> = Inr out' \<and> is_items out' = body @ [MARKER_EOM] \<and> byte_items body"
  using stream_messages_well_formed [of "\<lambda>_. None" "Read_reply [65] [1, 2] [3] (Some (Err ERR_EOF)) 0 True" "\<lambda>_. 5" True]
  by (fastforce simp: codes_ok_def msg_ok_def)


definition ex_world :: "(item_stream, stream_command, unit streams) world" where
  "ex_world = \<lparr>w_messages = [], w_events = [], w_replies = [], w_services = [], w_ini_done = False,
     w_proto_cnt = 0, w_agent_id = None,
     w_protocols = (\<lambda>_. \<lparr>p_id = 0, p_lock_cnt = 1, p_tokenid = 1, p_default_handler = None\<rparr>),
     w_channels = (\<lambda>_. \<lparr>ch_inp = [], ch_out = \<lparr>is_zero_copy = False, is_items = []\<rparr>, ch_zero_copy = False,
       ch_disable_zero_copy = False, ch_protocol = 32, ch_peer_services = Some [], ch_congestion_level = 0,
       ch_state = ChannelStateConnected\<rparr>), w_failed = [], w_client = ex_connected\<rparr>"

definition ex_env :: "(item_stream, stream_command, unit streams) proto_env" where
  "ex_env = \<lparr>call_command = call_stream_command item_class (\<lambda>_. 5) (\<lambda>_. None), call_event = (\<lambda>_ _. retR ()),
     call_reply = (\<lambda>_ _ _. retR ()), call_progress = (\<lambda>_ _. retR ()), call_default = (\<lambda>_ _ _. retR ()),
     call_opened = (\<lambda>_. retR ()), call_notify_closed = (\<lambda>_. retR ()), call_closed = (\<lambda>_ _ w. w)\<rparr>"


end
