(* ===== verification/Sigsets.thy ===== *)
theory Sigsets
  imports Prelude
begin

text \<open>
  framework/sigsets.c: sets of signals, in both configurations: a sorted array (ENABLE_UnlimitedSignals, the default), and
  the bits of an unsigned long. The locale \<open>signal_set\<close> is what the agent relies on; both are interpretations of it.

  A cell of the array that was allocated and not written is \<open>None\<close>. Positions are natural numbers; the sum that may wrap
  in the search is written out.
\<close>

section \<open>Sorted arrays\<close>

definition bindE :: "exn + 'a \<Rightarrow> ('a \<Rightarrow> exn + 'b) \<Rightarrow> exn + 'b" where
  "bindE r f = (case r of Inl e \<Rightarrow> Inl e | Inr x \<Rightarrow> f x)"

lemma bindE_simps [simp]: "bindE (Inr x) f = f x" "bindE (Inl e) f = Inl e"
  by (simp_all add: bindE_def)

record SigSet =
  ss_cnt :: nat
  ss_max :: nat
  ss_buf :: "u32 option list"

text \<open>One cell, and \<open>memmove\<close> inside a block.\<close>

definition get_cell :: "'a option list \<Rightarrow> nat \<Rightarrow> exn + 'a" where
  "get_cell buf k =
     (if k < length buf then (case buf ! k of None \<Rightarrow> Inl Undefined | Some v \<Rightarrow> Inr v) else Inl Out_of_bounds)"

definition move_cells :: "nat \<Rightarrow> nat \<Rightarrow> nat \<Rightarrow> 'a option list \<Rightarrow> exn + 'a option list" where
  "move_cells dst src n buf =
     (if length buf < dst + n \<or> length buf < src + n then Inl Out_of_bounds
      else Inr (take dst buf @ take n (drop src buf) @ drop (dst + n) buf))"

partial_function (option) search_loop :: "u32 option list \<Rightarrow> u32 \<Rightarrow> nat \<Rightarrow> nat \<Rightarrow> (exn + nat) option" where
  "search_loop buf b l h =
     (if l < h then
        let k = (l + h) mod 2 ^ 32 div 2 in
        case get_cell buf k of Inl e \<Rightarrow> Some (Inl e)
        | Inr v \<Rightarrow> if b < v then search_loop buf b l k
                  else if v < b then search_loop buf b (k + 1) h
                  else Some (Inr k)
      else Some (Inr l))"

definition search :: "SigSet \<Rightarrow> u32 \<Rightarrow> exn + nat" where
  "search s b = (case search_loop (ss_buf s) b 0 (ss_cnt s) of None \<Rightarrow> Inl Diverges | Some r \<Rightarrow> r)"

definition sigset_is_empty :: "SigSet \<Rightarrow> bool" where
  "sigset_is_empty s \<longleftrightarrow> ss_cnt s = 0"

definition sigset_get :: "SigSet \<Rightarrow> u32 \<Rightarrow> exn + bool" where
  "sigset_get s b =
     bindE (search s b) (\<lambda>n.
       if n < ss_cnt s then bindE (get_cell (ss_buf s) n) (\<lambda>v. Inr (v = b)) else Inr False)"

text \<open>The result and the signal that \<open>bit\<close> points to afterwards.\<close>

definition sigset_get_next :: "SigSet \<Rightarrow> u32 \<Rightarrow> exn + bool \<times> u32" where
  "sigset_get_next s b =
     bindE (search s (b + 1)) (\<lambda>n.
       if ss_cnt s \<le> n then Inr (False, b)
       else bindE (get_cell (ss_buf s) n) (\<lambda>v. Inr (True, v)))"

definition sigset_set :: "SigSet \<Rightarrow> u32 \<Rightarrow> bool \<Rightarrow> exn + SigSet" where
  "sigset_set s b value =
     bindE (search s b) (\<lambda>n.
       if \<not> (0 < b \<or> b = 0 \<and> \<not> value) then Inl Assertion
       else if \<not> n \<le> ss_cnt s then Inl Assertion
       else bindE (if n < ss_cnt s then bindE (get_cell (ss_buf s) n) (\<lambda>v. Inr (v = b)) else Inr False) (\<lambda>found.
         if value then
           if found then Inr s
           else
             let s = (if ss_max s \<le> ss_cnt s
                        then s\<lparr>ss_max := ss_max s + 8, ss_buf := ss_buf s @ replicate (ss_max s + 8 - length (ss_buf s)) None\<rparr>
                        else s) in
             bindE (move_cells (n + 1) n (ss_cnt s - n) (ss_buf s)) (\<lambda>buf.
               if n < length buf then Inr (s\<lparr>ss_buf := buf[n := Some b], ss_cnt := ss_cnt s + 1\<rparr>)
               else Inl Out_of_bounds)
         else
           if \<not> found then Inr s
           else bindE (move_cells n (n + 1) (ss_cnt s - n - 1) (ss_buf s)) (\<lambda>buf.
             Inr (s\<lparr>ss_buf := buf, ss_cnt := ss_cnt s - 1\<rparr>))))"

definition sigset_copy :: "SigSet \<Rightarrow> exn + SigSet" where
  "sigset_copy src =
     (if length (ss_buf src) < ss_cnt src then Inl Out_of_bounds
      else Inr \<lparr>ss_cnt = ss_cnt src, ss_max = ss_cnt src, ss_buf = take (ss_cnt src) (ss_buf src)\<rparr>)"

definition sigset_clear :: "SigSet \<Rightarrow> SigSet" where
  "sigset_clear s = \<lparr>ss_cnt = 0, ss_max = 0, ss_buf = []\<rparr>"

section \<open>Bits of an unsigned long\<close>

definition sigset_is_empty_32 :: "u64 \<Rightarrow> bool" where
  "sigset_is_empty_32 s \<longleftrightarrow> s = 0"

definition sigset_get_32 :: "u64 \<Rightarrow> u32 \<Rightarrow> exn + bool" where
  "sigset_get_32 s b = (if \<not> b < 32 then Inl Assertion else Inr (s AND push_bit (unat b) 1 \<noteq> 0))"

function sigset_next_loop :: "u64 \<Rightarrow> u32 \<Rightarrow> bool \<times> u32" where
  "sigset_next_loop s b =
     (if b < 32 then
        if 0 < b \<and> s AND push_bit (unat b) 1 \<noteq> 0 then (True, b)
        else sigset_next_loop s (b + 1)
      else (False, b))"
  by auto

lemma succ_unat: "(b :: u32) < 32 \<Longrightarrow> unat (b + 1) = unat b + 1"
  by (simp add: unat_word_ariths word_less_nat_alt)

termination sigset_next_loop
  by (relation "measure (\<lambda>(s, b). 32 - unat b)") (auto simp: succ_unat word_less_nat_alt)

definition sigset_get_next_32 :: "u64 \<Rightarrow> u32 \<Rightarrow> exn + bool \<times> u32" where
  "sigset_get_next_32 s b = Inr (sigset_next_loop s (b + 1))"

definition sigset_set_32 :: "u64 \<Rightarrow> u32 \<Rightarrow> bool \<Rightarrow> exn + u64" where
  "sigset_set_32 s b value =
     (if \<not> (0 < b \<and> b < 32 \<or> b = 0 \<and> \<not> value) then Inl Assertion
      else Inr (if value then s OR push_bit (unat b) 1 else s AND NOT (push_bit (unat b) 1)))"

definition sigset_copy_32 :: "u64 \<Rightarrow> exn + u64" where
  "sigset_copy_32 src = Inr src"

definition sigset_clear_32 :: "u64 \<Rightarrow> u64" where
  "sigset_clear_32 s = 0"

declare sigset_next_loop.simps [simp del]

section \<open>The sorted array as a set\<close>

definition holds_signals :: "u32 list \<Rightarrow> SigSet \<Rightarrow> bool" where
  "holds_signals xs s \<longleftrightarrow> ss_cnt s = length xs \<and> ss_max s = length (ss_buf s) \<and> (\<exists>rest. ss_buf s = map Some xs @ rest) \<and>
     sorted_wrt (<) xs \<and> 0 \<notin> set xs \<and> length xs \<le> 2 ^ 31"

definition sigset_ok :: "SigSet \<Rightarrow> bool" where
  "sigset_ok s \<longleftrightarrow> (\<exists>xs. holds_signals xs s)"

definition signals :: "SigSet \<Rightarrow> u32 set" where
  "signals s = set (map the (take (ss_cnt s) (ss_buf s)))"

lemma signals_eq: "holds_signals xs s \<Longrightarrow> signals s = set xs"
  by (auto simp: holds_signals_def signals_def image_image)

lemma get_cell_held: "k < length xs \<Longrightarrow> get_cell (map Some xs @ rest) k = Inr (xs ! k)"
  by (simp add: get_cell_def nth_append)

text \<open>The array is cut where the signals that are not below \<open>b\<close> begin.\<close>

definition cut_at :: "u32 \<Rightarrow> u32 list \<Rightarrow> nat \<Rightarrow> bool" where
  "cut_at b xs n \<longleftrightarrow> n \<le> length xs \<and> (\<forall>i < n. xs ! i < b) \<and> (\<forall>i. n \<le> i \<longrightarrow> i < length xs \<longrightarrow> b \<le> xs ! i)"

lemma search_loop_cut:
  assumes "sorted_wrt (<) xs" "length xs \<le> 2 ^ 31" "l \<le> h" "h \<le> length xs"
    "\<forall>i < l. xs ! i < b" "\<forall>i. h \<le> i \<longrightarrow> i < length xs \<longrightarrow> b < xs ! i"
  shows "\<exists>n. search_loop (map Some xs @ rest) b l h = Some (Inr n) \<and> cut_at b xs n"
  using assms(3-6)
proof (induction "h - l" arbitrary: l h rule: less_induct)
  case less
  show ?case
  proof (cases "l < h")
    case False
    with less.prems show ?thesis
      by (subst search_loop.simps) (auto simp: cut_at_def intro: less_imp_le)
  next
    case True
    define k where "k = (l + h) div 2"
    have k: "l \<le> k" "k < h" "k < length xs" "(l + h) mod 2 ^ 32 div 2 = k"
      using True less.prems(2) assms(2) by (auto simp: k_def)
    have below: "xs ! i < xs ! k" if "i < k" for i
      using sorted_wrt_nth_less [OF assms(1) that k(3)] .
    have above: "xs ! k < xs ! i" if "k < i" "i < length xs" for i
      using sorted_wrt_nth_less [OF assms(1) that] .
    consider "b < xs ! k" | "xs ! k < b" | "xs ! k = b" by (metis linorder_neqE)
    then show ?thesis
    proof cases
      case 1
      have "\<exists>n. search_loop (map Some xs @ rest) b l k = Some (Inr n) \<and> cut_at b xs n"
      proof (rule less.hyps)
        show "\<forall>i. k \<le> i \<longrightarrow> i < length xs \<longrightarrow> b < xs ! i"
          using 1 above by (metis le_neq_implies_less order_less_trans)
      qed (use k less.prems in auto)
      with True 1 k show ?thesis by (subst search_loop.simps) (simp add: Let_def get_cell_held)
    next
      case 2
      have "\<exists>n. search_loop (map Some xs @ rest) b (k + 1) h = Some (Inr n) \<and> cut_at b xs n"
      proof (rule less.hyps)
        show "\<forall>i < k + 1. xs ! i < b"
          using 2 below by (metis Suc_eq_plus1 less_SucE order_less_trans)
      qed (use k less.prems in auto)
      moreover have "\<not> b < xs ! k" using 2 by simp
      ultimately show ?thesis using True 2 k by (subst search_loop.simps) (simp add: Let_def get_cell_held)
    next
      case 3
      then have "cut_at b xs k"
        using k below above by (auto simp: cut_at_def order_le_less)
      with True 3 k show ?thesis by (subst search_loop.simps) (simp add: Let_def get_cell_held)
    qed
  qed
qed

lemma search_cut:
  assumes "holds_signals xs s"
  obtains n where "search s b = Inr n" "cut_at b xs n"
proof -
  obtain rest where h: "ss_cnt s = length xs" "ss_buf s = map Some xs @ rest" "sorted_wrt (<) xs" "length xs \<le> 2 ^ 31"
    using assms by (auto simp: holds_signals_def)
  from search_loop_cut [OF h(3,4), of 0 "length xs" b rest] h that show thesis
    by (auto simp: search_def)
qed

lemma cut_split:
  assumes "cut_at b xs n"
  obtains ys zs where "xs = ys @ zs" "length ys = n" "\<forall>y \<in> set ys. y < b" "\<forall>z \<in> set zs. b \<le> z"
proof
  show "xs = take n xs @ drop n xs" by simp
  show "length (take n xs) = n" using assms by (simp add: cut_at_def)
  show "\<forall>y \<in> set (take n xs). y < b"
    using assms by (auto simp: cut_at_def in_set_conv_nth)
  show "\<forall>z \<in> set (drop n xs). b \<le> z"
    using assms by (auto simp: cut_at_def in_set_conv_nth)
qed

text \<open>What the search is used for: is \<open>b\<close> a signal of the set?\<close>

lemma found_at:
  assumes "holds_signals (ys @ zs) s" "\<forall>y \<in> set ys. y < b" "\<forall>z \<in> set zs. b \<le> z"
  shows "(if length ys < ss_cnt s then bindE (get_cell (ss_buf s) (length ys)) (\<lambda>v. Inr (v = b)) else Inr False) =
    Inr (b \<in> signals s)"
proof -
  obtain rest where h: "ss_cnt s = length (ys @ zs)" "ss_buf s = map Some (ys @ zs) @ rest" "sorted_wrt (<) (ys @ zs)"
    using assms(1) by (auto simp: holds_signals_def)
  show ?thesis
  proof (cases zs)
    case Nil
    with h assms show ?thesis by (auto simp: signals_eq [OF assms(1)])
  next
    case (Cons z zs')
    have "get_cell (ss_buf s) (length ys) = Inr z"
      using get_cell_held [of "length ys" "ys @ zs" rest] h Cons by simp
    with h assms Cons show ?thesis by (auto simp: signals_eq [OF assms(1)] sorted_wrt_append)
  qed
qed

lemma sigset_get_ok:
  assumes "sigset_ok s"
  shows "sigset_get s b = Inr (b \<in> signals s)"
proof -
  obtain xs where xs: "holds_signals xs s" using assms by (auto simp: sigset_ok_def)
  obtain n where n: "search s b = Inr n" "cut_at b xs n" by (rule search_cut [OF xs])
  obtain ys zs where c: "xs = ys @ zs" "length ys = n" "\<forall>y \<in> set ys. y < b" "\<forall>z \<in> set zs. b \<le> z"
    by (rule cut_split [OF n(2)])
  from found_at [OF xs [unfolded c(1)] c(3,4), unfolded c(2)] n(1) show ?thesis
    by (simp add: sigset_get_def)
qed

lemma sigset_is_empty_ok: "sigset_ok s \<Longrightarrow> sigset_is_empty s \<longleftrightarrow> signals s = {}"
proof -
  assume "sigset_ok s"
  then obtain xs where "holds_signals xs s" by (auto simp: sigset_ok_def)
  then show ?thesis by (simp add: sigset_is_empty_def signals_eq) (simp add: holds_signals_def)
qed

lemma sigset_clear_ok: "sigset_ok (sigset_clear s)" "signals (sigset_clear s) = {}"
  by (auto simp: sigset_ok_def holds_signals_def sigset_clear_def signals_def)

lemma sigset_copy_ok:
  assumes "sigset_ok s"
  shows "\<exists>s'. sigset_copy s = Inr s' \<and> sigset_ok s' \<and> signals s' = signals s"
  using assms by (auto simp: sigset_ok_def holds_signals_def sigset_copy_def signals_def)

text \<open>Opening and closing a gap in the array.\<close>

lemma move_cells_open:
  "\<exists>c'. move_cells (length ys + 1) (length ys) (length zs) (map Some (ys @ zs) @ c # rest) =
    Inr (map Some ys @ c' # map Some zs @ rest)"
  by (cases zs) (simp_all add: move_cells_def take_Suc_conv_app_nth nth_append)

lemma move_cells_close:
  "move_cells (length ys) (length ys + 1) (length zs) (map Some (ys @ z # zs) @ rest) =
    Inr (map Some (ys @ zs) @ drop (length ys + length zs) (map Some (ys @ z # zs) @ rest))"
  by (simp add: move_cells_def)

lemma sorted_between:
  assumes "sorted_wrt (<) (ys @ zs)" "\<forall>y \<in> set ys. y < (b :: u32)" "\<forall>z \<in> set zs. b \<le> z" "b \<notin> set (ys @ zs)"
  shows "sorted_wrt (<) (ys @ b # zs)"
  using assms by (auto simp: sorted_wrt_append order_le_less)

lemma found_first:
  assumes "sorted_wrt (<) (ys @ zs)" "\<forall>y \<in> set ys. y < (b :: u32)" "\<forall>z \<in> set zs. b \<le> z" "b \<in> set (ys @ zs)"
  obtains zs' where "zs = b # zs'"
  using assms by (cases zs) (auto simp: sorted_wrt_append)

lemma sigset_add:
  assumes h: "holds_signals (ys @ zs) s" and s: "search s b = Inr (length ys)"
    and c: "\<forall>y \<in> set ys. y < b" "\<forall>z \<in> set zs. b \<le> z" and b: "0 < b" "b \<notin> set (ys @ zs)"
    and room: "length (ys @ zs) < 2 ^ 31"
  shows "\<exists>s'. sigset_set s b True = Inr s' \<and> holds_signals (ys @ b # zs) s'"
proof -
  obtain rest where r: "ss_cnt s = length (ys @ zs)" "ss_max s = length (ss_buf s)" "ss_buf s = map Some (ys @ zs) @ rest"
      "sorted_wrt (<) (ys @ zs)" "0 \<notin> set (ys @ zs)"
    using h by (auto simp: holds_signals_def)
  define t where "t = (if ss_max s \<le> ss_cnt s
    then s\<lparr>ss_max := ss_max s + 8, ss_buf := ss_buf s @ replicate (ss_max s + 8 - length (ss_buf s)) None\<rparr> else s)"
  have "\<exists>c cells. ss_buf t = map Some (ys @ zs) @ c # cells \<and> ss_max t = length (ss_buf t) \<and> ss_cnt t = ss_cnt s"
  proof (cases rest)
    case Nil
    with r show ?thesis by (auto simp: t_def numeral_eq_Suc)
  next
    case (Cons c cells)
    with r show ?thesis by (auto simp: t_def)
  qed
  then obtain c cells where t: "ss_buf t = map Some (ys @ zs) @ c # cells" "ss_max t = length (ss_buf t)" "ss_cnt t = ss_cnt s"
    by blast
  obtain c' where m: "move_cells (length ys + 1) (length ys) (length zs) (ss_buf t) = Inr (map Some ys @ c' # map Some zs @ cells)"
    unfolding t(1) using move_cells_open by blast
  let ?s = "t\<lparr>ss_buf := map Some ys @ Some b # map Some zs @ cells, ss_cnt := ss_cnt s + 1\<rparr>"
  have f: "(if length ys < ss_cnt s then bindE (get_cell (ss_buf s) (length ys)) (\<lambda>v. Inr (v = b)) else Inr False) = Inr False"
    using found_at [OF h c] b(2) by (simp add: signals_eq [OF h])
  have "sigset_set s b True = Inr ?s"
    unfolding sigset_set_def s bindE_simps f t_def [symmetric] Let_def using b m r(1) t
    by (simp add: list_update_append)
  moreover have "holds_signals (ys @ b # zs) ?s"
    using sorted_between [OF r(4) c b(2)] r t b room by (auto simp: holds_signals_def)
  ultimately show ?thesis by blast
qed

lemma sigset_remove:
  assumes h: "holds_signals (ys @ b # zs) s" and s: "search s b = Inr (length ys)"
  shows "\<exists>s'. sigset_set s b False = Inr s' \<and> holds_signals (ys @ zs) s'"
proof -
  obtain rest where r: "ss_cnt s = length (ys @ b # zs)" "ss_max s = length (ss_buf s)" "ss_buf s = map Some (ys @ b # zs) @ rest"
      "sorted_wrt (<) (ys @ b # zs)" "0 \<notin> set (ys @ b # zs)" "length (ys @ b # zs) \<le> 2 ^ 31"
    using h by (auto simp: holds_signals_def)
  have m: "move_cells (length ys) (length ys + 1) (length zs) (ss_buf s) =
      Inr (map Some (ys @ zs) @ drop (length ys + length zs) (ss_buf s))"
    unfolding r(3) by (rule move_cells_close)
  have g: "get_cell (ss_buf s) (length ys) = Inr b"
    using get_cell_held [of "length ys" "ys @ b # zs" rest] by (simp add: r(3))
  let ?s = "s\<lparr>ss_buf := map Some (ys @ zs) @ drop (length ys + length zs) (ss_buf s), ss_cnt := ss_cnt s - 1\<rparr>"
  have "sigset_set s b False = Inr ?s"
    using r(1) m g by (simp add: sigset_set_def s word_gt_0)
  moreover have "holds_signals (ys @ zs) ?s"
    using r by (auto simp: holds_signals_def sorted_wrt_append)
  ultimately show ?thesis by blast
qed

lemma sigset_set_same:
  assumes h: "holds_signals (ys @ zs) s" and s: "search s b = Inr (length ys)"
    and c: "\<forall>y \<in> set ys. y < b" "\<forall>z \<in> set zs. b \<le> z"
    and v: "v \<longleftrightarrow> b \<in> set (ys @ zs)" "0 < b \<or> \<not> v"
  shows "sigset_set s b v = Inr s"
proof -
  have cnt: "length ys \<le> ss_cnt s" using h by (auto simp: holds_signals_def)
  have "(if length ys < ss_cnt s then bindE (get_cell (ss_buf s) (length ys)) (\<lambda>v. Inr (v = b)) else Inr False) = Inr v"
    using found_at [OF h c] v(1) by (simp add: signals_eq [OF h])
  then show ?thesis
    unfolding sigset_set_def s bindE_simps using cnt v(2) by (auto simp: word_gt_0)
qed

lemma sigset_set_ok:
  assumes ok: "sigset_ok s" and v: "0 < b \<or> \<not> v" and room: "card (signals s) < 2 ^ 31"
  shows "\<exists>s'. sigset_set s b v = Inr s' \<and> sigset_ok s' \<and> signals s' = (if v then insert b (signals s) else signals s - {b})"
proof -
  obtain xs where xs: "holds_signals xs s" using ok by (auto simp: sigset_ok_def)
  obtain n where n: "search s b = Inr n" "cut_at b xs n" by (rule search_cut [OF xs])
  obtain ys zs where c: "xs = ys @ zs" "length ys = n" "\<forall>y \<in> set ys. y < b" "\<forall>z \<in> set zs. b \<le> z"
    by (rule cut_split [OF n(2)])
  have h: "holds_signals (ys @ zs) s" using xs c(1) by simp
  have s: "search s b = Inr (length ys)" using n(1) c(2) by simp
  have so: "sorted_wrt (<) (ys @ zs)" using h by (auto simp: holds_signals_def)
  have d: "distinct (ys @ zs)" using so strict_sorted_iff by blast
  consider (add) "v" "b \<notin> set (ys @ zs)" | (remove) "\<not> v" "b \<in> set (ys @ zs)" | (same) "v \<longleftrightarrow> b \<in> set (ys @ zs)"
    by blast
  then show ?thesis
  proof cases
    case add
    have "length (ys @ zs) < 2 ^ 31"
      using room d by (simp add: signals_eq [OF h] distinct_card flip: set_append)
    then obtain s' where "sigset_set s b True = Inr s'" "holds_signals (ys @ b # zs) s'"
      using sigset_add [OF h s c(3,4)] add v by blast
    with add show ?thesis
      by (auto simp: sigset_ok_def signals_eq [OF h] signals_eq [of "ys @ b # zs"])
  next
    case remove
    obtain zs' where z: "zs = b # zs'" by (rule found_first [OF so c(3,4) remove(2)])
    obtain s' where "sigset_set s b False = Inr s'" "holds_signals (ys @ zs') s'"
      using sigset_remove [OF h [unfolded z] s] by blast
    moreover have "b \<notin> set (ys @ zs')" using d z by auto
    ultimately show ?thesis
      using remove by (auto simp: sigset_ok_def signals_eq [OF h] signals_eq [of "ys @ zs'"] z)
  next
    case same
    then show ?thesis
      using sigset_set_same [OF h s c(3,4) same v] ok by (auto simp: signals_eq [OF h])
  qed
qed

lemma succ_less: "b \<noteq> - 1 \<Longrightarrow> unat (b + 1) = unat b + 1" for b :: u32
  using unatSuc [of b] by (simp add: add.commute eq_neg_iff_add_eq_0)

lemma sigset_get_next_ok:
  assumes "sigset_ok s" "b \<noteq> - 1"
  shows "sigset_get_next s b =
    Inr (if \<exists>x \<in> signals s. b < x then (True, Min {x \<in> signals s. b < x}) else (False, b))"
proof -
  obtain xs where xs: "holds_signals xs s" using assms(1) by (auto simp: sigset_ok_def)
  obtain n where n: "search s (b + 1) = Inr n" "cut_at (b + 1) xs n" by (rule search_cut [OF xs])
  obtain ys zs where c: "xs = ys @ zs" "length ys = n" "\<forall>y \<in> set ys. y < b + 1" "\<forall>z \<in> set zs. b + 1 \<le> z"
    by (rule cut_split [OF n(2)])
  obtain rest where h: "ss_cnt s = length (ys @ zs)" "ss_buf s = map Some (ys @ zs) @ rest" "sorted_wrt (<) (ys @ zs)"
    using xs c(1) by (auto simp: holds_signals_def)
  have le: "x < b + 1 \<longleftrightarrow> x \<le> b" "b + 1 \<le> x \<longleftrightarrow> b < x" for x
    using succ_less [OF assms(2)] by (auto simp: word_less_nat_alt word_le_nat_alt)
  have above: "{x \<in> signals s. b < x} = set zs"
    using c(3,4) by (auto simp: signals_eq [OF xs] c(1) le)
  show ?thesis
  proof (cases zs)
    case Nil
    with above have "\<not> (\<exists>x \<in> signals s. b < x)" by auto
    with Nil n(1) h c(2) show ?thesis by (simp add: sigset_get_next_def)
  next
    case (Cons z zs')
    have "Min (set zs) = z"
      using h(3) Cons by (intro Min_eqI) (auto simp: sorted_wrt_append order_le_less)
    moreover have "get_cell (ss_buf s) n = Inr z"
      using get_cell_held [of n "ys @ zs" rest] h Cons c(2) by (simp add: nth_append)
    moreover have "\<exists>x \<in> signals s. b < x" using above Cons by auto
    ultimately show ?thesis using n(1) h c(2) Cons above by (simp add: sigset_get_next_def)
  qed
qed

section \<open>The bits as a set\<close>

definition sigset_ok_32 :: "u64 \<Rightarrow> bool" where
  "sigset_ok_32 s \<longleftrightarrow> (\<forall>n. bit s n \<longrightarrow> 0 < n \<and> n < 32)"

definition signals_32 :: "u64 \<Rightarrow> u32 set" where
  "signals_32 s = {b. bit s (unat b)}"

lemma and_bit: "s AND push_bit n 1 \<noteq> 0 \<longleftrightarrow> bit s n" for s :: u64
  by (simp add: bit_iff_and_push_bit_not_eq_0)

lemma sigset_set_32_ok:
  assumes "sigset_ok_32 s" "0 < b \<and> b < 32 \<or> b = 0 \<and> \<not> v"
  shows "\<exists>s'. sigset_set_32 s b v = Inr s' \<and> sigset_ok_32 s' \<and> signals_32 s' = (if v then insert b (signals_32 s) else signals_32 s - {b})"
proof -
  have u: "unat b < 32" "0 < b \<Longrightarrow> 0 < unat b" using assms(2) by (auto simp: word_less_nat_alt)
  have e: "unat x = unat b \<longleftrightarrow> x = b" for x by (simp add: word_unat_eq_iff)
  show ?thesis
    using assms u by (auto simp: sigset_set_32_def sigset_ok_32_def signals_32_def bit_simps e)
qed

lemma signals_32_below: "sigset_ok_32 s \<Longrightarrow> x \<in> signals_32 s \<Longrightarrow> 0 < x \<and> x < 32"
  by (auto simp: sigset_ok_32_def signals_32_def word_less_nat_alt)

lemma sigset_is_empty_32_ok:
  assumes "sigset_ok_32 s"
  shows "sigset_is_empty_32 s \<longleftrightarrow> signals_32 s = {}"
proof
  assume e: "signals_32 s = {}"
  have "\<not> bit s n" for n
  proof
    assume n: "bit s n"
    then have "n < 32" using assms by (auto simp: sigset_ok_32_def)
    then have "unat (word_of_nat n :: u32) = n" by (simp add: unat_of_nat)
    with n e show False unfolding signals_32_def by (metis (mono_tags) empty_Collect_eq)
  qed
  then show "sigset_is_empty_32 s" by (simp add: sigset_is_empty_32_def bit_eq_iff)
qed (simp add: sigset_is_empty_32_def signals_32_def)

lemma sigset_next_loop_ok:
  assumes "sigset_ok_32 s"
  shows "if {x \<in> signals_32 s. b \<le> x} \<noteq> {} then sigset_next_loop s b = (True, Min {x \<in> signals_32 s. b \<le> x})
    else fst (sigset_next_loop s b) = False"
proof (induction "32 - unat b" arbitrary: b rule: less_induct)
  case less
  show ?case
  proof (cases "b < 32")
    case False
    then have "{x \<in> signals_32 s. b \<le> x} = {}"
      using signals_32_below [OF assms] by fastforce
    with False show ?thesis by (simp add: sigset_next_loop.simps)
  next
    case True
    show ?thesis
    proof (cases "b \<in> signals_32 s")
      case in_set: True
      have "Min {x \<in> signals_32 s. b \<le> x} = b"
        using in_set by (intro Min_eqI) auto
      moreover have "0 < b \<and> s AND push_bit (unat b) 1 \<noteq> 0"
        using in_set signals_32_below [OF assms] by (simp only: and_bit) (simp add: signals_32_def)
      ultimately show ?thesis
        using in_set True by (subst sigset_next_loop.simps) auto
    next
      case not_in: False
      have "{x \<in> signals_32 s. b \<le> x} = {x \<in> signals_32 s. b + 1 \<le> x}"
        using not_in succ_unat [OF True] by (auto simp: word_le_nat_alt order_le_less) (metis Suc_leI le_neq_implies_less word_unat_eq_iff)
      moreover have "\<not> (s AND push_bit (unat b) 1 \<noteq> 0)"
        using not_in by (simp only: and_bit) (simp add: signals_32_def)
      moreover have "32 - unat (b + 1) < 32 - unat b"
        using True succ_unat [OF True] by (simp add: word_less_nat_alt)
      ultimately show ?thesis
        using less [of "b + 1"] True by (simp add: sigset_next_loop.simps [of s b])
    qed
  qed
qed

section \<open>What the agent relies on\<close>

text \<open>A sequence of calls of \<open>sigset_set\<close>, and what it does to a set.\<close>

fun run_sets :: "('s \<Rightarrow> u32 \<Rightarrow> bool \<Rightarrow> exn + 's) \<Rightarrow> (u32 \<times> bool) list \<Rightarrow> 's \<Rightarrow> exn + 's" where
  "run_sets put [] s = Inr s"
| "run_sets put ((b, v) # ops) s = bindE (put s b v) (run_sets put ops)"

fun set_after :: "(u32 \<times> bool) list \<Rightarrow> u32 set \<Rightarrow> u32 set" where
  "set_after [] A = A"
| "set_after ((b, v) # ops) A = set_after ops (if v then insert b A else A - {b})"

lemma sorted_list_of_set_ConsD:
  assumes "finite A" "sorted_list_of_set A = x # xs"
  shows "x = Min A" "sorted_list_of_set (A - {x}) = xs" "x \<in> A"
proof -
  have ne: "A \<noteq> {}" using assms by auto
  from sorted_list_of_set_nonempty [OF assms(1) this] assms(2)
  show x: "x = Min A" and "sorted_list_of_set (A - {x}) = xs" by simp_all
  show "x \<in> A" unfolding x using assms(1) ne by (rule Min_in)
qed

locale signal_set =
  fixes is_empty :: "'s \<Rightarrow> bool" and get :: "'s \<Rightarrow> u32 \<Rightarrow> exn + bool" and get_next :: "'s \<Rightarrow> u32 \<Rightarrow> exn + bool \<times> u32"
    and put :: "'s \<Rightarrow> u32 \<Rightarrow> bool \<Rightarrow> exn + 's" and copy :: "'s \<Rightarrow> exn + 's" and clear :: "'s \<Rightarrow> 's"
    and ok :: "'s \<Rightarrow> bool" and sigs :: "'s \<Rightarrow> u32 set" and supported :: "u32 \<Rightarrow> bool"
  assumes is_empty_law: "ok s \<Longrightarrow> is_empty s \<longleftrightarrow> sigs s = {}"
    and get_law: "ok s \<Longrightarrow> supported b \<Longrightarrow> get s b = Inr (b \<in> sigs s)"
    and next_law: "ok s \<Longrightarrow> b \<noteq> - 1 \<Longrightarrow> {x \<in> sigs s. b < x} \<noteq> {} \<Longrightarrow> get_next s b = Inr (True, Min {x \<in> sigs s. b < x})"
    and last_law: "ok s \<Longrightarrow> b \<noteq> - 1 \<Longrightarrow> {x \<in> sigs s. b < x} = {} \<Longrightarrow> \<exists>b'. get_next s b = Inr (False, b')"
    and put_law: "ok s \<Longrightarrow> supported b \<Longrightarrow> 0 < b \<or> \<not> v \<Longrightarrow> card (sigs s) < 2 ^ 31 \<Longrightarrow>
      \<exists>s'. put s b v = Inr s' \<and> ok s' \<and> sigs s' = (if v then insert b (sigs s) else sigs s - {b})"
    and copy_law: "ok s \<Longrightarrow> \<exists>s'. copy s = Inr s' \<and> ok s' \<and> sigs s' = sigs s"
    and clear_law: "ok (clear s)" "sigs (clear s) = {}"
begin

lemma runs:
  assumes "ok s" "\<forall>(b, v) \<in> set ops. supported b \<and> (0 < b \<or> \<not> v)" "card (sigs s) + length ops \<le> 2 ^ 31"
  shows "\<exists>s'. run_sets put ops s = Inr s' \<and> ok s' \<and> sigs s' = set_after ops (sigs s)"
  using assms
proof (induction ops arbitrary: s)
  case (Cons op ops)
  obtain b v where op: "op = (b, v)" by (cases op)
  obtain s' where s': "put s b v = Inr s'" "ok s'" "sigs s' = (if v then insert b (sigs s) else sigs s - {b})"
    using put_law [of s b v] Cons.prems op by auto
  moreover have "card (sigs s') + length ops \<le> 2 ^ 31"
    using Cons.prems(3) s'(3) card_insert_le_m1 [of "Suc (card (sigs s))" "sigs s" b] card_Diff1_le [of "sigs s" b] by auto
  ultimately show ?case
    using Cons.IH [of s'] Cons.prems op by simp
qed simp

text \<open>Stepping from signal to signal visits the sorted list of the set.\<close>

definition signals_after :: "'s \<Rightarrow> u32 \<Rightarrow> u32 list" where
  "signals_after s b = sorted_list_of_set {x \<in> sigs s. b < x}"

lemma signals_after_Nil: "ok s \<Longrightarrow> b \<noteq> - 1 \<Longrightarrow> signals_after s b = [] \<Longrightarrow> \<exists>b'. get_next s b = Inr (False, b')"
  by (rule last_law) (simp_all add: signals_after_def sorted_list_of_set_eq_Nil_iff)

lemma signals_after_Cons:
  assumes "ok s" "b \<noteq> - 1" "signals_after s b = x # xs"
  shows "get_next s b = Inr (True, x)" "signals_after s x = xs" "b < x" "x \<in> sigs s"
proof -
  let ?A = "{x \<in> sigs s. b < x}"
  note m = sorted_list_of_set_ConsD [of ?A x xs, OF finite assms(3) [unfolded signals_after_def]]
  have ne: "?A \<noteq> {}" using m(3) by blast
  show "get_next s b = Inr (True, x)" using next_law [OF assms(1,2) ne] m(1) by simp
  show "b < x" "x \<in> sigs s" using m(3) by auto
  have "?A - {x} = {y \<in> sigs s. x < y}"
  proof -
    have "y \<in> ?A \<Longrightarrow> x \<le> y" for y using m(1) by simp
    then show ?thesis using \<open>b < x\<close> by (auto simp: order_le_less)
  qed
  then show "signals_after s x = xs" using m(2) by (simp add: signals_after_def)
qed

end

interpretation sig_array: signal_set sigset_is_empty sigset_get sigset_get_next sigset_set sigset_copy sigset_clear
  sigset_ok signals "\<lambda>_. True"
proof unfold_locales
  fix s b
  assume "sigset_ok s" "b \<noteq> - 1" "{x \<in> signals s. b < x} = {}"
  then show "\<exists>b'. sigset_get_next s b = Inr (False, b')"
    by (subst sigset_get_next_ok) auto
next
  fix s b
  assume a: "sigset_ok s" "b \<noteq> - 1" "{x \<in> signals s. b < x} \<noteq> {}"
  then have "\<exists>x \<in> signals s. b < x" by auto
  with a show "sigset_get_next s b = Inr (True, Min {x \<in> signals s. b < x})"
    by (simp add: sigset_get_next_ok)
qed (simp_all add: sigset_is_empty_ok sigset_get_ok sigset_set_ok sigset_copy_ok sigset_clear_ok)

lemma sigset_get_next_32_ok:
  assumes "sigset_ok_32 s" "b \<noteq> - 1"
  shows "if {x \<in> signals_32 s. b < x} \<noteq> {} then sigset_get_next_32 s b = Inr (True, Min {x \<in> signals_32 s. b < x})
    else \<exists>b'. sigset_get_next_32 s b = Inr (False, b')"
proof -
  have e: "b + 1 \<le> x \<longleftrightarrow> b < x" for x
    using succ_less [OF assms(2)] by (auto simp: word_less_nat_alt word_le_nat_alt)
  show ?thesis
    using sigset_next_loop_ok [OF assms(1), of "b + 1"] unfolding e sigset_get_next_32_def
    by (cases "sigset_next_loop s (b + 1)") (auto split: if_splits)
qed

interpretation sig_bits: signal_set sigset_is_empty_32 sigset_get_32 sigset_get_next_32 sigset_set_32 sigset_copy_32 sigset_clear_32
  sigset_ok_32 signals_32 "\<lambda>b. b < 32"
proof unfold_locales
  fix s b
  show "sigset_ok_32 s \<Longrightarrow> b \<noteq> - 1 \<Longrightarrow> {x \<in> signals_32 s. b < x} = {} \<Longrightarrow> \<exists>b'. sigset_get_next_32 s b = Inr (False, b')"
    using sigset_get_next_32_ok [of s b] by simp
  show "sigset_ok_32 s \<Longrightarrow> b \<noteq> - 1 \<Longrightarrow> {x \<in> signals_32 s. b < x} \<noteq> {} \<Longrightarrow>
      sigset_get_next_32 s b = Inr (True, Min {x \<in> signals_32 s. b < x})"
    using sigset_get_next_32_ok [of s b] by presburger
  show "sigset_ok_32 s \<Longrightarrow> b < 32 \<Longrightarrow> sigset_get_32 s b = Inr (b \<in> signals_32 s)"
    using and_bit [of s "unat b"] by (simp add: sigset_get_32_def signals_32_def)
  fix v
  show "sigset_ok_32 s \<Longrightarrow> b < 32 \<Longrightarrow> 0 < b \<or> \<not> v \<Longrightarrow>
      \<exists>s'. sigset_set_32 s b v = Inr s' \<and> sigset_ok_32 s' \<and> signals_32 s' = (if v then insert b (signals_32 s) else signals_32 s - {b})"
    by (rule sigset_set_32_ok) (auto simp: word_gt_0)
qed (simp_all add: sigset_is_empty_32_ok sigset_copy_32_def sigset_clear_32_def sigset_ok_32_def signals_32_def)

section \<open>Properties\<close>

text \<open>C36: 
  whatever signals are added to an empty set and removed from it, no call fails, and the sorted array answers every
  question as the mathematical set does: membership, emptiness, and the next signal above a given one.
\<close>

theorem sigset_refines_set:
  assumes "\<forall>(b, v) \<in> set ops. 0 < b \<or> \<not> v" "length ops \<le> 2 ^ 31"
  shows "\<exists>s. run_sets sigset_set ops (sigset_clear s0) = Inr s \<and> (\<forall>b. sigset_get s b = Inr (b \<in> set_after ops {})) \<and>
    (sigset_is_empty s \<longleftrightarrow> set_after ops {} = {}) \<and>
    (\<forall>b. b \<noteq> - 1 \<longrightarrow> sigset_get_next s b =
      Inr (if \<exists>x \<in> set_after ops {}. b < x then (True, Min {x \<in> set_after ops {}. b < x}) else (False, b)))"
proof -
  obtain s where "run_sets sigset_set ops (sigset_clear s0) = Inr s" "sigset_ok s" "signals s = set_after ops {}"
    using sig_array.runs [OF sigset_clear_ok(1), of ops s0] assms by (auto simp: sigset_clear_ok)
  then show ?thesis
    by (intro exI [of _ s] conjI allI impI) (simp_all add: sigset_get_ok sigset_is_empty_ok sigset_get_next_ok)
qed

theorem sigset_refines_set_witness:
  "\<exists>s. run_sets sigset_set [(7, True), (3, True), (7, False)] (sigset_clear \<lparr>ss_cnt = 0, ss_max = 0, ss_buf = []\<rparr>) = Inr s \<and>
    sigset_get s 3 = Inr True \<and> sigset_get s 7 = Inr False"
  using sigset_refines_set [of "[(7, True), (3, True), (7, False)]" "\<lparr>ss_cnt = 0, ss_max = 0, ss_buf = []\<rparr>"] by auto

text \<open>C37: 
  for signals below 32 the two configurations of the source agree: after the same calls, whatever they are, a signal is in the one set if
  and only if it is in the other, and both give the same next signal, until there is none.
\<close>

theorem sigset_configurations_agree:
  assumes "\<forall>(b, v) \<in> set ops. b < 32 \<and> (0 < b \<or> \<not> v)" "length ops \<le> 2 ^ 31"
  shows "\<exists>s t. run_sets sigset_set ops (sigset_clear s0) = Inr s \<and> run_sets sigset_set_32 ops (sigset_clear_32 t0) = Inr t \<and>
    (sigset_is_empty s \<longleftrightarrow> sigset_is_empty_32 t) \<and> (\<forall>b. b < 32 \<longrightarrow> sigset_get s b = sigset_get_32 t b) \<and>
    (\<forall>b x. b \<noteq> - 1 \<longrightarrow> sigset_get_next s b = Inr (True, x) \<longleftrightarrow> sigset_get_next_32 t b = Inr (True, x))"
proof -
  obtain s where s: "run_sets sigset_set ops (sigset_clear s0) = Inr s" "sigset_ok s" "signals s = set_after ops {}"
    using sig_array.runs [OF sigset_clear_ok(1), of ops s0] assms by (auto simp: sigset_clear_ok)
  obtain t where t: "run_sets sigset_set_32 ops (sigset_clear_32 t0) = Inr t" "sigset_ok_32 t" "signals_32 t = set_after ops {}"
    using sig_bits.runs [OF sig_bits.clear_law(1), of ops t0] assms by (auto simp: sig_bits.clear_law)
  have e: "signals_32 t = signals s" using s(3) t(3) by simp
  have "sigset_get_next s b = Inr (True, x) \<longleftrightarrow> sigset_get_next_32 t b = Inr (True, x)" if "b \<noteq> - 1" for b x
    using sigset_get_next_ok [OF s(2) that] sigset_get_next_32_ok [OF t(2) that] unfolding e
    by (cases "{x \<in> signals s. b < x} = {}") auto
  moreover have "sigset_get s b = sigset_get_32 t b" if "b < 32" for b
    using sigset_get_ok [OF s(2)] sig_bits.get_law [OF t(2) that] e by simp
  moreover have "sigset_is_empty s \<longleftrightarrow> sigset_is_empty_32 t"
    using sigset_is_empty_ok [OF s(2)] sigset_is_empty_32_ok [OF t(2)] e by simp
  ultimately show ?thesis using s(1) t(1) by blast
qed

theorem sigset_configurations_agree_witness:
  "\<exists>s t. run_sets sigset_set [(9, True), (2, True)] (sigset_clear \<lparr>ss_cnt = 0, ss_max = 0, ss_buf = []\<rparr>) = Inr s \<and>
    run_sets sigset_set_32 [(9, True), (2, True)] (sigset_clear_32 0) = Inr t \<and> sigset_get s 9 = sigset_get_32 t 9"
  using sigset_configurations_agree [of "[(9, True), (2, True)]" "\<lparr>ss_cnt = 0, ss_max = 0, ss_buf = []\<rparr>" 0] by auto

end
