(* ===== verification/Sigset_Json.thy ===== *)
theory Sigset_Json
  imports Sigsets Json_Object
begin

text \<open>
  \<open>write_sigset\<close> and \<open>read_sigset\<close> of services/processes.c: a set of signals in a message is a number, a bit for each signal,
  or an array of numbers when a signal does not fit. The loops of the writer end only if the set does not have the greatest
  number, so they are partial functions.
\<close>

section \<open>The code\<close>

partial_function (option) write_sigset_list ::
  "'o out_class \<Rightarrow> SigSet \<Rightarrow> u32 \<Rightarrow> nat \<Rightarrow> 'o \<Rightarrow> (exn + 'o) option" where
  "write_sigset_list cl s b cnt out =
     (case sigset_get_next s b of
        Inl e \<Rightarrow> Some (Inl e)
      | Inr (again, b) \<Rightarrow>
          if \<not> again then Some (Inr out)
          else write_sigset_list cl s b (cnt + 1)
            (json_write_ulong cl (ucast b) (if 0 < cnt then write_stream cl (ord (CHR '','')) out else out)))"

partial_function (option) write_sigset_bits ::
  "'o out_class \<Rightarrow> SigSet \<Rightarrow> u32 \<Rightarrow> u64 \<Rightarrow> 'o \<Rightarrow> (exn + 'o) option" where
  "write_sigset_bits cl s b bits out =
     (case sigset_get_next s b of
        Inl e \<Rightarrow> Some (Inl e)
      | Inr (again, b) \<Rightarrow>
          if \<not> again then Some (Inr (json_write_uint64 cl bits out))
          else if 64 \<le> b then
            map_option (\<lambda>r. bindE r (\<lambda>out. Inr (write_stream cl (ord (CHR '']'')) out)))
              (write_sigset_list cl s 0 0 (write_stream cl (ord (CHR ''['')) out))
          else write_sigset_bits cl s b (bits OR push_bit (unat b) 1) out)"

definition write_sigset :: "'o out_class \<Rightarrow> SigSet \<Rightarrow> 'o \<Rightarrow> exn + 'o" where
  "write_sigset cl s out = (case write_sigset_bits cl s 0 0 out of None \<Rightarrow> Inl Diverges | Some r \<Rightarrow> r)"

definition liftE :: "exn + 'a \<Rightarrow> ('s, 'a) comp" where
  "liftE r = (\<lambda>s. case r of Inl e \<Rightarrow> Inl e | Inr x \<Rightarrow> Inr (x, s))"

definition read_sigset_bit :: "SigSet \<Rightarrow> SigSet reader" where
  "read_sigset_bit s = bindR json_read_ulong (\<lambda>n. liftE (sigset_set s (ucast n) True))"

text \<open>The set that is read, and \<open>not_null\<close>.\<close>

definition read_sigset :: "(SigSet \<times> bool) reader" where
  "read_sigset =
     (let s = \<lparr>ss_cnt = 0, ss_max = 0, ss_buf = []\<rparr> in
      bindR json_peek (\<lambda>ch.
        if ch = ord (CHR ''n'') then
          seqR read_stream (seqR (json_test_chars ''ull'') (retR (s, False)))
        else bindR json_peek (\<lambda>ch.
          if ch = ord (CHR ''['') then
            bindR (json_read_array read_sigset_bit s) (\<lambda>(_, s). retR (s, True))
          else bindR json_read_uint64 (\<lambda>bits.
            bindR (liftE (run_sets sigset_set (map (\<lambda>b. (word_of_nat b, bits AND push_bit b 1 \<noteq> 0)) [0..<64]) s))
              (\<lambda>s. retR (s, True))))))"

section \<open>The text of a set\<close>

definition sig_text :: "u32 \<Rightarrow> int list" where
  "sig_text b = dec_digits (unat b)"

definition sig_mask :: "u32 list \<Rightarrow> u64" where
  "sig_mask bs = fold (\<lambda>b m. m OR push_bit (unat b) 1) bs 0"

definition sigset_text :: "u32 set \<Rightarrow> int list" where
  "sigset_text A =
     (let bs = sorted_list_of_set A in
      if list_all (\<lambda>b. b < 64) bs then dec_digits (unat (sig_mask bs))
      else 91 # join (map sig_text bs) @ [93])"

section \<open>Writing\<close>

lemma ucast_sig: "unat (ucast (b :: u32) :: u64) = unat b"
  by transfer (simp add: take_bit_int_eq_self take_bit_nat_eq_self nat_take_bit_eq)

context output_stream begin

lemma write_sigset_rest:
  assumes "sigset_ok s" "- 1 \<notin> signals s" "inv out" "b \<noteq> - 1" "0 < cnt"
  shows "\<exists>out'. write_sigset_list cl s b cnt out = Some (Inr out') \<and> inv out' \<and>
    items out' = items out @ concat (map (\<lambda>x. 44 # sig_text x) (sig_array.signals_after s b))"
  using assms(3-5)
proof (induction "sig_array.signals_after s b" arbitrary: b cnt out)
  case Nil
  then obtain b' where "sigset_get_next s b = Inr (False, b')"
    using sig_array.signals_after_Nil [OF assms(1) Nil.prems(2)] by metis
  with Nil show ?case by (subst write_sigset_list.simps) (simp flip: Nil.hyps)
next
  case (Cons x xs)
  note n = sig_array.signals_after_Cons [OF assms(1) Cons.prems(2) Cons.hyps(2) [symmetric]]
  let ?w = "\<lambda>out. json_write_ulong cl (ucast x) (write_stream cl 44 out)"
  have "writes ?w ([44] @ sig_text x)"
    unfolding sig_text_def ucast_sig [symmetric] by (intro writes_then writes_int writes_ulong) simp_all
  from writesD [OF this Cons.prems(1)] have w: "inv (?w out)" "items (?w out) = items out @ 44 # sig_text x" by simp_all
  have "x \<noteq> - 1" using n(4) assms(2) by metis
  from Cons.hyps(1) [OF n(2) [symmetric] w(1) this, of "cnt + 1"] n(2) w(2)
  obtain out' where "write_sigset_list cl s x (cnt + 1) (?w out) = Some (Inr out')" "inv out'"
      "items out' = items out @ (44 # sig_text x) @ concat (map (\<lambda>x. 44 # sig_text x) xs)"
    by auto
  then show ?case
    using n(1) Cons.prems(3) Cons.hyps(2) [symmetric] by (subst write_sigset_list.simps) simp
qed

lemma write_sigset_list_writes:
  assumes "sigset_ok s" "- 1 \<notin> signals s" "inv out" "sig_array.signals_after s 0 \<noteq> []"
  shows "\<exists>out'. write_sigset_list cl s 0 0 out = Some (Inr out') \<and> inv out' \<and>
    items out' = items out @ join (map sig_text (sig_array.signals_after s 0))"
proof -
  obtain x xs where xs: "sig_array.signals_after s 0 = x # xs" using assms(4) by (cases "sig_array.signals_after s 0") auto
  note n = sig_array.signals_after_Cons [OF assms(1) _ xs, simplified]
  let ?w = "json_write_ulong cl (ucast x)"
  have w: "inv (?w out)" "items (?w out) = items out @ sig_text x"
    using writesD [OF writes_ulong assms(3), of "ucast x"] unfolding sig_text_def ucast_sig by simp_all
  have "x \<noteq> - 1" using n(4) assms(2) by metis
  from write_sigset_rest [OF assms(1,2) w(1) this, of 1] n(2) w(2)
  obtain out' where "write_sigset_list cl s x 1 (?w out) = Some (Inr out')" "inv out'"
      "items out' = items out @ sig_text x @ concat (map (\<lambda>x. 44 # sig_text x) xs)"
    by auto
  then show ?thesis
    using n(1) xs by (subst write_sigset_list.simps) (simp add: join_Cons o_def del: join.simps)
qed

lemma write_sigset_bits_writes:
  assumes "sigset_ok s" "- 1 \<notin> signals s" "inv out" "sig_array.signals_after s 0 \<noteq> [] \<or> sig_array.signals_after s b = []" "b \<noteq> - 1"
  shows "\<exists>out'. write_sigset_bits cl s b m out = Some (Inr out') \<and> inv out' \<and>
    items out' = items out @ (if list_all (\<lambda>x. x < 64) (sig_array.signals_after s b)
      then dec_digits (unat (fold (\<lambda>b m. m OR push_bit (unat b) 1) (sig_array.signals_after s b) m))
      else 91 # join (map sig_text (sig_array.signals_after s 0)) @ [93])"
  using assms(4-5)
proof (induction "sig_array.signals_after s b" arbitrary: b m)
  case Nil
  then obtain b' where "sigset_get_next s b = Inr (False, b')"
    using sig_array.signals_after_Nil [OF assms(1) Nil.prems(2)] by metis
  with writesD [OF writes_uint64 assms(3), of m] show ?case
    by (subst write_sigset_bits.simps) (simp flip: Nil.hyps)
next
  case (Cons x xs)
  note n = sig_array.signals_after_Cons [OF assms(1) Cons.prems(2) Cons.hyps(2) [symmetric]]
  have ne: "sig_array.signals_after s 0 \<noteq> []" using Cons by auto
  have x: "x \<noteq> - 1" using n(4) assms(2) by metis
  show ?case
  proof (cases "64 \<le> x")
    case True
    have w: "inv (write_stream cl 91 out)" "items (write_stream cl 91 out) = items out @ [91]"
      using writesD [OF writes_int assms(3), of 91] by simp_all
    obtain o1 where o1: "write_sigset_list cl s 0 0 (write_stream cl 91 out) = Some (Inr o1)" "inv o1"
        "items o1 = items out @ 91 # join (map sig_text (sig_array.signals_after s 0))"
      using write_sigset_list_writes [OF assms(1,2) w(1) ne] w(2) by auto
    with writesD [OF writes_int o1(2), of 93] n(1) True show ?thesis
      by (subst write_sigset_bits.simps) (auto simp: not_le [symmetric] simp flip: Cons.hyps(2))
  next
    case False
    then have "x < 64" by simp
    with Cons.hyps(1) [OF n(2) [symmetric] _ x, of "m OR push_bit (unat x) 1", unfolded n(2)] ne n(1) False show ?thesis
      by (subst write_sigset_bits.simps, cases "list_all (\<lambda>x. x < 64) xs")
        (simp_all del: not_le push_bit_of_1 flip: Cons.hyps(2))
  qed
qed

lemma signals_sorted:
  assumes "sigset_ok s"
  shows "sig_array.signals_after s 0 = sorted_list_of_set (signals s)"
proof -
  have "0 \<notin> signals s" using assms by (auto simp: sigset_ok_def signals_eq) (auto simp: holds_signals_def)
  then have "{x \<in> signals s. 0 < x} = signals s" by (auto simp: word_gt_0)
  then show ?thesis by (simp add: sig_array.signals_after_def)
qed

lemma write_sigset_writes:
  assumes "sigset_ok s" "- 1 \<notin> signals s" "inv out"
  shows "\<exists>out'. write_sigset cl s out = Inr out' \<and> inv out' \<and> items out' = items out @ sigset_text (signals s)"
  using write_sigset_bits_writes [OF assms, of 0 0] signals_sorted [OF assms(1)]
  by (auto simp: write_sigset_def sigset_text_def sig_mask_def Let_def)

end

section \<open>Reading\<close>

lemma sig_text_first:
  obtains c cs where "sig_text b = c # cs" "is_digit c"
  using dec_digits_Cons [of "unat b"] by (metis sig_text_def)

lemma read_sigset_bit_text:
  assumes "sigset_ok s" "0 < b" "card (signals s) < 2 ^ 31" "c = 44 \<or> c = 93"
  shows "\<exists>s'. read_sigset_bit s (sig_text b @ c # r) = Inr (s', c # r) \<and> sigset_ok s' \<and> signals s' = insert b (signals s)"
proof -
  have "no_digit (c # r)" using assms(4) by (auto simp: no_digit_def is_digit_def)
  from json_read_ulong_dec [OF this, of "ucast b"]
  have n: "json_read_ulong (sig_text b @ c # r) = Inr (ucast b, c # r)"
    by (simp add: ucast_sig sig_text_def)
  have "ucast (ucast b :: u64) = b" by transfer simp
  moreover obtain s' where "sigset_set s b True = Inr s'" "sigset_ok s'" "signals s' = insert b (signals s)"
    using sigset_set_ok [OF assms(1) _ assms(3), of b True] assms(2) by auto
  ultimately show ?thesis by (simp add: read_sigset_bit_def reader_simps n liftE_def)
qed

lemma read_sigset_loop:
  assumes "sigset_ok s" "\<forall>b \<in> set bs. 0 < b" "card (signals s) + length bs \<le> 2 ^ 31" "bs \<noteq> []" "length bs \<le> n"
  shows "\<exists>s'. json_array_loop read_sigset_bit n s (join (map sig_text bs) @ 93 # rest) = Inr (s', rest) \<and>
    sigset_ok s' \<and> signals s' = signals s \<union> set bs"
  using assms
proof (induction bs arbitrary: s n)
  case (Cons b bs)
  obtain m where n: "n = Suc m" using Cons.prems(5) by (cases n) auto
  define c r where "c = (if bs = [] then 93 else 44 :: int)" and "r = (if bs = [] then rest else join (map sig_text bs) @ 93 # rest)"
  have j: "join (map sig_text (b # bs)) @ 93 # rest = sig_text b @ c # r"
    by (cases bs) (simp_all add: c_def r_def)
  have c: "c = 44 \<or> c = 93" by (simp add: c_def)
  obtain s1 where s1: "read_sigset_bit s (sig_text b @ c # r) = Inr (s1, c # r)" "sigset_ok s1" "signals s1 = insert b (signals s)"
    using read_sigset_bit_text [OF Cons.prems(1) _ _ c, of b r] Cons.prems(2,3) by auto
  show ?case
  proof (cases "bs = []")
    case True
    with s1 n show ?thesis by (simp only: j) (simp add: reader_simps check_char_def c_def r_def isspace_def)
  next
    case False
    have "card (signals s1) + length bs \<le> 2 ^ 31"
      using Cons.prems(3) s1(3) card_insert_le_m1 [of "Suc (card (signals s))" "signals s" b] by simp
    with Cons.IH [OF s1(2), of m] Cons.prems n False
    obtain s' where "json_array_loop read_sigset_bit m s1 (join (map sig_text bs) @ 93 # rest) = Inr (s', rest)"
        "sigset_ok s'" "signals s' = signals s1 \<union> set bs" by auto
    with s1 n False show ?thesis
      by (simp only: j) (simp add: reader_simps c_def r_def isspace_def)
  qed
qed simp

lemma set_after_append: "set_after (xs @ ys) A = set_after ys (set_after xs A)"
  by (induction xs arbitrary: A) auto

lemma set_after_bits:
  "k \<le> 64 \<Longrightarrow> set_after (map (\<lambda>n. (word_of_nat n, f n)) [0..<k]) {} = {b. unat b < k \<and> f (unat b)}"
proof (induction k)
  case (Suc k)
  have u: "unat (word_of_nat k :: u32) = k" using Suc.prems by (simp add: unat_of_nat)
  have e: "b = word_of_nat k \<longleftrightarrow> unat b = k" for b :: u32
    using u by auto
  let ?A = "{b :: u32. unat b < k \<and> f (unat b)}"
  have "set_after (map (\<lambda>n. (word_of_nat n, f n)) [0..<Suc k]) {} = (if f k then insert (word_of_nat k) ?A else ?A - {word_of_nat k})"
    using Suc by (simp add: set_after_append)
  also have "\<dots> = {b. unat b < Suc k \<and> f (unat b)}"
    by (rule set_eqI) (simp add: less_Suc_eq e, blast)
  finally show ?case .
qed simp

lemma bit_sig_mask: "bit (fold (\<lambda>b m. m OR push_bit (unat b) 1) bs (m :: u64)) n \<longleftrightarrow> bit m n \<or> n < 64 \<and> n \<in> unat ` set (bs :: u32 list)"
  by (induction bs arbitrary: m) (auto simp: bit_simps)

lemma unat_in: "unat b \<in> unat ` A \<longleftrightarrow> b \<in> A" for b :: u32
  by (rule inj_image_mem_iff) (rule injI, simp add: word_unat_eq_iff)

lemma read_sigset_mask:
  assumes "\<forall>b \<in> A. 0 < b \<and> b < 64"
  shows "\<exists>s'. run_sets sigset_set (map (\<lambda>n. (word_of_nat n, sig_mask (sorted_list_of_set A) AND push_bit n 1 \<noteq> 0)) [0..<64])
      \<lparr>ss_cnt = 0, ss_max = 0, ss_buf = []\<rparr> = Inr s' \<and> sigset_ok s' \<and> signals s' = A"
proof -
  let ?m = "sig_mask (sorted_list_of_set A)"
  let ?ops = "map (\<lambda>n. (word_of_nat n :: u32, ?m AND push_bit n 1 \<noteq> 0)) [0..<64]"
  let ?s = "sigset_clear \<lparr>ss_cnt = 0, ss_max = 0, ss_buf = []\<rparr>"
  have b: "?m AND push_bit n 1 \<noteq> 0 \<longleftrightarrow> n < 64 \<and> n \<in> unat ` A" for n
    unfolding and_bit sig_mask_def bit_sig_mask by simp
  have "0 \<notin> unat ` A" using assms by (auto simp: unat_eq_0)
  then have "\<forall>(b, v) \<in> set ?ops. True \<and> (0 < b \<or> \<not> v)"
    unfolding b by (auto simp: word_gt_0 word_of_nat_eq_0_iff)
  from sig_array.runs [OF sigset_clear_ok(1) this, of "\<lparr>ss_cnt = 0, ss_max = 0, ss_buf = []\<rparr>"]
  obtain s' where s': "run_sets sigset_set ?ops ?s = Inr s'" "sigset_ok s'" "signals s' = set_after ?ops {}"
    by (auto simp: sigset_clear_ok)
  have "set_after ?ops {} = A"
    using assms by (subst set_after_bits) (auto simp: b word_less_nat_alt unat_in simp del: push_bit_of_1)
  with s' show ?thesis by (simp add: sigset_clear_def)
qed

lemma digit_peek: "is_digit c \<Longrightarrow> c \<noteq> 110 \<and> c \<noteq> 91"
  by (auto simp: is_digit_def)

lemma read_sigset_text:
  assumes "sigset_ok s" "no_digit rest"
  shows "\<exists>s'. read_sigset (sigset_text (signals s) @ rest) = Inr ((s', True), rest) \<and> sigset_ok s' \<and> signals s' = signals s"
proof -
  let ?bs = "sorted_list_of_set (signals s)"
  let ?s = "\<lparr>ss_cnt = 0, ss_max = 0, ss_buf = []\<rparr>"
  have pos: "\<forall>b \<in> signals s. 0 < b" "card (signals s) \<le> 2 ^ 31"
  proof -
    obtain xs where xs: "holds_signals xs s" using assms(1) by (auto simp: sigset_ok_def)
    then have "card (set xs) \<le> length xs" by (simp add: card_length)
    with xs show "\<forall>b \<in> signals s. 0 < b" "card (signals s) \<le> 2 ^ 31"
      by (auto simp: signals_eq [OF xs] word_gt_0) (auto simp: holds_signals_def)
  qed
  show ?thesis
  proof (cases "list_all (\<lambda>b. b < 64) ?bs")
    case True
    then have "\<forall>b \<in> signals s. 0 < b \<and> b < 64" using pos by (simp add: list_all_iff)
    from read_sigset_mask [OF this]
    obtain s' where s': "run_sets sigset_set (map (\<lambda>n. (word_of_nat n, sig_mask ?bs AND push_bit n 1 \<noteq> 0)) [0..<64]) ?s = Inr s'"
        "sigset_ok s'" "signals s' = signals s" by blast
    let ?t = "dec_digits (unat (sig_mask ?bs))"
    obtain c cs where c: "?t = c # cs" "is_digit c" by (rule dec_digits_Cons)
    have peek: "json_peek (?t @ rest) = Inr (c, ?t @ rest)" "c \<noteq> 110" "c \<noteq> 91"
      using c digit_not_space [OF c(2)] digit_peek [OF c(2)] by (simp_all add: json_peek_plain)
    have "read_sigset (?t @ rest) = Inr ((s', True), rest)"
      unfolding read_sigset_def Let_def bindR_apply peek(1)
      using peek s'(1) json_read_ulong_dec [OF assms(2), of "sig_mask ?bs"]
      by (simp add: reader_simps json_read_uint64_eq liftE_def del: push_bit_of_1)
    with s' True show ?thesis by (simp add: sigset_text_def)
  next
    case False
    then have ne: "?bs \<noteq> []" by auto
    obtain b bs where bs: "?bs = b # bs" using ne by (cases ?bs) auto
    obtain c cs where c: "sig_text b = c # cs" "is_digit c" by (rule sig_text_first)
    have c': "\<not> isspace c" "c \<noteq> 93" using digit_not_space [OF c(2)] c(2) by (auto simp: is_digit_def)
    let ?t = "join (map sig_text ?bs) @ 93 # rest"
    obtain ds where t: "?t = c # ds" using bs c(1) by (cases bs) auto
    have "\<forall>t \<in> set (map sig_text ?bs). t \<noteq> []" by (auto simp: sig_text_def dec_digits_nonempty)
    from length_join [OF this] have l: "length ?bs \<le> Suc (length ?t)" by simp
    have "card (signals (sigset_clear ?s)) + length ?bs \<le> 2 ^ 31"
      using pos(2) by (simp add: sigset_clear_ok)
    from read_sigset_loop [OF sigset_clear_ok(1) _ this ne l, of rest] pos(1)
    obtain s' where s': "json_array_loop read_sigset_bit (Suc (length ?t)) ?s ?t = Inr (s', rest)" "sigset_ok s'" "signals s' = signals s"
      by (auto simp: sigset_clear_ok) (simp add: sigset_clear_def)
    have a: "json_read_array read_sigset_bit ?s (91 # ?t) = Inr ((True, s'), rest)"
      using s'(1) c' unfolding t
      by (simp add: json_read_array_def reader_simps isspace_def [of 91] json_peek_plain del: json_array_loop.simps)
    have p: "json_peek (91 # ?t) = Inr (91, 91 # ?t)" by (rule json_peek_plain) (simp add: isspace_def)
    have "read_sigset (91 # ?t) = Inr ((s', True), rest)"
      unfolding read_sigset_def Let_def bindR_apply p by (simp add: reader_simps p a)
    with s' False show ?thesis by (simp add: sigset_text_def)
  qed
qed

section \<open>Properties\<close>

text \<open>C38: 
  a set of signals, written by write_sigset in either form, is read back by read_sigset, whatever signals it has but the
  number 2 ^ 32 - 1.
\<close>

theorem sigset_json_roundtrip:
  assumes "sigset_ok s" "- 1 \<notin> signals s" "no_digit rest"
  shows "\<exists>out s'. write_sigset item_class s \<lparr>is_zero_copy = zc, is_items = []\<rparr> = Inr out \<and>
    read_sigset (is_items out @ rest) = Inr ((s', True), rest) \<and> signals s' = signals s"
  using item.write_sigset_writes [OF assms(1,2), of "\<lparr>is_zero_copy = zc, is_items = []\<rparr>"] read_sigset_text [OF assms(1,3)]
  by auto

theorem sigset_json_roundtrip_witness:
  "\<exists>out s'. write_sigset item_class \<lparr>ss_cnt = 2, ss_max = 2, ss_buf = [Some 9, Some 100]\<rparr> \<lparr>is_zero_copy = False, is_items = []\<rparr> = Inr out \<and>
    read_sigset (is_items out @ [0]) = Inr ((s', True), [0]) \<and> signals s' = {9, 100}"
proof -
  let ?s = "\<lparr>ss_cnt = 2, ss_max = 2, ss_buf = [Some 9, Some 100]\<rparr>"
  have "holds_signals [9, 100] ?s" by (simp add: holds_signals_def)
  then have "sigset_ok ?s" "signals ?s = {9, 100}" by (auto simp: sigset_ok_def signals_eq)
  with sigset_json_roundtrip [of ?s "[0]" False] show ?thesis by (simp add: no_digit_def is_digit_def)
qed

text \<open>
  A set that has the signal 2 ^ 32 - 1, which a client may send, is never written to the end: the next signal after it is looked
  for from 0 again.
\<close>

lemma get_next_again:
  assumes "sigset_ok s" "- 1 \<in> signals s"
  shows "\<exists>x. sigset_get_next s b = Inr (True, x)"
proof (cases "b = - 1")
  case True
  obtain xs where xs: "holds_signals xs s" using assms(1) by (auto simp: sigset_ok_def)
  obtain n where n: "search s 0 = Inr n" "cut_at 0 xs n" by (rule search_cut [OF xs])
  have "n = 0" using n(2) by (auto simp: cut_at_def)
  moreover have "xs \<noteq> []" using assms(2) by (auto simp: signals_eq [OF xs])
  moreover obtain rest where "ss_cnt s = length xs" "ss_buf s = map Some xs @ rest" using xs by (auto simp: holds_signals_def)
  ultimately show ?thesis
    using True n(1) get_cell_held [of 0 xs rest] by (simp add: sigset_get_next_def)
next
  case False
  then have "b < - 1" by (simp add: word_order.not_eq_extremum)
  with assms(2) have "\<exists>x \<in> signals s. b < x" by blast
  with sigset_get_next_ok [OF assms(1) False] show ?thesis by simp
qed

lemma write_sigset_list_diverges:
  assumes "sigset_ok s" "- 1 \<in> signals s"
  shows "write_sigset_list cl s b cnt out = None"
proof -
  have "sigset_ok s \<longrightarrow> - 1 \<in> signals s \<longrightarrow> False" if "write_sigset_list cl s b cnt out = Some r" for r
    using that
  proof (rule write_sigset_list.raw_induct [rotated, where P = "\<lambda>cl s b cnt out r. sigset_ok s \<longrightarrow> - 1 \<in> signals s \<longrightarrow> False"],
      intro impI)
    fix f :: "'a out_class \<Rightarrow> SigSet \<Rightarrow> u32 \<Rightarrow> nat \<Rightarrow> 'a \<Rightarrow> (exn + 'a) option" and cl s b cnt out r
    assume f: "\<And>cl s b cnt out y. f cl s b cnt out = Some y \<Longrightarrow> sigset_ok s \<longrightarrow> - 1 \<in> signals s \<longrightarrow> False"
      and r: "(case sigset_get_next s b of Inl e \<Rightarrow> Some (Inl e)
        | Inr (again, b) \<Rightarrow> if \<not> again then Some (Inr out)
            else f cl s b (cnt + 1) (json_write_ulong cl (ucast b) (if 0 < cnt then write_stream cl (ord (CHR '','')) out else out))) = Some r"
      and s: "sigset_ok s" "- 1 \<in> signals s"
    obtain x where "sigset_get_next s b = Inr (True, x)" using get_next_again [OF s] by blast
    with r have "f cl s x (cnt + 1)
        (json_write_ulong cl (ucast x) (if 0 < cnt then write_stream cl (ord (CHR '','')) out else out)) = Some r" by simp
    from f [OF this] s show False by blast
  qed
  with assms show ?thesis by (cases "write_sigset_list cl s b cnt out") auto
qed

theorem write_sigset_diverges:
  assumes "sigset_ok s" "- 1 \<in> signals s"
  shows "write_sigset cl s out = Inl Diverges"
proof -
  have "write_sigset_bits cl s b m out = None" if "b \<noteq> - 1" for b m
    using that
  proof (induction "sig_array.signals_after s b" arbitrary: b m)
    case Nil
    then have "sorted_list_of_set {x \<in> signals s. b < x} = []" by (simp only: sig_array.signals_after_def)
    then have "{x \<in> signals s. b < x} = {}" by (simp only: sorted_list_of_set_eq_Nil_iff [OF finite])
    moreover have "b < - 1" using Nil.prems by (simp add: word_order.not_eq_extremum)
    ultimately show ?case using assms(2) by blast
  next
    case (Cons x xs)
    note n = sig_array.signals_after_Cons [OF assms(1) Cons.prems Cons.hyps(2) [symmetric]]
    show ?case
    proof (cases "64 \<le> x")
      case True
      with n(1) show ?thesis
        by (subst write_sigset_bits.simps) (simp add: write_sigset_list_diverges [OF assms])
    next
      case False
      then have "x \<noteq> - 1" by auto
      from Cons.hyps(1) [OF n(2) [symmetric] this] n(1) False show ?thesis
        by (subst write_sigset_bits.simps) (simp del: push_bit_of_1)
    qed
  qed
  from this [of 0] show ?thesis by (simp add: write_sigset_def)
qed

theorem write_sigset_diverges_witness:
  "write_sigset item_class \<lparr>ss_cnt = 1, ss_max = 1, ss_buf = [Some (- 1)]\<rparr> \<lparr>is_zero_copy = False, is_items = []\<rparr> = Inl Diverges"
proof (rule write_sigset_diverges)
  have h: "holds_signals [- 1] \<lparr>ss_cnt = 1, ss_max = 1, ss_buf = [Some (- 1)]\<rparr>" by (simp add: holds_signals_def)
  then show "sigset_ok \<lparr>ss_cnt = 1, ss_max = 1, ss_buf = [Some (- 1)]\<rparr>" by (auto simp: sigset_ok_def)
  show "- 1 \<in> signals \<lparr>ss_cnt = 1, ss_max = 1, ss_buf = [Some (- 1)]\<rparr>" unfolding signals_eq [OF h] by simp
qed

text \<open>Signal 0, which is no signal, makes the reader fail its assertion: a client may send an odd number, or 0 in an array.\<close>

theorem read_sigset_zero: "read_sigset (91 # 48 # 93 # rest) = Inl Assertion"
proof -
  have "json_read_ulong (48 # 93 # rest) = Inr (0, 93 # rest)"
    using json_read_ulong_dec [of "93 # rest" 0] by (simp add: no_digit_def is_digit_def dec_digits.simps [of 0])
  moreover have "search \<lparr>ss_cnt = 0, ss_max = 0, ss_buf = []\<rparr> 0 = Inr 0"
    by (simp add: search_def search_loop.simps)
  ultimately show ?thesis
    by (simp add: read_sigset_def Let_def json_read_array_def read_sigset_bit_def reader_simps liftE_def sigset_set_def isspace_def
        json_peek_plain)
qed

end
