(* ===== verification/Spec2Isabelle.thy ===== *)
theory Spec2Isabelle
  imports Json_Object Json_Binary Vm_Proofs Contextquery_Proofs Errors_Proofs Channel_Io Protocol_Hello Events_Proofs Stream_Messages Sigset_Json
begin

text \<open>
  A verification of parts of the TCF agent (Target Communication Framework, C), src/agent/tcf. The agent talks to its
  clients over channels: messages of items (bytes, an end of message, an end of stream) are encoded into bytes, queued,
  sent over a socket, put into a ring buffer, decoded and read as JSON by the services.

  \<^bold>\<open>The parts and their theories.\<close>

  \<^item> \<^bold>\<open>Prelude\<close>: bytes, the exceptions of the source as values (\<open>exn\<close>), the state monad of readers and its laws, collections
    of simplification rules.
  \<^item> \<^bold>\<open>Streams\<close> (framework/streams.c): byte array streams and forwarding streams. An output stream is a record of
    operations, as in the source; its contract is the locale \<open>output_stream\<close>, interpreted on the plain list of items,
    on the byte array stream, and in Channel_Tcp_Proofs on the TCP channel. Input is the list of the remaining items.
  \<^item> \<^bold>\<open>Base64\<close> (framework/base64.c), \<^bold>\<open>Json_Write\<close>, \<^bold>\<open>Json_Read\<close> (framework/json.c): the coders, the writers, the readers; the
    proofs that they fit together are in \<^bold>\<open>Json_Roundtrip\<close>, \<^bold>\<open>Json_Object\<close> and \<^bold>\<open>Json_Binary\<close>.
  \<^item> \<^bold>\<open>Errors\<close>, \<^bold>\<open>Errors_Proofs\<close> (framework/errors.c): the ring of error messages and the reference counted error reports, as
    a state with addresses; an inductive relation gives the states the module reaches.
  \<^item> \<^bold>\<open>Outputbuf\<close> (framework/outputbuf.c): the queue of output buffers; the locale \<open>byte_fifo\<close> says what a FIFO of bytes is.
  \<^item> \<^bold>\<open>Wire\<close>: the specification of the encoding of items in bytes, a decoder with five states.
  \<^item> \<^bold>\<open>Channel_Tcp\<close>, \<^bold>\<open>Channel_Tcp_Proofs\<close> (framework/channel_tcp.c): the output side of a channel, its flush events, locks
    and transport answers; \<open>tcp_run\<close> gives all mixtures of them.
  \<^item> \<^bold>\<open>Inputbuf\<close>, \<^bold>\<open>Inputbuf_Proofs\<close>, \<^bold>\<open>Inputbuf_Run\<close> (framework/inputbuf.c and the callbacks of channel_tcp.c): the ring, its
    decoding, message counting and growth; \<open>ibuf_run\<close> gives all mixtures of received bytes and reads.
  \<^item> \<^bold>\<open>Channel_Io\<close>: the two sides together, from the items written to the items read.
  \<^item> \<^bold>\<open>Events\<close>, \<^bold>\<open>Events_Proofs\<close> (framework/events.c): the queue of events and its timers, cancelling, the pools of nodes and the
    event loop. \<open>ev_step\<close> is one step of the dispatch thread or of another one, \<open>ev_run\<close> their interleavings; the
    specification is \<open>spec_step\<close>.
  \<^item> \<^bold>\<open>Hash_Table\<close>: arrays of chains, as the agent uses them; the locale \<open>hash_table\<close> gives the entries of a key and what the
    operations do to them.
  \<^item> \<^bold>\<open>Protocol\<close>, \<^bold>\<open>Protocol_Proofs\<close>, \<^bold>\<open>Protocol_Run\<close>, \<^bold>\<open>Protocol_Hello\<close> (framework/protocol.c): the tables of handlers, the dispatch of
    messages, commands and their tokens, redirection, the handshake and the end of a channel. The handlers of the clients are a
    parameter (\<open>proto_env\<close>); \<open>proto_run\<close> gives all mixtures of what clients, peers and transports do. \<open>free_token\<close> tries one
    token more than there are commands waiting; one of them is free.
  \<^item> \<^bold>\<open>Vm\<close>, \<^bold>\<open>Vm_Proofs\<close> (services/vm.c): the stack machine of DWARF location expressions.
  \<^item> \<^bold>\<open>Contextquery\<close>, \<^bold>\<open>Contextquery_Proofs\<close> (services/contextquery.c): the parser, the matcher and the commands of the
    context query service.
  \<^item> \<^bold>\<open>Stream_Service\<close> (services/streamsservice.c): virtual streams, their ring buffers, clients and requests, as a store with
    addresses. Proofs: \<^bold>\<open>Stream_Ring\<close> (the bytes of a ring), \<^bold>\<open>Stream_Inv\<close>, \<^bold>\<open>Stream_Proofs\<close>, \<^bold>\<open>Stream_Owner\<close>,
    \<^bold>\<open>Stream_Clients\<close>, \<^bold>\<open>Stream_Life\<close> (the invariant and what each operation does), \<^bold>\<open>Stream_Requests\<close> (waiting requests to
    read), \<^bold>\<open>Stream_Write\<close> (writes and their queue). \<^bold>\<open>Stream_System\<close>: all sequences of calls (\<open>service_run\<close>) and what holds in
    them; \<^bold>\<open>Stream_Examples\<close>: one such sequence. \<^bold>\<open>Stream_Commands\<close>, \<^bold>\<open>Stream_Messages\<close>: the commands of the service, from the
    protocol's dispatcher to the text of the messages.
  \<^item> \<^bold>\<open>Sigsets\<close> (framework/sigsets.c): sets of signals in both configurations; the locale \<open>signal_set\<close> has the two as
    interpretations. \<^bold>\<open>Sigset_Json\<close>: their text in messages (services/processes.c).

  \<^bold>\<open>How the model corresponds to the code.\<close> A struct is a record, a function a definition of the same name; state is
  passed explicitly. A C exception, a failed assertion, undefined behaviour, an access out of bounds and a call that does
  not return are the values \<open>Exception\<close>, \<open>Assertion\<close>, \<open>Undefined\<close>, \<open>Out_of_bounds\<close> and \<open>Diverges\<close>. Pointers into buffers are
  offsets; error reports have addresses because they are shared. Integers have their width where it matters: int64 and
  the cells of the machine are 64-bit words. The configuration is that of Linux: ENABLE_ZeroCopy, output buffers of 4096
  bytes, LP64, signed char. Memory allocation succeeds. A loop with a decreasing quantity is a terminating function; the
  loops of \<open>get_error_code\<close>, \<open>ibuf_get_more\<close>, \<open>search\<close> and \<open>write_sigset\<close>, which may run for ever, are partial functions whose
  value is then \<open>None\<close>; JSON objects, the expression machine and the writes of streams have fuel, and theorems say how much is
  enough (\<open>json_read_object_ends\<close>, \<open>evaluate_expression_value\<close>; every turn of a write but the last reads a byte of the message,
  so \<open>write_fuel\<close> is their number and one more).

  \<^bold>\<open>What the lemmas show.\<close> Round trips of strings, numbers, binary data, error reports, queries and LEB128; the writers
  with their fast paths write the reference text on every stream that keeps the contract; the queue, the channel and the
  ring refine lists of bytes and items, so a reader gets what was written; commands and replies reach the handlers they are meant for; a
  client of a stream is sent the bytes that were put into it, in their order; a set of signals answers as a mathematical set; counters count what they should; assertions do
  not fail in reachable states; loops end. Some theorems record where the code does not do what it means to: they are
  stated as such, next to the definitions.

  \<^bold>\<open>Not modelled.\<close> SSL, splice, sockets and servers of channel_tcp.c; threads and asynchronous requests; floating point
  numbers in JSON; peers and proxies; the services over a debug target (breakpoints, run
  control, memory, registers, symbols, expressions, DWARF and ELF readers), over the operating system (files, processes,
  terminals, system monitor), and the back ends of each processor and system. The next steps are peers, the
  cache and path maps.
\<close>

end
